(* ===== verification/GN_Prelude.thy ===== *)
theory GN_Prelude
  imports Main "HOL-Library.Word"
begin

text \<open>
  Prelude of the GodNet development: the result type in which every failure of the
  code is a value, the two build modes that decide what \<open>assert\<close> does, the contract
  of a transition system with an invariant, and list and number lemmas the components
  share.

  The repository builds with \<^verbatim>\<open>CMAKE_BUILD_TYPE\<close> Release by default
  (\<^verbatim>\<open>src/CMakeLists.txt\<close>), which defines \<^verbatim>\<open>NDEBUG\<close> and turns every
  \<^verbatim>\<open>assert\<close> into a no-op; a Debug build aborts.  Every operation with an
  \<^verbatim>\<open>assert\<close> therefore takes the build mode as an argument.
\<close>

section \<open>Results\<close>

datatype build = Debug | Release

datatype error =
    Assert_Failed      \<comment> \<open>an \<open>assert\<close> that does not hold, in a Debug build\<close>
  | Indeterminate      \<comment> \<open>the value of memory that was never written\<close>
  | Out_Of_Bounds      \<comment> \<open>an access outside the object the pointer belongs to\<close>
  | Bad_Function_Call  \<comment> \<open>a call of an empty \<open>std::function\<close>\<close>
  | Division_By_Zero   \<comment> \<open>integer division by zero\<close>
  | Null_Deref         \<comment> \<open>a member access through a null pointer\<close>
  | Dangling           \<comment> \<open>a member access through a pointer to a destroyed object\<close>
  | Wrong_Thread       \<comment> \<open>\<open>std::terminate\<close> in \<open>assertInLoopThread\<close>\<close>
  | Terminated         \<comment> \<open>\<open>std::terminate\<close>, called by \<open>std::thread\<close> or for an exception that leaves a \<open>noexcept\<close> function\<close>

type_synonym 'a res = "error + 'a"

fun res_bind :: "'a res \<Rightarrow> ('a \<Rightarrow> 'b res) \<Rightarrow> 'b res" where
  "res_bind (Inl e) f = Inl e"
| "res_bind (Inr x) f = f x"

definition asserting :: "build \<Rightarrow> bool \<Rightarrow> 'a res \<Rightarrow> 'a res" where
  "asserting b p k = (if b = Debug \<and> \<not> p then Inl Assert_Failed else k)"

definition guarding :: "error \<Rightarrow> bool \<Rightarrow> 'a res \<Rightarrow> 'a res" where
  "guarding e p k = (if p then k else Inl e)"

fun is_ok :: "'a res \<Rightarrow> bool" where
  "is_ok (Inl e) = False"
| "is_ok (Inr x) = True"

fun res_fold :: "('a \<Rightarrow> 's \<Rightarrow> 's res) \<Rightarrow> 'a list \<Rightarrow> 's \<Rightarrow> 's res" where
  "res_fold f [] s = Inr s"
| "res_fold f (x # xs) s = res_bind (f x s) (res_fold f xs)"

named_theorems res_simps \<open>evaluation of results, assertions and guards\<close>

lemma asserting_True [simp, res_simps]: "p \<Longrightarrow> asserting b p k = k"
  by (simp add: asserting_def)

lemma asserting_Release [simp, res_simps]: "asserting Release p k = k"
  by (simp add: asserting_def)

lemma asserting_Debug [simp, res_simps]: "\<not> p \<Longrightarrow> asserting Debug p k = Inl Assert_Failed"
  by (simp add: asserting_def)

lemma guarding_True [simp, res_simps]: "p \<Longrightarrow> guarding e p k = k"
  by (simp add: guarding_def)

lemma guarding_False [simp, res_simps]: "\<not> p \<Longrightarrow> guarding e p k = Inl e"
  by (simp add: guarding_def)

lemma res_bind_Inr_iff [res_simps]:
  "res_bind m f = Inr y \<longleftrightarrow> (\<exists>x. m = Inr x \<and> f x = Inr y)"
  by (cases m) auto

lemma asserting_Inr_iff [res_simps]:
  "asserting b p k = Inr y \<longleftrightarrow> (b = Release \<or> p) \<and> k = Inr y"
  by (cases b) (auto simp: asserting_def)

lemma guarding_Inr_iff [res_simps]: "guarding e p k = Inr y \<longleftrightarrow> p \<and> k = Inr y"
  by (auto simp: guarding_def)

lemma res_fold_append:
  "res_fold f (xs @ ys) s = res_bind (res_fold f xs s) (res_fold f ys)"
proof (induction xs arbitrary: s)
  case Nil
  show ?case by simp
next
  case (Cons x xs)
  then show ?case by (cases "f x s") auto
qed

text \<open>An invariant that every call of \<open>f\<close> keeps is kept by the whole loop.\<close>

lemma res_fold_inv:
  assumes "res_fold f xs s = Inr s'" and "P s"
    and "\<And>x s s'. x \<in> set xs \<Longrightarrow> P s \<Longrightarrow> f x s = Inr s' \<Longrightarrow> P s'"
  shows "P s'"
  using assms
proof (induction xs arbitrary: s)
  case Nil
  then show ?case by simp
next
  case (Cons x xs)
  from Cons.prems(1) obtain s1 where s1: "f x s = Inr s1" "res_fold f xs s1 = Inr s'"
    by (auto simp: res_bind_Inr_iff)
  have "P s1" using Cons.prems(2,3) s1(1) by auto
  with s1(2) show ?case using Cons.IH Cons.prems(3) by (meson list.set_intros(2))
qed

section \<open>Transition systems with an invariant\<close>

text \<open>States reachable from the initial ones by a step relation.\<close>

inductive reach :: "('s \<Rightarrow> bool) \<Rightarrow> ('s \<Rightarrow> 's \<Rightarrow> bool) \<Rightarrow> 's \<Rightarrow> bool"
  for init :: "'s \<Rightarrow> bool" and step :: "'s \<Rightarrow> 's \<Rightarrow> bool" where
  reach_init: "init s \<Longrightarrow> reach init step s"
| reach_step: "reach init step s \<Longrightarrow> step s s' \<Longrightarrow> reach init step s'"

locale invariant_system =
  fixes init :: "'s \<Rightarrow> bool" and step :: "'s \<Rightarrow> 's \<Rightarrow> bool" and inv :: "'s \<Rightarrow> bool"
  assumes inv_init: "init s \<Longrightarrow> inv s"
    and inv_step: "inv s \<Longrightarrow> step s s' \<Longrightarrow> inv s'"
begin

lemma reachable_inv: "reach init step s \<Longrightarrow> inv s"
  by (induction rule: reach.induct) (auto intro: inv_init inv_step)

end

section \<open>Lists and numbers\<close>

text \<open>One more element in one bucket of a list of buckets.\<close>

lemma UN_update_insert:
  assumes "s < length bs" and "set c = insert e (set (bs ! s))"
  shows "(\<Union>p < length (bs[s := c]). f p ` set (bs[s := c] ! p)) =
    insert (f s e) (\<Union>p < length bs. f p ` set (bs ! p))"
proof -
  have "f p ` set (bs[s := c] ! p) = (if p = s then {f s e} else {}) \<union> f p ` set (bs ! p)" for p
    using assms by (cases "p = s") simp_all
  then have "(\<Union>p < length (bs[s := c]). f p ` set (bs[s := c] ! p)) =
      (\<Union>p < length bs. (if p = s then {f s e} else {}) \<union> f p ` set (bs ! p))"
    by simp
  also have "\<dots> = (\<Union>p < length bs. if p = s then {f s e} else {}) \<union>
      (\<Union>p < length bs. f p ` set (bs ! p))"
    by (rule UN_Un_distrib)
  also have "(\<Union>p < length bs. if p = s then {f s e} else {}) = {f s e}"
    using assms(1) by (auto split: if_splits)
  finally show ?thesis by simp
qed

lemma UN_change_two:
  fixes g h :: "nat \<Rightarrow> 'b set"
  assumes "i < n" and "k < n" and "\<And>j. j < n \<Longrightarrow> j \<noteq> i \<Longrightarrow> j \<noteq> k \<Longrightarrow> g j = h j"
    and "g i \<union> g k = A \<union> (h i \<union> h k)"
  shows "(\<Union>j < n. g j) = A \<union> (\<Union>j < n. h j)"
proof -
  have u: "(\<Union>j < n. f j) = f i \<union> f k \<union> (\<Union>j \<in> {..<n} - {i, k}. f j)" for f :: "nat \<Rightarrow> 'b set"
    using assms(1,2) by auto
  have "(\<Union>j \<in> {..<n} - {i, k}. g j) = (\<Union>j \<in> {..<n} - {i, k}. h j)"
    using assms(3) by (intro SUP_cong) auto
  then show ?thesis
    unfolding u[of g] u[of h] assms(4) by blast
qed

text \<open>C++ integer division rounds towards zero.\<close>

definition quot :: "int \<Rightarrow> int \<Rightarrow> int" where
  "quot a b = (let q = \<bar>a\<bar> div \<bar>b\<bar> in if a < 0 \<longleftrightarrow> b < 0 then q else - q)"

lemma quot_nonneg: "0 \<le> a \<Longrightarrow> 0 < b \<Longrightarrow> quot a b = a div b"
  by (simp add: quot_def)

end
