(* ===== verification/Endian.thy ===== *)
theory Endian
  imports GN_Prelude
begin

text \<open>
  \<^verbatim>\<open>src/include/godnet/util/endian.hpp\<close>: conversion between host and network
  byte order for 16, 32 and 64 bit values.

  A value of width \<open>8 * n\<close> is a word; its object representation is a list of \<open>n\<close>
  bytes, in the order the host stores them (\<open>store\<close>, \<open>load\<close>).  The host's order is a
  parameter (\<open>host\<close>).  \<^verbatim>\<open>htons\<close>, \<^verbatim>\<open>htonl\<close>, \<^verbatim>\<open>htobe64\<close> and their inverses
  are the C library's: each gives the value whose object representation is the
  big-endian representation of its argument, and back.  The Windows branch of the
  64 bit case is written in the header from two 32 bit conversions and is translated
  as written.
\<close>

unbundle bit_operations_syntax

section \<open>Object representation of unsigned integers\<close>

type_synonym byte = "8 word"

datatype host = Little | Big

definition le_bytes :: "nat \<Rightarrow> 'a::len word \<Rightarrow> byte list" where
  "le_bytes n w = map (\<lambda>i. ucast (drop_bit (8 * i) w)) [0..<n]"

fun le_val :: "byte list \<Rightarrow> 'a::len word" where
  "le_val [] = 0"
| "le_val (b # bs) = ucast b OR push_bit 8 (le_val bs)"

definition be_bytes :: "nat \<Rightarrow> 'a::len word \<Rightarrow> byte list" where
  "be_bytes n w = rev (le_bytes n w)"

definition be_val :: "byte list \<Rightarrow> 'a::len word" where
  "be_val bs = le_val (rev bs)"

text \<open>Reading and writing an unsigned integer of \<open>n\<close> bytes through a pointer to bytes.\<close>

fun store :: "host \<Rightarrow> nat \<Rightarrow> 'a::len word \<Rightarrow> byte list" where
  "store Little n w = le_bytes n w"
| "store Big n w = be_bytes n w"

fun load :: "host \<Rightarrow> byte list \<Rightarrow> 'a::len word" where
  "load Little bs = le_val bs"
| "load Big bs = be_val bs"

lemma length_le_bytes [simp]: "length (le_bytes n w) = n"
  by (simp add: le_bytes_def)

lemma length_be_bytes [simp]: "length (be_bytes n w) = n"
  by (simp add: be_bytes_def)

lemma length_store [simp]: "length (store h n w) = n"
  by (cases h) simp_all

lemma bit_le_val:
  "bit (le_val bs :: 'a::len word) k \<longleftrightarrow>
     k < LENGTH('a) \<and> k < 8 * length bs \<and> bit (bs ! (k div 8)) (k mod 8)"
proof (induction bs arbitrary: k)
  case Nil
  show ?case by simp
next
  case (Cons b bs)
  have step: "bit (le_val (b # bs) :: 'a word) k \<longleftrightarrow> k < LENGTH('a) \<and>
      (bit b k \<or> 8 \<le> k \<and> bit (le_val bs :: 'a word) (k - 8))"
    by (auto simp: bit_simps dest: bit_imp_le_length)
  show ?case
  proof (cases "k < 8")
    case True
    then show ?thesis unfolding step by auto
  next
    case False
    then have b: "\<not> bit b k" by (auto dest: bit_imp_le_length)
    have e: "k div 8 = Suc ((k - 8) div 8)" "k mod 8 = (k - 8) mod 8"
      using False by (simp_all add: le_div_geq le_mod_geq)
    have n: "(b # bs) ! (k div 8) = bs ! ((k - 8) div 8)" unfolding e(1) by simp
    show ?thesis unfolding step Cons.IH n e(2) using False b by auto
  qed
qed

lemma le_val_le_bytes [simp]:
  assumes "LENGTH('a::len) \<le> 8 * n"
  shows "le_val (le_bytes n w) = (w :: 'a word)"
proof (rule bit_eqI)
  fix k assume "possible_bit TYPE('a word) k"
  then have k: "k < LENGTH('a)" by simp
  then have kn: "k div 8 < n" using assms by (simp add: less_mult_imp_div_less mult.commute)
  have "bit (le_bytes n w ! (k div 8)) (k mod 8) = bit w k"
    using kn by (simp add: le_bytes_def bit_simps)
  then show "bit (le_val (le_bytes n w) :: 'a word) k = bit w k"
    using k assms by (simp add: bit_le_val)
qed

lemma le_bytes_le_val [simp]:
  assumes "8 * length bs \<le> LENGTH('a::len)"
  shows "le_bytes (length bs) (le_val bs :: 'a word) = bs"
proof (rule nth_equalityI)
  show "length (le_bytes (length bs) (le_val bs :: 'a word)) = length bs" by simp
next
  fix i assume "i < length (le_bytes (length bs) (le_val bs :: 'a word))"
  then have i: "i < length bs" by simp
  show "le_bytes (length bs) (le_val bs :: 'a word) ! i = bs ! i"
  proof (rule bit_eqI)
    fix k assume "possible_bit TYPE(8 word) k"
    then have k: "k < 8" by simp
    with i have "8 * i + k < 8 * length bs" by linarith
    then show "bit (le_bytes (length bs) (le_val bs :: 'a word) ! i) k = bit (bs ! i) k"
      using i k assms by (simp add: le_bytes_def bit_simps bit_le_val)
  qed
qed

lemma be_val_be_bytes [simp]:
  "LENGTH('a::len) \<le> 8 * n \<Longrightarrow> be_val (be_bytes n w) = (w :: 'a word)"
  by (simp add: be_val_def be_bytes_def)

lemma be_bytes_be_val [simp]:
  "8 * length bs \<le> LENGTH('a::len) \<Longrightarrow> be_bytes (length bs) (be_val bs :: 'a word) = bs"
  using le_bytes_le_val[of "rev bs", where 'a = 'a] by (simp add: be_val_def be_bytes_def)

lemma load_store [simp]:
  "LENGTH('a::len) \<le> 8 * n \<Longrightarrow> load h (store h n w) = (w :: 'a word)"
  by (cases h) simp_all

lemma store_load [simp]:
  assumes "8 * length bs \<le> LENGTH('a::len)"
  shows "store h (length bs) (load h bs :: 'a word) = bs"
  using assms by (cases h) simp_all

section \<open>The C library's conversions\<close>

text \<open>Host order to big-endian and back, for a value of \<open>n\<close> bytes.\<close>

definition htobe :: "host \<Rightarrow> nat \<Rightarrow> 'a::len word \<Rightarrow> 'a word" where
  "htobe h n v = load h (be_bytes n v)"

definition betoh :: "host \<Rightarrow> nat \<Rightarrow> 'a::len word \<Rightarrow> 'a word" where
  "betoh h n v = be_val (store h n v)"

lemma betoh_htobe:
  assumes "LENGTH('a::len) = 8 * n"
  shows "betoh h n (htobe h n v) = (v :: 'a word)"
  using assms store_load[of "be_bytes n v" h, where 'a = 'a]
  by (simp add: betoh_def htobe_def)

lemma htobe_betoh:
  assumes "LENGTH('a::len) = 8 * n"
  shows "htobe h n (betoh h n v) = (v :: 'a word)"
  using assms be_bytes_be_val[of "store h n v", where 'a = 'a]
  by (simp add: betoh_def htobe_def)

lemma store_htobe:
  assumes "LENGTH('a::len) = 8 * n"
  shows "store h n (htobe h n v :: 'a word) = be_bytes n v"
  using assms store_load[of "be_bytes n v" h, where 'a = 'a] by (simp add: htobe_def)

lemma betoh_load:
  assumes "8 * length bs = LENGTH('a::len)" and "n = length bs"
  shows "betoh h n (load h bs :: 'a word) = be_val bs"
  using assms by (simp add: betoh_def)


section \<open>The header's functions\<close>

datatype platform = Linux | Windows

definition htons :: "host \<Rightarrow> 16 word \<Rightarrow> 16 word" where
  "htons h = htobe h 2"

definition ntohs :: "host \<Rightarrow> 16 word \<Rightarrow> 16 word" where
  "ntohs h = betoh h 2"

definition htonl :: "host \<Rightarrow> 32 word \<Rightarrow> 32 word" where
  "htonl h = htobe h 4"

definition ntohl :: "host \<Rightarrow> 32 word \<Rightarrow> 32 word" where
  "ntohl h = betoh h 4"

definition htobe64 :: "host \<Rightarrow> 64 word \<Rightarrow> 64 word" where
  "htobe64 h = htobe h 8"

definition be64toh :: "host \<Rightarrow> 64 word \<Rightarrow> 64 word" where
  "be64toh h = betoh h 8"

text \<open>
  \<^verbatim>\<open>hostToNetwork<T>\<close> and \<^verbatim>\<open>networkToHost<T>\<close> at their three types.  A 64 bit
  argument of \<^verbatim>\<open>htonl\<close> is converted to 32 bits by dropping its high half.
\<close>

definition hostToNetwork16 :: "host \<Rightarrow> 16 word \<Rightarrow> 16 word" where
  "hostToNetwork16 h val = htons h val"

definition hostToNetwork32 :: "host \<Rightarrow> 32 word \<Rightarrow> 32 word" where
  "hostToNetwork32 h val = htonl h val"

definition hostToNetwork64 :: "platform \<Rightarrow> host \<Rightarrow> 64 word \<Rightarrow> 64 word" where
  "hostToNetwork64 p h val = (case p of
     Windows \<Rightarrow> push_bit 32 (ucast (htonl h (ucast val))) OR
                ucast (htonl h (ucast (drop_bit 32 val)))
   | Linux \<Rightarrow> htobe64 h val)"

definition networkToHost16 :: "host \<Rightarrow> 16 word \<Rightarrow> 16 word" where
  "networkToHost16 h val = ntohs h val"

definition networkToHost32 :: "host \<Rightarrow> 32 word \<Rightarrow> 32 word" where
  "networkToHost32 h val = ntohl h val"

definition networkToHost64 :: "platform \<Rightarrow> host \<Rightarrow> 64 word \<Rightarrow> 64 word" where
  "networkToHost64 p h val = (case p of
     Windows \<Rightarrow> push_bit 32 (ucast (ntohl h (ucast val))) OR
                ucast (ntohl h (ucast (drop_bit 32 val)))
   | Linux \<Rightarrow> be64toh h val)"

lemma betoh_eq_htobe_Little:
  assumes "LENGTH('a::len) = 8 * n"
  shows "betoh Little n v = (htobe Little n v :: 'a word)"
  by (simp add: betoh_def htobe_def be_val_def be_bytes_def)

lemma htobe_Big:
  assumes "LENGTH('a::len) = 8 * n"
  shows "htobe Big n v = (v :: 'a word)" "betoh Big n v = v"
  using assms by (simp_all add: betoh_def htobe_def)

lemma bit_be_val:
  "bit (be_val bs :: 'a::len word) k \<longleftrightarrow>
     k < LENGTH('a) \<and> k < 8 * length bs \<and> bit (bs ! (length bs - Suc (k div 8))) (k mod 8)"
  by (auto simp: be_val_def bit_le_val rev_nth less_mult_imp_div_less mult.commute)

lemma bit_htobe_Little:
  assumes "LENGTH('a::len) = 8 * n" and "k < 8 * n"
  shows "bit (htobe Little n v :: 'a word) k \<longleftrightarrow> bit v (8 * (n - Suc (k div 8)) + k mod 8)"
proof -
  have d: "k div 8 < n" using assms(2) by (simp add: less_mult_imp_div_less mult.commute)
  then show ?thesis
    using assms by (simp add: htobe_def be_bytes_def bit_le_val rev_nth le_bytes_def bit_simps)
qed

text \<open>On a little-endian host the Windows expression is the 64 bit byte swap.\<close>

lemma windows64_Little: "hostToNetwork64 Windows Little v = htobe64 Little v"
proof (rule bit_eqI)
  fix k assume "possible_bit TYPE(64 word) k"
  then have k: "k < 64" by simp
  show "bit (hostToNetwork64 Windows Little v) k = bit (htobe64 Little v) k"
  proof (cases "k < 32")
    case True
    have d: "k div 8 < 4" using True by auto
    then have "8 * (4 - Suc (k div 8)) + k mod 8 < 32" by linarith
    moreover have "32 + (8 * (3 - k div 8) + k mod 8) = 8 * (7 - k div 8) + k mod 8"
      using d by simp
    then have "bit v (32 + (8 * (3 - k div 8) + k mod 8)) = bit v (8 * (7 - k div 8) + k mod 8)"
      by (rule arg_cong)
    ultimately show ?thesis using True
      by (simp add: hostToNetwork64_def htonl_def htobe64_def bit_simps bit_htobe_Little)
  next
    case False
    obtain j where j: "k = 32 + j" using False le_Suc_ex[of 32 k] by auto
    then have e: "(k - 32) div 8 = k div 8 - 4" "(k - 32) mod 8 = k mod 8"
      using div_mult_self3[of 8 4 j] mod_mult_self3[of 4 8 j] by simp_all
    have d: "4 \<le> k div 8" "k div 8 < 8" using False k by auto
    then have "8 * (4 - Suc (k div 8 - 4)) + k mod 8 = 8 * (8 - Suc (k div 8)) + k mod 8"
      by simp
    moreover have "8 * (8 - Suc (k div 8)) + k mod 8 < 32" using d by linarith
    moreover have "\<not> bit (w :: 32 word) k" for w using False by (auto dest: bit_imp_le_length)
    moreover have "k - 32 < 32" using k False by simp
    ultimately show ?thesis using False k e
      by (simp add: hostToNetwork64_def htonl_def htobe64_def bit_simps bit_htobe_Little)
  qed
qed

lemma networkToHost64_eq:
  "networkToHost64 Windows h = hostToNetwork64 Windows h"
proof (cases h)
  case Little
  then show ?thesis
    by (simp add: fun_eq_iff networkToHost64_def hostToNetwork64_def htonl_def ntohl_def
        betoh_eq_htobe_Little)
next
  case Big
  then show ?thesis
    by (simp add: fun_eq_iff networkToHost64_def hostToNetwork64_def htonl_def ntohl_def
        htobe_Big)
qed

lemma networkToHost64_Little: "networkToHost64 Windows Little v = betoh Little 8 v"
  by (simp add: networkToHost64_eq windows64_Little htobe64_def betoh_eq_htobe_Little)

lemma windows64_Big: "hostToNetwork64 Windows Big v = word_rotl 32 v"
proof (rule bit_eqI)
  fix k assume "possible_bit TYPE(64 word) k"
  then have k: "k < 64" by simp
  have "hostToNetwork64 Windows Big v = push_bit 32 (ucast (ucast v :: 32 word)) OR
      ucast (ucast (drop_bit 32 v) :: 32 word)"
    by (simp add: hostToNetwork64_def htonl_def htobe_Big)
  moreover have "(k + 32) mod 64 = (if k < 32 then 32 + k else k - 32)"
    using k by (auto simp: le_mod_geq)
  ultimately show "bit (hostToNetwork64 Windows Big v) k = bit (word_rotl 32 v) k"
    using k by (auto simp: bit_simps)
qed

lemma word_rotl_half: "word_rotl 32 (word_rotl 32 v) = (v :: 64 word)"
proof (rule bit_eqI)
  fix k assume "possible_bit TYPE(64 word) k"
  then have "k < 64" by simp
  moreover from this have "((k + 32) mod 64 + 32) mod 64 = k"
    by (simp add: mod_add_left_eq)
  ultimately show "bit (word_rotl 32 (word_rotl 32 v)) k = bit v k"
    by (simp add: bit_simps)
qed

section \<open>The contract of a conversion pair\<close>

text \<open>
  What the clients (\<open>Message_Buffer\<close>, \<open>Inet_Address\<close>) rely on: the converted value is
  laid out in memory in big-endian order, and reading a big-endian layout through the
  inverse conversion gives the value, on whatever host.
\<close>

locale network_order =
  fixes h :: host and n :: nat
    and toNet :: "'a::len word \<Rightarrow> 'a word" and toHost :: "'a word \<Rightarrow> 'a word"
  assumes width: "LENGTH('a) = 8 * n"
    and wire: "store h n (toNet v) = be_bytes n v"
    and from_wire: "length bs = n \<Longrightarrow> toHost (load h bs) = be_val bs"
begin

lemma to_from: "toHost (toNet v) = v"
proof -
  have "toHost (load h (store h n (toNet v))) = be_val (store h n (toNet v))"
    by (rule from_wire) simp
  then show ?thesis
    using width load_store[of n h "toNet v"] be_val_be_bytes[of n v] by (simp only: wire)
qed

lemma from_to: "toNet (toHost v) = v"
proof -
  have "toHost v = be_val (store h n v)"
    using from_wire[of "store h n v"] width by simp
  then have "store h n (toNet (toHost v)) = store h n v"
    using width be_bytes_be_val[of "store h n v", where 'a = 'a] by (simp add: wire)
  then have "load h (store h n (toNet (toHost v))) = (load h (store h n v) :: 'a word)"
    by simp
  then show ?thesis using width by simp
qed

lemma read_wire: "toHost (load h (be_bytes n v)) = v"
  using from_wire[of "be_bytes n v"] width by simp

lemma toNet_inj: "toNet v = toNet w \<longleftrightarrow> v = w"
  by (metis to_from)

end

interpretation order16: network_order h 2 "hostToNetwork16 h" "networkToHost16 h" for h
  by unfold_locales
    (simp_all add: hostToNetwork16_def networkToHost16_def htons_def ntohs_def store_htobe betoh_load)

interpretation order32: network_order h 4 "hostToNetwork32 h" "networkToHost32 h" for h
  by unfold_locales
    (simp_all add: hostToNetwork32_def networkToHost32_def htonl_def ntohl_def store_htobe betoh_load)

interpretation order64: network_order h 8 "hostToNetwork64 Linux h" "networkToHost64 Linux h" for h
  by unfold_locales
    (simp_all add: hostToNetwork64_def networkToHost64_def htobe64_def be64toh_def
      store_htobe betoh_load)

interpretation order64w: network_order Little 8 "hostToNetwork64 Windows Little"
  "networkToHost64 Windows Little"
proof unfold_locales
  show "LENGTH(64) = 8 * 8" by simp
  show "store Little 8 (hostToNetwork64 Windows Little v) = be_bytes 8 v" for v :: "64 word"
    unfolding windows64_Little htobe64_def by (rule store_htobe) simp
  show "networkToHost64 Windows Little (load Little bs) = be_val bs"
    if "length bs = 8" for bs :: "byte list"
    unfolding networkToHost64_Little using that by (intro betoh_load) simp_all
qed

section \<open>Properties\<close>

text \<open>
  C40. \<open>networkToHost\<close> undoes \<open>hostToNetwork\<close> at every width, on both platforms and for
  both host byte orders.
\<close>

theorem host_network_roundtrip:
  "networkToHost16 h (hostToNetwork16 h a) = a \<and>
   networkToHost32 h (hostToNetwork32 h b) = b \<and>
   networkToHost64 p h (hostToNetwork64 p h c) = c"
proof -
  have "networkToHost64 p h (hostToNetwork64 p h c) = c"
  proof (cases p)
    case Linux
    then show ?thesis by (simp add: order64.to_from)
  next
    case Windows
    show ?thesis
    proof (cases h)
      case Little
      with Windows show ?thesis by (simp only: order64w.to_from)
    next
      case Big
      with Windows show ?thesis by (simp add: networkToHost64_eq windows64_Big word_rotl_half)
    qed
  qed
  then show ?thesis by (simp add: order16.to_from order32.to_from)
qed

text \<open>
  The 64 bit conversion the header writes out for Windows from two 32 bit ones is the
  C library's \<^verbatim>\<open>htobe64\<close> on every little-endian host, and leaves the most significant
  byte first in memory; on a big-endian host it would swap the two halves instead.
\<close>

theorem windows_htobe64:
  "hostToNetwork64 Windows Little v = hostToNetwork64 Linux Little v \<and>
   store Little 8 (hostToNetwork64 Windows Little v) = be_bytes 8 v \<and>
   hostToNetwork64 Windows Big v = word_rotl 32 v"
proof (intro conjI)
  show "hostToNetwork64 Windows Little v = hostToNetwork64 Linux Little v"
    by (simp only: windows64_Little) (simp add: hostToNetwork64_def)
qed (rule order64w.wire windows64_Big)+

end
