(* ===== verification/Byte_Queue.thy ===== *)
theory Byte_Queue
  imports Endian
begin

text \<open>
  The contract a byte buffer offers its clients: bytes are put at one end and taken from
  the other, nothing is lost, repeated or reordered.  \<open>TcpConnection\<close> relies on it for
  both of its buffers; \<open>Message_Buffer\<close> provides it.
\<close>

section \<open>Sequences of operations on a buffer\<close>

datatype qop = Put "byte list" | Get nat

fun qrun :: "(byte list \<Rightarrow> 'q \<Rightarrow> 'q res) \<Rightarrow> (nat \<Rightarrow> 'q \<Rightarrow> (byte list \<times> 'q) res) \<Rightarrow>
    qop list \<Rightarrow> 'q \<Rightarrow> (byte list \<times> 'q) res" where
  "qrun put get [] q = Inr ([], q)"
| "qrun put get (Put bs # ops) q = res_bind (put bs q) (qrun put get ops)"
| "qrun put get (Get n # ops) q = res_bind (get n q) (\<lambda>(out, q').
     res_bind (qrun put get ops q') (\<lambda>(out', q''). Inr (out @ out', q'')))"

fun puts :: "qop list \<Rightarrow> byte list" where
  "puts [] = []"
| "puts (Put bs # ops) = bs @ puts ops"
| "puts (Get n # ops) = puts ops"

text \<open>No \<open>Get\<close> asks for more than is there.\<close>

fun demand_ok :: "nat \<Rightarrow> qop list \<Rightarrow> bool" where
  "demand_ok k [] = True"
| "demand_ok k (Put bs # ops) = demand_ok (k + length bs) ops"
| "demand_ok k (Get n # ops) = (n \<le> k \<and> demand_ok (k - n) ops)"

section \<open>The contract\<close>

locale byte_queue =
  fixes wf :: "'q \<Rightarrow> bool" and abs :: "'q \<Rightarrow> byte list"
    and put :: "byte list \<Rightarrow> 'q \<Rightarrow> 'q res" and get :: "nat \<Rightarrow> 'q \<Rightarrow> (byte list \<times> 'q) res"
    and limit :: nat
  assumes put_law: "wf q \<Longrightarrow> length (abs q) + length bs < limit \<Longrightarrow>
      \<exists>q'. put bs q = Inr q' \<and> wf q' \<and> abs q' = abs q @ bs"
    and get_law: "wf q \<Longrightarrow> n \<le> length (abs q) \<Longrightarrow>
      \<exists>q'. get n q = Inr (take n (abs q), q') \<and> wf q' \<and> abs q' = drop n (abs q)"
begin

text \<open>What came out, followed by what is left, is what was there followed by what went in.\<close>

lemma stream_law:
  assumes "wf q" and "demand_ok (length (abs q)) ops"
    and "length (abs q) + length (puts ops) < limit"
  shows "\<exists>out q'. qrun put get ops q = Inr (out, q') \<and> wf q' \<and> out @ abs q' = abs q @ puts ops"
  using assms
proof (induction ops arbitrary: q)
  case Nil
  then show ?case by simp
next
  case (Cons x ops)
  show ?case
  proof (cases x)
    case (Put bs)
    with Cons.prems obtain q1 where q1: "put bs q = Inr q1" "wf q1" "abs q1 = abs q @ bs"
      using put_law[of q bs] by auto
    with Cons.prems Put Cons.IH[of q1] show ?thesis by (auto simp: add.assoc)
  next
    case (Get n)
    with Cons.prems obtain q1 where
      q1: "get n q = Inr (take n (abs q), q1)" "wf q1" "abs q1 = drop n (abs q)"
      using get_law[of q n] by auto
    have "length (abs q1) + length (puts ops) < limit" "demand_ok (length (abs q1)) ops"
      using Cons.prems Get q1(3) by auto
    with Cons.IH[OF q1(2)] q1(3) obtain out q2 where
      q2: "qrun put get ops q1 = Inr (out, q2)" "wf q2" "out @ abs q2 = drop n (abs q) @ puts ops"
      by auto
    have "take n (abs q) @ out @ abs q2 = abs q @ puts ops"
      by (metis q2(3) append_assoc append_take_drop_id)
    with Get q1 q2 show ?thesis by auto
  qed
qed

text \<open>A get that empties the buffer returns everything put so far.\<close>

lemma drain_law:
  assumes "wf q"
  shows "\<exists>q'. get (length (abs q)) q = Inr (abs q, q') \<and> wf q' \<and> abs q' = []"
  using get_law[OF assms, of "length (abs q)"] by auto

end

end
