(* ===== verification/Message_Buffer.thy ===== *)
theory Message_Buffer
  imports Byte_Queue
begin

text \<open>
  \<^verbatim>\<open>src/include/godnet/net/message_buffer.hpp\<close> and \<^verbatim>\<open>message_buffer.cpp\<close>: the byte
  buffer between a socket and the user's callbacks.

  The four pointers are offsets from \<open>start\<close> into the allocated array \<open>mem\<close>
  (\<open>start\<close> is 0, \<open>end\<close> the array's length).  A byte of the array is \<open>None\<close> while it is
  indeterminate: the constructor's \<^verbatim>\<open>new char[n]{}\<close> zeroes the array, the
  \<^verbatim>\<open>new char[n]\<close> of \<open>reallocate\<close> does not.  Reading an indeterminate byte and accessing
  memory outside the array are errors.  \<^verbatim>\<open>size_t\<close> is 64 bits wide; the only expression
  that could wrap, the new size in \<open>reallocate\<close>, is written with its wrap-around.
  Allocation is taken to succeed.
\<close>

section \<open>State and accessors\<close>

record mbuf =
  mem :: "byte option list"
  rd :: nat
  wr :: nat

definition MessageBuffer :: "nat \<Rightarrow> mbuf" where
  "MessageBuffer len = \<lparr>mem = replicate len (Some 0), rd = 0, wr = 0\<rparr>"

definition headByte :: "mbuf \<Rightarrow> nat" where
  "headByte b = rd b"

definition readByte :: "mbuf \<Rightarrow> nat" where
  "readByte b = wr b - rd b"

text \<open>\<open>advanceWrite\<close> can take \<open>write\<close> past the end in a Release build; the \<^verbatim>\<open>size_t\<close> wraps then.\<close>

definition writeByte :: "mbuf \<Rightarrow> nat" where
  "writeByte b = (if wr b \<le> length (mem b) then length (mem b) - wr b else 2 ^ 64 - (wr b - length (mem b)))"

definition readPeek :: "mbuf \<Rightarrow> nat" where
  "readPeek b = rd b"

definition writePeek :: "mbuf \<Rightarrow> nat" where
  "writePeek b = wr b"

definition mutWritePeek :: "mbuf \<Rightarrow> nat" where
  "mutWritePeek b = wr b"

definition buf_data :: "mbuf \<Rightarrow> nat" where
  "buf_data b = readPeek b"

definition buf_empty :: "mbuf \<Rightarrow> bool" where
  "buf_empty b = (rd b = wr b)"

definition buf_size :: "mbuf \<Rightarrow> nat" where
  "buf_size b = readByte b"

text \<open>Copying \<open>len\<close> bytes out of the array from \<open>read\<close> on, and into it at an offset.\<close>

definition read_mem :: "nat \<Rightarrow> mbuf \<Rightarrow> byte list res" where
  "read_mem len b = guarding Out_Of_Bounds (rd b + len \<le> length (mem b))
     (guarding Indeterminate (None \<notin> set (take len (drop (rd b) (mem b))))
       (Inr (map the (take len (drop (rd b) (mem b))))))"

definition put_mem :: "nat \<Rightarrow> byte list \<Rightarrow> byte option list \<Rightarrow> byte option list" where
  "put_mem i bs m = take i m @ map Some bs @ drop (i + length bs) m"

section \<open>Operations\<close>

definition retrieveAll :: "mbuf \<Rightarrow> mbuf" where
  "retrieveAll b = b\<lparr>rd := 0, wr := 0\<rparr>"

definition retrieve :: "build \<Rightarrow> nat \<Rightarrow> mbuf \<Rightarrow> mbuf res" where
  "retrieve bd len b = asserting bd (len \<le> readByte b)
     (if len < readByte b then Inr (b\<lparr>rd := rd b + len\<rparr>) else Inr (retrieveAll b))"

text \<open>The difference of two pointers, converted to \<^verbatim>\<open>size_t\<close>.\<close>

definition ptr_diff :: "nat \<Rightarrow> nat \<Rightarrow> nat" where
  "ptr_diff e r = nat ((int e - int r) mod 2 ^ 64)"

definition retrieveUntil :: "build \<Rightarrow> nat \<Rightarrow> mbuf \<Rightarrow> mbuf res" where
  "retrieveUntil bd e b = asserting bd (readPeek b \<le> e) (asserting bd (e \<le> writePeek b)
     (retrieve bd (ptr_diff e (readPeek b)) b))"

definition read_buf :: "build \<Rightarrow> nat \<Rightarrow> mbuf \<Rightarrow> (byte list \<times> mbuf) res" where
  "read_buf bd len b = asserting bd (len \<le> readByte b)
     (res_bind (read_mem len b) (\<lambda>ret.
      res_bind (retrieve bd len b) (\<lambda>b'. Inr (ret, b'))))"

definition readUntil :: "build \<Rightarrow> nat \<Rightarrow> mbuf \<Rightarrow> (byte list \<times> mbuf) res" where
  "readUntil bd e b = asserting bd (readPeek b \<le> e) (asserting bd (e \<le> writePeek b)
     (read_buf bd (ptr_diff e (readPeek b)) b))"

definition readAll :: "build \<Rightarrow> mbuf \<Rightarrow> (byte list \<times> mbuf) res" where
  "readAll bd b = read_buf bd (readByte b) b"

definition advanceWrite :: "build \<Rightarrow> nat \<Rightarrow> mbuf \<Rightarrow> mbuf res" where
  "advanceWrite bd len b = asserting bd (len \<le> writeByte b) (Inr (b\<lparr>wr := wr b + len\<rparr>))"

text \<open>
  \<open>reallocate\<close>: both branches as the code has them, with \<^verbatim>\<open>size() - readByte()\<close> as the
  free space it compares.
\<close>

definition reallocate :: "nat \<Rightarrow> mbuf \<Rightarrow> mbuf res" where
  "reallocate len b =
     (let readSize = readByte b; old = take readSize (drop (rd b) (mem b)) in
      if buf_size b - readByte b < len then
        let newSize = ((buf_size b + len) * 2) mod 2 ^ 64 in
        guarding Out_Of_Bounds (readSize \<le> newSize)
          (Inr \<lparr>mem = old @ replicate (newSize - readSize) None, rd = 0, wr = readSize\<rparr>)
      else
        Inr (b\<lparr>mem := old @ drop readSize (mem b), rd := 0, wr := readSize\<rparr>))"

definition write_buf :: "byte list \<Rightarrow> mbuf \<Rightarrow> mbuf res" where
  "write_buf buf b =
     res_bind (if writeByte b < length buf then reallocate (length buf) b else Inr b) (\<lambda>b1.
       guarding Out_Of_Bounds (wr b1 + length buf \<le> length (mem b1))
         (Inr (b1\<lparr>mem := put_mem (wr b1) buf (mem b1), wr := wr b1 + length buf\<rparr>)))"

section \<open>Fixed-width integers\<close>

definition peekInt8 :: "build \<Rightarrow> host \<Rightarrow> mbuf \<Rightarrow> 8 word res" where
  "peekInt8 bd h b = asserting bd (1 \<le> readByte b)
     (res_bind (read_mem 1 b) (\<lambda>bs. Inr (load h bs)))"

definition peekInt16 :: "build \<Rightarrow> host \<Rightarrow> mbuf \<Rightarrow> 16 word res" where
  "peekInt16 bd h b = asserting bd (2 \<le> readByte b)
     (res_bind (read_mem 2 b) (\<lambda>bs. Inr (networkToHost16 h (load h bs))))"

definition peekInt32 :: "build \<Rightarrow> host \<Rightarrow> mbuf \<Rightarrow> 32 word res" where
  "peekInt32 bd h b = asserting bd (4 \<le> readByte b)
     (res_bind (read_mem 4 b) (\<lambda>bs. Inr (networkToHost32 h (load h bs))))"

definition peekInt64 :: "build \<Rightarrow> host \<Rightarrow> mbuf \<Rightarrow> 64 word res" where
  "peekInt64 bd h b = asserting bd (8 \<le> readByte b)
     (res_bind (read_mem 8 b) (\<lambda>bs. Inr (networkToHost64 Linux h (load h bs))))"

text \<open>Each \<open>readInt\<close> peeks and then retrieves the value's size.\<close>

definition readInt8 :: "build \<Rightarrow> host \<Rightarrow> mbuf \<Rightarrow> (8 word \<times> mbuf) res" where
  "readInt8 bd h b = res_bind (peekInt8 bd h b) (\<lambda>val.
     res_bind (retrieve bd 1 b) (\<lambda>b'. Inr (val, b')))"

definition readInt16 :: "build \<Rightarrow> host \<Rightarrow> mbuf \<Rightarrow> (16 word \<times> mbuf) res" where
  "readInt16 bd h b = res_bind (peekInt16 bd h b) (\<lambda>val.
     res_bind (retrieve bd 2 b) (\<lambda>b'. Inr (val, b')))"

definition readInt32 :: "build \<Rightarrow> host \<Rightarrow> mbuf \<Rightarrow> (32 word \<times> mbuf) res" where
  "readInt32 bd h b = res_bind (peekInt32 bd h b) (\<lambda>val.
     res_bind (retrieve bd 4 b) (\<lambda>b'. Inr (val, b')))"

definition readInt64 :: "build \<Rightarrow> host \<Rightarrow> mbuf \<Rightarrow> (64 word \<times> mbuf) res" where
  "readInt64 bd h b = res_bind (peekInt64 bd h b) (\<lambda>val.
     res_bind (retrieve bd 8 b) (\<lambda>b'. Inr (val, b')))"

definition writeInt8 :: "host \<Rightarrow> 8 word \<Rightarrow> mbuf \<Rightarrow> mbuf res" where
  "writeInt8 h val b = write_buf (store h 1 val) b"

definition writeInt16 :: "host \<Rightarrow> 16 word \<Rightarrow> mbuf \<Rightarrow> mbuf res" where
  "writeInt16 h val b = write_buf (store h 2 (hostToNetwork16 h val)) b"

definition writeInt32 :: "host \<Rightarrow> 32 word \<Rightarrow> mbuf \<Rightarrow> mbuf res" where
  "writeInt32 h val b = write_buf (store h 4 (hostToNetwork32 h val)) b"

definition writeInt64 :: "host \<Rightarrow> 64 word \<Rightarrow> mbuf \<Rightarrow> mbuf res" where
  "writeInt64 h val b = write_buf (store h 8 (hostToNetwork64 Linux h val)) b"

section \<open>Abstraction and invariant\<close>

text \<open>
  What the buffer holds is the byte string between \<open>read\<close> and \<open>write\<close>.  The buffer is
  well formed when the offsets are in order, the array is smaller than the address
  space allows, and every byte between them has been written.
\<close>

definition cells :: "mbuf \<Rightarrow> byte option list" where
  "cells b = take (wr b - rd b) (drop (rd b) (mem b))"

definition contents :: "mbuf \<Rightarrow> byte list" where
  "contents b = map the (cells b)"

definition buf_wf :: "mbuf \<Rightarrow> bool" where
  "buf_wf b \<longleftrightarrow> rd b \<le> wr b \<and> wr b \<le> length (mem b) \<and> None \<notin> set (cells b)"


named_theorems buf_defs \<open>the accessors of the buffer\<close>

lemmas buf_accessors [buf_defs] =
  headByte_def readByte_def writeByte_def buf_empty_def buf_size_def readPeek_def writePeek_def mutWritePeek_def buf_data_def

lemma map_Some_the: "None \<notin> set xs \<Longrightarrow> map Some (map the xs) = xs"
  by (induction xs) auto

lemma cells_contents: "buf_wf b \<Longrightarrow> cells b = map Some (contents b)"
  unfolding contents_def buf_wf_def using map_Some_the[of "cells b"] by simp

lemma length_contents: "buf_wf b \<Longrightarrow> length (contents b) = readByte b"
  by (auto simp: contents_def cells_def buf_wf_def readByte_def)

lemma wf_MessageBuffer: "buf_wf (MessageBuffer n)" "contents (MessageBuffer n) = []"
  by (simp_all add: buf_wf_def MessageBuffer_def cells_def contents_def)

lemma buf_wf_intro:
  assumes "cells b = map Some bs" and "rd b \<le> wr b" and "wr b \<le> length (mem b)"
  shows "buf_wf b" "contents b = bs"
  using assms by (auto simp: buf_wf_def contents_def comp_def)

lemma buf_empty_contents: "buf_wf b \<Longrightarrow> buf_empty b \<longleftrightarrow> contents b = []"
  using length_contents[of b] by (auto simp: buf_wf_def buf_empty_def readByte_def)

lemma take_cells: "n \<le> readByte b \<Longrightarrow> take n (drop (rd b) (mem b)) = take n (cells b)"
  by (simp add: cells_def readByte_def min_absorb1)

lemma read_mem_ok:
  assumes "buf_wf b" and "n \<le> readByte b"
  shows "read_mem n b = Inr (take n (contents b))"
proof -
  have "rd b + n \<le> length (mem b)"
    using assms by (auto simp: buf_wf_def readByte_def)
  moreover have "take n (drop (rd b) (mem b)) = map Some (take n (contents b))"
    using assms by (simp add: take_cells cells_contents take_map)
  ultimately show ?thesis by (auto simp: read_mem_def comp_def)
qed

text \<open>\<open>retrieve\<close> drops from the front; in a Release build it never drops more than there is.\<close>

lemma retrieve_ok:
  assumes "buf_wf b" and "bd = Release \<or> n \<le> readByte b"
  shows "\<exists>b'. retrieve bd n b = Inr b' \<and> buf_wf b' \<and> contents b' = drop n (contents b)
           \<and> length (mem b') = length (mem b)"
proof (cases "n < readByte b")
  case True
  let ?b = "b\<lparr>rd := rd b + n\<rparr>"
  have "cells ?b = drop n (cells b)"
    by (simp add: cells_def drop_take add.commute)
  then have "cells ?b = map Some (drop n (contents b))"
    by (simp add: cells_contents[OF assms(1)] drop_map)
  then have "buf_wf ?b" "contents ?b = drop n (contents b)"
    using buf_wf_intro[of ?b] assms(1) True by (auto simp: buf_wf_def readByte_def)
  then show ?thesis using True by (simp add: retrieve_def asserting_def)
next
  case False
  have "cells (retrieveAll b) = map Some (drop n (contents b))"
    using False length_contents[OF assms(1)] by (simp add: cells_def retrieveAll_def)
  then have "buf_wf (retrieveAll b)" "contents (retrieveAll b) = drop n (contents b)"
    using buf_wf_intro[of "retrieveAll b"] by (auto simp: retrieveAll_def)
  then show ?thesis using False assms(2) by (auto simp: retrieve_def asserting_def retrieveAll_def)
qed

lemma read_buf_ok:
  assumes "buf_wf b" and "n \<le> readByte b"
  shows "\<exists>b'. read_buf bd n b = Inr (take n (contents b), b') \<and> buf_wf b'
           \<and> contents b' = drop n (contents b)"
  using retrieve_ok[OF assms(1), of bd n] read_mem_ok[OF assms] assms(2)
  by (auto simp: read_buf_def)

lemma ptr_diff_ok: "r \<le> e \<Longrightarrow> e < 2 ^ 64 \<Longrightarrow> ptr_diff e r = e - r"
  by (simp add: ptr_diff_def nat_diff_distrib flip: of_nat_diff)

section \<open>Writing\<close>

text \<open>
  The free space \<open>reallocate\<close> compares is always 0, because \<^verbatim>\<open>size()\<close> is
  \<^verbatim>\<open>readByte()\<close>: with a positive length the first branch is taken, whatever room there
  is in front of \<open>read\<close>.
\<close>

lemma reallocate_grows:
  assumes "buf_wf b" and "0 < n" and "readByte b + n < 2 ^ 63"
  shows "reallocate n b =
    Inr \<lparr>mem = cells b @ replicate (readByte b + 2 * n) None, rd = 0, wr = readByte b\<rparr>"
proof -
  have "((readByte b + n) * 2) mod 2 ^ 64 = (readByte b + n) * 2"
    using assms(3) by simp
  then show ?thesis using assms
    by (simp add: reallocate_def Let_def buf_size_def cells_def readByte_def)
qed

lemma cells_put_mem:
  assumes "rd b \<le> wr b" and "wr b + length bs \<le> length (mem b)"
  shows "cells (b\<lparr>mem := put_mem (wr b) bs (mem b), wr := wr b + length bs\<rparr>) =
    cells b @ map Some bs"
  using assms by (simp add: cells_def put_mem_def drop_take)

lemma length_put_mem: "i + length bs \<le> length m \<Longrightarrow> length (put_mem i bs m) = length m"
  by (simp add: put_mem_def)

lemma write_in_place:
  assumes "buf_wf b" and "wr b + length bs \<le> length (mem b)"
  defines "b' \<equiv> b\<lparr>mem := put_mem (wr b) bs (mem b), wr := wr b + length bs\<rparr>"
  shows "buf_wf b'" "contents b' = contents b @ bs"
proof -
  have c: "cells b' = map Some (contents b @ bs)"
    using assms cells_put_mem[of b bs] cells_contents[of b] by (simp add: buf_wf_def)
  have "rd b' \<le> wr b'" "wr b' \<le> length (mem b')"
    using assms by (simp_all add: buf_wf_def length_put_mem)
  with c show "buf_wf b'" "contents b' = contents b @ bs"
    using buf_wf_intro[of b'] by blast+
qed

lemma write_buf_ok:
  assumes "buf_wf b" and "readByte b + length bs < 2 ^ 63"
  shows "\<exists>b'. write_buf bs b = Inr b' \<and> buf_wf b' \<and> contents b' = contents b @ bs"
proof (cases "writeByte b < length bs")
  case False
  then have "wr b + length bs \<le> length (mem b)"
    using assms(1) by (auto simp: writeByte_def buf_wf_def)
  with False write_in_place[OF assms(1)] show ?thesis by (simp add: write_buf_def)
next
  case True
  let ?b = "\<lparr>mem = cells b @ replicate (readByte b + 2 * length bs) None, rd = 0, wr = readByte b\<rparr>"
  have len: "length (cells b) = readByte b"
    using length_contents[OF assms(1)] by (simp add: contents_def)
  have "cells ?b = map Some (contents b)"
    by (subst cells_def) (simp add: cells_contents[OF assms(1)] length_contents[OF assms(1)])
  then have wf: "buf_wf ?b" "contents ?b = contents b"
    using buf_wf_intro[of ?b] len by auto
  have room: "wr ?b + length bs \<le> length (mem ?b)" using len by simp
  have "reallocate (length bs) b = Inr ?b"
    using True by (intro reallocate_grows[OF assms(1) _ assms(2)]) auto
  then show ?thesis
    using True room write_in_place[OF wf(1) room] wf(2) by (simp add: write_buf_def)
qed

lemma advanceWrite_ok:
  assumes "buf_wf b" and "length bs \<le> writeByte b"
  shows "\<exists>b'. advanceWrite bd (length bs) (b\<lparr>mem := put_mem (wr b) bs (mem b)\<rparr>) = Inr b'
           \<and> buf_wf b' \<and> contents b' = contents b @ bs"
proof -
  have "wr b + length bs \<le> length (mem b)"
    using assms by (auto simp: writeByte_def buf_wf_def)
  with write_in_place[OF assms(1)] assms(2) show ?thesis
    by (simp add: advanceWrite_def writeByte_def length_put_mem)
qed

text \<open>The growth rule as the client sees it.\<close>

lemma write_buf_capacity:
  assumes "buf_wf b" and "readByte b + length bs < 2 ^ 63" and "write_buf bs b = Inr b'"
  shows "length (mem b') =
    (if writeByte b < length bs then 2 * (readByte b + length bs) else length (mem b))"
proof (cases "writeByte b < length bs")
  case False
  then show ?thesis using assms(1,3)
    by (auto simp: write_buf_def writeByte_def buf_wf_def length_put_mem guarding_Inr_iff)
next
  case True
  then have "0 < length bs" by auto
  have "length (cells b) = readByte b"
    using length_contents[OF assms(1)] by (simp add: contents_def)
  with True reallocate_grows[OF assms(1) \<open>0 < length bs\<close> assms(2)] assms(3) show ?thesis
    by (auto simp: write_buf_def length_put_mem guarding_Inr_iff)
qed

section \<open>Integers in the buffer\<close>

lemma store_1: "store h 1 v = [v :: byte]"
  using le_bytes_le_val[of "[v]", where 'a = 8] by (cases h) (simp_all add: be_bytes_def)

lemmas store_Suc_0 = store_1 [unfolded One_nat_def]

lemma load_1: "load h [v] = (v :: byte)"
  by (cases h) (simp_all add: be_val_def)

lemma writeInt_bytes:
  "writeInt8 h v8 b = write_buf [v8] b"
  "writeInt16 h v16 b = write_buf (be_bytes 2 v16) b"
  "writeInt32 h v32 b = write_buf (be_bytes 4 v32) b"
  "writeInt64 h v64 b = write_buf (be_bytes 8 v64) b"
  by (simp_all add: writeInt8_def writeInt16_def writeInt32_def writeInt64_def store_Suc_0
      order16.wire order32.wire order64.wire)

text \<open>The integer at the front of the buffer is the big-endian value of its first bytes.\<close>

lemma peekInt_ok:
  assumes "buf_wf b"
  shows "1 \<le> readByte b \<Longrightarrow> peekInt8 bd h b = Inr (hd (contents b))"
    "2 \<le> readByte b \<Longrightarrow> peekInt16 bd h b = Inr (be_val (take 2 (contents b)))"
    "4 \<le> readByte b \<Longrightarrow> peekInt32 bd h b = Inr (be_val (take 4 (contents b)))"
    "8 \<le> readByte b \<Longrightarrow> peekInt64 bd h b = Inr (be_val (take 8 (contents b)))"
proof -
  have l: "length (contents b) = readByte b" using assms by (rule length_contents)
  show "peekInt8 bd h b = Inr (hd (contents b))" if "1 \<le> readByte b"
    using that l read_mem_ok[OF assms that]
    by (cases "contents b") (simp_all add: peekInt8_def load_1)
  show "peekInt16 bd h b = Inr (be_val (take 2 (contents b)))" if "2 \<le> readByte b"
    using that l read_mem_ok[OF assms that] by (simp add: peekInt16_def order16.from_wire)
  show "peekInt32 bd h b = Inr (be_val (take 4 (contents b)))" if "4 \<le> readByte b"
    using that l read_mem_ok[OF assms that] by (simp add: peekInt32_def order32.from_wire)
  show "peekInt64 bd h b = Inr (be_val (take 8 (contents b)))" if "8 \<le> readByte b"
    using that l read_mem_ok[OF assms that] by (simp add: peekInt64_def order64.from_wire)
qed

text \<open>Every \<open>readInt\<close> is a peek followed by a retrieve of the same number of bytes.\<close>

lemma readInt_ok:
  assumes wf: "buf_wf b"
  shows "contents b = v8 # rest \<Longrightarrow>
      \<exists>b'. readInt8 bd h b = Inr (v8, b') \<and> buf_wf b' \<and> contents b' = rest"
    "contents b = be_bytes 2 v16 @ rest \<Longrightarrow>
      \<exists>b'. readInt16 bd h b = Inr (v16, b') \<and> buf_wf b' \<and> contents b' = rest"
    "contents b = be_bytes 4 v32 @ rest \<Longrightarrow>
      \<exists>b'. readInt32 bd h b = Inr (v32, b') \<and> buf_wf b' \<and> contents b' = rest"
    "contents b = be_bytes 8 v64 @ rest \<Longrightarrow>
      \<exists>b'. readInt64 bd h b = Inr (v64, b') \<and> buf_wf b' \<and> contents b' = rest"
proof -
  have l: "readByte b = length (contents b)" using length_contents[OF wf] by simp
  note ok = peekInt_ok[OF wf, of bd h] retrieve_ok[OF wf, of bd] and l [simp]
  show "contents b = v8 # rest \<Longrightarrow>
      \<exists>b'. readInt8 bd h b = Inr (v8, b') \<and> buf_wf b' \<and> contents b' = rest"
    using ok(1) ok(5)[of 1] by (auto simp: readInt8_def)
  show "contents b = be_bytes 2 v16 @ rest \<Longrightarrow>
      \<exists>b'. readInt16 bd h b = Inr (v16, b') \<and> buf_wf b' \<and> contents b' = rest"
    using ok(2) ok(5)[of 2] by (auto simp: readInt16_def)
  show "contents b = be_bytes 4 v32 @ rest \<Longrightarrow>
      \<exists>b'. readInt32 bd h b = Inr (v32, b') \<and> buf_wf b' \<and> contents b' = rest"
    using ok(3) ok(5)[of 4] by (auto simp: readInt32_def)
  show "contents b = be_bytes 8 v64 @ rest \<Longrightarrow>
      \<exists>b'. readInt64 bd h b = Inr (v64, b') \<and> buf_wf b' \<and> contents b' = rest"
    using ok(4) ok(5)[of 8] by (auto simp: readInt64_def)
qed

section \<open>The contract of a byte queue\<close>

interpretation buf: byte_queue buf_wf contents write_buf "read_buf bd" "2 ^ 63" for bd
proof unfold_locales
  show "\<exists>q'. write_buf bs q = Inr q' \<and> buf_wf q' \<and> contents q' = contents q @ bs"
    if "buf_wf q" "length (contents q) + length bs < 2 ^ 63" for q bs
    using that write_buf_ok by (simp add: length_contents)
  show "\<exists>q'. read_buf bd n q = Inr (take n (contents q), q') \<and> buf_wf q'
      \<and> contents q' = drop n (contents q)"
    if "buf_wf q" "n \<le> length (contents q)" for q n
    using that read_buf_ok by (simp add: length_contents)
qed

section \<open>Properties\<close>

text \<open>
  C8. Starting from a new buffer of any initial length, any sequence of \<open>write\<close> and
  \<open>read\<close> calls that never asks for more than is stored succeeds in both build modes, and
  the bytes read followed by the bytes still stored are exactly the bytes written, in
  order; the buffer stays well formed.
\<close>

theorem buffer_stream:
  assumes "demand_ok 0 ops" and "length (puts ops) < 2 ^ 63"
  shows "\<exists>out b'. qrun write_buf (read_buf bd) ops (MessageBuffer n) = Inr (out, b')
           \<and> buf_wf b' \<and> out @ contents b' = puts ops"
  using buf.stream_law[OF wf_MessageBuffer(1)[of n], of ops bd] assms
  by (simp add: wf_MessageBuffer(2))

theorem buffer_stream_witness:
  "\<exists>out b'. qrun write_buf (read_buf Debug) [Put [1, 2, 3], Get 2, Put [4], Get 2] (MessageBuffer 2)
     = Inr (out, b') \<and> buf_wf b' \<and> out @ contents b' = [1, 2, 3, 4]"
  using buffer_stream[of "[Put [1, 2, 3], Get 2, Put [4], Get 2]" Debug 2] by simp

text \<open>
  C32. Integers of the four widths written one after the other to an empty buffer lie in
  it in network byte order, and reading them back in the same order, on a host of either
  byte order, gives the same values and leaves the buffer empty.
\<close>

theorem buffer_int_roundtrip:
  assumes "buf_wf b" and "contents b = []"
  shows "\<exists>b1. res_bind (writeInt8 h v8 b) (\<lambda>b. res_bind (writeInt16 h v16 b) (\<lambda>b.
           res_bind (writeInt32 h v32 b) (writeInt64 h v64))) = Inr b1
       \<and> contents b1 = v8 # be_bytes 2 v16 @ be_bytes 4 v32 @ be_bytes 8 v64
       \<and> (\<exists>b2. res_bind (readInt8 bd h' b1) (\<lambda>(a, b). res_bind (readInt16 bd h' b) (\<lambda>(c, b).
             res_bind (readInt32 bd h' b) (\<lambda>(d, b). res_bind (readInt64 bd h' b) (\<lambda>(e, b).
             Inr (a, c, d, e, b))))) = Inr (v8, v16, v32, v64, b2) \<and> contents b2 = [])"
proof -
  obtain w1 where w1: "writeInt8 h v8 b = Inr w1" "buf_wf w1" "contents w1 = [v8]"
    using buf.put_law[OF assms(1), of "[v8]"] assms(2) by (auto simp: writeInt_bytes)
  obtain w2 where w2: "writeInt16 h v16 w1 = Inr w2" "buf_wf w2" "contents w2 = v8 # be_bytes 2 v16"
    using buf.put_law[OF w1(2), of "be_bytes 2 v16"] w1(3) by (auto simp: writeInt_bytes)
  obtain w3 where w3: "writeInt32 h v32 w2 = Inr w3" "buf_wf w3"
      "contents w3 = v8 # be_bytes 2 v16 @ be_bytes 4 v32"
    using buf.put_law[OF w2(2), of "be_bytes 4 v32"] w2(3) by (auto simp: writeInt_bytes)
  obtain w4 where w4: "writeInt64 h v64 w3 = Inr w4" "buf_wf w4"
      "contents w4 = v8 # be_bytes 2 v16 @ be_bytes 4 v32 @ be_bytes 8 v64"
    using buf.put_law[OF w3(2), of "be_bytes 8 v64"] w3(3) by (auto simp: writeInt_bytes)
  obtain r1 where r1: "readInt8 bd h' w4 = Inr (v8, r1)" "buf_wf r1"
      "contents r1 = be_bytes 2 v16 @ be_bytes 4 v32 @ be_bytes 8 v64"
    using readInt_ok(1)[OF w4(2,3)] by blast
  obtain r2 where r2: "readInt16 bd h' r1 = Inr (v16, r2)" "buf_wf r2"
      "contents r2 = be_bytes 4 v32 @ be_bytes 8 v64"
    using readInt_ok(2)[OF r1(2,3)] by blast
  obtain r3 where r3: "readInt32 bd h' r2 = Inr (v32, r3)" "buf_wf r3" "contents r3 = be_bytes 8 v64"
    using readInt_ok(3)[OF r2(2,3)] by blast
  obtain r4 where r4: "readInt64 bd h' r3 = Inr (v64, r4)" "contents r4 = []"
    using readInt_ok(4)[OF r3(2), of v64 "[]"] r3(3) by auto
  from w1 w2 w3 w4 r1 r2 r3 r4 show ?thesis by simp
qed

theorem buffer_int_roundtrip_witness:
  "\<exists>b1. res_bind (writeInt8 Little 7 (MessageBuffer 4)) (\<lambda>b. res_bind (writeInt16 Little 258 b) (\<lambda>b.
       res_bind (writeInt32 Little 9 b) (writeInt64 Little 10))) = Inr b1
     \<and> contents b1 = 7 # be_bytes 2 (258 :: 16 word) @ be_bytes 4 (9 :: 32 word) @ be_bytes 8 (10 :: 64 word)"
  using buffer_int_roundtrip[OF wf_MessageBuffer[of 4], of Little 7 258 9 10]
  by blast

text \<open>
  A \<open>write\<close> that does not fit behind the write position always moves to a new array
  of twice the stored plus the written size with nothing in front of the read position.
  So the other branch of \<open>reallocate\<close>, which would move the data to the front of the
  old array, is never taken, even when that would have made enough room.
\<close>

theorem write_never_compacts:
  assumes "buf_wf b" and "readByte b + length bs < 2 ^ 63" and "writeByte b < length bs"
  shows "\<exists>b'. write_buf bs b = Inr b' \<and> rd b' = 0
           \<and> length (mem b') = 2 * (readByte b + length bs)
           \<and> contents b' = contents b @ bs"
proof -
  obtain b' where b': "write_buf bs b = Inr b'" "contents b' = contents b @ bs"
    using write_buf_ok[OF assms(1,2)] by blast
  have "0 < length bs" using assms(3) by auto
  then have "rd b' = 0"
    using b'(1) assms(3) reallocate_grows[OF assms(1) _ assms(2)]
    by (auto simp: write_buf_def guarding_Inr_iff)
  with b' write_buf_capacity[OF assms(1,2) b'(1)] assms(3) show ?thesis by auto
qed

text \<open>The witness: 3 bytes stored behind 5 consumed ones, room for 5 more at the front.\<close>

theorem write_never_compacts_witness:
  "\<exists>b'. write_buf [9, 9] \<lparr>mem = replicate 8 (Some 1), rd = 5, wr = 8\<rparr> = Inr b' \<and> rd b' = 0
     \<and> length (mem b') = 10"
  using write_never_compacts[of "\<lparr>mem = replicate 8 (Some 1), rd = 5, wr = 8\<rparr>" "[9, 9]"]
  by (auto simp: buf_wf_def cells_def readByte_def writeByte_def)

text \<open>
  In a Debug build the reading operations fail exactly when more is asked for than is
  stored, and then by their assertion; in a Release build \<open>retrieve\<close> drops what there is
  instead.
\<close>

theorem buffer_read_errors:
  assumes "buf_wf b"
  shows "(is_ok (read_buf Debug n b) \<longleftrightarrow> n \<le> readByte b) \<and>
    (is_ok (peekInt64 Debug h b) \<longleftrightarrow> 8 \<le> readByte b) \<and>
    (if n \<le> readByte b then is_ok (retrieve Debug n b)
     else read_buf Debug n b = Inl Assert_Failed \<and> retrieve Debug n b = Inl Assert_Failed \<and>
       retrieve Release n b = Inr (retrieveAll b))"
proof (intro conjI)
  show "is_ok (read_buf Debug n b) \<longleftrightarrow> n \<le> readByte b"
    using read_buf_ok[OF assms, of n Debug] by (cases "n \<le> readByte b") (auto simp: read_buf_def)
  show "is_ok (peekInt64 Debug h b) \<longleftrightarrow> 8 \<le> readByte b"
    using peekInt_ok(4)[OF assms, of Debug h] by (cases "8 \<le> readByte b") (auto simp: peekInt64_def)
  show "if n \<le> readByte b then is_ok (retrieve Debug n b)
     else read_buf Debug n b = Inl Assert_Failed \<and> retrieve Debug n b = Inl Assert_Failed \<and>
       retrieve Release n b = Inr (retrieveAll b)"
    by (simp add: read_buf_def retrieve_def)
qed

theorem buffer_read_errors_witness:
  "is_ok (read_buf Debug 0 (MessageBuffer 4)) \<and> \<not> is_ok (peekInt64 Debug Big (MessageBuffer 4)) \<and>
   read_buf Debug 1 (MessageBuffer 4) = Inl Assert_Failed"
  using buffer_read_errors[OF wf_MessageBuffer(1)[of 4], of 0 Big]
    buffer_read_errors[OF wf_MessageBuffer(1)[of 4], of 1 Big]
  by (simp add: readByte_def MessageBuffer_def)

end
