(* ===== verification/Buffer_Shape.thy ===== *)
theory Buffer_Shape
  imports Message_Buffer
begin

text \<open>
  A type discipline for the buffer of \<^verbatim>\<open>src/include/godnet/net/message_buffer.cpp\<close>.  The type of a buffer is
  its shape: the bytes in front of the read position, those to read, and those there is room for, as
  \<^verbatim>\<open>headByte\<close>, \<^verbatim>\<open>readByte\<close> and \<^verbatim>\<open>writeByte\<close> tell them.  Every public operation has an effect on the
  shape that does not depend on the bytes.  Operations that fit the shape succeed on every well formed buffer and lead to
  one of the shape foretold, and operations that do not fit fail in a Debug build.
\<close>

section \<open>The operations\<close>

text \<open>
  A position in the buffer is given by its distance from \<^verbatim>\<open>readPeek()\<close>; \<open>BFill\<close> is what \<^verbatim>\<open>read\<close> of a socket
  does: bytes are put at \<^verbatim>\<open>mutWritePeek()\<close>, then \<^verbatim>\<open>advanceWrite\<close> is called.
\<close>

datatype buf_call =
    BWrite "byte list" | BWrite8 "8 word" | BWrite16 "16 word" | BWrite32 "32 word" | BWrite64 "64 word" | BFill "byte list"
  | BPeek8 | BPeek16 | BPeek32 | BPeek64
  | BRead nat | BReadUntil nat | BReadAll | BRead8 | BRead16 | BRead32 | BRead64
  | BRetrieve nat | BRetrieveUntil nat | BRetrieveAll

definition keeps_buf :: "mbuf \<Rightarrow> 'a res \<Rightarrow> mbuf res" where
  "keeps_buf b r = res_bind r (\<lambda>_. Inr b)"

definition next_buf :: "('a \<times> mbuf) res \<Rightarrow> mbuf res" where
  "next_buf r = res_bind r (\<lambda>(_, b). Inr b)"

fun run_call :: "build \<Rightarrow> host \<Rightarrow> buf_call \<Rightarrow> mbuf \<Rightarrow> mbuf res" where
  "run_call bd h (BWrite bs) b = write_buf bs b"
| "run_call bd h (BWrite8 v) b = writeInt8 h v b"
| "run_call bd h (BWrite16 v) b = writeInt16 h v b"
| "run_call bd h (BWrite32 v) b = writeInt32 h v b"
| "run_call bd h (BWrite64 v) b = writeInt64 h v b"
| "run_call bd h (BFill bs) b = guarding Out_Of_Bounds (mutWritePeek b + length bs \<le> length (mem b))
     (advanceWrite bd (length bs) (b\<lparr>mem := put_mem (mutWritePeek b) bs (mem b)\<rparr>))"
| "run_call bd h BPeek8 b = keeps_buf b (peekInt8 bd h b)"
| "run_call bd h BPeek16 b = keeps_buf b (peekInt16 bd h b)"
| "run_call bd h BPeek32 b = keeps_buf b (peekInt32 bd h b)"
| "run_call bd h BPeek64 b = keeps_buf b (peekInt64 bd h b)"
| "run_call bd h (BRead n) b = next_buf (read_buf bd n b)"
| "run_call bd h (BReadUntil n) b = next_buf (readUntil bd (readPeek b + n) b)"
| "run_call bd h BReadAll b = next_buf (readAll bd b)"
| "run_call bd h BRead8 b = next_buf (readInt8 bd h b)"
| "run_call bd h BRead16 b = next_buf (readInt16 bd h b)"
| "run_call bd h BRead32 b = next_buf (readInt32 bd h b)"
| "run_call bd h BRead64 b = next_buf (readInt64 bd h b)"
| "run_call bd h (BRetrieve n) b = retrieve bd n b"
| "run_call bd h (BRetrieveUntil n) b = retrieveUntil bd (buf_data b + n) b"
| "run_call bd h BRetrieveAll b = Inr (retrieveAll b)"

fun run_calls :: "build \<Rightarrow> host \<Rightarrow> buf_call list \<Rightarrow> mbuf \<Rightarrow> mbuf res" where
  "run_calls bd h [] b = Inr b"
| "run_calls bd h (c # cs) b = res_bind (run_call bd h c b) (run_calls bd h cs)"

section \<open>The type discipline\<close>

type_synonym shape = "nat \<times> nat \<times> nat"

definition shape :: "mbuf \<Rightarrow> shape" where
  "shape b = (headByte b, readByte b, writeByte b)"

text \<open>Writing uses the room, or moves to an array of twice the size; dropping everything starts over.\<close>

fun shape_write :: "nat \<Rightarrow> shape \<Rightarrow> shape" where
  "shape_write len (h, n, r) = (if len \<le> r then (h, n + len, r - len) else (0, n + len, n + len))"

fun shape_drop :: "nat \<Rightarrow> shape \<Rightarrow> shape" where
  "shape_drop k (h, n, r) = (if k < n then (h + k, n - k, r) else (0, 0, h + n + r))"

definition needing :: "nat \<Rightarrow> shape \<Rightarrow> shape \<Rightarrow> shape option" where
  "needing k t t' = (if k \<le> fst (snd t) then Some t' else None)"

fun effect :: "buf_call \<Rightarrow> shape \<Rightarrow> shape option" where
  "effect (BWrite bs) t = Some (shape_write (length bs) t)"
| "effect (BWrite8 v) t = Some (shape_write 1 t)"
| "effect (BWrite16 v) t = Some (shape_write 2 t)"
| "effect (BWrite32 v) t = Some (shape_write 4 t)"
| "effect (BWrite64 v) t = Some (shape_write 8 t)"
| "effect (BFill bs) t = (if length bs \<le> snd (snd t) then Some (shape_write (length bs) t) else None)"
| "effect BPeek8 t = needing 1 t t"
| "effect BPeek16 t = needing 2 t t"
| "effect BPeek32 t = needing 4 t t"
| "effect BPeek64 t = needing 8 t t"
| "effect (BRead n) t = needing n t (shape_drop n t)"
| "effect (BReadUntil n) t = needing n t (shape_drop n t)"
| "effect BReadAll t = Some (shape_drop (fst (snd t)) t)"
| "effect BRead8 t = needing 1 t (shape_drop 1 t)"
| "effect BRead16 t = needing 2 t (shape_drop 2 t)"
| "effect BRead32 t = needing 4 t (shape_drop 4 t)"
| "effect BRead64 t = needing 8 t (shape_drop 8 t)"
| "effect (BRetrieve n) t = needing n t (shape_drop n t)"
| "effect (BRetrieveUntil n) t = needing n t (shape_drop n t)"
| "effect BRetrieveAll t = Some (shape_drop (fst (snd t)) t)"

fun effects :: "buf_call list \<Rightarrow> shape \<Rightarrow> shape option" where
  "effects [] t = Some t"
| "effects (c # cs) t = Option.bind (effect c t) (effects cs)"

fun written :: "buf_call \<Rightarrow> nat" where
  "written (BWrite bs) = length bs"
| "written (BWrite8 v) = 1"
| "written (BWrite16 v) = 2"
| "written (BWrite32 v) = 4"
| "written (BWrite64 v) = 8"
| "written (BFill bs) = length bs"
| "written c = 0"

section \<open>One operation\<close>

lemma shape_simps: "wr b \<le> length (mem b) \<Longrightarrow> shape b = (rd b, wr b - rd b, length (mem b) - wr b)"
  by (simp add: shape_def buf_defs)

text \<open>The judgement: a call fits a buffer and leads to a well formed one of the shape foretold, or it does not fit.\<close>

definition call_ok :: "shape option \<Rightarrow> (build \<Rightarrow> mbuf res) \<Rightarrow> bool" where
  "call_ok t f \<longleftrightarrow> (case t of Some t' \<Rightarrow> \<forall>bd. \<exists>b'. f bd = Inr b' \<and> buf_wf b' \<and> shape b' = t' | None \<Rightarrow> \<not> is_ok (f Debug))"

lemma call_ok_intros:
  "(\<And>bd. \<exists>b'. f bd = Inr b' \<and> buf_wf b' \<and> shape b' = t') \<Longrightarrow> call_ok (Some t') f"
  "(k \<le> readByte b \<Longrightarrow> call_ok (Some t') f) \<Longrightarrow> (readByte b < k \<Longrightarrow> \<not> is_ok (f Debug)) \<Longrightarrow> call_ok (needing k (shape b) t') f"
  by (auto simp: call_ok_def needing_def shape_def)

lemma write_call:
  assumes "buf_wf b" and "readByte b + length bs < 2 ^ 63"
  shows "call_ok (Some (shape_write (length bs) (shape b))) (\<lambda>_. write_buf bs b)"
proof (intro call_ok_intros)
  fix bd :: build
  obtain b' where b': "write_buf bs b = Inr b'" "buf_wf b'" "contents b' = contents b @ bs" using write_buf_ok[OF assms] by blast
  have n: "readByte b' = readByte b + length bs" using b'(2,3) assms(1) length_contents by (metis length_append)
  have m: "length (mem b') = (if writeByte b < length bs then 2 * (readByte b + length bs) else length (mem b))"
    using write_buf_capacity[OF assms b'(1)] .
  have h: "rd b' = (if writeByte b < length bs then 0 else rd b)"
  proof (cases "writeByte b < length bs")
    case True
    then have "0 < length bs" by (rule le_less_trans[OF le0])
    then show ?thesis using True b'(1) reallocate_grows[OF assms(1) _ assms(2)] by (auto simp: write_buf_def guarding_Inr_iff)
  qed (use b'(1) in \<open>auto simp: write_buf_def guarding_Inr_iff\<close>)
  have "shape b' = shape_write (length bs) (shape b)"
    using n m h assms(1) b'(2) by (auto simp: shape_simps buf_defs buf_wf_def split: if_splits)
  then show "\<exists>b'. write_buf bs b = Inr b' \<and> buf_wf b' \<and> shape b' = shape_write (length bs) (shape b)" using b' by blast
qed

lemma fill_call:
  assumes "buf_wf b"
  shows "call_ok (if length bs \<le> writeByte b then Some (shape_write (length bs) (shape b)) else None)
    (\<lambda>bd. guarding Out_Of_Bounds (wr b + length bs \<le> length (mem b)) (advanceWrite bd (length bs) (b\<lparr>mem := put_mem (wr b) bs (mem b)\<rparr>)))"
proof (cases "length bs \<le> writeByte b")
  case False
  then show ?thesis using assms by (auto simp: call_ok_def buf_defs buf_wf_def)
next
  case True
  then have r: "wr b + length bs \<le> length (mem b)" using assms by (auto simp: buf_defs buf_wf_def)
  let ?b = "b\<lparr>mem := put_mem (wr b) bs (mem b), wr := wr b + length bs\<rparr>"
  have "shape ?b = shape_write (length bs) (shape b)"
    using r assms by (auto simp: shape_simps length_put_mem buf_wf_def)
  then show ?thesis
    using True r write_in_place(1)[OF assms r]
    by (auto simp: call_ok_def advanceWrite_def buf_defs length_put_mem)
qed

lemma drop_call:
  assumes "buf_wf b"
  shows "call_ok (needing k (shape b) (shape_drop k (shape b))) (\<lambda>bd. retrieve bd k b)"
proof (intro call_ok_intros)
  fix bd assume k: "k \<le> readByte b"
  obtain b' where "retrieve bd k b = Inr b'" "buf_wf b'" using retrieve_ok[OF assms, of bd k] k by blast
  moreover have "shape b' = shape_drop k (shape b)"
    using calculation(1) k assms by (auto simp: retrieve_def retrieveAll_def shape_simps buf_defs buf_wf_def split: if_splits)
  ultimately show "\<exists>b'. retrieve bd k b = Inr b' \<and> buf_wf b' \<and> shape b' = shape_drop k (shape b)" by blast
qed (simp add: retrieve_def)

text \<open>A peek looks, and a read looks and then drops.\<close>

lemma look_calls:
  assumes "buf_wf b" and "\<And>bd. k \<le> readByte b \<Longrightarrow> is_ok (p bd)" and "readByte b < k \<Longrightarrow> \<not> is_ok (p Debug)"
  shows "call_ok (needing k (shape b) (shape b)) (\<lambda>bd. keeps_buf b (p bd))"
    and "call_ok (needing k (shape b) (shape_drop k (shape b)))
      (\<lambda>bd. next_buf (res_bind (p bd) (\<lambda>v. res_bind (retrieve bd k b) (\<lambda>b'. Inr (v, b')))))"
proof -
  have ok: "\<exists>v. p bd = Inr v" if "k \<le> readByte b" for bd using assms(2)[OF that, of bd] by (cases "p bd") simp_all
  show "call_ok (needing k (shape b) (shape b)) (\<lambda>bd. keeps_buf b (p bd))"
  proof (intro call_ok_intros)
    fix bd assume "k \<le> readByte b"
    then show "\<exists>b'. keeps_buf b (p bd) = Inr b' \<and> buf_wf b' \<and> shape b' = shape b"
      using ok[of bd] assms(1) by (auto simp: keeps_buf_def)
  qed (use assms(3) in \<open>cases "p Debug"; simp add: keeps_buf_def\<close>)
  show "call_ok (needing k (shape b) (shape_drop k (shape b)))
      (\<lambda>bd. next_buf (res_bind (p bd) (\<lambda>v. res_bind (retrieve bd k b) (\<lambda>b'. Inr (v, b')))))"
  proof (intro call_ok_intros)
    fix bd assume k: "k \<le> readByte b"
    have "call_ok (Some (shape_drop k (shape b))) (\<lambda>bd. retrieve bd k b)"
      using drop_call[OF assms(1), of k] k by (simp add: needing_def shape_def)
    then obtain b' where "retrieve bd k b = Inr b'" "buf_wf b'" "shape b' = shape_drop k (shape b)" by (auto simp: call_ok_def)
    then show "\<exists>b'. next_buf (res_bind (p bd) (\<lambda>v. res_bind (retrieve bd k b) (\<lambda>b'. Inr (v, b')))) = Inr b' \<and>
        buf_wf b' \<and> shape b' = shape_drop k (shape b)"
      using ok[OF k, of bd] by (auto simp: next_buf_def)
  qed (use assms(3) in \<open>cases "p Debug"; simp add: next_buf_def\<close>)
qed

lemma peek_fits:
  assumes "buf_wf b"
  shows "1 \<le> readByte b \<Longrightarrow> is_ok (peekInt8 bd h b)" and "readByte b < 1 \<Longrightarrow> \<not> is_ok (peekInt8 Debug h b)"
    and "2 \<le> readByte b \<Longrightarrow> is_ok (peekInt16 bd h b)" and "readByte b < 2 \<Longrightarrow> \<not> is_ok (peekInt16 Debug h b)"
    and "4 \<le> readByte b \<Longrightarrow> is_ok (peekInt32 bd h b)" and "readByte b < 4 \<Longrightarrow> \<not> is_ok (peekInt32 Debug h b)"
    and "8 \<le> readByte b \<Longrightarrow> is_ok (peekInt64 bd h b)" and "readByte b < 8 \<Longrightarrow> \<not> is_ok (peekInt64 Debug h b)"
  using peekInt_ok[OF assms, of bd h] by (simp_all add: peekInt8_def peekInt16_def peekInt32_def peekInt64_def)

lemma read_buf_call:
  assumes "buf_wf b"
  shows "call_ok (needing k (shape b) (shape_drop k (shape b))) (\<lambda>bd. next_buf (read_buf bd k b))"
proof -
  let ?p = "\<lambda>bd. asserting bd (k \<le> readByte b) (read_mem k b)"
  have "read_buf bd k b = res_bind (?p bd) (\<lambda>v. res_bind (retrieve bd k b) (\<lambda>b'. Inr (v, b')))" for bd
    by (cases bd) (simp_all add: read_buf_def asserting_def)
  then show ?thesis using look_calls(2)[OF assms, of k ?p] read_mem_ok[OF assms] by simp
qed

lemma until_calls:
  assumes "buf_wf b" and "readByte b < 2 ^ 63"
  shows "call_ok (needing k (shape b) (shape_drop k (shape b))) (\<lambda>bd. next_buf (readUntil bd (rd b + k) b))"
    and "call_ok (needing k (shape b) (shape_drop k (shape b))) (\<lambda>bd. retrieveUntil bd (rd b + k) b)"
proof -
  have d: "ptr_diff (rd b + k) (rd b) = k" if "k \<le> readByte b" using that assms(2) by (simp add: ptr_diff_def)
  have le: "rd b + k \<le> wr b \<longleftrightarrow> k \<le> readByte b" using assms(1) by (auto simp: buf_wf_def readByte_def)
  show "call_ok (needing k (shape b) (shape_drop k (shape b))) (\<lambda>bd. next_buf (readUntil bd (rd b + k) b))"
  proof (intro call_ok_intros)
    fix bd assume k: "k \<le> readByte b"
    then have "next_buf (readUntil bd (rd b + k) b) = next_buf (read_buf bd k b)" using d le by (simp add: readUntil_def readPeek_def writePeek_def)
    then show "\<exists>b'. next_buf (readUntil bd (rd b + k) b) = Inr b' \<and> buf_wf b' \<and> shape b' = shape_drop k (shape b)"
      using read_buf_call[OF assms(1), of k] k by (auto simp: call_ok_def needing_def shape_def)
  qed (use le in \<open>simp add: readUntil_def next_buf_def readPeek_def writePeek_def\<close>)
  show "call_ok (needing k (shape b) (shape_drop k (shape b))) (\<lambda>bd. retrieveUntil bd (rd b + k) b)"
  proof (intro call_ok_intros)
    fix bd assume k: "k \<le> readByte b"
    then have "retrieveUntil bd (rd b + k) b = retrieve bd k b" using d le by (simp add: retrieveUntil_def readPeek_def writePeek_def)
    then show "\<exists>b'. retrieveUntil bd (rd b + k) b = Inr b' \<and> buf_wf b' \<and> shape b' = shape_drop k (shape b)"
      using drop_call[OF assms(1), of k] k by (auto simp: call_ok_def needing_def shape_def)
  qed (use le in \<open>simp add: retrieveUntil_def readPeek_def writePeek_def\<close>)
qed

lemma needing_all: "needing (readByte b) (shape b) t = Some t"
  by (simp add: needing_def shape_def)

lemma retrieveAll_call:
  assumes "buf_wf b"
  shows "call_ok (Some (shape_drop (readByte b) (shape b))) (\<lambda>_. Inr (retrieveAll b))"
  using drop_call[OF assms, of "readByte b"] unfolding needing_all by (simp add: retrieve_def)

lemma run_call_ok:
  assumes b: "buf_wf b" and w: "readByte b + written c < 2 ^ 63"
  shows "call_ok (effect c (shape b)) (\<lambda>bd. run_call bd h c b)"
proof -
  have n: "fst (snd (shape b)) = readByte b" "snd (snd (shape b)) = writeByte b" by (simp_all add: shape_def)
  note W = write_call[OF b] and P = look_calls(1)[OF b] and R = look_calls(2)[OF b] and F = peek_fits[OF b]
  show ?thesis
  proof (cases c)
    case (BWrite16 v)
    then show ?thesis using W[of "be_bytes 2 v"] w by (simp add: writeInt_bytes length_be_bytes)
  next
    case (BWrite32 v)
    then show ?thesis using W[of "be_bytes 4 v"] w by (simp add: writeInt_bytes length_be_bytes)
  next
    case (BWrite64 v)
    then show ?thesis using W[of "be_bytes 8 v"] w by (simp add: writeInt_bytes length_be_bytes)
  next
    case (BWrite8 v)
    then show ?thesis using W[of "[v]"] w by (simp add: writeInt_bytes)
  next
    case BReadAll
    then show ?thesis using read_buf_call[OF b, of "readByte b"] n by (simp add: readAll_def needing_all)
  next
    case BRead8
    then show ?thesis using R[of 1 "\<lambda>bd. peekInt8 bd h b"] F by (simp add: readInt8_def)
  next
    case BRead16
    then show ?thesis using R[of 2 "\<lambda>bd. peekInt16 bd h b"] F by (simp add: readInt16_def)
  next
    case BRead32
    then show ?thesis using R[of 4 "\<lambda>bd. peekInt32 bd h b"] F by (simp add: readInt32_def)
  next
    case BRead64
    then show ?thesis using R[of 8 "\<lambda>bd. peekInt64 bd h b"] F by (simp add: readInt64_def)
  next
    case BPeek8
    then show ?thesis using P[of 1 "\<lambda>bd. peekInt8 bd h b"] F by simp
  next
    case BPeek16
    then show ?thesis using P[of 2 "\<lambda>bd. peekInt16 bd h b"] F by simp
  next
    case BPeek32
    then show ?thesis using P[of 4 "\<lambda>bd. peekInt32 bd h b"] F by simp
  next
    case BPeek64
    then show ?thesis using P[of 8 "\<lambda>bd. peekInt64 bd h b"] F by simp
  qed (use W fill_call[OF b] read_buf_call[OF b] until_calls[OF b] drop_call[OF b] retrieveAll_call[OF b] w n in
      \<open>simp_all add: readPeek_def buf_data_def mutWritePeek_def\<close>)
qed

lemma effect_bound: "effect c (h, n, r) = Some (h', n', r') \<Longrightarrow> n' \<le> n + written c"
  by (cases c) (auto simp: needing_def split: if_splits)

section \<open>Sequences of operations\<close>

text \<open>
  C7. The shape is a type discipline for the buffer: from a well formed buffer, a sequence of operations whose effects fit its
  shape, one after the other, succeeds in both build modes, on a host of either byte order, and ends in a well formed buffer of the
  shape the effects give; a sequence of which one does not fit fails in a Debug build.
\<close>

theorem buffer_types:
  assumes "buf_wf b" and "readByte b + sum_list (map written cs) < 2 ^ 63"
  shows "case effects cs (shape b) of
      Some t \<Rightarrow> \<forall>bd. \<exists>b'. run_calls bd h cs b = Inr b' \<and> buf_wf b' \<and> shape b' = t
    | None \<Rightarrow> \<not> is_ok (run_calls Debug h cs b)"
  using assms
proof (induction cs arbitrary: b)
  case (Cons c cs)
  have ok: "call_ok (effect c (shape b)) (\<lambda>bd. run_call bd h c b)" using run_call_ok[of b c h] Cons.prems by simp
  show ?case
  proof (cases "effect c (shape b)")
    case None
    then show ?thesis using ok by (cases "run_call Debug h c b") (simp_all add: call_ok_def)
  next
    case (Some t)
    have step: "\<exists>b'. run_call bd h c b = Inr b' \<and> buf_wf b' \<and> shape b' = t \<and>
        (case effects cs t of Some t' \<Rightarrow> \<forall>bd. \<exists>b''. run_calls bd h cs b' = Inr b'' \<and> buf_wf b'' \<and> shape b'' = t'
         | None \<Rightarrow> \<not> is_ok (run_calls Debug h cs b'))" for bd
    proof -
      obtain b' where b': "run_call bd h c b = Inr b'" "buf_wf b'" "shape b' = t" using ok Some by (auto simp: call_ok_def)
      have "readByte b' \<le> readByte b + written c"
        using effect_bound[of c "rd b" "readByte b"] Some b'(3) by (auto simp: shape_def headByte_def)
      then show ?thesis using Cons.IH[OF b'(2)] Cons.prems(2) b' by auto
    qed
    show ?thesis
    proof (cases "effects cs t")
      case None
      then show ?thesis using step[of Debug] Some by auto
    next
      case t': (Some t')
      have "\<exists>b'. run_calls bd h (c # cs) b = Inr b' \<and> buf_wf b' \<and> shape b' = t'" for bd using step[of bd] t' by auto
      then show ?thesis using Some t' by simp
    qed
  qed
qed simp

theorem buffer_types_witness:
  "\<exists>b'. run_calls Debug Little [BWrite16 7, BWrite [1, 2, 3], BRead16, BPeek8, BRetrieve 1] (MessageBuffer 4) = Inr b' \<and>
     shape b' = (3, 2, 5) \<and> \<not> is_ok (run_calls Debug Little [BWrite16 7, BRead32] (MessageBuffer 4))"
proof -
  let ?cs = "[BWrite16 7, BWrite [1, 2, 3], BRead16, BPeek8, BRetrieve 1]" and ?b = "MessageBuffer 4"
  have "shape ?b = (0, 0, 4)" by (simp add: shape_simps MessageBuffer_def)
  moreover have "effects ?cs (0, 0, 4) = Some (3, 2, 5)" "effects [BWrite16 7, BRead32] (0, 0, 4) = None"
    by (simp_all add: needing_def)
  moreover have "readByte ?b = 0" by (simp add: readByte_def MessageBuffer_def)
  ultimately have "\<forall>bd. \<exists>b'. run_calls bd Little ?cs ?b = Inr b' \<and> buf_wf b' \<and> shape b' = (3, 2, 5)"
    "\<not> is_ok (run_calls Debug Little [BWrite16 7, BRead32] ?b)"
    using buffer_types[OF wf_MessageBuffer(1)[of 4], of ?cs Little] buffer_types[OF wf_MessageBuffer(1)[of 4], of "[BWrite16 7, BRead32]" Little]
    by (simp_all del: run_calls.simps effects.simps)
  then show ?thesis by blast
qed

end
