(* ===== verification/Min_Queue.thy ===== *)
theory Min_Queue
  imports GN_Prelude "HOL-Library.Multiset"
begin

text \<open>
  The contract of \<^verbatim>\<open>std::priority_queue\<close> as \<open>TimerQueue\<close> uses it: \<open>first\<close> (\<^verbatim>\<open>top()\<close>) is a least
  element, \<open>pop\<close> removes it, \<open>push\<close> adds one.  The loop that pops while the first is due
  is written over these four operations.
\<close>

fun drain :: "('q \<Rightarrow> bool) \<Rightarrow> ('q \<Rightarrow> 't) \<Rightarrow> ('q \<Rightarrow> 'q) \<Rightarrow> ('t \<Rightarrow> bool) \<Rightarrow> nat \<Rightarrow> 'q \<Rightarrow> 't list \<times> 'q" where
  "drain isEmpty first pop due 0 q = ([], q)"
| "drain isEmpty first pop due (Suc n) q =
     (if \<not> isEmpty q \<and> due (first q)
      then let (xs, q') = drain isEmpty first pop due n (pop q) in (first q # xs, q')
      else ([], q))"

locale min_queue =
  fixes isEmpty :: "'q \<Rightarrow> bool" and first :: "'q \<Rightarrow> 't" and pop :: "'q \<Rightarrow> 'q"
    and push :: "'t \<Rightarrow> 'q \<Rightarrow> 'q" and elems :: "'q \<Rightarrow> 't multiset" and inv :: "'q \<Rightarrow> bool"
    and le :: "'t \<Rightarrow> 't \<Rightarrow> bool"
  assumes isEmpty_law: "inv q \<Longrightarrow> isEmpty q \<longleftrightarrow> elems q = {#}"
    and first_in: "inv q \<Longrightarrow> elems q \<noteq> {#} \<Longrightarrow> first q \<in># elems q"
    and first_least: "inv q \<Longrightarrow> x \<in># elems q \<Longrightarrow> le (first q) x"
    and pop_elems: "inv q \<Longrightarrow> elems q \<noteq> {#} \<Longrightarrow> elems (pop q) = elems q - {#first q#}"
    and pop_inv: "inv q \<Longrightarrow> inv (pop q)"
    and push_elems: "inv q \<Longrightarrow> elems (push x q) = add_mset x (elems q)"
    and push_inv: "inv q \<Longrightarrow> inv (push x q)"
begin

text \<open>
  With at least as much fuel as there are elements the loop takes out exactly the due
  elements, least first, and leaves the others.  \<open>due\<close> must be closed downwards.
\<close>

lemma drain_law:
  assumes "inv q" and "size (elems q) \<le> n" and "\<And>x y. le x y \<Longrightarrow> due y \<Longrightarrow> due x"
    and "drain isEmpty first pop due n q = (xs, q')"
  shows "inv q' \<and> mset xs = filter_mset due (elems q) \<and> elems q' = {#x \<in># elems q. \<not> due x#}
    \<and> sorted_wrt le xs"
  using assms
proof (induction n arbitrary: q xs)
  case 0
  then show ?case by auto
next
  case (Suc n)
  show ?case
  proof (cases "elems q = {#}")
    case True
    with Suc.prems show ?thesis by (auto simp: isEmpty_law)
  next
    case nonempty: False
    show ?thesis
    proof (cases "due (first q)")
      case False
      then have none: "\<not> due x" if "x \<in># elems q" for x
        using that Suc.prems(1,3) first_least by blast
      have "xs = []" "q' = q" using Suc.prems False by auto
      moreover have "filter_mset due (elems q) = {#}"
        using none by (auto simp: filter_mset_eq_mempty_iff)
      moreover have "{#x \<in># elems q. \<not> due x#} = elems q"
        using none by (auto simp: filter_mset_eq_conv)
      ultimately show ?thesis using Suc.prems(1) by simp
    next
      case True
      then obtain ys where ys: "drain isEmpty first pop due n (pop q) = (ys, q')" "xs = first q # ys"
        using Suc.prems nonempty by (auto simp: isEmpty_law split: prod.splits)
      have e: "elems q = add_mset (first q) (elems (pop q))"
        using Suc.prems(1) nonempty by (simp add: pop_elems first_in)
      have IH: "inv q' \<and> mset ys = filter_mset due (elems (pop q)) \<and>
          elems q' = {#x \<in># elems (pop q). \<not> due x#} \<and> sorted_wrt le ys"
        using Suc.IH[OF pop_inv[OF Suc.prems(1)] _ Suc.prems(3) ys(1)] Suc.prems(2) e by simp
      moreover have "le (first q) y" if "y \<in> set ys" for y
      proof -
        have "y \<in># elems (pop q)" using IH that by (metis filter_mset_eq_conv set_mset_mset mset_subset_eqD multiset_filter_subset)
        then show ?thesis using e first_least[OF Suc.prems(1)] by simp
      qed
      ultimately show ?thesis using ys(2) True e by simp
    qed
  qed
qed

end

end
