(* ===== verification/Timer_Queue.thy ===== *)
theory Timer_Queue
  imports Min_Queue "HOL-Library.Sublist"
begin

text \<open>
  \<^verbatim>\<open>src/include/godnet/net/timer.hpp\<close>, \<^verbatim>\<open>timer.cpp\<close>, \<^verbatim>\<open>timer_queue.hpp\<close> and
  \<^verbatim>\<open>timer_queue.cpp\<close>: timers and the queue of one event loop.

  Time points and durations are integers (milliseconds).  A timer's callback is a value
  of a type of its own; what running it does is an argument (\<open>run\<close>) of \<open>handlerTimer\<close>.
  The queue's state is a record other components extend, so that a callback may change
  more than the timers.  \<^verbatim>\<open>std::priority_queue\<close> is the list of its elements in order,
  \<^verbatim>\<open>std::unordered_set\<close> a set.  The timers of the queue are shared pointers;
  \<open>resetExpiration\<close> changes a timer only while no queue holds it, so a value is enough.
  The first argument \<open>il\<close> of the in-loop operations says whether the caller is the
  loop's thread: \<open>assertInLoopThread\<close> terminates the process when it is not.
\<close>

section \<open>Timers\<close>

record 'c timer =
  t_id :: nat
  expiration :: int
  interval :: int
  callback :: 'c

text \<open>\<^verbatim>\<open>++onlyId\<close> on a 64 bit counter; 0 is never used before the counter wraps.\<close>

definition GenerateTimerId :: "nat \<Rightarrow> nat" where
  "GenerateTimerId onlyId = (onlyId + 1) mod 2 ^ 64"

definition Timer :: "nat \<Rightarrow> int \<Rightarrow> int \<Rightarrow> 'c \<Rightarrow> 'c timer" where
  "Timer onlyId e i cb =
     \<lparr>t_id = GenerateTimerId onlyId, expiration = e, interval = i, callback = cb\<rparr>"

definition isRepeat :: "'c timer \<Rightarrow> bool" where
  "isRepeat t = (interval t > 0)"

definition resetExpiration :: "int \<Rightarrow> 'c timer \<Rightarrow> 'c timer" where
  "resetExpiration e t = t\<lparr>expiration := e + interval t\<rparr>"

text \<open>\<^verbatim>\<open>operator>\<close> on timers, which \<^verbatim>\<open>std::greater\<close> uses.\<close>

definition timer_greater :: "'c timer \<Rightarrow> 'c timer \<Rightarrow> bool" where
  "timer_greater lhs rhs =
     (if expiration lhs \<noteq> expiration rhs then expiration lhs > expiration rhs
      else t_id lhs > t_id rhs)"

abbreviation timer_le :: "'c timer \<Rightarrow> 'c timer \<Rightarrow> bool" where
  "timer_le a b \<equiv> \<not> timer_greater a b"

section \<open>The priority queue\<close>

fun pq_push :: "'c timer \<Rightarrow> 'c timer list \<Rightarrow> 'c timer list" where
  "pq_push t [] = [t]"
| "pq_push t (x # xs) = (if timer_greater t x then x # pq_push t xs else t # x # xs)"

lemma mset_pq_push [simp]: "mset (pq_push t ts) = add_mset t (mset ts)"
  by (induction ts) auto

lemma set_pq_push [simp]: "set (pq_push t ts) = insert t (set ts)"
  using mset_pq_push[of t ts] by (metis set_mset_add_mset_insert set_mset_mset)

lemma timer_le_trans: "timer_le a b \<Longrightarrow> timer_le b c \<Longrightarrow> timer_le a c"
  by (auto simp: timer_greater_def split: if_splits)

lemma timer_le_total: "timer_greater a b \<Longrightarrow> timer_le b a"
  by (auto simp: timer_greater_def split: if_splits)

lemma sorted_pq_push: "sorted_wrt timer_le ts \<Longrightarrow> sorted_wrt timer_le (pq_push t ts)"
proof (induction ts)
  case Nil
  show ?case by simp
next
  case (Cons x xs)
  then have "timer_le t y" if "timer_le t x" "y \<in> set (x # xs)" for y
    using that timer_le_trans[of t x y] by auto
  with Cons show ?case by (auto dest: timer_le_total)
qed

interpretation pq: min_queue "\<lambda>q. q = []" hd tl pq_push mset "sorted_wrt timer_le" timer_le
proof unfold_locales
  show "timer_le (hd q) x" if "sorted_wrt timer_le q" "x \<in># mset q" for q and x :: "'a timer"
    using that by (cases q) (auto simp: timer_greater_def)
  show "sorted_wrt timer_le (pq_push x q)" if "sorted_wrt timer_le q" for q and x :: "'a timer"
    using that by (rule sorted_pq_push)
  show "sorted_wrt timer_le (tl q)" if "sorted_wrt timer_le q" for q :: "'a timer list"
    using that by (cases q) auto
  show "mset (tl q) = mset q - {#hd q#}" if "sorted_wrt timer_le q" "mset q \<noteq> {#}"
    for q :: "'a timer list"
    using that by (cases q) auto
qed auto

section \<open>The timer queue\<close>

record 'c tqueue =
  timers :: "'c timer list"
  timerIds :: "nat set"

definition INT_MAX :: int where
  "INT_MAX = 2147483647"

definition addTimerInLoop :: "bool \<Rightarrow> 'c timer \<Rightarrow> ('c, 'z) tqueue_scheme \<Rightarrow> ('c, 'z) tqueue_scheme res" where
  "addTimerInLoop il t s = guarding Wrong_Thread il
     (Inr (s\<lparr>timerIds := insert (t_id t) (timerIds s), timers := pq_push t (timers s)\<rparr>))"

definition delTimerInLoop :: "build \<Rightarrow> bool \<Rightarrow> nat \<Rightarrow> ('c, 'z) tqueue_scheme \<Rightarrow> ('c, 'z) tqueue_scheme res" where
  "delTimerInLoop bd il i s = guarding Wrong_Thread il
     (asserting bd (i \<in> timerIds s) (Inr (s\<lparr>timerIds := timerIds s - {i}\<rparr>)))"

definition getNextTimeout :: "bool \<Rightarrow> int \<Rightarrow> ('c, 'z) tqueue_scheme \<Rightarrow> int res" where
  "getNextTimeout il now s = guarding Wrong_Thread il
     (if timers s = [] then Inr (-1)
      else if expiration (hd (timers s)) \<le> now then Inr 0
      else let diff = expiration (hd (timers s)) - now in
        Inr (if diff > INT_MAX then INT_MAX else diff))"

definition getExpiredTimers :: "int \<Rightarrow> ('c, 'z) tqueue_scheme \<Rightarrow> 'c timer list \<times> ('c, 'z) tqueue_scheme" where
  "getExpiredTimers now s =
     (let (expiredTimers, rest) = drain (\<lambda>q. q = []) hd tl (\<lambda>t. expiration t \<le> now)
        (length (timers s)) (timers s)
      in (expiredTimers, s\<lparr>timers := rest\<rparr>))"

fun resetExpiredTimers :: "'c timer list \<Rightarrow> int \<Rightarrow> ('c, 'z) tqueue_scheme \<Rightarrow> ('c, 'z) tqueue_scheme" where
  "resetExpiredTimers [] now s = s"
| "resetExpiredTimers (t # ts) now s = resetExpiredTimers ts now
     (if t_id t \<in> timerIds s then
        if isRepeat t then s\<lparr>timers := pq_push (resetExpiration now t) (timers s)\<rparr>
        else s\<lparr>timerIds := timerIds s - {t_id t}\<rparr>
      else s)"

text \<open>
  The loop over the expired timers in \<open>handlerTimer\<close>: each is run if its id is still
  live when its turn comes.  The timers that were run are returned as well.
\<close>

fun runExpired :: "('c timer \<Rightarrow> ('c, 'z) tqueue_scheme \<Rightarrow> ('c, 'z) tqueue_scheme res) \<Rightarrow>
    'c timer list \<Rightarrow> ('c, 'z) tqueue_scheme \<Rightarrow> ('c timer list \<times> ('c, 'z) tqueue_scheme) res" where
  "runExpired run [] s = Inr ([], s)"
| "runExpired run (t # ts) s =
     (if t_id t \<in> timerIds s then
        res_bind (run t s) (\<lambda>s1. res_bind (runExpired run ts s1) (\<lambda>(fired, s2). Inr (t # fired, s2)))
      else runExpired run ts s)"

definition handlerTimer :: "('c timer \<Rightarrow> ('c, 'z) tqueue_scheme \<Rightarrow> ('c, 'z) tqueue_scheme res) \<Rightarrow>
    bool \<Rightarrow> int \<Rightarrow> ('c, 'z) tqueue_scheme \<Rightarrow> ('c timer list \<times> ('c, 'z) tqueue_scheme) res" where
  "handlerTimer run il now s = guarding Wrong_Thread il
     (let (expireds, s1) = getExpiredTimers now s in
      res_bind (runExpired run expireds s1) (\<lambda>(fired, s2).
        Inr (fired, resetExpiredTimers expireds now s2)))"

section \<open>Invariant\<close>

abbreviation ids :: "'c timer list \<Rightarrow> nat set" where
  "ids ts \<equiv> t_id ` set ts"

text \<open>
  The queue is in order, no two queued timers have the same id, and every live id belongs
  to a queued timer; while \<open>handlerTimer\<close> works, to a queued or an expired one.
\<close>

definition tq_mid :: "'c timer list \<Rightarrow> ('c, 'z) tqueue_scheme \<Rightarrow> bool" where
  "tq_mid ex s \<longleftrightarrow> sorted_wrt timer_le (timers s) \<and> distinct (map t_id (ex @ timers s)) \<and>
     timerIds s \<subseteq> ids (ex @ timers s)"

definition tq_inv :: "('c, 'z) tqueue_scheme \<Rightarrow> bool" where
  "tq_inv s \<longleftrightarrow> tq_mid [] s"

text \<open>
  The contract of a callback: it changes the timers by \<open>addTimerInLoop\<close> and
  \<open>delTimerInLoop\<close> only, and the timers it adds have ids of the set \<open>U\<close> of ids not issued
  before.
\<close>

inductive timer_steps :: "nat set \<Rightarrow> ('c, 'z) tqueue_scheme \<Rightarrow> ('c, 'z) tqueue_scheme \<Rightarrow> bool"
  for U :: "nat set" where
  ts_frame: "timers s' = timers s \<Longrightarrow> timerIds s' = timerIds s \<Longrightarrow> timer_steps U s s'"
| ts_add: "t_id t \<in> U \<Longrightarrow> t_id t \<notin> ids (timers s) \<Longrightarrow> addTimerInLoop True t s = Inr s' \<Longrightarrow>
     timer_steps U s s'"
| ts_del: "delTimerInLoop bd True i s = Inr s' \<Longrightarrow> timer_steps U s s'"
| ts_trans: "timer_steps U s s1 \<Longrightarrow> timer_steps U s1 s' \<Longrightarrow> timer_steps U s s'"

lemma addTimerInLoop_simp:
  "addTimerInLoop True t s =
     Inr (s\<lparr>timerIds := insert (t_id t) (timerIds s), timers := pq_push t (timers s)\<rparr>)"
  by (simp add: addTimerInLoop_def)

lemma delTimerInLoop_Inr:
  "delTimerInLoop bd True i s = Inr s' \<longleftrightarrow>
     (bd = Release \<or> i \<in> timerIds s) \<and> s' = s\<lparr>timerIds := timerIds s - {i}\<rparr>"
  by (auto simp: delTimerInLoop_def asserting_Inr_iff)

lemma distinct_ids_pq_push:
  "distinct (map t_id (ex @ pq_push t ts)) \<longleftrightarrow>
     t_id t \<notin> ids (ex @ ts) \<and> distinct (map t_id (ex @ ts))"
proof -
  have "distinct (map t_id (ex @ pq_push t ts)) \<longleftrightarrow> distinct (map t_id (t # ex @ ts))"
    by (intro mset_eq_imp_distinct_iff) simp
  then show ?thesis by (simp add: image_Un)
qed

lemma timer_steps_mid:
  assumes "timer_steps U s s'" and "tq_mid ex s" and "ids ex \<inter> U = {}"
  shows "tq_mid ex s'"
  using assms
proof (induction rule: timer_steps.induct)
  case (ts_add t s s')
  then have "distinct (map t_id (ex @ pq_push t (timers s)))"
    unfolding distinct_ids_pq_push by (auto simp: tq_mid_def)
  with ts_add show ?case
    by (auto simp: addTimerInLoop_simp tq_mid_def sorted_pq_push simp del: map_append)
qed (auto simp: tq_mid_def delTimerInLoop_Inr)

lemma timer_steps_ids: "timer_steps U s s' \<Longrightarrow> timerIds s' \<subseteq> timerIds s \<union> U"
  by (induction rule: timer_steps.induct) (auto simp: addTimerInLoop_simp delTimerInLoop_Inr)

lemma timer_steps_timers: "timer_steps U s s' \<Longrightarrow> set (timers s) \<subseteq> set (timers s')"
  by (induction rule: timer_steps.induct) (auto simp: addTimerInLoop_simp delTimerInLoop_Inr)

section \<open>Taking out the expired timers\<close>

lemma getExpired_spec:
  assumes "sorted_wrt timer_le (timers s)" and "getExpiredTimers now s = (ex, s1)"
  shows "mset ex = {#t \<in># mset (timers s). expiration t \<le> now#}"
    and "mset (timers s1) = {#t \<in># mset (timers s). \<not> expiration t \<le> now#}"
    and "sorted_wrt timer_le ex" and "sorted_wrt timer_le (timers s1)"
    and "s1 = s\<lparr>timers := timers s1\<rparr>"
proof -
  obtain rest where d: "drain (\<lambda>q. q = []) hd tl (\<lambda>t. expiration t \<le> now)
      (length (timers s)) (timers s) = (ex, rest)" "s1 = s\<lparr>timers := rest\<rparr>"
    using assms(2) by (auto simp: getExpiredTimers_def split: prod.splits)
  have "sorted_wrt timer_le rest \<and> mset ex = {#t \<in># mset (timers s). expiration t \<le> now#} \<and>
      mset rest = {#t \<in># mset (timers s). \<not> expiration t \<le> now#} \<and> sorted_wrt timer_le ex"
    by (rule pq.drain_law[OF assms(1) _ _ d(1)]) (auto simp: timer_greater_def split: if_splits)
  with d(2) show "mset ex = {#t \<in># mset (timers s). expiration t \<le> now#}"
    "mset (timers s1) = {#t \<in># mset (timers s). \<not> expiration t \<le> now#}"
    "sorted_wrt timer_le ex" "sorted_wrt timer_le (timers s1)" "s1 = s\<lparr>timers := timers s1\<rparr>"
    by simp_all
qed

lemma getExpired_mid:
  assumes "tq_inv s" and "getExpiredTimers now s = (ex, s1)"
  shows "tq_mid ex s1" and "timerIds s1 = timerIds s"
    and "set ex = {t \<in> set (timers s). expiration t \<le> now}"
    and "set (timers s1) = {t \<in> set (timers s). \<not> expiration t \<le> now}"
    and "sorted_wrt timer_le ex"
proof -
  have sorted: "sorted_wrt timer_le (timers s)" using assms(1) by (simp add: tq_inv_def tq_mid_def)
  note spec = getExpired_spec[OF sorted assms(2)]
  show ids: "timerIds s1 = timerIds s" by (subst spec(5)) simp
  show ex: "set ex = {t \<in> set (timers s). expiration t \<le> now}"
    using arg_cong[OF spec(1), of set_mset] by simp
  show ts: "set (timers s1) = {t \<in> set (timers s). \<not> expiration t \<le> now}"
    using arg_cong[OF spec(2), of set_mset] by simp
  have "mset (ex @ timers s1) = mset (timers s)"
    using spec(1,2) by simp
  then have "mset (map t_id (ex @ timers s1)) = mset (map t_id (timers s))"
    by (metis mset_map)
  then have "distinct (map t_id (ex @ timers s1)) \<longleftrightarrow> distinct (map t_id (timers s))"
    by (rule mset_eq_imp_distinct_iff)
  then have "distinct (map t_id (ex @ timers s1))"
    using assms(1) unfolding tq_inv_def tq_mid_def by simp
  moreover have "timerIds s1 \<subseteq> ids (ex @ timers s1)"
    using assms(1) ids ex ts by (auto simp: tq_inv_def tq_mid_def)
  ultimately show "tq_mid ex s1" using spec(4) by (simp add: tq_mid_def)
  show "sorted_wrt timer_le ex" by (rule spec(3))
qed

section \<open>Running and re-arming them\<close>

text \<open>
  An expired timer whose id is live at the start runs, unless the callback of an earlier one
  that ran took its id from the live ones.
\<close>

lemma runExpired_unless_cancelled:
  assumes "runExpired run ex s = Inr (fired, s')" and "sorted_wrt timer_le ex"
    and "t \<in> set ex" and "t_id t \<in> timerIds s" and "t \<notin> set fired"
  shows "\<exists>u \<in> set fired. timer_le u t \<and>
    (\<exists>a b. run u a = Inr b \<and> t_id t \<in> timerIds a \<and> t_id t \<notin> timerIds b)"
  using assms
proof (induction ex arbitrary: s fired)
  case Nil
  then show ?case by simp
next
  case (Cons u ex)
  show ?case
  proof (cases "t_id u \<in> timerIds s")
    case True
    then obtain s1 r where r: "run u s = Inr s1" "runExpired run ex s1 = Inr (r, s')" "fired = u # r"
      using Cons.prems(1) by (auto simp: res_bind_Inr_iff)
    with Cons.prems have t: "t \<in> set ex" "t \<notin> set r" "timer_le u t" by auto
    show ?thesis
    proof (cases "t_id t \<in> timerIds s1")
      case live: True
      from Cons.IH[OF r(2) _ t(1) live t(2)] Cons.prems(2) r(3) show ?thesis by auto
    next
      case False
      with r t(3) Cons.prems(4) show ?thesis by auto
    qed
  next
    case False
    with Cons.prems have "t \<in> set ex" by auto
    with Cons False show ?thesis by auto
  qed
qed

text \<open>
  \<open>I\<close> is an invariant of the provider of the callbacks, about which ids are in use; \<open>ok\<close> is a
  condition that, when it holds at the end, held all the way (that the counter of the ids has
  not wrapped).
\<close>

locale timer_client =
  fixes run :: "'c timer \<Rightarrow> ('c, 'z) tqueue_scheme \<Rightarrow> ('c, 'z) tqueue_scheme res"
    and U :: "nat set" and I ok :: "('c, 'z) tqueue_scheme \<Rightarrow> bool"
  assumes run_inv: "I s \<Longrightarrow> run t s = Inr s' \<Longrightarrow> I s'"
    and run_steps: "I s \<Longrightarrow> run t s = Inr s' \<Longrightarrow> ok s' \<Longrightarrow> timer_steps U s s' \<and> ok s"
    and inv_less: "I s \<Longrightarrow> set ts \<subseteq> set (timers s) \<Longrightarrow> I (s\<lparr>timers := ts\<rparr>)"
    and ok_frame: "ok (s\<lparr>timers := ts, timerIds := is\<rparr>) = ok s"
begin

lemma runExpired_steps:
  "I s \<Longrightarrow> runExpired run ex s = Inr (fired, s') \<Longrightarrow> ok s' \<Longrightarrow> timer_steps U s s' \<and> ok s"
proof (induction ex arbitrary: s fired)
  case Nil
  then show ?case by (simp add: ts_frame)
next
  case (Cons t ex)
  show ?case
  proof (cases "t_id t \<in> timerIds s")
    case True
    then obtain s1 r where r: "run t s = Inr s1" "runExpired run ex s1 = Inr (r, s')"
      using Cons.prems(2) by (auto simp: res_bind_Inr_iff)
    have "timer_steps U s1 s' \<and> ok s1"
      using Cons.IH[OF run_inv[OF Cons.prems(1) r(1)] r(2) Cons.prems(3)] .
    with run_steps[OF Cons.prems(1) r(1)] show ?thesis by (blast intro: ts_trans)
  next
    case False
    then show ?thesis using Cons by simp
  qed
qed

text \<open>
  The timers that ran are expired ones, in their order, whose ids were live at the start;
  one that did not run was cancelled.
\<close>

lemma runExpired_fired:
  assumes "runExpired run ex s = Inr (fired, s')" and "ids ex \<inter> U = {}" and "I s" and "ok s'"
  shows "subseq fired ex" and "ids fired \<subseteq> timerIds s"
    and "\<forall>t \<in> set ex. t \<notin> set fired \<longrightarrow> t_id t \<notin> timerIds s'"
proof -
  have "subseq fired ex \<and> ids fired \<subseteq> timerIds s \<and>
      (\<forall>t \<in> set ex. t \<notin> set fired \<longrightarrow> t_id t \<notin> timerIds s')"
    using assms
  proof (induction ex arbitrary: s fired)
    case Nil
    then show ?case by simp
  next
    case (Cons t ex)
    have fresh: "ids ex \<inter> U = {}" "t_id t \<notin> U" using Cons.prems(2) by auto
    show ?case
    proof (cases "t_id t \<in> timerIds s")
      case True
      then obtain s1 r where r: "run t s = Inr s1" "runExpired run ex s1 = Inr (r, s')" "fired = t # r"
        using Cons.prems(1) by (auto simp: res_bind_Inr_iff)
      have IH: "subseq r ex \<and> ids r \<subseteq> timerIds s1 \<and>
          (\<forall>t \<in> set ex. t \<notin> set r \<longrightarrow> t_id t \<notin> timerIds s')"
        using Cons.IH[OF r(2) fresh(1) run_inv[OF Cons.prems(3) r(1)] Cons.prems(4)] .
      have "ok s1"
        using runExpired_steps[OF run_inv[OF Cons.prems(3) r(1)] r(2) Cons.prems(4)] by blast
      then have sub: "timerIds s1 \<subseteq> timerIds s \<union> U"
        using run_steps[OF Cons.prems(3) r(1)] timer_steps_ids by blast
      have "ids r \<subseteq> ids ex" using IH by (auto dest: list_emb_set)
      then have "ids r \<subseteq> timerIds s" using IH sub fresh(1) by blast
      with IH True r(3) show ?thesis by auto
    next
      case False
      then have r: "runExpired run ex s = Inr (fired, s')" using Cons.prems(1) by simp
      have "timerIds s' \<subseteq> timerIds s \<union> U"
        using runExpired_steps[OF Cons.prems(3) r Cons.prems(4)] timer_steps_ids by blast
      with False Cons.IH[OF r fresh(1) Cons.prems(3,4)] fresh(2) show ?thesis by auto
    qed
  qed
  then show "subseq fired ex" "ids fired \<subseteq> timerIds s"
    "\<forall>t \<in> set ex. t \<notin> set fired \<longrightarrow> t_id t \<notin> timerIds s'" by blast+
qed

lemma runExpired_total:
  assumes "\<And>t s. \<exists>s'. run t s = Inr s'"
  shows "\<exists>fired s'. runExpired run ex s = Inr (fired, s')"
proof (induction ex arbitrary: s)
  case (Cons t ex)
  obtain s1 where "run t s = Inr s1" using assms by blast
  moreover obtain r s2 where "runExpired run ex s1 = Inr (r, s2)" using Cons by blast
  moreover obtain r' s2' where "runExpired run ex s = Inr (r', s2')" using Cons by blast
  ultimately show ?case by simp
qed simp

end

text \<open>What \<open>resetExpiredTimers\<close> does to the live ids and to the queue.\<close>

lemma reset_timerIds:
  "timerIds (resetExpiredTimers ex now s) = timerIds s - {t_id t |t. t \<in> set ex \<and> \<not> isRepeat t}"
  by (induction ex arbitrary: s) (auto split: if_splits)

lemma reset_frame:
  "resetExpiredTimers ex now s = s\<lparr>timers := timers (resetExpiredTimers ex now s),
    timerIds := timerIds (resetExpiredTimers ex now s)\<rparr>"
proof (induction ex arbitrary: s)
  case (Cons t ex)
  let ?s = "if t_id t \<in> timerIds s then
      if isRepeat t then s\<lparr>timers := pq_push (resetExpiration now t) (timers s)\<rparr>
      else s\<lparr>timerIds := timerIds s - {t_id t}\<rparr> else s"
  have "resetExpiredTimers (t # ex) now s = resetExpiredTimers ex now ?s" by simp
  also have "\<dots> = ?s\<lparr>timers := timers (resetExpiredTimers ex now ?s),
      timerIds := timerIds (resetExpiredTimers ex now ?s)\<rparr>" by (rule Cons.IH)
  finally show ?case by auto
qed simp

lemma reset_timers:
  assumes "distinct (map t_id ex)"
  shows "mset (timers (resetExpiredTimers ex now s)) = mset (timers s) +
    mset (map (resetExpiration now) (filter (\<lambda>t. t_id t \<in> timerIds s \<and> isRepeat t) ex))"
  using assms
proof (induction ex arbitrary: s)
  case Nil
  show ?case by simp
next
  case (Cons t ex)
  have "t_id t \<notin> ids ex" using Cons.prems by simp
  then have "t_id u \<noteq> t_id t" if "u \<in> set ex" for u using that by (metis image_eqI)
  then have "filter (\<lambda>u. t_id u \<in> timerIds s - {t_id t} \<and> isRepeat u) ex =
      filter (\<lambda>u. t_id u \<in> timerIds s \<and> isRepeat u) ex"
    by (intro filter_cong) auto
  from Cons arg_cong[OF this, of mset] show ?case by simp
qed

lemma reset_sorted:
  "sorted_wrt timer_le (timers s) \<Longrightarrow> sorted_wrt timer_le (timers (resetExpiredTimers ex now s))"
  by (induction ex arbitrary: s) (auto simp: sorted_pq_push)

lemma reset_inv:
  assumes "tq_mid ex s"
  shows "tq_inv (resetExpiredTimers ex now s)"
proof -
  let ?s = "resetExpiredTimers ex now s"
  let ?re = "map (resetExpiration now) (filter (\<lambda>t. t_id t \<in> timerIds s \<and> isRepeat t) ex)"
  have d: "distinct (map t_id (ex @ timers s))" "timerIds s \<subseteq> ids (ex @ timers s)"
    using assms unfolding tq_mid_def by blast+
  have ts: "mset (timers ?s) = mset (timers s @ ?re)"
    using d(1) by (simp add: reset_timers)
  have "mset (map t_id (timers ?s)) = mset (map t_id (timers s @ ?re))"
    unfolding mset_map ts ..
  then have "distinct (map t_id (timers ?s)) \<longleftrightarrow> distinct (map t_id (timers s @ ?re))"
    by (rule mset_eq_imp_distinct_iff)
  moreover have re: "map t_id ?re = map t_id (filter (\<lambda>t. t_id t \<in> timerIds s \<and> isRepeat t) ex)"
    by (simp add: resetExpiration_def)
  have "distinct (map t_id (timers s @ ?re))"
    using d(1) unfolding map_append re by (auto simp: distinct_map_filter)
  ultimately have "distinct (map t_id (timers ?s))" by blast
  moreover have "timerIds ?s \<subseteq> ids (timers ?s)"
  proof
    fix i assume i: "i \<in> timerIds ?s"
    then have live: "i \<in> timerIds s" "\<forall>t \<in> set ex. t_id t = i \<longrightarrow> isRepeat t"
      by (auto simp: reset_timerIds)
    have set: "set (timers ?s) = set (timers s) \<union> set ?re"
      using arg_cong[OF ts, of set_mset] by simp
    from live(1) d(2) obtain t where t: "t \<in> set ex \<or> t \<in> set (timers s)" "t_id t = i" by auto
    show "i \<in> ids (timers ?s)"
    proof (cases "t \<in> set ex")
      case True
      then have "resetExpiration now t \<in> set ?re" using live t(2) by auto
      moreover have "t_id (resetExpiration now t) = i" using t(2) by (simp add: resetExpiration_def)
      ultimately show ?thesis unfolding set by (metis UnI2 image_eqI)
    next
      case False
      then show ?thesis unfolding set using t by auto
    qed
  qed
  moreover have "sorted_wrt timer_le (timers ?s)"
    using assms by (simp add: tq_mid_def reset_sorted)
  ultimately show ?thesis by (simp add: tq_inv_def tq_mid_def)
qed

section \<open>One round of the timers\<close>

lemma distinct_subseq: "subseq xs ys \<Longrightarrow> distinct ys \<Longrightarrow> distinct xs"
proof (induction rule: list_emb.induct)
  case (list_emb_Cons2 x y xs ys)
  then show ?case by (auto dest: list_emb_set)
qed auto

lemma sorted_wrt_subseq: "subseq xs ys \<Longrightarrow> sorted_wrt P ys \<Longrightarrow> sorted_wrt P xs"
proof (induction rule: list_emb.induct)
  case (list_emb_Cons2 x y xs ys)
  then show ?case by (auto dest: list_emb_set)
qed auto

context timer_client
begin

lemma handler_round:
  assumes inv: "tq_inv s" and U: "ids (timers s) \<inter> U = {}"
    and h: "handlerTimer run True now s = Inr (fired, s')" and I: "I s" and ok': "ok s'"
  shows "tq_inv s'" and "sorted_wrt timer_le fired" and "distinct (map t_id fired)"
    and "set fired \<subseteq> {t \<in> set (timers s). expiration t \<le> now \<and> t_id t \<in> timerIds s}"
    and "\<forall>t \<in> set (timers s). expiration t \<le> now \<and> t_id t \<in> timerIds s' \<longrightarrow>
           t \<in> set fired \<and> isRepeat t \<and> resetExpiration now t \<in> set (timers s')"
    and "\<forall>t \<in> set (timers s). now < expiration t \<longrightarrow> t \<in> set (timers s')"
    and "timerIds s' \<subseteq> timerIds s \<union> U"
    and "\<forall>t \<in> set (timers s). expiration t \<le> now \<and> t_id t \<in> timerIds s \<and> t \<notin> set fired \<longrightarrow>
           (\<exists>u \<in> set fired. timer_le u t \<and>
             (\<exists>a b. run u a = Inr b \<and> t_id t \<in> timerIds a \<and> t_id t \<notin> timerIds b))"
proof -
  obtain ex s1 where ex: "getExpiredTimers now s = (ex, s1)" by fastforce
  with h obtain s2 where s2: "runExpired run ex s1 = Inr (fired, s2)"
      "s' = resetExpiredTimers ex now s2"
    by (auto simp: handlerTimer_def res_bind_Inr_iff)
  note mid = getExpired_mid[OF inv ex]
  have fresh: "ids ex \<inter> U = {}" using U mid(3) by auto
  have I1: "I s1"
  proof -
    have "sorted_wrt timer_le (timers s)" using inv by (simp add: tq_inv_def tq_mid_def)
    from getExpired_spec(5)[OF this ex] have "s1 = s\<lparr>timers := timers s1\<rparr>" .
    then show ?thesis using inv_less[OF I, of "timers s1"] mid(4) by auto
  qed
  have ok2: "ok s2" using ok' unfolding s2(2) by (subst (asm) reset_frame) (simp add: ok_frame)
  have steps: "timer_steps U s1 s2" using runExpired_steps[OF I1 s2(1) ok2] by blast
  note ran = runExpired_fired[OF s2(1) fresh I1 ok2]
  have mid2: "tq_mid ex s2" using timer_steps_mid[OF steps mid(1) fresh] .
  then have d: "distinct (map t_id ex)" unfolding tq_mid_def by simp
  have reset: "mset (timers s') = mset (timers s2) +
      mset (map (resetExpiration now) (filter (\<lambda>t. t_id t \<in> timerIds s2 \<and> isRepeat t) ex))"
    unfolding s2(2) by (rule reset_timers[OF d])
  have set': "set (timers s') = set (timers s2) \<union>
      resetExpiration now ` {t \<in> set ex. t_id t \<in> timerIds s2 \<and> isRepeat t}"
    using arg_cong[OF reset, of set_mset] by auto
  have fired_ex: "set fired \<subseteq> set ex" using ran(1) by (auto dest: list_emb_set)
  show "tq_inv s'" unfolding s2(2) by (rule reset_inv[OF mid2])
  show "sorted_wrt timer_le fired"
    using ran(1) mid(5) by (rule sorted_wrt_subseq)
  show "distinct (map t_id fired)"
    using d ran(1) by (meson subseq_map distinct_subseq)
  show "set fired \<subseteq> {t \<in> set (timers s). expiration t \<le> now \<and> t_id t \<in> timerIds s}"
    using fired_ex mid(2,3) ran(2) by auto
  show "\<forall>t \<in> set (timers s). expiration t \<le> now \<and> t_id t \<in> timerIds s' \<longrightarrow>
      t \<in> set fired \<and> isRepeat t \<and> resetExpiration now t \<in> set (timers s')"
  proof (intro ballI impI)
    fix t assume t: "t \<in> set (timers s)" "expiration t \<le> now \<and> t_id t \<in> timerIds s'"
    then have tex: "t \<in> set ex" using mid(3) by simp
    with t(2) have live: "t_id t \<in> timerIds s2" "isRepeat t"
      unfolding s2(2) reset_timerIds by auto
    with tex ran(3) set' show "t \<in> set fired \<and> isRepeat t \<and> resetExpiration now t \<in> set (timers s')"
      by blast
  qed
  show "\<forall>t \<in> set (timers s). now < expiration t \<longrightarrow> t \<in> set (timers s')"
    using mid(4) timer_steps_timers[OF steps] set' by auto
  show "timerIds s' \<subseteq> timerIds s \<union> U"
    using timer_steps_ids[OF steps] mid(2) unfolding s2(2) reset_timerIds by blast
  show "\<forall>t \<in> set (timers s). expiration t \<le> now \<and> t_id t \<in> timerIds s \<and> t \<notin> set fired \<longrightarrow>
      (\<exists>u \<in> set fired. timer_le u t \<and>
        (\<exists>a b. run u a = Inr b \<and> t_id t \<in> timerIds a \<and> t_id t \<notin> timerIds b))"
    using runExpired_unless_cancelled[OF s2(1) mid(5)] mid(2,3) by auto
qed

lemma handler_total:
  assumes "\<And>t s. \<exists>s'. run t s = Inr s'"
  shows "\<exists>fired s'. handlerTimer run True now s = Inr (fired, s')"
proof -
  obtain ex s1 where ex: "getExpiredTimers now s = (ex, s1)" by fastforce
  obtain f s2 where "runExpired run ex s1 = Inr (f, s2)" using runExpired_total[OF assms] by blast
  with ex show ?thesis by (simp add: handlerTimer_def)
qed

end

text \<open>
  One due timer that does not repeat: it is taken from the queue, its callback runs, and then its id is erased.
  This is what a round does for it when no other timer is due.
\<close>

definition run_timer :: "('c timer \<Rightarrow> ('c, 'z) tqueue_scheme \<Rightarrow> ('c, 'z) tqueue_scheme res) \<Rightarrow>
    'c timer \<Rightarrow> ('c, 'z) tqueue_scheme \<Rightarrow> ('c, 'z) tqueue_scheme res" where
  "run_timer run t s = res_bind (run t (s\<lparr>timers := remove1 t (timers s)\<rparr>))
     (\<lambda>s1. Inr (s1\<lparr>timerIds := timerIds s1 - {t_id t}\<rparr>))"

lemma handlerTimer_one:
  assumes "timers s = t # ts" and "expiration t \<le> now" and "\<forall>u \<in> set ts. now < expiration u"
    and "t_id t \<in> timerIds s" and "\<not> isRepeat t"
  shows "handlerTimer run True now s = res_bind (run_timer run t s) (\<lambda>s1. Inr ([t], s1))"
proof -
  have "drain (\<lambda>q. q = []) hd tl (\<lambda>t. expiration t \<le> now) (length ts) ts = ([], ts)"
    using assms(3) by (cases ts) auto
  then have ex: "getExpiredTimers now s = ([t], s\<lparr>timers := ts\<rparr>)"
    using assms(1,2) by (simp add: getExpiredTimers_def)
  have "resetExpiredTimers [t] now s2 = s2\<lparr>timerIds := timerIds s2 - {t_id t}\<rparr>" for s2 :: "('a, 'b) tqueue_scheme"
    using assms(5) by simp
  with ex assms(1,4) show ?thesis
    by (cases "run t (s\<lparr>timers := ts\<rparr>)") (simp_all add: handlerTimer_def run_timer_def)
qed

text \<open>
  A history of one queue: other code adds and cancels timers, and rounds of the timers are
  run, each with callbacks that keep to the contract.  \<open>V\<close> are the ids issued in the
  course of it; the list are the timers that fire.
\<close>

inductive tq_history :: "nat set \<Rightarrow> ('c, 'z) tqueue_scheme \<Rightarrow> 'c timer list \<Rightarrow>
    ('c, 'z) tqueue_scheme \<Rightarrow> bool" for V :: "nat set" where
  tqh_done: "tq_history V s [] s"
| tqh_other: "timer_steps U s s1 \<Longrightarrow> U \<subseteq> V \<Longrightarrow> tq_history V s1 fired s' \<Longrightarrow> tq_history V s fired s'"
| tqh_round: "timer_client run U I ok \<Longrightarrow> U \<subseteq> V \<Longrightarrow> ids (timers s) \<inter> U = {} \<Longrightarrow>
     handlerTimer run True now s = Inr (f, s1) \<Longrightarrow> I s \<Longrightarrow> ok s1 \<Longrightarrow> tq_history V s1 fired s' \<Longrightarrow>
     tq_history V s (f @ fired) s'"

lemma tq_history_dead:
  assumes "tq_history V s fired s'" and "tq_inv s" and "i \<notin> V" and "i \<notin> timerIds s"
  shows "i \<notin> ids fired \<and> i \<notin> timerIds s' \<and> tq_inv s'"
  using assms
proof (induction rule: tq_history.induct)
  case (tqh_done s)
  then show ?case by simp
next
  case (tqh_other U s s1 fired s')
  then show ?case
    using timer_steps_ids[of U s s1] timer_steps_mid[of U s s1 "[]"] by (auto simp: tq_inv_def)
next
  case (tqh_round run U I ok s now f s1 fired s')
  note round = timer_client.handler_round[OF tqh_round.hyps(1) tqh_round.prems(1)
      tqh_round.hyps(3-6)]
  have "i \<notin> timerIds s1" using round(7) tqh_round by blast
  then have "i \<notin> ids fired \<and> i \<notin> timerIds s' \<and> tq_inv s'"
    using tqh_round round(1) by blast
  moreover have "i \<notin> ids f" using round(4) tqh_round.prems(3) by blast
  ultimately show ?case by auto
qed

section \<open>The next timeout\<close>

lemma hd_least:
  assumes "sorted_wrt timer_le ts" and "u \<in> set ts"
  shows "expiration (hd ts) \<le> expiration u"
  using pq.first_least[OF assms(1), of u] assms(2) by (auto simp: timer_greater_def split: if_splits)

lemma getNextTimeout_nonempty:
  assumes "timers s \<noteq> []"
  shows "getNextTimeout True now s = Inr (min INT_MAX (max 0 (expiration (hd (timers s)) - now)))"
  using assms by (auto simp: getNextTimeout_def Let_def INT_MAX_def min_def max_def)

section \<open>Properties\<close>

text \<open>
  C26. One round of the timers, with callbacks that add timers under new ids and cancel
  timers as they like: it returns, and unless the counter of the ids wrapped in it, the timers
  that fire are, in the order of \<^verbatim>\<open>operator>\<close> and each once, queued timers that are due
  and were live; every due and live timer fires, one-shot or repeating, unless the callback of
  one that fired before it cancelled it; a due timer that is still live afterwards has fired, is
  a repeating one and is queued again for \<open>now\<close> plus its interval, which is later than
  \<open>now\<close> (so a one-shot timer that fired is live no more); timers that are not due stay queued;
  and the queue's invariant holds again.
\<close>

theorem timer_round:
  assumes "tq_inv s" and "timer_client run U I ok" and "\<And>t s. \<exists>s'. run t s = Inr s'"
    and "ids (timers s) \<inter> U = {}" and "I s"
  shows "\<exists>fired s'. handlerTimer run True now s = Inr (fired, s') \<and> (ok s' \<longrightarrow> tq_inv s' \<and>
    sorted_wrt timer_le fired \<and> distinct (map t_id fired) \<and>
    set fired \<subseteq> {t \<in> set (timers s). expiration t \<le> now \<and> t_id t \<in> timerIds s} \<and>
    (\<forall>t \<in> set (timers s). expiration t \<le> now \<and> t_id t \<in> timerIds s \<and> t \<notin> set fired \<longrightarrow>
       (\<exists>u \<in> set fired. timer_le u t \<and>
         (\<exists>a b. run u a = Inr b \<and> t_id t \<in> timerIds a \<and> t_id t \<notin> timerIds b))) \<and>
    (\<forall>t \<in> set (timers s). expiration t \<le> now \<and> t_id t \<in> timerIds s' \<longrightarrow>
       t \<in> set fired \<and> isRepeat t \<and> resetExpiration now t \<in> set (timers s') \<and>
       now < expiration (resetExpiration now t)) \<and>
    (\<forall>t \<in> set (timers s). now < expiration t \<longrightarrow> t \<in> set (timers s')))"
proof -
  obtain fired s' where h: "handlerTimer run True now s = Inr (fired, s')"
    using timer_client.handler_total[OF assms(2,3)] by blast
  note round = timer_client.handler_round[OF assms(2,1,4) h assms(5)]
  have "now < expiration (resetExpiration now t)" if "isRepeat t" for t :: "'a timer"
    using that by (simp add: isRepeat_def resetExpiration_def)
  with h round(1-6,8) show ?thesis by blast
qed

definition sample_queue :: "nat tqueue" where
  "sample_queue = \<lparr>timers = [\<lparr>t_id = 1, expiration = 5, interval = 0, callback = 10\<rparr>,
     \<lparr>t_id = 3, expiration = 6, interval = 10, callback = 30\<rparr>,
     \<lparr>t_id = 2, expiration = 7, interval = 0, callback = 20\<rparr>], timerIds = {1, 2, 3}\<rparr>"

text \<open>
  The first of three due timers cancels the last one, which does not fire; the other two do,
  since no callback can have cancelled them.
\<close>

theorem timer_round_witness:
  "\<exists>fired s'. handlerTimer (\<lambda>t. if t_id t = 1 then delTimerInLoop Release True 2 else Inr)
     True 50 sample_queue = Inr (fired, s') \<and> tq_inv s' \<and> ids fired = {1, 3} \<and>
     (\<forall>t \<in> set (timers sample_queue). t_id t \<noteq> 2 \<longrightarrow> t \<in> set fired)"
proof -
  have inv: "tq_inv sample_queue"
    by (auto simp: tq_inv_def tq_mid_def sample_queue_def timer_greater_def)
  let ?run = "\<lambda>t :: nat timer. if t_id t = 1 then delTimerInLoop Release True 2
    else (Inr :: nat tqueue \<Rightarrow> nat tqueue res)"
  have client: "timer_client ?run {} (\<lambda>_. True) (\<lambda>_. True)"
    by unfold_locales (auto split: if_splits intro: ts_del ts_frame)
  have total: "\<exists>s'. ?run t s = Inr s'" for t s by (simp add: delTimerInLoop_def)
  have "ids (timers sample_queue) \<inter> {} = {}" by simp
  note round = timer_round[OF inv client total this TrueI, of 50]
  from round obtain fired s' where
    r: "handlerTimer ?run True 50 sample_queue = Inr (fired, s')" "tq_inv s'" and
    c: "\<forall>t \<in> set (timers sample_queue). expiration t \<le> 50 \<and> t_id t \<in> timerIds sample_queue \<and> t \<notin> set fired \<longrightarrow>
       (\<exists>u \<in> set fired. timer_le u t \<and>
         (\<exists>a b. ?run u a = Inr b \<and> t_id t \<in> timerIds a \<and> t_id t \<notin> timerIds b))"
    by (elim exE conjE impE[OF _ TrueI])
  have only: "t_id t = 2" if "?run u a = Inr b" "t_id t \<in> timerIds a" "t_id t \<notin> timerIds b"
    for t u :: "nat timer" and a b
    using that by (auto simp: delTimerInLoop_def split: if_splits)
  have due: "expiration t \<le> 50 \<and> t_id t \<in> timerIds sample_queue"
    if "t \<in> set (timers sample_queue)" for t
    using that by (auto simp: sample_queue_def)
  have all: "t \<in> set fired" if "t \<in> set (timers sample_queue)" "t_id t \<noteq> 2" for t
    using c due[OF that(1)] only that by blast
  have "fst (projr (handlerTimer ?run True 50 sample_queue)) =
      [timers sample_queue ! 0, timers sample_queue ! 1]"
    by (simp add: handlerTimer_def getExpiredTimers_def sample_queue_def delTimerInLoop_def numeral_eq_Suc)
  then have "ids fired = {1, 3}" using r(1) by (simp add: sample_queue_def)
  with r(1,2) all show ?thesis by blast
qed

text \<open>
  The timeout given to the poller: -1 exactly when no timer is queued, 0 exactly when
  one is due, and otherwise the time to the earliest expiration, cut off at the largest
  \<^verbatim>\<open>int\<close>; so the loop never sleeps past a timer.
\<close>

theorem next_timeout_exact:
  assumes "tq_inv s"
  shows "\<exists>r. getNextTimeout True now s = Inr r \<and> -1 \<le> r \<and> r \<le> INT_MAX \<and>
    (r = -1 \<longleftrightarrow> timers s = []) \<and>
    (r = 0 \<longleftrightarrow> (\<exists>t \<in> set (timers s). expiration t \<le> now)) \<and>
    (0 < r \<longrightarrow> (\<forall>t \<in> set (timers s). now + r \<le> expiration t) \<and>
       (r < INT_MAX \<longrightarrow> (\<exists>t \<in> set (timers s). expiration t = now + r)))"
proof (cases "timers s = []")
  case True
  then show ?thesis by (simp add: getNextTimeout_def INT_MAX_def)
next
  case False
  let ?e = "expiration (hd (timers s))"
  have least: "?e \<le> expiration t" if "t \<in> set (timers s)" for t
    using assms that hd_least by (auto simp: tq_inv_def tq_mid_def)
  have hd: "hd (timers s) \<in> set (timers s)" using False by simp
  have "(\<exists>t \<in> set (timers s). expiration t \<le> now) \<longleftrightarrow> ?e \<le> now"
    using hd least by (meson order_trans)
  moreover have "now + min INT_MAX (max 0 (?e - now)) \<le> expiration t"
    if "t \<in> set (timers s)" "\<not> ?e \<le> now" for t
    using least[OF that(1)] that(2) by simp
  moreover have "\<exists>t \<in> set (timers s). expiration t = now + min INT_MAX (max 0 (?e - now))"
    if "\<not> ?e \<le> now" "min INT_MAX (max 0 (?e - now)) < INT_MAX"
    using that hd by (intro bexI[of _ "hd (timers s)"]) (auto simp: min_def)
  ultimately show ?thesis
    using False by (auto simp: getNextTimeout_nonempty INT_MAX_def)
qed

theorem next_timeout_exact_witness:
  "getNextTimeout True 2 sample_queue = Inr 3 \<and> (\<exists>r. getNextTimeout True 2 sample_queue = Inr r \<and> r \<le> INT_MAX)"
proof -
  have "tq_inv sample_queue"
    by (auto simp: tq_inv_def tq_mid_def sample_queue_def timer_greater_def)
  from next_timeout_exact[OF this, of 2] show ?thesis
    by (auto simp: getNextTimeout_def sample_queue_def INT_MAX_def)
qed

text \<open>
  C30. Once an id is no longer live, and as long as ids are not issued twice, its timer
  never fires again and the id stays dead, whatever timers are added and cancelled and
  however many rounds follow.
\<close>

theorem cancelled_never_fires:
  assumes "tq_inv s" and "delTimerInLoop bd True i s = Inr s1"
    and "tq_history V s1 fired s'" and "i \<notin> V"
  shows "i \<notin> ids fired \<and> i \<notin> timerIds s'"
proof -
  have "tq_inv s1"
    using timer_steps_mid[OF ts_del[OF assms(2), of "{}"], of "[]"] assms(1)
    by (simp add: tq_inv_def)
  moreover have "i \<notin> timerIds s1" using assms(2) by (auto simp: delTimerInLoop_Inr)
  ultimately show ?thesis using tq_history_dead[OF assms(3)] assms(4) by blast
qed

theorem cancelled_never_fires_witness:
  "\<exists>fired s'. tq_history {} (sample_queue\<lparr>timerIds := {1, 2}\<rparr>) fired s' \<and> fired \<noteq> [] \<and>
     3 \<notin> ids fired \<and> 3 \<notin> timerIds s'"
proof -
  let ?s = "sample_queue\<lparr>timerIds := {1, 2}\<rparr>"
  have inv: "tq_inv sample_queue"
    by (auto simp: tq_inv_def tq_mid_def sample_queue_def timer_greater_def)
  have del: "delTimerInLoop Debug True 3 sample_queue = Inr ?s"
    by (auto simp: delTimerInLoop_def sample_queue_def)
  have client: "timer_client (\<lambda>t. Inr) {} (\<lambda>_. True) (\<lambda>_. True)" by unfold_locales (auto intro: ts_frame)
  obtain f s' where h: "handlerTimer (\<lambda>t. Inr) True 50 ?s = Inr (f, s')" "f \<noteq> []"
    by (simp add: handlerTimer_def getExpiredTimers_def sample_queue_def numeral_eq_Suc)
  from tqh_round[OF client _ _ h(1) _ _ tqh_done, of "{}"]
  have "tq_history {} ?s f s'" by simp
  with cancelled_never_fires[OF inv del, of "{}" f s'] h(2) show ?thesis by blast
qed

end
