(* ===== verification/Timer_Wheel.thy ===== *)
theory Timer_Wheel
  imports GN_Prelude
begin

text \<open>
  \<^verbatim>\<open>src/include/godnet/net/timer_wheel.hpp\<close> and \<^verbatim>\<open>timer_wheel.cpp\<close>: a hierarchy of
  timing wheels that drops the reference to an entry some ticks after its insertion.

  An entry is a shared pointer to one of the user's objects, or to a \<open>DelayEntry\<close>, whose
  destructor puts the entry it holds into a bucket of a lower wheel.  Destroying a bucket
  drops the references in it: those to the user's objects are the result of a tick.  A
  bucket is a set of pointers: the same object is in it once, and every \<open>DelayEntry\<close> is
  an object of its own.  \<^verbatim>\<open>size_t\<close> is 64 bits wide.  The user's destructors are taken
  not to call back into the wheel.
\<close>

section \<open>State\<close>

datatype entry = User nat | Delay nat nat entry

type_synonym bucket = "entry list"

record wheel =
  ticksInterval :: int
  bucketNum :: nat
  wheels :: "bucket list list"
  tickCounter :: nat
  wheelTimer :: nat

text \<open>
  The loop of the constructor that counts the wheels.  The product may wrap, and then the
  loop need not end.
\<close>

partial_function (option) countWheels :: "nat \<Rightarrow> nat \<Rightarrow> nat \<Rightarrow> nat \<Rightarrow> nat option" where
  "countWheels maxBucketNum n bucketNumber wheelsNum =
     (if maxBucketNum > bucketNumber
      then countWheels maxBucketNum n ((bucketNumber * n) mod 2 ^ 64) (wheelsNum + 1)
      else Some wheelsNum)"

text \<open>
  The constructor; \<open>tid\<close> is the id of the repeating timer it registers, \<open>Inr None\<close> that
  it does not return.
\<close>

definition TimerWheel :: "build \<Rightarrow> int \<Rightarrow> int \<Rightarrow> nat \<Rightarrow> nat \<Rightarrow> wheel option res" where
  "TimerWheel bd maxTimeout ti n tid =
     asserting bd (maxTimeout > 0) (asserting bd (ti > 0) (asserting bd (maxTimeout > ti)
       (asserting bd (n > 1) (guarding Division_By_Zero (ti \<noteq> 0)
         (Inr (map_option (\<lambda>wheelsNum.
            \<lparr>ticksInterval = ti, bucketNum = n, wheels = replicate wheelsNum (replicate n []),
             tickCounter = 0, wheelTimer = tid\<rparr>)
            (countWheels (nat (quot maxTimeout ti mod 2 ^ 64)) n n 1)))))))"

section \<open>Buckets\<close>

definition bucket_insert :: "entry \<Rightarrow> bucket \<Rightarrow> bucket" where
  "bucket_insert e b = (case e of User u \<Rightarrow> List.insert e b | Delay _ _ _ \<Rightarrow> e # b)"

text \<open>\<^verbatim>\<open>wheels_[i][s].insert(e)\<close>.\<close>

definition place :: "nat \<Rightarrow> nat \<Rightarrow> entry \<Rightarrow> wheel \<Rightarrow> wheel res" where
  "place i s e w = guarding Out_Of_Bounds (i < length (wheels w) \<and> s < length (wheels w ! i))
     (Inr (w\<lparr>wheels := (wheels w)[i := (wheels w ! i)[s := bucket_insert e (wheels w ! i ! s)]]\<rparr>))"

text \<open>Dropping the references of a bucket; the user's objects are returned.\<close>

fun release :: "entry \<Rightarrow> wheel \<Rightarrow> (nat list \<times> wheel) res" where
  "release (User u) w = Inr ([u], w)"
| "release (Delay i s e) w = res_bind (place i s e w) (\<lambda>w'. Inr ([], w'))"

fun releaseBucket :: "bucket \<Rightarrow> wheel \<Rightarrow> (nat list \<times> wheel) res" where
  "releaseBucket [] w = Inr ([], w)"
| "releaseBucket (e # b) w = res_bind (release e w) (\<lambda>(out, w1).
     res_bind (releaseBucket b w1) (\<lambda>(out', w2). Inr (out @ out', w2)))"

section \<open>The tick\<close>

text \<open>
  The loop over the wheels in the timer's callback: \<^verbatim>\<open>pop_front\<close> destroys the first
  bucket, \<^verbatim>\<open>emplace_back\<close> adds an empty one.
\<close>

fun tickLevels :: "nat list \<Rightarrow> nat \<Rightarrow> wheel \<Rightarrow> (nat list \<times> wheel) res" where
  "tickLevels [] pow w = Inr ([], w)"
| "tickLevels (i # is) pow w = guarding Division_By_Zero (pow \<noteq> 0)
     (res_bind
       (if tickCounter w mod pow = 0 then
          guarding Out_Of_Bounds (wheels w ! i \<noteq> [])
            (res_bind (releaseBucket (hd (wheels w ! i)) w) (\<lambda>(out, w1).
               Inr (out, w1\<lparr>wheels := (wheels w1)[i := tl (wheels w1 ! i) @ [[]]]\<rparr>)))
        else Inr ([], w))
       (\<lambda>(out, w2). res_bind (tickLevels is ((pow * bucketNum w) mod 2 ^ 64) w2) (\<lambda>(out', w3).
          Inr (out @ out', w3))))"

definition tick :: "wheel \<Rightarrow> (nat list \<times> wheel) res" where
  "tick w = tickLevels [0..<length (wheels w)] 1
     (w\<lparr>tickCounter := (tickCounter w + 1) mod 2 ^ 64\<rparr>)"

section \<open>Insertion\<close>

fun insertLevels :: "nat list \<Rightarrow> nat \<Rightarrow> nat \<Rightarrow> entry \<Rightarrow> wheel \<Rightarrow> wheel res" where
  "insertLevels [] index t e w = Inr w"
| "insertLevels (i # is) index t e w =
     (if index \<le> bucketNum w then
        guarding Out_Of_Bounds (1 \<le> index) (place i (index - 1) e w)
      else if i \<noteq> length (wheels w) - 1 then
        insertLevels is ((index + t mod bucketNum w - 1) div bucketNum w) (t div bucketNum w)
          (Delay i ((index + t mod bucketNum w - 1) mod bucketNum w) e) w
      else place i (bucketNum w - 1) e w)"

definition insertEntryInLoop :: "bool \<Rightarrow> int \<Rightarrow> entry \<Rightarrow> wheel \<Rightarrow> wheel res" where
  "insertEntryInLoop il delay e w = guarding Wrong_Thread il
     (insertLevels [0..<length (wheels w)]
       (nat ((quot delay (ticksInterval w) + 1) mod 2 ^ 64)) (tickCounter w) e w)"

section \<open>Destruction\<close>

text \<open>The destructor clears the wheels from the last to the first.\<close>

fun clearLevels :: "nat list \<Rightarrow> wheel \<Rightarrow> (nat list \<times> wheel) res" where
  "clearLevels [] w = Inr ([], w)"
| "clearLevels (i # is) w = res_bind (releaseBucket (concat (wheels w ! i)) w) (\<lambda>(out, w1).
     res_bind (clearLevels is (w1\<lparr>wheels := (wheels w1)[i := []]\<rparr>)) (\<lambda>(out', w2).
       Inr (out @ out', w2)))"

definition destroyWheel :: "bool \<Rightarrow> wheel \<Rightarrow> (nat list \<times> wheel) res" where
  "destroyWheel il w = guarding Wrong_Thread il (clearLevels (rev [0..<length (wheels w)]) w)"

section \<open>When an entry is dropped\<close>

text \<open>
  The user's object of an entry and the tick at which the reference to it is dropped, when
  the entry itself is dropped at tick \<open>P\<close>: a \<open>DelayEntry\<close> goes to bucket \<open>s\<close> of wheel \<open>i\<close>
  then, whose turn is the \<open>s + 1\<close>st multiple of \<open>N ^ i\<close> after \<open>P\<close>.
\<close>

fun due :: "nat \<Rightarrow> nat \<Rightarrow> entry \<Rightarrow> nat \<times> nat" where
  "due N P (User u) = (u, P)"
| "due N P (Delay i s e) = due N ((P div N ^ i + s + 1) * N ^ i) e"

fun entry_ok :: "nat \<Rightarrow> nat \<Rightarrow> entry \<Rightarrow> bool" where
  "entry_ok N 0 (User u) = True"
| "entry_ok N (Suc j) (Delay i s e) = (i = j \<and> s < N \<and> entry_ok N j e)"
| "entry_ok N j e = False"

lemma due_ge: "0 < N \<Longrightarrow> P \<le> snd (due N P e)"
proof (induction e arbitrary: P)
  case (Delay i s e)
  have "P < (P div N ^ i + 1) * N ^ i"
    using Delay.prems dividend_less_div_times[of "N ^ i" P] by (simp add: add.commute)
  also have "\<dots> \<le> (P div N ^ i + s + 1) * N ^ i" by (rule mult_le_mono1) simp
  also have "\<dots> \<le> snd (due N P (Delay i s e))" using Delay by simp
  finally show ?case by simp
qed simp

text \<open>The schedule of wheel \<open>j\<close> at tick \<open>T\<close>, and of all wheels.\<close>

definition lsched :: "nat \<Rightarrow> nat \<Rightarrow> nat \<Rightarrow> bucket list \<Rightarrow> (nat \<times> nat) set" where
  "lsched N T j bs = (\<Union>p < length bs. due N ((T div N ^ j + p + 1) * N ^ j) ` set (bs ! p))"

definition sched :: "wheel \<Rightarrow> (nat \<times> nat) set" where
  "sched w = (\<Union>j < length (wheels w). lsched (bucketNum w) (tickCounter w) j (wheels w ! j))"

definition level_ok :: "nat \<Rightarrow> nat \<Rightarrow> bucket list \<Rightarrow> bool" where
  "level_ok N j bs \<longleftrightarrow> length bs = N \<and> (\<forall>b \<in> set bs. \<forall>e \<in> set b. entry_ok N j e)"

definition wheel_wf :: "wheel \<Rightarrow> bool" where
  "wheel_wf w \<longleftrightarrow> 1 < bucketNum w \<and> 0 < length (wheels w) \<and>
     bucketNum w ^ (length (wheels w) - 1) < 2 ^ 64 \<and>
     (\<forall>j < length (wheels w). level_ok (bucketNum w) j (wheels w ! j))"

definition same_frame :: "wheel \<Rightarrow> wheel \<Rightarrow> bool" where
  "same_frame w w' \<longleftrightarrow> ticksInterval w' = ticksInterval w \<and> bucketNum w' = bucketNum w \<and>
     length (wheels w') = length (wheels w) \<and> tickCounter w' = tickCounter w \<and>
     wheelTimer w' = wheelTimer w"

lemma lsched_empty: "lsched N T j (replicate n []) = {}"
  by (simp add: lsched_def)

lemma set_bucket_insert [simp]: "set (bucket_insert e b) = insert e (set b)"
  by (cases e) (simp_all add: bucket_insert_def)

lemma lsched_insert:
  assumes "s < length bs"
  shows "lsched N T j (bs[s := bucket_insert e (bs ! s)]) =
    insert (due N ((T div N ^ j + s + 1) * N ^ j) e) (lsched N T j bs)"
  unfolding lsched_def using assms by (rule UN_update_insert) simp

lemma level_ok_insert:
  assumes "level_ok N j bs" and "entry_ok N j e" and "s < length bs"
  shows "level_ok N j (bs[s := bucket_insert e (bs ! s)])"
  using assms set_update_subset_insert[of bs s "bucket_insert e (bs ! s)"]
  by (force simp: level_ok_def)

lemma place_ok:
  assumes "wheel_wf w" and "i < length (wheels w)" and "s < bucketNum w" and "entry_ok (bucketNum w) i e"
  obtains w' where "place i s e w = Inr w'" and "wheel_wf w'" and "same_frame w w'"
    and "\<And>j. j \<noteq> i \<Longrightarrow> wheels w' ! j = wheels w ! j"
    and "\<And>T. lsched (bucketNum w) T i (wheels w' ! i) =
      insert (due (bucketNum w) ((T div bucketNum w ^ i + s + 1) * bucketNum w ^ i) e)
        (lsched (bucketNum w) T i (wheels w ! i))"
proof -
  let ?w = "w\<lparr>wheels := (wheels w)[i := (wheels w ! i)[s := bucket_insert e (wheels w ! i ! s)]]\<rparr>"
  have len: "s < length (wheels w ! i)" using assms by (auto simp: wheel_wf_def level_ok_def)
  then have "place i s e w = Inr ?w" using assms(2) by (simp add: place_def)
  moreover have "wheel_wf ?w"
    using assms len by (auto simp: wheel_wf_def nth_list_update level_ok_insert)
  moreover have "same_frame w ?w" by (simp add: same_frame_def)
  ultimately show thesis using that assms(2) len by (simp add: lsched_insert)
qed

section \<open>Dropping a bucket\<close>

lemma same_frame_trans: "same_frame w w1 \<Longrightarrow> same_frame w1 w2 \<Longrightarrow> same_frame w w2"
  by (simp add: same_frame_def)

lemma releaseBucket_User:
  "\<forall>e \<in> set b. entry_ok N 0 e \<Longrightarrow>
   \<exists>out. releaseBucket b w = Inr (out, w) \<and> (\<lambda>u. (u, P)) ` set out = due N P ` set b"
proof (induction b)
  case (Cons e b)
  then obtain u where "e = User u" by (cases e) auto
  with Cons show ?case by auto
qed simp

lemma releaseBucket_Delay:
  assumes "wheel_wf w" and "Suc i < length (wheels w)" and "N = bucketNum w"
    and "\<forall>e \<in> set b. entry_ok N (Suc i) e"
  shows "\<exists>w'. releaseBucket b w = Inr ([], w') \<and> wheel_wf w' \<and> same_frame w w' \<and>
    (\<forall>j. j \<noteq> i \<longrightarrow> wheels w' ! j = wheels w ! j) \<and>
    (\<forall>T. lsched N T i (wheels w' ! i) = due N T ` set b \<union> lsched N T i (wheels w ! i))"
  using assms
proof (induction b arbitrary: w)
  case Nil
  then show ?case by (auto simp: same_frame_def)
next
  case (Cons e b)
  obtain s e' where e: "e = Delay i s e'" "s < N" "entry_ok N i e'"
    using Cons.prems(4) by (cases e) auto
  have i: "i < length (wheels w)" using Cons.prems(2) by simp
  obtain w1 where w1: "place i s e' w = Inr w1" "wheel_wf w1" "same_frame w w1"
      "\<And>j. j \<noteq> i \<Longrightarrow> wheels w1 ! j = wheels w ! j"
      "\<And>T. lsched N T i (wheels w1 ! i) = insert (due N T e) (lsched N T i (wheels w ! i))"
    using place_ok[OF Cons.prems(1) i, of s e'] e Cons.prems(3) by auto
  have f: "Suc i < length (wheels w1)" "N = bucketNum w1"
    using w1(3) Cons.prems(2,3) by (simp_all add: same_frame_def)
  obtain w2 where w2: "releaseBucket b w1 = Inr ([], w2)" "wheel_wf w2" "same_frame w1 w2"
      "\<forall>j. j \<noteq> i \<longrightarrow> wheels w2 ! j = wheels w1 ! j"
      "\<forall>T. lsched N T i (wheels w2 ! i) = due N T ` set b \<union> lsched N T i (wheels w1 ! i)"
    using Cons.IH[OF w1(2) f] Cons.prems(4) by auto
  have "releaseBucket (e # b) w = Inr ([], w2)" using w1(1) w2(1) e(1) by simp
  moreover have "same_frame w w2" using w1(3) w2(3) by (rule same_frame_trans)
  ultimately show ?case using w1(4,5) w2(2,4,5) by auto
qed

text \<open>The wheel whose turn it is loses its first bucket, which is due now.\<close>

lemma lsched_rotate:
  assumes "N ^ j dvd Suc T" and "0 < N"
  shows "lsched N T j (b # bs) = due N (Suc T) ` set b \<union> lsched N (Suc T) j (bs @ [[]])"
proof -
  have k: "0 < N ^ j" using assms(2) by simp
  have d: "Suc T div N ^ j = Suc (T div N ^ j)" using assms(1) by (simp add: div_Suc dvd_imp_mod_0)
  have "(T div N ^ j + 1) * N ^ j = Suc T" using d assms(1) by (metis Suc_eq_plus1 dvd_div_mult_self)
  then have "lsched N T j (b # bs) = due N (Suc T) ` set b \<union>
      (\<Union>p < length bs. due N ((Suc T div N ^ j + p + 1) * N ^ j) ` set (bs ! p))"
    unfolding d by (simp add: lsched_def lessThan_Suc_eq_insert_0 image_image)
  also have "(\<Union>p < length bs. due N ((Suc T div N ^ j + p + 1) * N ^ j) ` set (bs ! p)) =
      lsched N (Suc T) j (bs @ [[]])"
    by (simp add: lsched_def lessThan_Suc nth_append)
  finally show ?thesis .
qed

lemma lsched_keep: "\<not> N ^ j dvd Suc T \<Longrightarrow> lsched N (Suc T) j bs = lsched N T j bs"
  by (simp add: lsched_def div_Suc dvd_eq_mod_eq_0)

lemma lsched_later:
  assumes "0 < N" and "(u, d) \<in> lsched N T j bs"
  shows "T < d"
proof -
  from assms(2) obtain p e where e: "(u, d) = due N ((T div N ^ j + p + 1) * N ^ j) e"
    by (auto simp: lsched_def)
  have "T < (T div N ^ j + 1) * N ^ j"
    using assms(1) dividend_less_div_times[of "N ^ j" T] by (simp add: add.commute)
  also have "\<dots> \<le> (T div N ^ j + p + 1) * N ^ j" by (rule mult_le_mono1) simp
  also have "\<dots> \<le> d" using due_ge[OF assms(1)] e by (metis snd_conv)
  finally show ?thesis .
qed

section \<open>One tick\<close>

text \<open>The schedule while the loop of the tick has done the wheels below \<open>i\<close>.\<close>

definition msched :: "nat \<Rightarrow> nat \<Rightarrow> wheel \<Rightarrow> (nat \<times> nat) set" where
  "msched T i w = (\<Union>j < length (wheels w).
     lsched (bucketNum w) (if j < i then Suc T else T) j (wheels w ! j))"

definition rotateLevel :: "nat \<Rightarrow> nat \<Rightarrow> wheel \<Rightarrow> (nat list \<times> wheel) res" where
  "rotateLevel i pow w = (if tickCounter w mod pow = 0 then
     guarding Out_Of_Bounds (wheels w ! i \<noteq> [])
       (res_bind (releaseBucket (hd (wheels w ! i)) w) (\<lambda>(out, w1).
          Inr (out, w1\<lparr>wheels := (wheels w1)[i := tl (wheels w1 ! i) @ [[]]]\<rparr>)))
   else Inr ([], w))"

lemma tickLevels_rotate:
  "tickLevels (i # is) pow w = guarding Division_By_Zero (pow \<noteq> 0)
     (res_bind (rotateLevel i pow w) (\<lambda>(out, w2).
        res_bind (tickLevels is ((pow * bucketNum w) mod 2 ^ 64) w2) (\<lambda>(out', w3).
          Inr (out @ out', w3))))"
  by (simp add: rotateLevel_def)

lemma rotate_wf:
  assumes "wheel_wf w" and "i < length (wheels w)"
  shows "wheel_wf (w\<lparr>wheels := (wheels w)[i := tl (wheels w ! i) @ [[]]]\<rparr>)"
proof -
  have "level_ok (bucketNum w) i (tl (wheels w ! i) @ [[]])"
    using assms by (cases "wheels w ! i") (auto simp: wheel_wf_def level_ok_def)
  then show ?thesis using assms by (auto simp: wheel_wf_def nth_list_update)
qed

lemma rotate_level:
  assumes wf: "wheel_wf w" and i: "i < length (wheels w)" and T: "tickCounter w = Suc T"
    and pow: "pow = bucketNum w ^ i"
  shows "\<exists>out w'. rotateLevel i pow w = Inr (out, w') \<and> wheel_wf w' \<and> same_frame w w' \<and>
    msched T i w = (\<lambda>u. (u, Suc T)) ` set out \<union> msched T (Suc i) w'"
proof (cases "pow dvd Suc T")
  case False
  have keep: "lsched (bucketNum w) (Suc T) i bs = lsched (bucketNum w) T i bs" for bs
    using False pow lsched_keep by metis
  have eq: "lsched (bucketNum w) (if j < i then Suc T else T) j (wheels w ! j) =
      lsched (bucketNum w) (if j < Suc i then Suc T else T) j (wheels w ! j)" for j
    using keep by (cases "j = i") auto
  then show ?thesis using False T
    by (intro exI[of _ "[]"] exI[of _ w])
      (simp add: rotateLevel_def wf same_frame_def msched_def dvd_eq_mod_eq_0 eq)
next
  case True
  let ?N = "bucketNum w"
  have N: "0 < ?N" using wf by (simp add: wheel_wf_def)
  have lvl: "level_ok ?N i (wheels w ! i)" using wf i by (simp add: wheel_wf_def)
  obtain b bs where b: "wheels w ! i = b # bs"
    using lvl N by (cases "wheels w ! i") (auto simp: level_ok_def)
  have ok: "\<forall>e \<in> set b. entry_ok ?N i e" using lvl b by (simp add: level_ok_def)
  note rot = lsched_rotate[OF True[unfolded pow] N, of b bs]
  show ?thesis
  proof (cases i)
    case 0
    obtain out where out: "releaseBucket b w = Inr (out, w)"
        "(\<lambda>u. (u, Suc T)) ` set out = due ?N (Suc T) ` set b"
      using releaseBucket_User ok 0 by metis
    let ?w = "w\<lparr>wheels := (wheels w)[i := bs @ [[]]]\<rparr>"
    have "rotateLevel i pow w = Inr (out, ?w)"
      using True T b out(1) by (simp add: rotateLevel_def dvd_eq_mod_eq_0)
    moreover have "wheel_wf ?w" using rotate_wf[OF wf i] b by simp
    moreover have "msched T i w = (\<lambda>u. (u, Suc T)) ` set out \<union> msched T (Suc i) ?w"
      unfolding msched_def using i rot b out(2) 0
      by simp (rule UN_change_two[where i = i and k = i]; simp)
    ultimately show ?thesis by (auto simp: same_frame_def)
  next
    case (Suc k)
    obtain w1 where w1: "releaseBucket b w = Inr ([], w1)" "wheel_wf w1" "same_frame w w1"
        "\<forall>j. j \<noteq> k \<longrightarrow> wheels w1 ! j = wheels w ! j"
        "\<forall>T. lsched ?N T k (wheels w1 ! k) = due ?N T ` set b \<union> lsched ?N T k (wheels w ! k)"
      using releaseBucket_Delay[OF wf _ refl, of k b] i ok Suc by auto
    have f: "i < length (wheels w1)" "bucketNum w1 = ?N" "length (wheels w1) = length (wheels w)"
      using w1(3) i by (simp_all add: same_frame_def)
    let ?w = "w1\<lparr>wheels := (wheels w1)[i := bs @ [[]]]\<rparr>"
    have at_i: "wheels w1 ! i = b # bs" using w1(4) b Suc by simp
    have "rotateLevel i pow w = Inr ([], ?w)"
      using True T b w1(1) at_i by (simp add: rotateLevel_def dvd_eq_mod_eq_0)
    moreover have "wheel_wf ?w" using rotate_wf[OF w1(2) f(1)] at_i by simp
    moreover have "msched T i w = {} \<union> msched T (Suc i) ?w"
      unfolding msched_def using f i
      by simp (rule UN_change_two[where i = i and k = k and A = "{}", simplified];
        use rot b w1(4,5) Suc i in \<open>auto simp: nth_list_update\<close>)
    ultimately show ?thesis using w1(3) by (auto simp: same_frame_def)
  qed
qed

lemma tickLevels_ok:
  assumes "wheel_wf w" and "i \<le> length (wheels w)" and "tickCounter w = Suc T"
    and "i < length (wheels w) \<Longrightarrow> pow = bucketNum w ^ i" and "W = length (wheels w)"
  shows "\<exists>out w'. tickLevels [i..<W] pow w = Inr (out, w') \<and> wheel_wf w' \<and> same_frame w w' \<and>
    msched T i w = (\<lambda>u. (u, Suc T)) ` set out \<union> msched T W w'"
  using assms
proof (induction "W - i" arbitrary: i pow w)
  case 0
  then show ?case by (auto simp: same_frame_def)
next
  case (Suc n)
  then have i: "i < length (wheels w)" and pow: "pow = bucketNum w ^ i" and n: "n = W - Suc i"
    by simp_all
  have N: "1 < bucketNum w" using Suc.prems(1) by (simp add: wheel_wf_def)
  obtain out w1 where w1: "rotateLevel i pow w = Inr (out, w1)" "wheel_wf w1" "same_frame w w1"
      "msched T i w = (\<lambda>u. (u, Suc T)) ` set out \<union> msched T (Suc i) w1"
    using rotate_level[OF Suc.prems(1) i Suc.prems(3) pow] by blast
  have f: "length (wheels w1) = W" "bucketNum w1 = bucketNum w" "tickCounter w1 = Suc T"
    using w1(3) Suc.prems by (simp_all add: same_frame_def)
  have pow': "(pow * bucketNum w) mod 2 ^ 64 = bucketNum w1 ^ Suc i" if "Suc i < length (wheels w1)"
  proof -
    have "bucketNum w ^ Suc i \<le> bucketNum w ^ (W - 1)"
      using that f(1) N by (intro power_increasing) auto
    also have "\<dots> < 2 ^ 64" using Suc.prems(1,5) by (simp add: wheel_wf_def)
    finally show ?thesis using pow f(2) by (simp add: mult.commute)
  qed
  obtain out' w2 where w2: "tickLevels [Suc i..<W] ((pow * bucketNum w) mod 2 ^ 64) w1 = Inr (out', w2)"
      "wheel_wf w2" "same_frame w1 w2"
      "msched T (Suc i) w1 = (\<lambda>u. (u, Suc T)) ` set out' \<union> msched T W w2"
    using Suc.hyps(1)[OF n w1(2), of "(pow * bucketNum w) mod 2 ^ 64"] f pow' i Suc.prems(5)
    by auto
  have "pow \<noteq> 0" using pow N by simp
  moreover have "[i..<W] = i # [Suc i..<W]" using i Suc.prems(5) by (simp add: upt_conv_Cons)
  ultimately have "tickLevels [i..<W] pow w = Inr (out @ out', w2)"
    using w1(1) w2(1) by (simp add: tickLevels_rotate del: tickLevels.simps)
  then show ?case using w1 w2 same_frame_trans by (auto simp: image_Un)
qed

lemma tick_ok:
  assumes wf: "wheel_wf w" and small: "tickCounter w + 1 < 2 ^ 64"
  shows "\<exists>out w'. tick w = Inr (out, w') \<and> wheel_wf w' \<and>
    same_frame (w\<lparr>tickCounter := tickCounter w + 1\<rparr>) w' \<and>
    set out = {u. (u, tickCounter w + 1) \<in> sched w} \<and>
    sched w' = {(u, d) \<in> sched w. d \<noteq> tickCounter w + 1}"
proof -
  let ?T = "tickCounter w" and ?w = "w\<lparr>tickCounter := tickCounter w + 1\<rparr>" and ?W = "length (wheels w)"
  have "wheel_wf ?w" using wf by (simp add: wheel_wf_def)
  then obtain out w' where w': "tickLevels [0..<?W] 1 ?w = Inr (out, w')" "wheel_wf w'" "same_frame ?w w'"
      "msched ?T 0 ?w = (\<lambda>u. (u, Suc ?T)) ` set out \<union> msched ?T ?W w'"
  proof -
    have "\<exists>out w'. tickLevels [0..<?W] 1 ?w = Inr (out, w') \<and> wheel_wf w' \<and> same_frame ?w w' \<and>
        msched ?T 0 ?w = (\<lambda>u. (u, Suc ?T)) ` set out \<union> msched ?T ?W w'"
      by (rule tickLevels_ok) (use \<open>wheel_wf ?w\<close> in simp_all)
    then show thesis using that by blast
  qed
  have N: "0 < bucketNum w" using wf by (simp add: wheel_wf_def)
  have "msched ?T 0 ?w = sched w" by (simp add: msched_def sched_def)
  moreover have s': "msched ?T ?W w' = sched w'"
    using w'(3) by (auto simp: msched_def sched_def same_frame_def)
  ultimately have split: "sched w = (\<lambda>u. (u, Suc ?T)) ` set out \<union> sched w'" using w'(4) by simp
  have later: "d \<noteq> Suc ?T" if "(u, d) \<in> sched w'" for u d
    using that w'(3) N lsched_later[of "bucketNum w'" u d "tickCounter w'"]
    by (auto simp: sched_def same_frame_def)
  have "tick w = Inr (out, w')" using w'(1) small by (simp add: tick_def)
  moreover have "set out = {u. (u, ?T + 1) \<in> sched w}" using split later by auto
  moreover have "sched w' = {(u, d) \<in> sched w. d \<noteq> ?T + 1}" using split later by auto
  ultimately show ?thesis using w'(2,3) by blast
qed

section \<open>Insertion\<close>

text \<open>
  The position of an entry on wheel \<open>i\<close>, \<open>t\<close> being the number of turns wheel \<open>i\<close> has
  made: the entry is due at tick \<open>(t + index) * N ^ i\<close>, and so is what the next wheel is
  given for it.
\<close>

lemma next_level_due:
  assumes "0 < N" and "1 \<le> index" and "t = T div N ^ i"
  defines "x \<equiv> index + t mod N - 1"
  shows "due N (((t div N + x div N) * N ^ Suc i)) (Delay i (x mod N) e) =
    due N ((t + index) * N ^ i) e"
proof -
  have k: "0 < N ^ i" using assms(1) by simp
  have "(t div N + x div N) * N ^ Suc i div N ^ i = (t div N + x div N) * N"
    using k by (simp add: mult.assoc[symmetric] mult.commute[of N])
  moreover have "(t div N + x div N) * N + x mod N + 1 = t + index"
  proof -
    have "(t div N + x div N) * N + x mod N = t div N * N + (x div N * N + x mod N)"
      by (simp add: add_mult_distrib)
    also have "\<dots> = t div N * N + t mod N + index - 1"
      using assms(2) by (simp add: x_def)
    finally show ?thesis using assms(2) by simp
  qed
  ultimately show ?thesis by simp
qed

lemma next_level_bound:
  fixes N index t :: nat
  assumes "0 < N" and "1 \<le> index"
  defines "x \<equiv> index + t mod N - 1"
  shows "(t div N + x div N) * N ^ Suc i \<le> (t + index) * N ^ i"
proof -
  have "(t div N + x div N) * N \<le> t div N * N + x"
    by (simp add: add_mult_distrib)
  also have "\<dots> \<le> t + index" using assms(2) by (simp add: x_def)
  finally have "((t div N + x div N) * N) * N ^ i \<le> (t + index) * N ^ i" by (rule mult_le_mono1)
  then show ?thesis by (simp add: mult.assoc)
qed

lemma insertLevels_ok:
  assumes "wheel_wf w" and "i < length (wheels w)" and "W = length (wheels w)"
    and "N = bucketNum w" and "t = T div N ^ i" and "1 \<le> index" and "entry_ok N i e"
    and "T = tickCounter w"
    and "(t + index) * N ^ i < (T div N ^ (W - 1) + N + 1) * N ^ (W - 1)"
  shows "\<exists>w'. insertLevels [i..<W] index t e w = Inr w' \<and> wheel_wf w' \<and> same_frame w w' \<and>
    sched w' = insert (due N ((t + index) * N ^ i) e) (sched w)"
  using assms
proof (induction "W - i" arbitrary: i index t e)
  case 0
  then show ?case by simp
next
  case (Suc n)
  have N: "1 < N" using Suc.prems(1,4) by (simp add: wheel_wf_def)
  have l: "[i..<W] = i # [Suc i..<W]" using Suc.prems(2,3) by (simp add: upt_conv_Cons)
  show ?case
  proof (cases "index \<le> N")
    case True
    then have "index - 1 < bucketNum w" using Suc.prems(4,6) N by simp
    then obtain w' where w': "place i (index - 1) e w = Inr w'" "wheel_wf w'" "same_frame w w'"
        "\<And>j. j \<noteq> i \<Longrightarrow> wheels w' ! j = wheels w ! j"
        "lsched N T i (wheels w' ! i) =
          insert (due N ((T div N ^ i + (index - 1) + 1) * N ^ i) e) (lsched N T i (wheels w ! i))"
      using place_ok[OF Suc.prems(1,2), of "index - 1" e] Suc.prems(4,7) by metis
    have "sched w' = {due N ((t + index) * N ^ i) e} \<union> sched w"
      unfolding sched_def using w'(3) Suc.prems(4,8)
      by (simp add: same_frame_def)
        (rule UN_change_two[where i = i and k = i and A = "{x}" for x, simplified];
          use w'(4,5) Suc.prems(2,5,6) in simp)
    then show ?thesis using True w'(1-3) Suc.prems(4,6) l by simp
  next
    case False
    have i': "i \<noteq> W - 1"
    proof
      assume "i = W - 1"
      then have "(t + index) * N ^ i < (t + N + 1) * N ^ i" using Suc.prems(5,9) by simp
      moreover have "(t + N + 1) * N ^ i \<le> (t + index) * N ^ i"
        using False by (intro mult_le_mono1) simp
      ultimately show False by linarith
    qed
    let ?x = "index + t mod N - 1"
    have i'': "Suc i < length (wheels w)" and n: "n = W - Suc i"
      using i' Suc.hyps(2) Suc.prems(2,3) by simp_all
    have t': "t div N = T div N ^ Suc i"
      using Suc.prems(5) by (simp add: power_Suc2 div_mult2_eq del: power_Suc)
    have x: "1 \<le> ?x div N" using False N by (simp add: div_greater_zero_iff Suc_le_eq)
    have e': "entry_ok N (Suc i) (Delay i (?x mod N) e)" using Suc.prems(7) N by simp
    have b: "(t div N + ?x div N) * N ^ Suc i < (T div N ^ (W - 1) + N + 1) * N ^ (W - 1)"
      using next_level_bound[of N index t i] Suc.prems(6,9) N by linarith
    obtain w' where w': "insertLevels [Suc i..<W] (?x div N) (t div N) (Delay i (?x mod N) e) w = Inr w'"
        "wheel_wf w'" "same_frame w w'"
        "sched w' = insert (due N ((t div N + ?x div N) * N ^ Suc i) (Delay i (?x mod N) e)) (sched w)"
      using Suc.hyps(1)[OF n Suc.prems(1) i'' Suc.prems(3,4) t' x e' Suc.prems(8) b] by blast
    have "due N ((t div N + ?x div N) * N ^ Suc i) (Delay i (?x mod N) e) = due N ((t + index) * N ^ i) e"
      using next_level_due[of N index t T i] N Suc.prems(5,6) by simp
    then show ?thesis using w' False i' l Suc.prems(3,4) by simp
  qed
qed

section \<open>Runs of ticks\<close>

fun runTicks :: "nat \<Rightarrow> wheel \<Rightarrow> (nat list list \<times> wheel) res" where
  "runTicks 0 w = Inr ([], w)"
| "runTicks (Suc n) w = res_bind (tick w) (\<lambda>(out, w1).
     res_bind (runTicks n w1) (\<lambda>(outs, w2). Inr (out # outs, w2)))"

lemma runTicks_ok:
  assumes "wheel_wf w" and "tickCounter w + n < 2 ^ 64"
  shows "\<exists>outs w'. runTicks n w = Inr (outs, w') \<and> length outs = n \<and> wheel_wf w' \<and>
    (\<forall>j < n. set (outs ! j) = {u. (u, tickCounter w + j + 1) \<in> sched w}) \<and>
    sched w' = {(u, d) \<in> sched w. tickCounter w + n < d}"
  using assms
proof (induction n arbitrary: w)
  case 0
  have "0 < bucketNum w" using 0 by (simp add: wheel_wf_def)
  then have "sched w = {(u, d) \<in> sched w. tickCounter w < d}"
    by (auto simp: sched_def lsched_later)
  with 0 show ?case by simp
next
  case (Suc n)
  obtain out w1 where w1: "tick w = Inr (out, w1)" "wheel_wf w1"
      "same_frame (w\<lparr>tickCounter := tickCounter w + 1\<rparr>) w1"
      "set out = {u. (u, tickCounter w + 1) \<in> sched w}"
      "sched w1 = {(u, d) \<in> sched w. d \<noteq> tickCounter w + 1}"
    using tick_ok[OF Suc.prems(1)] Suc.prems(2) by auto
  have T: "tickCounter w1 = tickCounter w + 1" using w1(3) by (simp add: same_frame_def)
  obtain outs w2 where w2: "runTicks n w1 = Inr (outs, w2)" "length outs = n" "wheel_wf w2"
      "\<forall>j < n. set (outs ! j) = {u. (u, tickCounter w1 + j + 1) \<in> sched w1}"
      "sched w2 = {(u, d) \<in> sched w1. tickCounter w1 + n < d}"
    using Suc.IH[OF w1(2)] T Suc.prems(2) by auto
  have "set ((out # outs) ! j) = {u. (u, tickCounter w + j + 1) \<in> sched w}" if "j < Suc n" for j
    using that w1(4,5) w2(4) T by (cases j) auto
  moreover have "sched w2 = {(u, d) \<in> sched w. tickCounter w + Suc n < d}"
    using w2(5) w1(5) T by auto
  ultimately show ?case using w1(1) w2(1-3) by auto
qed

section \<open>Construction\<close>

lemma countWheels_ok:
  assumes "1 < n" and "m * n \<le> 2 ^ 64" and "1 \<le> k"
  shows "\<exists>W. countWheels m n (n ^ k) k = Some W \<and> k \<le> W \<and> m \<le> n ^ W \<and> (W = k \<or> n ^ (W - 1) < m)"
  using assms
proof (induction "m - n ^ k" arbitrary: k rule: less_induct)
  case less
  show ?case
  proof (cases "n ^ k < m")
    case False
    then show ?thesis by (subst countWheels.simps) simp
  next
    case True
    have "n ^ k * n < m * n" using True less.prems(1) by simp
    then have "n ^ k * n < 2 ^ 64" using less.prems(2) by (rule less_le_trans)
    then have fits: "(n ^ k * n) mod 2 ^ 64 = n ^ Suc k" by (simp add: mult.commute)
    have "n ^ k < n ^ Suc k" using less.prems(1) by (simp add: power_strict_increasing)
    then have "m - n ^ Suc k < m - n ^ k" using True by linarith
    from less.hyps[OF this less.prems(1,2)] obtain W where
      W: "countWheels m n (n ^ Suc k) (Suc k) = Some W" "Suc k \<le> W" "m \<le> n ^ W"
        "W = Suc k \<or> n ^ (W - 1) < m" by auto
    have "countWheels m n (n ^ k) k = Some W"
      using True fits W(1) by (subst countWheels.simps) simp
    with W True show ?thesis by auto
  qed
qed

lemma wheel_wf_new:
  assumes "1 < n" and "0 < W" and "n ^ (W - 1) < 2 ^ 64"
    and "w = \<lparr>ticksInterval = ti, bucketNum = n, wheels = replicate W (replicate n []),
      tickCounter = 0, wheelTimer = tid\<rparr>"
  shows "wheel_wf w" and "sched w = {}"
  using assms by (auto simp: wheel_wf_def level_ok_def sched_def lsched_def)

lemma TimerWheel_ok:
  assumes "0 < ti" and "ti < maxTimeout" and "1 < n" and "nat (maxTimeout div ti) * n \<le> 2 ^ 64"
  shows "\<exists>w. TimerWheel bd maxTimeout ti n tid = Inr (Some w) \<and> wheel_wf w \<and> sched w = {} \<and> ticksInterval w = ti \<and>
    wheelTimer w = tid \<and> nat (maxTimeout div ti) \<le> bucketNum w ^ length (wheels w) \<and>
    (length (wheels w) = 1 \<or> bucketNum w ^ (length (wheels w) - 1) < nat (maxTimeout div ti))"
proof -
  let ?m = "nat (maxTimeout div ti)"
  have q: "quot maxTimeout ti = maxTimeout div ti" using assms(1,2) by (simp add: quot_nonneg)
  have m: "?m < 2 ^ 64"
  proof (cases "?m = 0")
    case False
    then have "?m * 1 < ?m * n" using assms(3) by simp
    then show ?thesis using less_le_trans[OF _ assms(4)] unfolding mult_1_right by blast
  qed simp
  have nonneg: "0 \<le> maxTimeout div ti" using assms(1,2) by (simp add: pos_imp_zdiv_nonneg_iff)
  then have "maxTimeout div ti < 2 ^ 64" using m by (simp add: nat_less_iff)
  then have m': "nat (quot maxTimeout ti mod 2 ^ 64) = ?m" using q nonneg by simp
  obtain W where W: "countWheels ?m n n 1 = Some W" "1 \<le> W" "?m \<le> n ^ W" "W = 1 \<or> n ^ (W - 1) < ?m"
    using countWheels_ok[OF assms(3,4), of 1] by auto
  let ?w = "\<lparr>ticksInterval = ti, bucketNum = n, wheels = replicate W (replicate n []),
    tickCounter = 0, wheelTimer = tid\<rparr>"
  have "n ^ (W - 1) < 2 ^ 64" using W(4) m by auto
  then have "wheel_wf ?w" "sched ?w = {}" using wheel_wf_new[OF assms(3) _ _ refl] W(2) by auto
  moreover have "TimerWheel bd maxTimeout ti n tid = Inr (Some ?w)"
    using assms(1-3) m' W(1) by (simp add: TimerWheel_def)
  ultimately show ?thesis using W(3,4) by auto
qed

section \<open>Destruction\<close>

fun user_of :: "entry \<Rightarrow> nat" where
  "user_of (User u) = u"
| "user_of (Delay i s e) = user_of e"

definition users :: "bucket list \<Rightarrow> nat set" where
  "users bs = user_of ` set (concat bs)"

lemma fst_due [simp]: "fst (due N P e) = user_of e"
  by (induction N P e rule: due.induct) simp_all

lemma fst_lsched: "fst ` lsched N T j bs = users bs"
  by (force simp: lsched_def users_def image_UN in_set_conv_nth image_image)

lemma users_insert:
  assumes "s < length bs"
  shows "users (bs[s := bucket_insert e (bs ! s)]) = insert (user_of e) (users bs)"
proof -
  have "users cs = (\<Union>p < length cs. user_of ` set (cs ! p))" for cs
    by (force simp: users_def in_set_conv_nth)
  then show ?thesis using UN_update_insert[OF assms set_bucket_insert, of "\<lambda>_. user_of" e] by simp
qed

lemma dropBucket_Delay:
  assumes "i < length (wheels w)" and "level_ok N i (wheels w ! i)"
    and "\<forall>e \<in> set b. entry_ok N (Suc i) e"
  shows "\<exists>w'. releaseBucket b w = Inr ([], w') \<and> same_frame w w' \<and> level_ok N i (wheels w' ! i) \<and>
    (\<forall>j. j \<noteq> i \<longrightarrow> wheels w' ! j = wheels w ! j) \<and>
    users (wheels w' ! i) = user_of ` set b \<union> users (wheels w ! i)"
  using assms
proof (induction b arbitrary: w)
  case Nil
  then show ?case by (auto simp: same_frame_def)
next
  case (Cons e b)
  obtain s e' where e: "e = Delay i s e'" "s < N" "entry_ok N i e'"
    using Cons.prems(3) by (cases e) auto
  let ?w = "w\<lparr>wheels := (wheels w)[i := (wheels w ! i)[s := bucket_insert e' (wheels w ! i ! s)]]\<rparr>"
  have s: "s < length (wheels w ! i)" using e(2) Cons.prems(2) by (simp add: level_ok_def)
  have r: "release e w = Inr ([], ?w)" using e s Cons.prems(1) by (simp add: place_def)
  have "level_ok N i (wheels ?w ! i)" using Cons.prems(1,2) e(3) s by (simp add: level_ok_insert)
  then obtain w' where w': "releaseBucket b ?w = Inr ([], w')" "same_frame ?w w'"
      "level_ok N i (wheels w' ! i)" "\<forall>j. j \<noteq> i \<longrightarrow> wheels w' ! j = wheels ?w ! j"
      "users (wheels w' ! i) = user_of ` set b \<union> users (wheels ?w ! i)"
    using Cons.IH[of ?w] Cons.prems by auto
  have "users (wheels ?w ! i) = insert (user_of e) (users (wheels w ! i))"
    using Cons.prems(1) s e(1) by (simp add: users_insert)
  then show ?case using r w' by (auto simp: same_frame_def)
qed

lemma clearLevels_ok:
  assumes "W \<le> length (wheels w)" and "\<forall>j < W. level_ok N j (wheels w ! j)"
  shows "\<exists>out w'. clearLevels (rev [0..<W]) w = Inr (out, w') \<and>
    set out = (\<Union>j < W. users (wheels w ! j))"
  using assms
proof (induction W arbitrary: w)
  case 0
  then show ?case by simp
next
  case (Suc i)
  let ?b = "concat (wheels w ! i)"
  have ok: "\<forall>e \<in> set ?b. entry_ok N i e" using Suc.prems(2) by (auto simp: level_ok_def)
  show ?case
  proof (cases i)
    case 0
    have "\<forall>e \<in> set ?b. entry_ok N 0 e" using ok 0 by blast
    from releaseBucket_User[OF this, of w 0] obtain out where
      out: "releaseBucket ?b w = Inr (out, w)" "(\<lambda>u. (u, 0)) ` set out = due N 0 ` set ?b"
      by auto
    have "fst ` (\<lambda>u. (u, 0::nat)) ` set out = fst ` due N 0 ` set ?b" using out(2) by simp
    then have "set out = users (wheels w ! 0)" using 0 by (simp add: image_image users_def)
    with out(1) 0 show ?thesis by (simp add: lessThan_Suc)
  next
    case (Suc k)
    obtain w1 where w1: "releaseBucket ?b w = Inr ([], w1)" "same_frame w w1"
        "level_ok N k (wheels w1 ! k)" "\<forall>j. j \<noteq> k \<longrightarrow> wheels w1 ! j = wheels w ! j"
        "users (wheels w1 ! k) = user_of ` set ?b \<union> users (wheels w ! k)"
      using dropBucket_Delay[of k w N ?b] Suc.prems Suc ok by auto
    let ?w = "w1\<lparr>wheels := (wheels w1)[i := []]\<rparr>"
    have "i \<le> length (wheels ?w)" using w1(2) Suc.prems(1) by (simp add: same_frame_def)
    moreover have "\<forall>j < i. level_ok N j (wheels ?w ! j)"
      using w1(3,4) Suc.prems(2) by (metis less_SucI less_irrefl nth_list_update_neq select_convs(3) simps(8) surjective update_convs(3))
    ultimately obtain out w' where w': "clearLevels (rev [0..<i]) ?w = Inr (out, w')"
        "set out = (\<Union>j < i. users (wheels ?w ! j))"
      using Suc.IH[of ?w] by blast
    have "(\<Union>j < i. users (wheels ?w ! j)) = (\<Union>j < Suc i. users (wheels w ! j))"
    proof -
      have "users (wheels ?w ! j) = (if j = k then users (wheels w ! i) else {}) \<union> users (wheels w ! j)"
        if "j < i" for j using that w1(4,5) by (auto simp: users_def)
      then have "(\<Union>j < i. users (wheels ?w ! j)) =
          (\<Union>j < i. (if j = k then users (wheels w ! i) else {}) \<union> users (wheels w ! j))" by simp
      also have "\<dots> = (\<Union>j < i. if j = k then users (wheels w ! i) else {}) \<union>
          (\<Union>j < i. users (wheels w ! j))" by (rule UN_Un_distrib)
      also have "(\<Union>j < i. if j = k then users (wheels w ! i) else {}) = users (wheels w ! i)"
        using Suc by (auto split: if_splits)
      finally show ?thesis by (simp add: lessThan_Suc)
    qed
    with w1(1) w' show ?thesis by simp
  qed
qed

text \<open>An insertion adds to the schedule.\<close>

lemma insert_ok:
  assumes wf: "wheel_wf w" and pos: "0 < ticksInterval w" "0 \<le> delay"
    and k: "k = nat (delay div ticksInterval w)"
    and cap: "k < bucketNum w ^ length (wheels w)"
    and small: "tickCounter w + k + 1 < 2 ^ 64"
  shows "\<exists>w'. insertEntryInLoop True delay (User u) w = Inr w' \<and> wheel_wf w' \<and> same_frame w w' \<and>
    sched w' = insert (u, tickCounter w + k + 1) (sched w)"
proof -
  let ?N = "bucketNum w" and ?W = "length (wheels w)" and ?T = "tickCounter w"
  have N: "1 < ?N" and W: "0 < ?W" using wf by (simp_all add: wheel_wf_def)
  have q: "int k = quot delay (ticksInterval w)"
    using k pos by (simp add: quot_nonneg pos_imp_zdiv_nonneg_iff)
  have "int (k + 1) < 2 ^ 64" using small by simp
  then have index: "nat ((quot delay (ticksInterval w) + 1) mod 2 ^ 64) = k + 1"
    unfolding q[symmetric] by (simp add: nat_add_distrib)
  have "?N ^ ?W = ?N * ?N ^ (?W - 1)" using W by (metis power_eq_if less_irrefl mult.commute)
  then have "(?T + (k + 1)) * ?N ^ 0 < (?T div ?N ^ (?W - 1) + ?N + 1) * ?N ^ (?W - 1)"
    using cap dividend_less_div_times[of "?N ^ (?W - 1)" ?T] N by (simp add: add_mult_distrib)
  from insertLevels_ok[OF wf W refl refl _ _ _ refl this, of "User u"]
  obtain w' where w': "insertLevels [0..<?W] (k + 1) ?T (User u) w = Inr w'" "wheel_wf w'"
      "same_frame w w'" "sched w' = insert (u, ?T + k + 1) (sched w)"
    by auto
  have "insertEntryInLoop True delay (User u) w = Inr w'"
    unfolding insertEntryInLoop_def index guarding_True[OF TrueI] by (rule w'(1))
  then show ?thesis using w'(2-4) by blast
qed

text \<open>The destructor releases what the wheels still hold.\<close>

lemma destroyWheel_ok:
  assumes "wheel_wf w"
  shows "\<exists>out w'. destroyWheel True w = Inr (out, w') \<and> set out = fst ` sched w"
proof -
  have "\<forall>j < length (wheels w). level_ok (bucketNum w) j (wheels w ! j)"
    using assms by (simp add: wheel_wf_def)
  from clearLevels_ok[OF _ this] obtain out w' where
    "clearLevels (rev [0..<length (wheels w)]) w = Inr (out, w')"
    "set out = (\<Union>j < length (wheels w). users (wheels w ! j))" by blast
  then show ?thesis by (simp add: destroyWheel_def sched_def image_UN fst_lsched)
qed

section \<open>Properties\<close>

text \<open>
  An object inserted with a delay of \<open>k\<close> whole ticks, \<open>k\<close> below the capacity
  \<open>bucketNum ^ wheels\<close>, is dropped at the \<open>k + 1\<close>st tick from then and at no other of
  the ticks up to it, however many wheels its entry has to move down through; the schedule
  of every other object is what it was.
\<close>

theorem wheel_deadline:
  assumes wf: "wheel_wf w" and pos: "0 < ticksInterval w" "0 \<le> delay"
    and k: "k = nat (delay div ticksInterval w)"
    and cap: "k < bucketNum w ^ length (wheels w)"
    and small: "tickCounter w + k + 1 < 2 ^ 64" and fresh: "u \<notin> fst ` sched w"
  shows "\<exists>w' outs w''. insertEntryInLoop True delay (User u) w = Inr w' \<and> wheel_wf w' \<and>
    sched w' = insert (u, tickCounter w + k + 1) (sched w) \<and>
    runTicks (k + 1) w' = Inr (outs, w'') \<and> u \<in> set (outs ! k) \<and>
    (\<forall>j < k. u \<notin> set (outs ! j)) \<and> u \<notin> fst ` sched w''"
proof -
  let ?T = "tickCounter w"
  obtain w' where w': "insertEntryInLoop True delay (User u) w = Inr w'" "wheel_wf w'" "same_frame w w'"
      "sched w' = insert (u, ?T + k + 1) (sched w)"
    using insert_ok[OF wf pos k cap small] by blast
  have T: "tickCounter w' = ?T" using w'(3) by (simp add: same_frame_def)
  obtain outs w'' where outs: "runTicks (k + 1) w' = Inr (outs, w'')"
      "\<forall>j < k + 1. set (outs ! j) = {u. (u, ?T + j + 1) \<in> sched w'}"
      "sched w'' = {(u, d) \<in> sched w'. ?T + (k + 1) < d}"
    using runTicks_ok[OF w'(2), of "k + 1"] small T by auto
  have only: "(u, d) \<in> sched w' \<longleftrightarrow> d = ?T + k + 1" for d
    using w'(4) fresh by (auto simp: image_iff)
  have "u \<in> set (outs ! k)" "\<forall>j < k. u \<notin> set (outs ! j)"
    using outs(2) only by auto
  moreover have "u \<notin> fst ` sched w''" using outs(3) only by auto
  ultimately show ?thesis using w'(1,2,4) outs(1) by blast
qed

text \<open>The witness: three wheels of two buckets at tick 5, a delay of 6 ticks of 10 ms.\<close>

definition sample_wheel :: wheel where
  "sample_wheel = \<lparr>ticksInterval = 10, bucketNum = 2, wheels = replicate 3 (replicate 2 []),
     tickCounter = 5, wheelTimer = 1\<rparr>"

theorem wheel_deadline_witness:
  "\<exists>w' outs w''. insertEntryInLoop True 65 (User 42) sample_wheel = Inr w' \<and>
    runTicks 7 w' = Inr (outs, w'') \<and> 42 \<in> set (outs ! 6) \<and> (\<forall>j < 6. 42 \<notin> set (outs ! j))"
proof -
  have wf: "wheel_wf sample_wheel" and s: "sched sample_wheel = {}"
    by (simp_all add: wheel_wf_def sample_wheel_def level_ok_def sched_def lsched_empty)
  have "\<exists>w' outs w''. insertEntryInLoop True 65 (User 42) sample_wheel = Inr w' \<and> wheel_wf w' \<and>
      sched w' = insert (42, tickCounter sample_wheel + 6 + 1) (sched sample_wheel) \<and>
      runTicks (6 + 1) w' = Inr (outs, w'') \<and> 42 \<in> set (outs ! 6) \<and>
      (\<forall>j < 6. 42 \<notin> set (outs ! j)) \<and> 42 \<notin> fst ` sched w''"
    by (rule wheel_deadline[OF wf]) (simp_all add: s, simp_all add: sample_wheel_def)
  then show ?thesis by auto
qed

text \<open>
  C37. With valid arguments for which the product of ticks and buckets fits into
  \<^verbatim>\<open>size_t\<close>, the constructor returns a well-formed, empty wheel; its capacity covers the
  maximal timeout, and with one wheel less it would not.
\<close>

theorem wheel_construction:
  assumes "0 < ti" and "ti < maxTimeout" and "1 < n"
    and "nat (maxTimeout div ti) * n \<le> 2 ^ 64"
  shows "\<exists>w. TimerWheel bd maxTimeout ti n tid = Inr (Some w) \<and> wheel_wf w \<and> sched w = {} \<and>
    nat (maxTimeout div ti) \<le> bucketNum w ^ length (wheels w) \<and>
    (length (wheels w) = 1 \<or> bucketNum w ^ (length (wheels w) - 1) < nat (maxTimeout div ti))"
  using TimerWheel_ok[OF assms] by blast

theorem wheel_construction_witness:
  "\<exists>w. TimerWheel Debug 5000 1 100 7 = Inr (Some w) \<and> wheel_wf w \<and> 5000 \<le> bucketNum w ^ length (wheels w)"
  using wheel_construction[of 1 5000 100 Debug 7] by auto

text \<open>
  The capacity the constructor asks for is one tick short: with a maximal timeout of four ticks and four buckets there is one wheel, and an object inserted
  for the maximal timeout is dropped at the fourth tick, which comes before four whole intervals have passed.
\<close>

lemma max_timeout_early:
  "\<exists>w w' outs w''. TimerWheel Debug 40 10 4 7 = Inr (Some w) \<and> insertEntryInLoop True 40 (User 42) w = Inr w' \<and>
    runTicks 4 w' = Inr (outs, w'') \<and> 42 \<in> set (outs ! 3)"
proof -
  let ?w = "\<lparr>ticksInterval = 10, bucketNum = 4, wheels = [[[], [], [], []]], tickCounter = 0, wheelTimer = 7\<rparr>"
  have r: "replicate 4 [] = ([[], [], [], []] :: bucket list)" by (simp add: numeral_eq_Suc)
  have "TimerWheel Debug 40 10 4 7 = Inr (Some ?w)"
    by (simp add: TimerWheel_def countWheels.simps quot_def r)
  moreover have "insertEntryInLoop True 40 (User 42) ?w = Inr (?w\<lparr>wheels := [[[], [], [], [User 42]]]\<rparr>)" by code_simp
  moreover have "runTicks (Suc (Suc (Suc (Suc 0)))) (?w\<lparr>wheels := [[[], [], [], [User 42]]]\<rparr>) =
      Inr ([[], [], [], [42]], ?w\<lparr>wheels := [[[], [], [], []]], tickCounter := 4\<rparr>)"
    by (simp add: tick_def)
  moreover have "Suc (Suc (Suc (Suc 0))) = 4" by simp
  moreover have "42 \<in> set ([[], [], [], [42 :: nat]] ! 3)" by (simp add: numeral_3_eq_3)
  ultimately show ?thesis by metis
qed

end
