(* ===== verification/Event_Channel.thy ===== *)
theory Event_Channel
  imports GN_Prelude
begin

text \<open>
  \<^verbatim>\<open>src/include/godnet/net/event_channel.hpp\<close> and \<^verbatim>\<open>event_channel.cpp\<close>: what a file
  descriptor is watched for, and which callbacks run when something happens to it.

  A callback is a value of a type \<open>'h\<close>; what calling it does to the state is an argument
  (\<open>call\<close>).  A callback may change any channel, or destroy it, so the code looks the
  channel up again after each: \<open>look\<close> and \<open>put\<close> read and write a channel of the state, and
  a destroyed channel is not found, which is the failure \<open>Dangling\<close>.  The operations that tell
  the poller are in \<open>Event_Poller\<close>.
\<close>

unbundle bit_operations_syntax

section \<open>State\<close>

definition EPOLLIN :: "32 word" where "EPOLLIN = 0x001"
definition EPOLLPRI :: "32 word" where "EPOLLPRI = 0x002"
definition EPOLLOUT :: "32 word" where "EPOLLOUT = 0x004"
definition EPOLLERR :: "32 word" where "EPOLLERR = 0x008"
definition EPOLLHUP :: "32 word" where "EPOLLHUP = 0x010"
definition EPOLLRDHUP :: "32 word" where "EPOLLRDHUP = 0x2000"

definition NONE_EVENT :: "32 word" where "NONE_EVENT = 0"
definition READ_EVENT :: "32 word" where "READ_EVENT = EPOLLIN OR EPOLLPRI"
definition WRITE_EVENT :: "32 word" where "WRITE_EVENT = EPOLLOUT"

lemmas epoll_defs = EPOLLIN_def EPOLLPRI_def EPOLLOUT_def EPOLLERR_def EPOLLHUP_def EPOLLRDHUP_def
lemmas event_defs = NONE_EVENT_def READ_EVENT_def WRITE_EVENT_def epoll_defs

text \<open>
  An empty callback is \<open>None\<close>; \<open>bindObject\<close> is the object \<^verbatim>\<open>bindWeakPtr\<close> was given,
  \<open>None\<close> before.
\<close>

record 'h channel =
  fd :: int
  events :: "32 word"
  revents :: "32 word"
  readCallback :: "'h option"
  writeCallback :: "'h option"
  errorCallback :: "'h option"
  closeCallback :: "'h option"
  eventCallback :: "'h option"
  bindObject :: "nat option"
  isHandling :: bool

definition EventChannel :: "build \<Rightarrow> int \<Rightarrow> 'h channel res" where
  "EventChannel bd fd' = asserting bd (fd' \<ge> 0)
     (Inr \<lparr>fd = fd', events = NONE_EVENT, revents = 0, readCallback = None, writeCallback = None,
       errorCallback = None, closeCallback = None, eventCallback = None, bindObject = None,
       isHandling = False\<rparr>)"

definition setReadCallback :: "'h \<Rightarrow> 'h channel \<Rightarrow> 'h channel" where
  "setReadCallback cb ch = ch\<lparr>readCallback := Some cb\<rparr>"
definition setWriteCallback :: "'h \<Rightarrow> 'h channel \<Rightarrow> 'h channel" where
  "setWriteCallback cb ch = ch\<lparr>writeCallback := Some cb\<rparr>"
definition setErrorCallback :: "'h \<Rightarrow> 'h channel \<Rightarrow> 'h channel" where
  "setErrorCallback cb ch = ch\<lparr>errorCallback := Some cb\<rparr>"
definition setCloseCallback :: "'h \<Rightarrow> 'h channel \<Rightarrow> 'h channel" where
  "setCloseCallback cb ch = ch\<lparr>closeCallback := Some cb\<rparr>"
definition setEventCallback :: "'h \<Rightarrow> 'h channel \<Rightarrow> 'h channel" where
  "setEventCallback cb ch = ch\<lparr>eventCallback := Some cb\<rparr>"
definition bindWeakPtr :: "nat \<Rightarrow> 'h channel \<Rightarrow> 'h channel" where
  "bindWeakPtr obj ch = ch\<lparr>bindObject := Some obj\<rparr>"
definition setRevents :: "32 word \<Rightarrow> 'h channel \<Rightarrow> 'h channel" where
  "setRevents r ch = ch\<lparr>revents := r\<rparr>"

definition isReading :: "'h channel \<Rightarrow> bool" where
  "isReading ch \<longleftrightarrow> events ch AND READ_EVENT \<noteq> 0"
definition isWriting :: "'h channel \<Rightarrow> bool" where
  "isWriting ch \<longleftrightarrow> events ch AND WRITE_EVENT \<noteq> 0"
definition isNoneEvent :: "'h channel \<Rightarrow> bool" where
  "isNoneEvent ch \<longleftrightarrow> events ch = NONE_EVENT"

text \<open>What the destructor asserts.\<close>

definition EventChannel_destroy :: "build \<Rightarrow> 'h channel \<Rightarrow> unit res" where
  "EventChannel_destroy bd ch = asserting bd (\<not> isHandling ch) (asserting bd (isNoneEvent ch) (Inr ()))"

section \<open>Handling events\<close>

definition with_channel :: "(nat \<Rightarrow> 's \<Rightarrow> 'h channel option) \<Rightarrow> nat \<Rightarrow> 's \<Rightarrow> ('h channel \<Rightarrow> 'a res) \<Rightarrow> 'a res" where
  "with_channel look c s k = (case look c s of None \<Rightarrow> Inl Dangling | Some ch \<Rightarrow> k ch)"

definition call_if :: "('h \<Rightarrow> 's \<Rightarrow> 's res) \<Rightarrow> bool \<Rightarrow> 'h option \<Rightarrow> 's \<Rightarrow> 's res" where
  "call_if call p cb s = (if p then (case cb of Some h \<Rightarrow> call h s | None \<Rightarrow> Inr s) else Inr s)"

definition stage :: "(nat \<Rightarrow> 's \<Rightarrow> 'h channel option) \<Rightarrow> ('h \<Rightarrow> 's \<Rightarrow> 's res) \<Rightarrow> nat \<Rightarrow>
    (32 word \<Rightarrow> bool) \<Rightarrow> ('h channel \<Rightarrow> 'h option) \<Rightarrow> 's \<Rightarrow> 's res" where
  "stage look call c p cb s = with_channel look c s (\<lambda>ch. call_if call (p (revents ch)) (cb ch) s)"

definition set_handling :: "(nat \<Rightarrow> 's \<Rightarrow> 'h channel option) \<Rightarrow> (nat \<Rightarrow> 'h channel \<Rightarrow> 's \<Rightarrow> 's) \<Rightarrow>
    nat \<Rightarrow> bool \<Rightarrow> 's \<Rightarrow> 's res" where
  "set_handling look put c b s = with_channel look c s (\<lambda>ch. Inr (put c (ch\<lparr>isHandling := b\<rparr>) s))"

definition handlerEventSafe :: "(nat \<Rightarrow> 's \<Rightarrow> 'h channel option) \<Rightarrow> (nat \<Rightarrow> 'h channel \<Rightarrow> 's \<Rightarrow> 's) \<Rightarrow>
    ('h \<Rightarrow> 's \<Rightarrow> 's res) \<Rightarrow> bool \<Rightarrow> nat \<Rightarrow> 's \<Rightarrow> 's res" where
  "handlerEventSafe look put call il c s = guarding Wrong_Thread il
     (res_bind (set_handling look put c True s) (\<lambda>s1. with_channel look c s1 (\<lambda>ch. case eventCallback ch of
        Some h \<Rightarrow> call h s1
      | None \<Rightarrow>
        res_bind (stage look call c (\<lambda>r. r AND EPOLLHUP \<noteq> 0 \<and> r AND EPOLLIN = 0) closeCallback s1) (\<lambda>s2.
        res_bind (stage look call c (\<lambda>r. r AND EPOLLERR \<noteq> 0) errorCallback s2) (\<lambda>s3.
        res_bind (stage look call c (\<lambda>r. r AND (EPOLLIN OR EPOLLPRI OR EPOLLRDHUP) \<noteq> 0) readCallback s3) (\<lambda>s4.
        res_bind (stage look call c (\<lambda>r. r AND EPOLLOUT \<noteq> 0 \<and> r AND EPOLLHUP = 0) writeCallback s4) (\<lambda>s5.
        set_handling look put c False s5)))))))"

text \<open>\<open>locked obj s\<close>: the object the channel is bound to is alive.\<close>

definition handlerEvent :: "(nat \<Rightarrow> 's \<Rightarrow> 'h channel option) \<Rightarrow> (nat \<Rightarrow> 'h channel \<Rightarrow> 's \<Rightarrow> 's) \<Rightarrow>
    ('h \<Rightarrow> 's \<Rightarrow> 's res) \<Rightarrow> (nat \<Rightarrow> 's \<Rightarrow> bool) \<Rightarrow> bool \<Rightarrow> nat \<Rightarrow> 's \<Rightarrow> 's res" where
  "handlerEvent look put call locked il c s = guarding Wrong_Thread il
     (with_channel look c s (\<lambda>ch. case bindObject ch of
        Some obj \<Rightarrow> if locked obj s then handlerEventSafe look put call il c s else Inr s
      | None \<Rightarrow> handlerEventSafe look put call il c s))"

section \<open>Which callbacks run\<close>

definition chosen :: "bool \<Rightarrow> 'h option \<Rightarrow> 'h list" where
  "chosen p cb = (if p then (case cb of Some h \<Rightarrow> [h] | None \<Rightarrow> []) else [])"

definition dispatch :: "'h channel \<Rightarrow> 'h list" where
  "dispatch ch = (let has = (\<lambda>m. revents ch AND m \<noteq> 0) in
     case eventCallback ch of
       Some h \<Rightarrow> [h]
     | None \<Rightarrow> chosen (has EPOLLHUP \<and> \<not> has EPOLLIN) (closeCallback ch) @
         chosen (has EPOLLERR) (errorCallback ch) @
         chosen (has (EPOLLIN OR EPOLLPRI OR EPOLLRDHUP)) (readCallback ch) @
         chosen (has EPOLLOUT \<and> \<not> has EPOLLHUP) (writeCallback ch))"

text \<open>
  The contract of the store of channels, and what \<open>handlerEvent\<close> does in it when the callbacks
  leave the channel alone; \<open>trace\<close> is the part of the state in which the callbacks leave a record.
\<close>

locale channel_store =
  fixes look :: "nat \<Rightarrow> 's \<Rightarrow> 'h channel option" and put :: "nat \<Rightarrow> 'h channel \<Rightarrow> 's \<Rightarrow> 's"
  assumes look_put: "look c (put c ch s) = Some ch"
    and look_put_other: "c \<noteq> d \<Longrightarrow> look d (put c ch s) = look d s"
begin

lemma stage_trace:
  assumes "\<And>h s. \<exists>s'. call h s = Inr s' \<and> look c s' = look c s \<and> trace s' = trace s @ [h]"
    and "look c s = Some ch"
  shows "\<exists>s'. stage look call c p cb s = Inr s' \<and> look c s' = Some ch \<and>
    trace s' = trace s @ chosen (p (revents ch)) (cb ch)"
proof (cases "cb ch")
  case (Some h)
  then show ?thesis
    using assms(1)[of h s] assms(2) by (auto simp: stage_def with_channel_def call_if_def chosen_def)
qed (use assms(2) in \<open>auto simp: stage_def with_channel_def call_if_def chosen_def\<close>)

lemma handlerEventSafe_trace:
  assumes "look c s = Some ch"
    and C: "\<And>h s. \<exists>s'. call h s = Inr s' \<and> look c s' = look c s \<and> trace s' = trace s @ [h]"
    and T: "\<And>ch s. trace (put c ch s) = trace s"
  shows "\<exists>s'. handlerEventSafe look put call True c s = Inr s' \<and>
    look c s' = Some (ch\<lparr>isHandling := eventCallback ch \<noteq> None\<rparr>) \<and> trace s' = trace s @ dispatch ch"
proof -
  let ?ch = "ch\<lparr>isHandling := True\<rparr>" and ?s1 = "put c (ch\<lparr>isHandling := True\<rparr>) s"
  have s1: "set_handling look put c True s = Inr ?s1" "look c ?s1 = Some ?ch" "trace ?s1 = trace s"
    using assms(1) by (simp_all add: set_handling_def with_channel_def look_put T)
  note step = stage_trace[of call c trace, OF C]
  show ?thesis
  proof (cases "eventCallback ch")
    case (Some h)
    then show ?thesis using C[of h ?s1] s1
      by (auto simp: handlerEventSafe_def with_channel_def dispatch_def)
  next
    case None
    obtain s2 where s2: "stage look call c (\<lambda>r. r AND EPOLLHUP \<noteq> 0 \<and> r AND EPOLLIN = 0) closeCallback ?s1 = Inr s2"
        "look c s2 = Some ?ch"
        "trace s2 = trace s @ chosen (revents ch AND EPOLLHUP \<noteq> 0 \<and> revents ch AND EPOLLIN = 0) (closeCallback ch)"
      using step[OF s1(2), of "\<lambda>r. r AND EPOLLHUP \<noteq> 0 \<and> r AND EPOLLIN = 0" closeCallback] s1(3) by auto
    obtain s3 where s3: "stage look call c (\<lambda>r. r AND EPOLLERR \<noteq> 0) errorCallback s2 = Inr s3"
        "look c s3 = Some ?ch" "trace s3 = trace s2 @ chosen (revents ch AND EPOLLERR \<noteq> 0) (errorCallback ch)"
      using step[OF s2(2), of "\<lambda>r. r AND EPOLLERR \<noteq> 0" errorCallback] by auto
    obtain s4 where s4: "stage look call c (\<lambda>r. r AND (EPOLLIN OR EPOLLPRI OR EPOLLRDHUP) \<noteq> 0) readCallback s3 = Inr s4"
        "look c s4 = Some ?ch"
        "trace s4 = trace s3 @ chosen (revents ch AND (EPOLLIN OR EPOLLPRI OR EPOLLRDHUP) \<noteq> 0) (readCallback ch)"
      using step[OF s3(2), of "\<lambda>r. r AND (EPOLLIN OR EPOLLPRI OR EPOLLRDHUP) \<noteq> 0" readCallback] by auto
    obtain s5 where s5: "stage look call c (\<lambda>r. r AND EPOLLOUT \<noteq> 0 \<and> r AND EPOLLHUP = 0) writeCallback s4 = Inr s5"
        "look c s5 = Some ?ch"
        "trace s5 = trace s4 @ chosen (revents ch AND EPOLLOUT \<noteq> 0 \<and> revents ch AND EPOLLHUP = 0) (writeCallback ch)"
      using step[OF s4(2), of "\<lambda>r. r AND EPOLLOUT \<noteq> 0 \<and> r AND EPOLLHUP = 0" writeCallback] by auto
    have "handlerEventSafe look put call True c s = Inr (put c (ch\<lparr>isHandling := False\<rparr>) s5)"
      using s1 None s2(1) s3(1) s4(1) s5(1,2)
      by (simp add: handlerEventSafe_def with_channel_def) (simp add: set_handling_def with_channel_def)
    then show ?thesis
      using s2(3) s3(3) s4(3) s5(3) None by (simp add: look_put T dispatch_def)
  qed
qed

text \<open>
  A reflexive and transitive relation that callbacks and changes of a channel keep to relates the
  states before and after \<open>handlerEvent\<close>.
\<close>

lemma handlerEvent_rel:
  assumes h: "handlerEvent look put call locked il c s = Inr s'"
    and refl: "R s s" and trans: "\<And>a b d. R a b \<Longrightarrow> R b d \<Longrightarrow> R a d" and put: "\<And>ch a. R a (put c ch a)"
    and call: "\<And>cb a b. R s a \<Longrightarrow> call cb a = Inr b \<Longrightarrow> R a b"
  shows "R s s'"
proof -
  have set: "R a b" if "set_handling look put c q a = Inr b" for q a b
    using that put by (auto simp: set_handling_def with_channel_def split: option.splits)
  have st: "R s b" if "stage look call c p cb a = Inr b" "R s a" for p cb a b
    using that call[of a _ b] trans[of s a b]
    by (auto simp: stage_def with_channel_def call_if_def split: option.splits if_splits)
  have "R s s'" if hs: "handlerEventSafe look put call il c s = Inr s'"
  proof -
    obtain s1 ch where s1: "set_handling look put c True s = Inr s1" "look c s1 = Some ch"
      using hs by (auto simp: handlerEventSafe_def with_channel_def res_simps split: option.splits)
    have R1: "R s s1" using set[OF s1(1)] .
    show ?thesis
    proof (cases "eventCallback ch")
      case (Some h)
      then have "call h s1 = Inr s'"
        using hs s1 by (simp add: handlerEventSafe_def with_channel_def res_simps)
      then show ?thesis using call[OF R1] trans[OF R1] by blast
    next
      case None
      let ?st = "stage look call c"
      obtain s2 s3 s4 s5 where s: "?st (\<lambda>r. r AND EPOLLHUP \<noteq> 0 \<and> r AND EPOLLIN = 0) closeCallback s1 = Inr s2"
        "?st (\<lambda>r. r AND EPOLLERR \<noteq> 0) errorCallback s2 = Inr s3"
        "?st (\<lambda>r. r AND (EPOLLIN OR EPOLLPRI OR EPOLLRDHUP) \<noteq> 0) readCallback s3 = Inr s4"
        "?st (\<lambda>r. r AND EPOLLOUT \<noteq> 0 \<and> r AND EPOLLHUP = 0) writeCallback s4 = Inr s5"
        "set_handling look put c False s5 = Inr s'"
        using hs s1 None by (auto simp: handlerEventSafe_def with_channel_def res_simps)
      have "R s s5" using st[OF s(4) st[OF s(3) st[OF s(2) st[OF s(1) R1]]]] .
      then show ?thesis using set[OF s(5)] by (rule trans)
    qed
  qed
  then show ?thesis
    using h refl by (auto simp: handlerEvent_def with_channel_def res_simps split: option.splits if_splits)
qed

lemma handlerEvent_trace:
  assumes "look c s = Some ch"
    and "\<And>h s. \<exists>s'. call h s = Inr s' \<and> look c s' = look c s \<and> trace s' = trace s @ [h]"
    and "\<And>ch s. trace (put c ch s) = trace s"
    and L: "live \<longleftrightarrow> (\<forall>obj. bindObject ch = Some obj \<longrightarrow> locked obj s)"
  shows "\<exists>s'. handlerEvent look put call locked True c s = Inr s' \<and>
    look c s' = Some (if live then ch\<lparr>isHandling := eventCallback ch \<noteq> None\<rparr> else ch) \<and>
    trace s' = trace s @ (if live then dispatch ch else [])"
  using handlerEventSafe_trace[of c s ch call trace, OF assms(1-3)] assms(1)
  by (cases "bindObject ch") (auto simp: handlerEvent_def with_channel_def L)

text \<open>A channel that has only a write callback.\<close>

lemma handlerEvent_write_only:
  assumes "look c s = Some ch" and "eventCallback ch = None" and "readCallback ch = None"
    and "errorCallback ch = None" and "closeCallback ch = None" and "writeCallback ch = Some h"
    and "bindObject ch = Some obj" and "locked obj s"
  shows "handlerEvent look put call locked True c s =
    res_bind (if revents ch AND EPOLLOUT \<noteq> 0 \<and> revents ch AND EPOLLHUP = 0
      then call h (put c (ch\<lparr>isHandling := True\<rparr>) s) else Inr (put c (ch\<lparr>isHandling := True\<rparr>) s))
     (set_handling look put c False)"
proof -
  let ?s1 = "put c (ch\<lparr>isHandling := True\<rparr>) s"
  have "set_handling look put c True s = Inr ?s1" "look c ?s1 = Some (ch\<lparr>isHandling := True\<rparr>)"
    using assms(1) by (simp_all add: set_handling_def with_channel_def look_put)
  then show ?thesis
    using assms by (simp add: handlerEvent_def with_channel_def handlerEventSafe_def stage_def call_if_def)
qed

text \<open>A channel that was destroyed is not there to be asked.\<close>

lemma handlerEvent_gone:
  "look c s = None \<Longrightarrow> handlerEvent look put call locked True c s = Inl Dangling"
  by (simp add: handlerEvent_def with_channel_def)

end

end
