(* ===== verification/Event_Poller.thy ===== *)
theory Event_Poller
  imports Event_Channel
begin

text \<open>
  \<^verbatim>\<open>src/include/godnet/net/event_poller.hpp\<close> and \<^verbatim>\<open>event_poller.cpp\<close>, and the operations of
  \<^verbatim>\<open>event_channel.hpp\<close> that end in \<^verbatim>\<open>updateChannel\<close>.

  The state holds the channels by their address, the set \<open>channels_\<close> of the poller, the
  capacity of \<open>events_\<close>, the kernel's interest list and the number of system errors logged.
  The interest list is that of \<^verbatim>\<open>epoll_ctl(2)\<close>: a map from file descriptors to the events and
  the pointer given; adding a descriptor that is there fails (\<^verbatim>\<open>EEXIST\<close>), changing or
  removing one that is not fails (\<^verbatim>\<open>ENOENT\<close>).  Closing a descriptor without removing it
  is not part of the model.
\<close>

section \<open>State\<close>

record 'h poller =
  chans :: "nat \<Rightarrow> 'h channel option"
  channels :: "nat set"
  interest :: "int \<Rightarrow> (32 word \<times> nat) option"
  capacity :: nat
  sysErrors :: nat

definition EventPoller :: "'h poller" where
  "EventPoller = \<lparr>chans = Map.empty, channels = {}, interest = Map.empty, capacity = 32, sysErrors = 0\<rparr>"

definition look_channel :: "nat \<Rightarrow> ('h, 'z) poller_scheme \<Rightarrow> 'h channel option" where
  "look_channel c p = chans p c"

definition put_channel :: "nat \<Rightarrow> 'h channel \<Rightarrow> ('h, 'z) poller_scheme \<Rightarrow> ('h, 'z) poller_scheme" where
  "put_channel c ch p = p\<lparr>chans := (chans p)(c \<mapsto> ch)\<rparr>"

interpretation cs: channel_store look_channel put_channel
  by unfold_locales (simp_all add: look_channel_def put_channel_def)

section \<open>The interest list\<close>

datatype ctl_op = CtlAdd | CtlMod | CtlDel

fun epoll_ctl :: "ctl_op \<Rightarrow> int \<Rightarrow> 32 word \<Rightarrow> nat \<Rightarrow> (int \<Rightarrow> (32 word \<times> nat) option) \<Rightarrow>
    (int \<Rightarrow> (32 word \<times> nat) option) option" where
  "epoll_ctl CtlAdd f ev c m = (if m f = None then Some (m(f \<mapsto> (ev, c))) else None)"
| "epoll_ctl CtlMod f ev c m = (if m f = None then None else Some (m(f \<mapsto> (ev, c))))"
| "epoll_ctl CtlDel f ev c m = (if m f = None then None else Some (m(f := None)))"

definition ctl :: "ctl_op \<Rightarrow> nat \<Rightarrow> ('h, 'z) poller_scheme \<Rightarrow> ('h, 'z) poller_scheme res" where
  "ctl op c p = with_channel look_channel c p (\<lambda>ch.
     case epoll_ctl op (fd ch) (events ch) c (interest p) of
       Some m \<Rightarrow> Inr (p\<lparr>interest := m\<rparr>)
     | None \<Rightarrow> Inr (p\<lparr>sysErrors := sysErrors p + 1\<rparr>))"

definition updateChannel :: "bool \<Rightarrow> nat \<Rightarrow> ('h, 'z) poller_scheme \<Rightarrow> ('h, 'z) poller_scheme res" where
  "updateChannel il c p = guarding Wrong_Thread il
     (with_channel look_channel c p (\<lambda>ch.
        if c \<in> channels p then
          if isNoneEvent ch then
            res_bind (ctl CtlDel c p) (\<lambda>p1. Inr (p1\<lparr>channels := channels p1 - {c}\<rparr>))
          else ctl CtlMod c p
        else res_bind (ctl CtlAdd c p) (\<lambda>p1. Inr (p1\<lparr>channels := insert c (channels p1)\<rparr>))))"

section \<open>Operations of a channel that tell the poller\<close>

definition set_events :: "bool \<Rightarrow> (32 word \<Rightarrow> 32 word) \<Rightarrow> nat \<Rightarrow> ('h, 'z) poller_scheme \<Rightarrow>
    ('h, 'z) poller_scheme res" where
  "set_events il f c p = with_channel look_channel c p (\<lambda>ch.
     updateChannel il c (put_channel c (ch\<lparr>events := f (events ch)\<rparr>) p))"

definition enableReading :: "bool \<Rightarrow> nat \<Rightarrow> ('h, 'z) poller_scheme \<Rightarrow> ('h, 'z) poller_scheme res" where
  "enableReading il = set_events il (\<lambda>e. e OR READ_EVENT)"
definition enableWriting :: "bool \<Rightarrow> nat \<Rightarrow> ('h, 'z) poller_scheme \<Rightarrow> ('h, 'z) poller_scheme res" where
  "enableWriting il = set_events il (\<lambda>e. e OR WRITE_EVENT)"
definition disableReading :: "bool \<Rightarrow> nat \<Rightarrow> ('h, 'z) poller_scheme \<Rightarrow> ('h, 'z) poller_scheme res" where
  "disableReading il = set_events il (\<lambda>e. e AND NOT READ_EVENT)"
definition disableWriting :: "bool \<Rightarrow> nat \<Rightarrow> ('h, 'z) poller_scheme \<Rightarrow> ('h, 'z) poller_scheme res" where
  "disableWriting il = set_events il (\<lambda>e. e AND NOT WRITE_EVENT)"
definition disableAll :: "bool \<Rightarrow> nat \<Rightarrow> ('h, 'z) poller_scheme \<Rightarrow> ('h, 'z) poller_scheme res" where
  "disableAll il = set_events il (\<lambda>e. NONE_EVENT)"

text \<open>Construction at address \<open>c\<close> and destruction of a channel.\<close>

definition new_channel :: "build \<Rightarrow> nat \<Rightarrow> int \<Rightarrow> ('h, 'z) poller_scheme \<Rightarrow> ('h, 'z) poller_scheme res" where
  "new_channel bd c f p = res_bind (EventChannel bd f) (\<lambda>ch. Inr (put_channel c ch p))"

definition delete_channel :: "build \<Rightarrow> nat \<Rightarrow> ('h, 'z) poller_scheme \<Rightarrow> ('h, 'z) poller_scheme res" where
  "delete_channel bd c p = with_channel look_channel c p (\<lambda>ch.
     res_bind (EventChannel_destroy bd ch) (\<lambda>_. Inr (p\<lparr>chans := (chans p)(c := None)\<rparr>)))"

text \<open>
  epoll(7): closing a descriptor takes it off the interest list, whether or not its channel was.  Only
  the destructors of a connection and of an acceptor can close a descriptor that is still on the list.
\<close>

definition close_fd :: "int \<Rightarrow> ('h, 'z) poller_scheme \<Rightarrow> ('h, 'z) poller_scheme" where
  "close_fd f p = p\<lparr>interest := (interest p)(f := None)\<rparr>"

lemma close_fd_id [simp]: "interest p f = None \<Longrightarrow> close_fd f p = p"
  by (simp add: close_fd_def fun_upd_idem)

lemma close_fd_fields [simp]:
  "chans (close_fd f p) = chans p" "channels (close_fd f p) = channels p" "sysErrors (close_fd f p) = sysErrors p"
  "interest (close_fd f p) = (interest p)(f := None)"
  by (simp_all add: close_fd_def)

section \<open>Polling\<close>

text \<open>
  \<open>ready\<close> is what \<^verbatim>\<open>epoll_wait\<close> fills into \<open>events_\<close>, \<open>None\<close> its failure.  The result is the list
  \<^verbatim>\<open>readyChannels\<close>.
\<close>

fun set_ready :: "(nat \<times> 32 word) list \<Rightarrow> ('h, 'z) poller_scheme \<Rightarrow> ('h, 'z) poller_scheme res" where
  "set_ready [] p = Inr p"
| "set_ready ((c, ev) # rs) p = with_channel look_channel c p (\<lambda>ch.
     set_ready rs (put_channel c (setRevents ev ch) p))"

definition pollEvents :: "bool \<Rightarrow> (nat \<times> 32 word) list option \<Rightarrow> ('h, 'z) poller_scheme \<Rightarrow>
    (nat list \<times> ('h, 'z) poller_scheme) res" where
  "pollEvents il ready p = guarding Wrong_Thread il (case ready of
     None \<Rightarrow> Inr ([], p\<lparr>sysErrors := sysErrors p + 1\<rparr>)
   | Some rs \<Rightarrow> if rs = [] then Inr ([], p) else
       let p1 = (if length rs = capacity p then p\<lparr>capacity := capacity p * 2\<rparr> else p)
       in res_bind (set_ready rs p1) (\<lambda>p2. Inr (map fst rs, p2)))"

text \<open>
  A pointer to a destroyed channel in the poller's set: a channel made later at that address is taken
  for one that is already registered, so that the kernel is told to modify what it does not know, fails, and
  never reports the channel.
\<close>

lemma stale_channel:
  fixes p :: "('a, 'b) poller_scheme"
  assumes "d \<in> channels p" and "interest p f = None" and "0 \<le> f"
  shows "\<exists>p1 p2. new_channel bd d f p = Inr p1 \<and> enableReading True d p1 = Inr p2 \<and>
    interest p2 = interest p \<and> sysErrors p2 = sysErrors p + 1"
proof -
  have rd: "NONE_EVENT OR READ_EVENT \<noteq> NONE_EVENT" by (simp add: NONE_EVENT_def READ_EVENT_def epoll_defs)
  obtain ch :: "'a channel" where ch: "EventChannel bd f = Inr ch" "fd ch = f" "events ch = NONE_EVENT"
    using assms(3) by (simp add: EventChannel_def)
  let ?ch = "ch\<lparr>events := NONE_EVENT OR READ_EVENT\<rparr>" and ?p1 = "put_channel d ch p"
  have "enableReading True d ?p1 = updateChannel True d (put_channel d ?ch ?p1)"
    using ch(3) by (simp add: enableReading_def set_events_def with_channel_def cs.look_put)
  also have "\<dots> = Inr ((put_channel d ?ch ?p1)\<lparr>sysErrors := sysErrors p + 1\<rparr>)"
    using assms(1,2) ch(2) rd by (simp add: updateChannel_def with_channel_def cs.look_put isNoneEvent_def ctl_def) (simp add: put_channel_def)
  finally show ?thesis
    using ch(1) by (intro exI[of _ ?p1] exI) (auto simp: new_channel_def put_channel_def)
qed

section \<open>Invariant\<close>

text \<open>
  The poller's set, the live channels and the kernel's list agree; a channel is in the set
  exactly when it is watched for something.
\<close>

definition poller_inv :: "('h, 'z) poller_scheme \<Rightarrow> bool" where
  "poller_inv p \<longleftrightarrow>
     (\<forall>c ch. chans p c = Some ch \<longrightarrow> (c \<in> channels p \<longleftrightarrow> \<not> isNoneEvent ch))
   \<and> (\<forall>c \<in> channels p. \<exists>ch. chans p c = Some ch \<and> interest p (fd ch) = Some (events ch, c))
   \<and> (\<forall>f ev c. interest p f = Some (ev, c) \<longrightarrow> c \<in> channels p \<and> (\<exists>ch. chans p c = Some ch \<and> fd ch = f))"

lemma look_chans [simp]: "look_channel c p = chans p c"
  by (simp add: look_channel_def)

lemma put_fields [simp]:
  "chans (put_channel c ch p) = (chans p)(c \<mapsto> ch)" "channels (put_channel c ch p) = channels p"
  "interest (put_channel c ch p) = interest p" "sysErrors (put_channel c ch p) = sysErrors p"
  "capacity (put_channel c ch p) = capacity p"
  by (simp_all add: put_channel_def)

lemma poller_invD:
  assumes "poller_inv p"
  shows "chans p c = Some ch \<Longrightarrow> c \<in> channels p \<longleftrightarrow> \<not> isNoneEvent ch"
    and "c \<in> channels p \<Longrightarrow> \<exists>ch. chans p c = Some ch \<and> interest p (fd ch) = Some (events ch, c)"
    and "interest p f = Some (ev, c) \<Longrightarrow> c \<in> channels p \<and> (\<exists>ch. chans p c = Some ch \<and> fd ch = f)"
  using assms unfolding poller_inv_def by blast+

text \<open>A change of a channel that leaves its descriptor and its events alone.\<close>

lemma poller_inv_put:
  assumes "poller_inv p" and "chans p c = Some ch" and "fd ch' = fd ch" and "events ch' = events ch"
  shows "poller_inv (put_channel c ch' p)"
proof -
  have "isNoneEvent ch' = isNoneEvent ch" using assms(4) by (simp add: isNoneEvent_def)
  then show ?thesis
    using poller_invD[OF assms(1)] assms(2-4) unfolding poller_inv_def by (auto; metis option.inject)
qed

lemma updateChannel_add:
  assumes "chans p c = Some ch" and "c \<notin> channels p" and "interest p (fd ch) = None"
  shows "updateChannel True c p = Inr (p\<lparr>interest := (interest p)(fd ch \<mapsto> (events ch, c)),
    channels := insert c (channels p)\<rparr>)"
  using assms by (simp add: updateChannel_def with_channel_def ctl_def)

lemma updateChannel_present:
  assumes "chans p c = Some ch" and "c \<in> channels p" and "interest p (fd ch) \<noteq> None"
  shows "updateChannel True c p = Inr (if isNoneEvent ch
    then p\<lparr>interest := (interest p)(fd ch := None), channels := channels p - {c}\<rparr>
    else p\<lparr>interest := (interest p)(fd ch \<mapsto> (events ch, c))\<rparr>)"
  using assms by (auto simp: updateChannel_def with_channel_def ctl_def)

text \<open>
  What the operations of a channel do: on a channel that is watched, or to watch one whose
  descriptor no other channel watches.
\<close>

lemma set_events_ok:
  assumes I: "poller_inv p" and c: "chans p c = Some ch"
    and watch: "c \<in> channels p \<or> f (events ch) \<noteq> NONE_EVENT \<and> interest p (fd ch) = None"
  shows "\<exists>p'. set_events True f c p = Inr p' \<and> poller_inv p' \<and> sysErrors p' = sysErrors p \<and>
    capacity p' = capacity p \<and> chans p' = (chans p)(c \<mapsto> ch\<lparr>events := f (events ch)\<rparr>) \<and>
    channels p' = (if f (events ch) = NONE_EVENT then channels p - {c} else insert c (channels p))"
proof -
  let ?ch = "ch\<lparr>events := f (events ch)\<rparr>"
  let ?q = "put_channel c ?ch p"
  have set: "set_events True f c p = updateChannel True c ?q"
    using c by (simp add: set_events_def with_channel_def)
  note D = poller_invD[OF I]
  show ?thesis
  proof (cases "c \<in> channels p")
    case False
    then have w: "f (events ch) \<noteq> NONE_EVENT" "interest p (fd ch) = None" using watch by blast+
    let ?r = "?q\<lparr>interest := (interest p)(fd ch \<mapsto> (f (events ch), c)), channels := insert c (channels p)\<rparr>"
    have u: "updateChannel True c ?q = Inr ?r"
      using updateChannel_add[of ?q c ?ch] False w by simp
    have "poller_inv ?r"
      unfolding poller_inv_def
    proof (intro conjI allI impI ballI)
      show "d \<in> channels ?r \<longleftrightarrow> \<not> isNoneEvent dh" if "chans ?r d = Some dh" for d dh
        using that w(1) D(1)[of d dh] by (auto simp: isNoneEvent_def split: if_splits)
      show "\<exists>dh. chans ?r d = Some dh \<and> interest ?r (fd dh) = Some (events dh, d)" if "d \<in> channels ?r" for d
      proof (cases "d = c")
        case False
        then have "d \<in> channels p" using that by simp
        then obtain dh where "chans p d = Some dh" "interest p (fd dh) = Some (events dh, d)"
          using D(2) by blast
        then show ?thesis using False w(2) by (intro exI[of _ dh]) auto
      qed simp
      show "d \<in> channels ?r" if "interest ?r g = Some (ev, d)" for g ev d
        using that D(3)[of g ev d] by (auto split: if_splits)
      show "\<exists>dh. chans ?r d = Some dh \<and> fd dh = g" if "interest ?r g = Some (ev, d)" for g ev d
        using that D(3)[of g ev d] c by (auto split: if_splits)
    qed
    with set u w(1) show ?thesis by simp
  next
    case True
    obtain ch0 where "chans p c = Some ch0" "interest p (fd ch0) = Some (events ch0, c)"
      using D(2)[OF True] by blast
    then have i: "interest p (fd ch) = Some (events ch, c)" using c by simp
    have own: "g = fd ch" if "interest p g = Some (ev, c)" for g ev
      using D(3)[OF that] c by auto
    have other: "\<exists>dh. chans p d = Some dh \<and> interest p (fd dh) = Some (events dh, d) \<and> fd dh \<noteq> fd ch"
      if d: "d \<in> channels p" "d \<noteq> c" for d
    proof -
      obtain dh where dh: "chans p d = Some dh" "interest p (fd dh) = Some (events dh, d)"
        using D(2)[OF d(1)] by blast
      moreover have "fd dh \<noteq> fd ch" using dh(2) i d(2) by auto
      ultimately show ?thesis by blast
    qed
    show ?thesis
    proof (cases "f (events ch) = NONE_EVENT")
      case none: True
      let ?r = "?q\<lparr>interest := (interest p)(fd ch := None), channels := channels p - {c}\<rparr>"
      have u: "updateChannel True c ?q = Inr ?r"
        using updateChannel_present[of ?q c ?ch] True i none by (simp add: isNoneEvent_def)
      have "poller_inv ?r"
        unfolding poller_inv_def
      proof (intro conjI allI impI ballI)
        show "d \<in> channels ?r \<longleftrightarrow> \<not> isNoneEvent dh" if "chans ?r d = Some dh" for d dh
          using that none D(1)[of d dh] by (auto simp: isNoneEvent_def split: if_splits)
        show "\<exists>dh. chans ?r d = Some dh \<and> interest ?r (fd dh) = Some (events dh, d)" if "d \<in> channels ?r" for d
          using that other[of d] by auto
        show "d \<in> channels ?r" if "interest ?r g = Some (ev, d)" for g ev d
          using that D(3)[of g ev d] own[of g ev] by (auto split: if_splits)
        show "\<exists>dh. chans ?r d = Some dh \<and> fd dh = g" if "interest ?r g = Some (ev, d)" for g ev d
          using that D(3)[of g ev d] own[of g ev] by (auto split: if_splits)
      qed
      with set u none show ?thesis by simp
    next
      case some: False
      let ?r = "?q\<lparr>interest := (interest p)(fd ch \<mapsto> (f (events ch), c))\<rparr>"
      have u: "updateChannel True c ?q = Inr ?r"
        using updateChannel_present[of ?q c ?ch] True i some by (simp add: isNoneEvent_def)
      have "poller_inv ?r"
        unfolding poller_inv_def
      proof (intro conjI allI impI ballI)
        show "d \<in> channels ?r \<longleftrightarrow> \<not> isNoneEvent dh" if "chans ?r d = Some dh" for d dh
          using that some True D(1)[of d dh] by (auto simp: isNoneEvent_def split: if_splits)
        show "\<exists>dh. chans ?r d = Some dh \<and> interest ?r (fd dh) = Some (events dh, d)" if "d \<in> channels ?r" for d
          using that other[of d] by (cases "d = c") auto
        show "d \<in> channels ?r" if "interest ?r g = Some (ev, d)" for g ev d
          using that D(3)[of g ev d] True by (auto split: if_splits)
        show "\<exists>dh. chans ?r d = Some dh \<and> fd dh = g" if "interest ?r g = Some (ev, d)" for g ev d
          using that D(3)[of g ev d] c by (auto split: if_splits)
      qed
      with set u some True show ?thesis by (simp add: insert_absorb)
    qed
  qed
qed

section \<open>Disciplined use\<close>

datatype chan_op = EnableReading | EnableWriting | DisableReading | DisableWriting | DisableAll

fun do_op :: "chan_op \<Rightarrow> bool \<Rightarrow> nat \<Rightarrow> ('h, 'z) poller_scheme \<Rightarrow> ('h, 'z) poller_scheme res" where
  "do_op EnableReading il c p = enableReading il c p"
| "do_op EnableWriting il c p = enableWriting il c p"
| "do_op DisableReading il c p = disableReading il c p"
| "do_op DisableWriting il c p = disableWriting il c p"
| "do_op DisableAll il c p = disableAll il c p"

fun new_events :: "chan_op \<Rightarrow> 32 word \<Rightarrow> 32 word" where
  "new_events EnableReading e = e OR READ_EVENT"
| "new_events EnableWriting e = e OR WRITE_EVENT"
| "new_events DisableReading e = e AND NOT READ_EVENT"
| "new_events DisableWriting e = e AND NOT WRITE_EVENT"
| "new_events DisableAll e = NONE_EVENT"

lemma do_op_set_events: "do_op op il c p = set_events il (new_events op) c p"
proof -
  have "new_events EnableReading = (\<lambda>e. e OR READ_EVENT)" "new_events EnableWriting = (\<lambda>e. e OR WRITE_EVENT)"
    "new_events DisableReading = (\<lambda>e. e AND NOT READ_EVENT)"
    "new_events DisableWriting = (\<lambda>e. e AND NOT WRITE_EVENT)" "new_events DisableAll = (\<lambda>e. NONE_EVENT)"
    by (simp_all add: fun_eq_iff)
  then show ?thesis
    by (cases op) (simp_all add: enableReading_def enableWriting_def disableReading_def
        disableWriting_def disableAll_def)
qed

lemma or_watch_neq: "e OR READ_EVENT \<noteq> NONE_EVENT" "e OR WRITE_EVENT \<noteq> NONE_EVENT"
  by (simp_all add: event_defs or_eq_0_iff)

text \<open>
  How the library uses a poller: channels are created, operated on, given callbacks, polled and
  deleted.  A channel is not told to stop watching before it watches for something, starts watching when no
  other channel watches its descriptor, and is deleted when it watches for nothing;
  \<^verbatim>\<open>epoll_wait\<close> reports what is in the interest list.
\<close>

definition may_do :: "chan_op \<Rightarrow> nat \<Rightarrow> 'h channel \<Rightarrow> ('h, 'z) poller_scheme \<Rightarrow> bool" where
  "may_do op c ch p \<longleftrightarrow> c \<in> channels p
     \<or> (op = EnableReading \<or> op = EnableWriting) \<and> interest p (fd ch) = None"

definition reported :: "(nat \<times> 32 word) list \<Rightarrow> ('h, 'z) poller_scheme \<Rightarrow> bool" where
  "reported rs p \<longleftrightarrow> (\<forall>(c, ev) \<in> set rs. \<exists>f e. interest p f = Some (e, c))"

inductive poller_step :: "'h poller \<Rightarrow> 'h poller \<Rightarrow> bool" where
  step_new: "chans p c = None \<Longrightarrow> new_channel bd c f p = Inr p' \<Longrightarrow> poller_step p p'"
| step_op: "chans p c = Some ch \<Longrightarrow> may_do op c ch p \<Longrightarrow> do_op op True c p = Inr p' \<Longrightarrow> poller_step p p'"
| step_set: "chans p c = Some ch \<Longrightarrow> fd ch' = fd ch \<Longrightarrow> events ch' = events ch \<Longrightarrow>
     p' = put_channel c ch' p \<Longrightarrow> poller_step p p'"
| step_delete: "chans p c = Some ch \<Longrightarrow> isNoneEvent ch \<Longrightarrow> delete_channel bd c p = Inr p' \<Longrightarrow> poller_step p p'"
| step_poll: "reported rs p \<Longrightarrow> pollEvents True (Some rs) p = Inr (cs, p') \<Longrightarrow> poller_step p p'"

definition poller_ok :: "'h poller \<Rightarrow> bool" where
  "poller_ok p \<longleftrightarrow> poller_inv p \<and> sysErrors p = 0"

lemma poller_inv_new:
  assumes "poller_inv p" and "chans p c = None" and "new_channel bd c f p = Inr p'"
  shows "poller_inv p' \<and> sysErrors p' = sysErrors p \<and> channels p' = channels p \<and> interest p' = interest p \<and>
    (\<exists>ch. chans p' = (chans p)(c \<mapsto> ch) \<and> fd ch = f \<and> isNoneEvent ch)"
proof -
  note D = poller_invD[OF assms(1)]
  obtain ch where ch: "EventChannel bd f = Inr ch" "p' = put_channel c ch p"
    using assms(3) by (auto simp: new_channel_def res_simps)
  then have f: "fd ch = f" "isNoneEvent ch"
    by (auto simp: EventChannel_def res_simps isNoneEvent_def)
  have c: "c \<notin> channels p" using D(2)[of c] assms(2) by auto
  have "poller_inv p'"
    unfolding poller_inv_def ch(2)
  proof (intro conjI allI impI ballI)
    let ?q = "put_channel c ch p"
    show "d \<in> channels ?q \<longleftrightarrow> \<not> isNoneEvent dh" if "chans ?q d = Some dh" for d dh
      using that D(1)[of d dh] c f(2) by (auto split: if_splits)
    show "\<exists>dh. chans ?q d = Some dh \<and> interest ?q (fd dh) = Some (events dh, d)" if "d \<in> channels ?q" for d
      using that D(2)[of d] c by auto
    show "d \<in> channels ?q" if "interest ?q g = Some (ev, d)" for g ev d
      using that D(3)[of g ev d] by simp
    show "\<exists>dh. chans ?q d = Some dh \<and> fd dh = g" if "interest ?q g = Some (ev, d)" for g ev d
      using that D(3)[of g ev d] c by auto
  qed
  with ch(2) f show ?thesis by auto
qed

lemma poller_inv_delete:
  assumes "poller_inv p" and "chans p c = Some ch" and "isNoneEvent ch" and "delete_channel bd c p = Inr p'"
  shows "poller_inv p' \<and> sysErrors p' = sysErrors p \<and> chans p' = (chans p)(c := None)"
proof -
  note D = poller_invD[OF assms(1)]
  have p': "p' = p\<lparr>chans := (chans p)(c := None)\<rparr>"
    using assms(2,4) by (auto simp: delete_channel_def with_channel_def res_simps)
  have c: "c \<notin> channels p" using D(1)[OF assms(2)] assms(3) by simp
  have "poller_inv p'"
    unfolding poller_inv_def p'
  proof (intro conjI allI impI ballI)
    let ?q = "p\<lparr>chans := (chans p)(c := None)\<rparr>"
    show "d \<in> channels ?q \<longleftrightarrow> \<not> isNoneEvent dh" if "chans ?q d = Some dh" for d dh
      using that D(1)[of d dh] by (auto split: if_splits)
    show "\<exists>dh. chans ?q d = Some dh \<and> interest ?q (fd dh) = Some (events dh, d)" if "d \<in> channels ?q" for d
      using that D(2)[of d] c by auto
    show "d \<in> channels ?q" if "interest ?q g = Some (ev, d)" for g ev d
      using that D(3)[of g ev d] by simp
    show "\<exists>dh. chans ?q d = Some dh \<and> fd dh = g" if "interest ?q g = Some (ev, d)" for g ev d
      using that D(3)[of g ev d] c by auto
  qed
  with p' show ?thesis by simp
qed

lemma set_ready_ok:
  assumes "poller_inv p" and "\<forall>(c, ev) \<in> set rs. c \<in> channels p"
  shows "\<exists>p'. set_ready rs p = Inr p' \<and> poller_inv p' \<and> sysErrors p' = sysErrors p \<and>
    capacity p' = capacity p \<and> channels p' = channels p \<and> interest p' = interest p \<and>
    (\<forall>c. chans p' c = (case map_of (rev rs) c of None \<Rightarrow> chans p c
       | Some ev \<Rightarrow> map_option (setRevents ev) (chans p c)))"
  using assms
proof (induction rs arbitrary: p)
  case Nil
  then show ?case by simp
next
  case (Cons r rs)
  obtain c ev where r: "r = (c, ev)" by fastforce
  then have "c \<in> channels p" using Cons.prems(2) by auto
  then obtain ch where ch: "chans p c = Some ch" using poller_invD(2)[OF Cons.prems(1)] by blast
  let ?q = "put_channel c (setRevents ev ch) p"
  have q: "poller_inv ?q"
    using Cons.prems(1) ch by (rule poller_inv_put) (simp_all add: setRevents_def)
  have "\<forall>(c, ev) \<in> set rs. c \<in> channels ?q" using Cons.prems(2) by simp
  from Cons.IH[OF q this] obtain p' where p': "set_ready rs ?q = Inr p'" "poller_inv p'"
      "sysErrors p' = sysErrors p" "capacity p' = capacity p" "channels p' = channels p" "interest p' = interest p"
      "\<forall>d. chans p' d = (case map_of (rev rs) d of None \<Rightarrow> chans ?q d
         | Some ev \<Rightarrow> map_option (setRevents ev) (chans ?q d))"
    by auto
  moreover have "set_ready (r # rs) p = Inr p'" using p'(1) ch r by (simp add: with_channel_def)
  moreover have "chans p' d = (case map_of (rev (r # rs)) d of None \<Rightarrow> chans p d
         | Some ev \<Rightarrow> map_option (setRevents ev) (chans p d))" for d
    using p'(7) ch r by (auto simp: map_add_def setRevents_def split: option.splits)
  ultimately show ?case by simp
qed

lemma pollEvents_ok:
  assumes "poller_inv p" and "reported rs p"
  shows "\<exists>p'. pollEvents True (Some rs) p = Inr (map fst rs, p') \<and> poller_inv p' \<and>
    sysErrors p' = sysErrors p \<and> channels p' = channels p \<and> interest p' = interest p \<and>
    capacity p' = (if rs \<noteq> [] \<and> length rs = capacity p then 2 * capacity p else capacity p) \<and>
    (\<forall>c. chans p' c = (case map_of (rev rs) c of None \<Rightarrow> chans p c
       | Some ev \<Rightarrow> map_option (setRevents ev) (chans p c)))"
proof -
  let ?q = "if length rs = capacity p then p\<lparr>capacity := capacity p * 2\<rparr> else p"
  have q: "poller_inv ?q" using assms(1) by (simp add: poller_inv_def)
  have "\<forall>(c, ev) \<in> set rs. c \<in> channels ?q"
    using assms poller_invD(3)[OF assms(1)] unfolding reported_def by fastforce
  from set_ready_ok[OF q this] obtain p' where "set_ready rs ?q = Inr p'" "poller_inv p'"
      "sysErrors p' = sysErrors ?q" "capacity p' = capacity ?q" "channels p' = channels ?q"
      "interest p' = interest ?q"
      "\<forall>c. chans p' c = (case map_of (rev rs) c of None \<Rightarrow> chans ?q c
         | Some ev \<Rightarrow> map_option (setRevents ev) (chans ?q c))" by blast
  moreover have "chans ?q = chans p" "sysErrors ?q = sysErrors p" "channels ?q = channels p"
    "interest ?q = interest p" by simp_all
  ultimately have "set_ready rs ?q = Inr p'" "poller_inv p'" "sysErrors p' = sysErrors p"
      "capacity p' = capacity ?q" "channels p' = channels p" "interest p' = interest p"
      "\<forall>c. chans p' c = (case map_of (rev rs) c of None \<Rightarrow> chans p c
         | Some ev \<Rightarrow> map_option (setRevents ev) (chans p c))" by metis+
  then show ?thesis
    using assms(1) by (cases "rs = []") (auto simp: pollEvents_def Let_def)
qed

lemma poller_step_ok:
  assumes "poller_ok p" and "poller_step p p'"
  shows "poller_ok p'"
  using assms(2,1)
proof (cases rule: poller_step.cases)
  case (step_new c bd f)
  with assms(1) show ?thesis using poller_inv_new[of p c bd f p'] by (simp add: poller_ok_def)
next
  case (step_op c ch op)
  then have "c \<in> channels p \<or> new_events op (events ch) \<noteq> NONE_EVENT \<and> interest p (fd ch) = None"
    using or_watch_neq by (auto simp: may_do_def)
  then obtain q where "set_events True (new_events op) c p = Inr q" "poller_inv q" "sysErrors q = sysErrors p"
    using set_events_ok[of p c ch "new_events op"] step_op(1) assms(1) unfolding poller_ok_def by blast
  with assms(1) step_op(3) show ?thesis by (simp add: poller_ok_def do_op_set_events)
next
  case (step_set c ch ch')
  with assms(1) show ?thesis using poller_inv_put[of p c ch ch'] by (simp add: poller_ok_def)
next
  case (step_delete c ch bd)
  with assms(1) show ?thesis using poller_inv_delete[of p c ch bd p'] by (simp add: poller_ok_def)
next
  case (step_poll rs cs)
  with assms(1) show ?thesis using pollEvents_ok[of p rs] by (auto simp: poller_ok_def)
qed

interpretation pl: invariant_system "\<lambda>p. p = EventPoller" poller_step poller_ok
proof
  show "poller_ok p" if "p = EventPoller" for p :: "'h poller"
    unfolding that by (simp add: poller_ok_def poller_inv_def EventPoller_def)
qed (rule poller_step_ok)

section \<open>Properties\<close>

text \<open>
  C17. In every state the disciplined use of a poller reaches, the set of the poller holds exactly
  the live channels that are watched for something, the kernel's interest list holds exactly
  these, each under its own descriptor with its current events, and no \<^verbatim>\<open>epoll_ctl\<close> call has
  failed.
\<close>

theorem poller_consistent:
  assumes "reach (\<lambda>p. p = EventPoller) poller_step p"
  shows "sysErrors p = 0 \<and>
    channels p = {c. \<exists>ch. chans p c = Some ch \<and> \<not> isNoneEvent ch} \<and>
    (\<forall>f ev c. interest p f = Some (ev, c) \<longleftrightarrow>
       (\<exists>ch. chans p c = Some ch \<and> fd ch = f \<and> events ch = ev \<and> \<not> isNoneEvent ch))"
proof -
  have ok: "poller_ok p" using pl.reachable_inv[OF assms] .
  then have I: "poller_inv p" by (simp add: poller_ok_def)
  note D = poller_invD[OF I]
  have "channels p = {c. \<exists>ch. chans p c = Some ch \<and> \<not> isNoneEvent ch}"
    using D(1,2) by blast
  moreover have "interest p f = Some (ev, c) \<longleftrightarrow>
       (\<exists>ch. chans p c = Some ch \<and> fd ch = f \<and> events ch = ev \<and> \<not> isNoneEvent ch)" for f ev c
  proof
    assume i: "interest p f = Some (ev, c)"
    then obtain ch where ch: "chans p c = Some ch" "fd ch = f" "c \<in> channels p" using D(3) by blast
    then have "interest p f = Some (events ch, c)" using D(2)[of c] by auto
    with i ch D(1)[of c ch] show "\<exists>ch. chans p c = Some ch \<and> fd ch = f \<and> events ch = ev \<and> \<not> isNoneEvent ch"
      by auto
  next
    assume "\<exists>ch. chans p c = Some ch \<and> fd ch = f \<and> events ch = ev \<and> \<not> isNoneEvent ch"
    then obtain ch where ch: "chans p c = Some ch" "fd ch = f" "events ch = ev" "\<not> isNoneEvent ch" by blast
    then show "interest p f = Some (ev, c)" using D(1)[of c ch] D(2)[of c] by auto
  qed
  ultimately show ?thesis using ok by (simp add: poller_ok_def)
qed

definition sample_poller :: "nat poller" where
  "sample_poller = \<lparr>chans = [1 \<mapsto> \<lparr>fd = 7, events = READ_EVENT, revents = 0, readCallback = Some 10,
       writeCallback = Some 20, errorCallback = Some 30, closeCallback = Some 40, eventCallback = None,
       bindObject = None, isHandling = False\<rparr>],
     channels = {1}, interest = [7 \<mapsto> (READ_EVENT, 1)], capacity = 32, sysErrors = 0\<rparr>"

lemma sample_poller_reach: "reach (\<lambda>p. p = EventPoller) poller_step sample_poller"
proof -
  let ?c0 = "\<lparr>fd = 7, events = NONE_EVENT, revents = 0, readCallback = None,
    writeCallback = None, errorCallback = None, closeCallback = None, eventCallback = None,
    bindObject = None, isHandling = False\<rparr>"
  let ?c1 = "\<lparr>fd = 7, events = NONE_EVENT, revents = 0, readCallback = Some 10,
       writeCallback = Some 20, errorCallback = Some 30, closeCallback = Some 40, eventCallback = None,
       bindObject = None, isHandling = False\<rparr>"
  have r0: "reach (\<lambda>p. p = EventPoller) poller_step EventPoller" by (rule reach_init) simp
  have r1: "reach (\<lambda>p. p = EventPoller) poller_step (put_channel 1 ?c0 EventPoller)"
    by (rule reach_step[OF r0], rule step_new[of _ 1 Debug 7])
      (simp_all add: EventPoller_def new_channel_def EventChannel_def)
  have r2: "reach (\<lambda>p. p = EventPoller) poller_step (put_channel 1 ?c1 (put_channel 1 ?c0 EventPoller))"
    by (rule reach_step[OF r1], rule step_set[of _ 1 ?c0 ?c1]) simp_all
  show ?thesis
    by (rule reach_step[OF r2], rule step_op[of _ 1 ?c1 EnableReading])
      (auto simp: may_do_def EventPoller_def enableReading_def set_events_def with_channel_def
        updateChannel_def ctl_def put_channel_def sample_poller_def NONE_EVENT_def)
qed

theorem poller_consistent_witness:
  "channels sample_poller = {c. \<exists>ch. chans sample_poller c = Some ch \<and> \<not> isNoneEvent ch} \<and>
   interest sample_poller 7 = Some (READ_EVENT, 1)"
  using poller_consistent[OF sample_poller_reach] by (simp add: sample_poller_def)

text \<open>
  Polling from such a state: every pointer the kernel reports is a live channel and is in the result, in
  order; each reported channel has the (last) reported events set, all else is as it was; and
  the array of events doubles when it was filled.
\<close>

theorem poll_reports:
  assumes "reach (\<lambda>p. p = EventPoller) poller_step p" and "reported rs p"
  shows "\<exists>p'. pollEvents True (Some rs) p = Inr (map fst rs, p') \<and>
    set (map fst rs) \<subseteq> dom (chans p') \<and> interest p' = interest p \<and>
    capacity p' = (if rs \<noteq> [] \<and> length rs = capacity p then 2 * capacity p else capacity p) \<and>
    (\<forall>c. chans p' c = (case map_of (rev rs) c of None \<Rightarrow> chans p c
       | Some ev \<Rightarrow> map_option (setRevents ev) (chans p c)))"
proof -
  have I: "poller_inv p" using pl.reachable_inv[OF assms(1)] by (simp add: poller_ok_def)
  obtain p' where p': "pollEvents True (Some rs) p = Inr (map fst rs, p')" "poller_inv p'"
      "channels p' = channels p" "interest p' = interest p"
      "capacity p' = (if rs \<noteq> [] \<and> length rs = capacity p then 2 * capacity p else capacity p)"
      "\<forall>c. chans p' c = (case map_of (rev rs) c of None \<Rightarrow> chans p c
         | Some ev \<Rightarrow> map_option (setRevents ev) (chans p c))"
    using pollEvents_ok[OF I assms(2)] by blast
  have "c \<in> dom (chans p')" if "c \<in> set (map fst rs)" for c
  proof -
    have "c \<in> channels p"
      using that assms(2) poller_invD(3)[OF I] unfolding reported_def by fastforce
    then show ?thesis using poller_invD(2)[OF p'(2), of c] p'(3) by auto
  qed
  with p' show ?thesis by blast
qed

theorem poll_reports_witness:
  "\<exists>p'. pollEvents True (Some [(1, EPOLLIN OR EPOLLHUP)]) sample_poller = Inr ([1], p') \<and>
    map_option revents (chans p' 1) = Some (EPOLLIN OR EPOLLHUP)"
proof -
  have "reported [(1, EPOLLIN OR EPOLLHUP)] sample_poller"
    by (auto simp: reported_def sample_poller_def intro!: exI[of _ 7])
  from poll_reports[OF sample_poller_reach this] show ?thesis
    by (auto simp: sample_poller_def setRevents_def)
qed

text \<open>
  C20. Which callbacks a live, unbound or bound and alive, channel runs for the events reported, in which
  order, when they leave the channel alone: close for a hangup with nothing to read, error,
  read, and write only without a hangup.  The flag \<open>isHandling_\<close> is down afterwards unless
  the channel has an event callback, which is then the only one that runs.  A channel bound to a
  dead object does nothing.
\<close>

theorem channel_dispatch:
  fixes p :: "('h, 'z) poller_scheme" and trace :: "('h, 'z) poller_scheme \<Rightarrow> 'h list"
  assumes "chans p c = Some ch"
    and "\<And>h q. \<exists>q'. call h q = Inr q' \<and> chans q' c = chans q c \<and> trace q' = trace q @ [h]"
    and "\<And>d dh q. trace (put_channel d dh q) = trace q"
    and "live \<longleftrightarrow> (\<forall>obj. bindObject ch = Some obj \<longrightarrow> locked obj p)"
  shows "\<exists>p'. handlerEvent look_channel put_channel call locked True c p = Inr p' \<and>
    chans p' c = Some (if live then ch\<lparr>isHandling := eventCallback ch \<noteq> None\<rparr> else ch) \<and>
    trace p' = trace p @ (if \<not> live then [] else
      case eventCallback ch of Some h \<Rightarrow> [h] | None \<Rightarrow>
        chosen (revents ch AND EPOLLHUP \<noteq> 0 \<and> revents ch AND EPOLLIN = 0) (closeCallback ch) @
        chosen (revents ch AND EPOLLERR \<noteq> 0) (errorCallback ch) @
        chosen (revents ch AND (EPOLLIN OR EPOLLPRI OR EPOLLRDHUP) \<noteq> 0) (readCallback ch) @
        chosen (revents ch AND EPOLLOUT \<noteq> 0 \<and> revents ch AND EPOLLHUP = 0) (writeCallback ch))"
  using cs.handlerEvent_trace[of c p ch call trace live locked] assms
  by (auto simp: dispatch_def Let_def split: option.splits)

text \<open>
  The witness: what epoll reports for a connection attempt that was refused, on a channel
  that waits to write.  The write callback does not run.
\<close>

record traced = "nat poller" +
  calls :: "nat list"

definition refused :: traced where
  "refused = poller.extend (sample_poller\<lparr>chans := (chans sample_poller)(1 := map_option
     (\<lambda>ch. ch\<lparr>events := WRITE_EVENT, revents := EPOLLOUT OR EPOLLERR OR EPOLLHUP\<rparr>) (chans sample_poller 1))\<rparr>)
     \<lparr>calls = []\<rparr>"

theorem channel_dispatch_witness:
  "\<exists>p'. handlerEvent look_channel put_channel (\<lambda>h q. Inr (q\<lparr>calls := calls q @ [h]\<rparr>)) (\<lambda>_ _. True) True 1
     refused = Inr p' \<and> calls p' = [40, 30]"
proof -
  obtain ch where e: "chans refused 1 = Some ch" "calls refused = []" "eventCallback ch = None"
    "revents ch = EPOLLOUT OR EPOLLERR OR EPOLLHUP" "closeCallback ch = Some 40"
    "errorCallback ch = Some 30" "bindObject ch = None"
    by (simp add: refused_def sample_poller_def poller.extend_def)
  have "chosen (revents ch AND EPOLLHUP \<noteq> 0 \<and> revents ch AND EPOLLIN = 0) (closeCallback ch) @
      chosen (revents ch AND EPOLLERR \<noteq> 0) (errorCallback ch) @
      chosen (revents ch AND (EPOLLIN OR EPOLLPRI OR EPOLLRDHUP) \<noteq> 0) (readCallback ch) @
      chosen (revents ch AND EPOLLOUT \<noteq> 0 \<and> revents ch AND EPOLLHUP = 0) (writeCallback ch) = [40, 30]"
    using e by (simp add: chosen_def epoll_defs)
  with channel_dispatch[OF e(1), of "\<lambda>h q. Inr (q\<lparr>calls := calls q @ [h]\<rparr>)" calls True "\<lambda>_ _. True"]
  show ?thesis using e(2,3) by (simp add: put_channel_def) blast
qed

text \<open>
  Stopping to watch a channel that never watched for anything puts it into the poller's set and the
  interest list; its destructor's assertions hold, and the poller keeps a pointer to the
  destroyed channel, which the next report of its descriptor follows.
\<close>

theorem disable_unwatched:
  assumes "poller_inv p" and "chans p c = None" and "0 \<le> f" and "interest p f = None"
  shows "\<exists>p1 p2 p3. new_channel bd c f p = Inr p1 \<and> disableAll True c p1 = Inr p2 \<and>
    delete_channel bd c p2 = Inr p3 \<and> c \<in> channels p3 \<and> chans p3 c = None \<and>
    interest p3 f = Some (NONE_EVENT, c) \<and> pollEvents True (Some [(c, EPOLLHUP)]) p3 = Inl Dangling"
proof -
  obtain p1 where p1: "new_channel bd c f p = Inr p1"
    using assms(3) by (simp add: new_channel_def EventChannel_def)
  obtain ch where ch: "chans p1 = (chans p)(c \<mapsto> ch)" "fd ch = f" "isNoneEvent ch" "\<not> isHandling ch"
    using p1 by (auto simp: new_channel_def EventChannel_def res_simps isNoneEvent_def)
  have q: "channels p1 = channels p" "interest p1 = interest p"
    using poller_inv_new[OF assms(1,2) p1] by blast+
  have c: "c \<notin> channels p" using poller_invD(2)[OF assms(1), of c] assms(2) by auto
  let ?ch = "ch\<lparr>events := NONE_EVENT\<rparr>"
  let ?p2 = "(put_channel c ?ch p1)\<lparr>interest := (interest p1)(f \<mapsto> (NONE_EVENT, c)), channels := insert c (channels p1)\<rparr>"
  let ?p3 = "?p2\<lparr>chans := (chans ?p2)(c := None)\<rparr>"
  have "disableAll True c p1 = Inr ?p2"
    using updateChannel_add[of "put_channel c ?ch p1" c ?ch] ch(1,2) q c assms(4)
    by (simp add: disableAll_def set_events_def with_channel_def)
  moreover have "delete_channel bd c ?p2 = Inr ?p3"
    using ch(4) by (simp add: delete_channel_def with_channel_def EventChannel_destroy_def isNoneEvent_def)
  moreover have "pollEvents True (Some [(c, EPOLLHUP)]) ?p3 = Inl Dangling"
    by (simp add: pollEvents_def with_channel_def Let_def)
  ultimately show ?thesis using p1 by force
qed

theorem disable_unwatched_witness:
  "\<exists>p1 p2 p3. new_channel Debug 5 9 sample_poller = Inr p1 \<and> disableAll True 5 p1 = Inr p2 \<and>
    delete_channel Debug 5 p2 = Inr p3 \<and> 5 \<in> channels p3 \<and> chans p3 5 = None"
proof -
  have "poller_inv sample_poller"
    using pl.reachable_inv[OF sample_poller_reach] by (simp add: poller_ok_def)
  moreover have "chans sample_poller 5 = None" "interest sample_poller 9 = None"
    by (simp_all add: sample_poller_def)
  ultimately show ?thesis using disable_unwatched[of sample_poller 5 9 Debug] by fastforce
qed

end
