(* ===== verification/Event_Loop.thy ===== *)
theory Event_Loop
  imports Timer_Queue Event_Poller
begin

text \<open>
  \<^verbatim>\<open>src/include/godnet/net/event_loop.hpp\<close> and \<^verbatim>\<open>event_loop.cpp\<close>, with the operations of
  \<^verbatim>\<open>timer_queue.cpp\<close> that hand over to the loop's thread.

  The state of a loop extends that of its timer queue.  The queue \<open>customEvents_\<close> is the list of
  its elements (\<open>Lock_Free_Queue\<close> shows that it is one); an element is a function of the user or
  one of the two lambdas of \<open>TimerQueue\<close>.  \<^verbatim>\<open>wakeupFd_\<close> is the counter of an eventfd: a write
  adds to it unless it would overflow, a read sets it to 0.  The calling thread is the argument
  \<open>cur\<close>.  What calling a function of the user does is the argument \<open>call\<close>.  The clock is part of the
  state.  The counter of the timer ids is the number of timers created so far.
\<close>

section \<open>State\<close>

datatype 'f task = Func 'f | AddTimerTask "'f timer" | DelTimerTask nat

text \<open>A callback of a channel: that of \<open>wakeupChannel_\<close>, or one of the user.\<close>

datatype 'f callback = WakeupRead | Callback 'f

record 'f loop = "'f tqueue" +
  timersCreated :: nat
  threadId :: nat
  running :: bool
  customEvents :: "'f task list"
  wakeups :: nat
  poller :: "'f callback poller"
  clock :: int

type_synonym ('f, 'z) call = "'f \<Rightarrow> ('f, 'z) loop_scheme \<Rightarrow> ('f, 'z) loop_scheme res"

definition isInLoopThread :: "nat \<Rightarrow> ('f, 'z) loop_scheme \<Rightarrow> bool" where
  "isInLoopThread cur s \<longleftrightarrow> threadId s = cur"

definition isStop :: "('f, 'z) loop_scheme \<Rightarrow> bool" where
  "isStop s \<longleftrightarrow> \<not> running s"

text \<open>The largest value of an eventfd counter.\<close>

definition eventfd_max :: nat where
  "eventfd_max = 2 ^ 64 - 2"

definition wakeup :: "build \<Rightarrow> ('f, 'z) loop_scheme \<Rightarrow> ('f, 'z) loop_scheme res" where
  "wakeup bd s = (if wakeups s + 1 \<le> eventfd_max then Inr (s\<lparr>wakeups := wakeups s + 1\<rparr>)
     else asserting bd False (Inr s))"

text \<open>The read callback of \<open>wakeupChannel_\<close>.\<close>

definition readWakeup :: "('f, 'z) loop_scheme \<Rightarrow> ('f, 'z) loop_scheme" where
  "readWakeup s = s\<lparr>wakeups := 0\<rparr>"

text \<open>
  The constructor, on thread \<open>cur\<close>, with the wakeup channel at address \<open>c\<close> for descriptor \<open>f\<close>.
  \<open>n\<close> timers were created in the process before.
\<close>

definition EventLoop :: "build \<Rightarrow> nat \<Rightarrow> nat \<Rightarrow> int \<Rightarrow> nat \<Rightarrow> int \<Rightarrow> 'f loop res" where
  "EventLoop bd cur c f n now =
     asserting bd (f \<ge> 0) (res_bind (new_channel bd c f EventPoller) (\<lambda>p1.
       with_channel look_channel c p1 (\<lambda>ch.
         res_bind (enableReading True c (put_channel c (setReadCallback WakeupRead ch) p1)) (\<lambda>p2.
           Inr \<lparr>timers = [], timerIds = {}, timersCreated = n, threadId = cur, running = False,
             customEvents = [], wakeups = 0, poller = p2, clock = now\<rparr>))))"

section \<open>Operations any thread may call\<close>

definition pushTask :: "'f task \<Rightarrow> ('f, 'z) loop_scheme \<Rightarrow> ('f, 'z) loop_scheme" where
  "pushTask t s = s\<lparr>customEvents := customEvents s @ [t]\<rparr>"

text \<open>
  \<open>queueInLoop\<close> has two steps, between which other threads may run: it puts the function into the
  queue, and then looks whether the loop is to be woken up.  So has \<open>stop\<close>.
\<close>

definition wakeCheck :: "build \<Rightarrow> nat \<Rightarrow> ('f, 'z) loop_scheme \<Rightarrow> ('f, 'z) loop_scheme res" where
  "wakeCheck bd cur s = (if \<not> isInLoopThread cur s \<or> isStop s then wakeup bd s else Inr s)"

definition queueTask :: "build \<Rightarrow> nat \<Rightarrow> 'f task \<Rightarrow> ('f, 'z) loop_scheme \<Rightarrow> ('f, 'z) loop_scheme res" where
  "queueTask bd cur t s = wakeCheck bd cur (pushTask t s)"

definition queueInLoop :: "build \<Rightarrow> nat \<Rightarrow> 'f \<Rightarrow> ('f, 'z) loop_scheme \<Rightarrow> ('f, 'z) loop_scheme res" where
  "queueInLoop bd cur f s = queueTask bd cur (Func f) s"

definition runInLoop :: "('f, 'z) call \<Rightarrow> build \<Rightarrow> nat \<Rightarrow> 'f \<Rightarrow> ('f, 'z) loop_scheme \<Rightarrow> ('f, 'z) loop_scheme res" where
  "runInLoop call bd cur f s =
     (if isInLoopThread cur s then call f s else queueInLoop bd cur f s)"

definition setStop :: "build \<Rightarrow> ('f, 'z) loop_scheme \<Rightarrow> ('f, 'z) loop_scheme res" where
  "setStop bd s = asserting bd (\<not> isStop s) (Inr (s\<lparr>running := False\<rparr>))"

definition stopWake :: "build \<Rightarrow> nat \<Rightarrow> ('f, 'z) loop_scheme \<Rightarrow> ('f, 'z) loop_scheme res" where
  "stopWake bd cur s = (if \<not> isInLoopThread cur s then wakeup bd s else Inr s)"

definition stop :: "build \<Rightarrow> nat \<Rightarrow> ('f, 'z) loop_scheme \<Rightarrow> ('f, 'z) loop_scheme res" where
  "stop bd cur s = res_bind (setStop bd s) (stopWake bd cur)"

definition newTimer :: "int \<Rightarrow> int \<Rightarrow> 'f \<Rightarrow> ('f, 'z) loop_scheme \<Rightarrow> 'f timer \<times> ('f, 'z) loop_scheme" where
  "newTimer e i cb s = (Timer (timersCreated s) e i cb, s\<lparr>timersCreated := timersCreated s + 1\<rparr>)"

definition addTimer :: "build \<Rightarrow> nat \<Rightarrow> int \<Rightarrow> int \<Rightarrow> 'f \<Rightarrow> ('f, 'z) loop_scheme \<Rightarrow>
    (nat \<times> ('f, 'z) loop_scheme) res" where
  "addTimer bd cur e i cb s = (let (t, s1) = newTimer e i cb s in
     res_bind (if isInLoopThread cur s1 then addTimerInLoop (isInLoopThread cur s1) t s1
       else queueTask bd cur (AddTimerTask t) s1) (\<lambda>s2. Inr (t_id t, s2)))"

definition delTimer :: "build \<Rightarrow> nat \<Rightarrow> nat \<Rightarrow> ('f, 'z) loop_scheme \<Rightarrow> ('f, 'z) loop_scheme res" where
  "delTimer bd cur i s =
     (if isInLoopThread cur s then delTimerInLoop bd (isInLoopThread cur s) i s
      else queueTask bd cur (DelTimerTask i) s)"

definition runTimer :: "build \<Rightarrow> nat \<Rightarrow> int \<Rightarrow> int \<Rightarrow> 'f \<Rightarrow> ('f, 'z) loop_scheme \<Rightarrow>
    (nat \<times> ('f, 'z) loop_scheme) res" where
  "runTimer bd cur delay i cb s = addTimer bd cur (clock s + delay) i cb s"

definition runTimerAfter :: "build \<Rightarrow> nat \<Rightarrow> int \<Rightarrow> 'f \<Rightarrow> ('f, 'z) loop_scheme \<Rightarrow>
    (nat \<times> ('f, 'z) loop_scheme) res" where
  "runTimerAfter bd cur delay cb s = runTimer bd cur delay 0 cb s"

definition runTimerEvery :: "build \<Rightarrow> nat \<Rightarrow> int \<Rightarrow> 'f \<Rightarrow> ('f, 'z) loop_scheme \<Rightarrow>
    (nat \<times> ('f, 'z) loop_scheme) res" where
  "runTimerEvery bd cur i cb s = runTimer bd cur i i cb s"

definition cancelTimer :: "build \<Rightarrow> nat \<Rightarrow> nat \<Rightarrow> ('f, 'z) loop_scheme \<Rightarrow> ('f, 'z) loop_scheme res" where
  "cancelTimer bd cur i s = delTimer bd cur i s"

text \<open>An operation of a channel, which is one of the poller.\<close>

definition channel_op :: "nat \<Rightarrow> chan_op \<Rightarrow> nat \<Rightarrow> ('f, 'z) loop_scheme \<Rightarrow> ('f, 'z) loop_scheme res" where
  "channel_op cur op c s = res_bind (do_op op (isInLoopThread cur s) c (poller s))
     (\<lambda>p. Inr (s\<lparr>poller := p\<rparr>))"

section \<open>The loop\<close>

definition look_loop :: "nat \<Rightarrow> ('f, 'z) loop_scheme \<Rightarrow> 'f callback channel option" where
  "look_loop c s = chans (poller s) c"

definition put_loop :: "nat \<Rightarrow> 'f callback channel \<Rightarrow> ('f, 'z) loop_scheme \<Rightarrow> ('f, 'z) loop_scheme" where
  "put_loop c ch s = s\<lparr>poller := put_channel c ch (poller s)\<rparr>"

interpretation ls: channel_store look_loop put_loop
  by unfold_locales (simp_all add: look_loop_def put_loop_def)

fun call_callback :: "('f, 'z) call \<Rightarrow> 'f callback \<Rightarrow> ('f, 'z) loop_scheme \<Rightarrow> ('f, 'z) loop_scheme res" where
  "call_callback call WakeupRead s = Inr (readWakeup s)"
| "call_callback call (Callback f) s = call f s"

fun runTask :: "('f, 'z) call \<Rightarrow> build \<Rightarrow> nat \<Rightarrow> 'f task \<Rightarrow> ('f, 'z) loop_scheme \<Rightarrow> ('f, 'z) loop_scheme res" where
  "runTask call bd cur (Func f) s = call f s"
| "runTask call bd cur (AddTimerTask t) s = addTimerInLoop (isInLoopThread cur s) t s"
| "runTask call bd cur (DelTimerTask i) s = delTimerInLoop bd (isInLoopThread cur s) i s"

text \<open>
  The loop over \<open>customEvents_\<close>; the tasks it runs are returned.  It gets fuel: a task may queue
  further ones.
\<close>

fun runEvents :: "('f, 'z) call \<Rightarrow> build \<Rightarrow> nat \<Rightarrow> nat \<Rightarrow> ('f, 'z) loop_scheme \<Rightarrow>
    ('f task list \<times> ('f, 'z) loop_scheme) res option" where
  "runEvents call bd cur 0 s = None"
| "runEvents call bd cur (Suc n) s = (case customEvents s of
     [] \<Rightarrow> Some (Inr ([], s))
   | t # ts \<Rightarrow> (case runTask call bd cur t (s\<lparr>customEvents := ts\<rparr>) of
       Inl e \<Rightarrow> Some (Inl e)
     | Inr s1 \<Rightarrow> map_option (\<lambda>r. res_bind r (\<lambda>(ran, s2). Inr (t # ran, s2)))
         (runEvents call bd cur n s1)))"

text \<open>The timers of one iteration; then polling, with what \<^verbatim>\<open>epoll_wait\<close> reports after \<open>slept\<close> ms, and the handlers.\<close>

definition timersPhase :: "('f, 'z) call \<Rightarrow> nat \<Rightarrow> ('f, 'z) loop_scheme \<Rightarrow>
    ('f timer list \<times> ('f, 'z) loop_scheme) res" where
  "timersPhase call cur s =
     handlerTimer (\<lambda>t. call (callback t)) (isInLoopThread cur s) (clock s) s"

definition pollPhase :: "nat \<Rightarrow> nat \<Rightarrow> (nat \<times> 32 word) list option \<Rightarrow> ('f, 'z) loop_scheme \<Rightarrow>
    (int \<times> nat list \<times> ('f, 'z) loop_scheme) res" where
  "pollPhase cur slept ready s =
     res_bind (getNextTimeout (isInLoopThread cur s) (clock s) s) (\<lambda>timeout.
     res_bind (pollEvents (isInLoopThread cur s) ready (poller s)) (\<lambda>(cs, p).
       Inr (timeout, cs, s\<lparr>poller := p, clock := clock s + int slept\<rparr>)))"

definition dispatchPhase :: "('f, 'z) call \<Rightarrow> (nat \<Rightarrow> ('f, 'z) loop_scheme \<Rightarrow> bool) \<Rightarrow> nat \<Rightarrow> nat list \<Rightarrow>
    ('f, 'z) loop_scheme \<Rightarrow> ('f, 'z) loop_scheme res" where
  "dispatchPhase call locked cur cs s = res_fold (\<lambda>c s.
     handlerEvent look_loop put_loop (call_callback call) locked (isInLoopThread cur s) c s) cs s"

text \<open>
  One iteration of the loop, and \<^verbatim>\<open>start\<close>: \<open>env\<close> lists what the iterations get from the kernel, one after the
  other.  \<open>Inr None\<close>: the fuel of an iteration or the list was used up before the loop ended.
\<close>

definition iteration :: "('f, 'z) call \<Rightarrow> (nat \<Rightarrow> ('f, 'z) loop_scheme \<Rightarrow> bool) \<Rightarrow> build \<Rightarrow> nat \<Rightarrow> nat \<Rightarrow>
    nat \<times> (nat \<times> 32 word) list option \<Rightarrow> ('f, 'z) loop_scheme \<Rightarrow> ('f, 'z) loop_scheme option res" where
  "iteration call locked bd cur fuel env s =
     res_bind (timersPhase call cur s) (\<lambda>(fired, s1).
     res_bind (pollPhase cur (fst env) (snd env) s1) (\<lambda>(timeout, cs, s2).
     res_bind (dispatchPhase call locked cur cs s2) (\<lambda>s3.
       case runEvents call bd cur fuel s3 of
         None \<Rightarrow> Inr None
       | Some r \<Rightarrow> res_bind r (\<lambda>(ran, s4). Inr (Some s4)))))"

fun loopWhile :: "('f, 'z) call \<Rightarrow> (nat \<Rightarrow> ('f, 'z) loop_scheme \<Rightarrow> bool) \<Rightarrow> build \<Rightarrow> nat \<Rightarrow> nat \<Rightarrow>
    (nat \<times> (nat \<times> 32 word) list option) list \<Rightarrow> ('f, 'z) loop_scheme \<Rightarrow> ('f, 'z) loop_scheme option res" where
  "loopWhile call locked bd cur fuel [] s = (if running s then Inr None else Inr (Some s))"
| "loopWhile call locked bd cur fuel (e # env) s = (if running s
     then res_bind (iteration call locked bd cur fuel e s) (\<lambda>r. case r of
       None \<Rightarrow> Inr None | Some s1 \<Rightarrow> loopWhile call locked bd cur fuel env s1)
     else Inr (Some s))"

definition start :: "('f, 'z) call \<Rightarrow> (nat \<Rightarrow> ('f, 'z) loop_scheme \<Rightarrow> bool) \<Rightarrow> build \<Rightarrow> nat \<Rightarrow> nat \<Rightarrow>
    (nat \<times> (nat \<times> 32 word) list option) list \<Rightarrow> ('f, 'z) loop_scheme \<Rightarrow> ('f, 'z) loop_scheme option res" where
  "start call locked bd cur fuel env s = guarding Wrong_Thread (isInLoopThread cur s)
     (asserting bd (\<not> running s) (loopWhile call locked bd cur fuel env (s\<lparr>running := True\<rparr>)))"

text \<open>The destructor, with the wakeup channel at \<open>c\<close>.\<close>

definition destroyLoop :: "build \<Rightarrow> nat \<Rightarrow> nat \<Rightarrow> ('f, 'z) loop_scheme \<Rightarrow> ('f, 'z) loop_scheme res" where
  "destroyLoop bd cur c s = guarding Wrong_Thread (isInLoopThread cur s)
     (res_bind (channel_op cur DisableAll c s) (\<lambda>s1.
      res_bind (delete_channel bd c (poller s1)) (\<lambda>p. Inr (s1\<lparr>poller := p\<rparr>))))"

section \<open>The contract of a function of the user\<close>

text \<open>
  What a function called on thread \<open>cur\<close> may do to a loop: what the interface offers, and
  anything that leaves the queues, the status, the counters and the thread alone; time passes.
\<close>

inductive api :: "build \<Rightarrow> nat \<Rightarrow> ('f, 'z) loop_scheme \<Rightarrow> ('f, 'z) loop_scheme \<Rightarrow> bool"
  for bd :: build and cur :: nat where
  api_other: "timers s' = timers s \<Longrightarrow> timerIds s' = timerIds s \<Longrightarrow> timersCreated s' = timersCreated s \<Longrightarrow>
     threadId s' = threadId s \<Longrightarrow> running s' = running s \<Longrightarrow> customEvents s' = customEvents s \<Longrightarrow>
     wakeups s' = wakeups s \<Longrightarrow> clock s \<le> clock s' \<Longrightarrow> api bd cur s s'"
| api_queue: "queueInLoop bd cur f s = Inr s' \<Longrightarrow> api bd cur s s'"
| api_stop: "stop bd cur s = Inr s' \<Longrightarrow> api bd cur s s'"
| api_add: "addTimer bd cur e i cb s = Inr (k, s') \<Longrightarrow> api bd cur s s'"
| api_del: "delTimer bd cur i s = Inr s' \<Longrightarrow> api bd cur s s'"
| api_trans: "api bd cur s s1 \<Longrightarrow> api bd cur s1 s' \<Longrightarrow> api bd cur s s'"

lemma wakeup_cases:
  assumes "wakeup bd s = Inr s'"
  obtains w where "s' = s\<lparr>wakeups := w\<rparr>" and "wakeups s \<le> w" and "0 < w"
proof (cases "wakeups s + 1 \<le> eventfd_max")
  case True
  then show ?thesis using assms that[of "wakeups s + 1"] by (simp add: wakeup_def)
next
  case False
  then have "s' = s" "0 < wakeups s" using assms by (simp_all add: wakeup_def res_simps eventfd_max_def)
  then show ?thesis using that[of "wakeups s"] by simp
qed

lemma wakeups_same:
  "s\<lparr>customEvents := c, wakeups := wakeups s\<rparr> = s\<lparr>customEvents := c\<rparr>"
  "s\<lparr>running := b, wakeups := wakeups s\<rparr> = s\<lparr>running := b\<rparr>"
  by (cases s; simp)+

lemma queueTask_cases:
  assumes "queueTask bd cur t s = Inr s'"
  obtains w where "s' = s\<lparr>customEvents := customEvents s @ [t], wakeups := w\<rparr>" and "wakeups s \<le> w"
    and "cur \<noteq> threadId s \<or> \<not> running s \<Longrightarrow> 0 < w"
proof (cases "isInLoopThread cur s \<and> \<not> isStop s")
  case True
  then have "s' = s\<lparr>customEvents := customEvents s @ [t]\<rparr>" "\<not> (cur \<noteq> threadId s \<or> \<not> running s)"
    using assms by (auto simp: queueTask_def wakeCheck_def pushTask_def isInLoopThread_def isStop_def)
  then show ?thesis using that[of "wakeups s"] unfolding wakeups_same by blast
next
  case False
  then have "wakeup bd (pushTask t s) = Inr s'"
    using assms by (auto simp: queueTask_def wakeCheck_def pushTask_def isInLoopThread_def isStop_def split: if_splits)
  then show ?thesis using that by (auto elim!: wakeup_cases simp: pushTask_def)
qed

lemma stop_cases:
  assumes "stop bd cur s = Inr s'"
  obtains w where "s' = s\<lparr>running := False, wakeups := w\<rparr>" and "wakeups s \<le> w"
    and "cur \<noteq> threadId s \<Longrightarrow> 0 < w"
proof (cases "isInLoopThread cur s")
  case True
  then have "s' = s\<lparr>running := False\<rparr>" "cur = threadId s"
    using assms by (auto simp: stop_def setStop_def stopWake_def isInLoopThread_def res_simps)
  then show ?thesis using that[of "wakeups s"] unfolding wakeups_same by blast
next
  case False
  then have "wakeup bd (s\<lparr>running := False\<rparr>) = Inr s'"
    using assms by (auto simp: stop_def setStop_def stopWake_def isInLoopThread_def res_simps)
  then show ?thesis using that by (auto elim!: wakeup_cases)
qed

lemma newTimer_simps:
  "fst (newTimer e i cb s) = Timer (timersCreated s) e i cb"
  "snd (newTimer e i cb s) = s\<lparr>timersCreated := timersCreated s + 1\<rparr>"
  by (simp_all add: newTimer_def)

lemma t_id_Timer: "n + 1 < 2 ^ 64 \<Longrightarrow> t_id (Timer n e i cb) = n + 1"
  by (simp add: Timer_def GenerateTimerId_def)

text \<open>On the loop's own thread.\<close>

lemma addTimer_here:
  assumes "threadId s = cur"
  shows "addTimer bd cur e i cb s = Inr (t_id (Timer (timersCreated s) e i cb),
    s\<lparr>timersCreated := timersCreated s + 1, timerIds := insert (t_id (Timer (timersCreated s) e i cb)) (timerIds s),
      timers := pq_push (Timer (timersCreated s) e i cb) (timers s)\<rparr>)"
  using assms by (simp add: addTimer_def newTimer_def isInLoopThread_def addTimerInLoop_def)

lemma api_here:
  assumes "api bd cur s s'" and "threadId s = cur"
  shows "threadId s' = cur \<and> timersCreated s \<le> timersCreated s' \<and> wakeups s \<le> wakeups s' \<and>
    clock s \<le> clock s' \<and> (\<exists>fs. customEvents s' = customEvents s @ map Func fs)"
  using assms
proof (induction rule: api.induct)
  case (api_other s' s)
  then show ?case by (intro conjI exI[of _ "[]"]) auto
next
  case (api_queue f s s')
  then show ?case
    by (auto simp: queueInLoop_def elim!: queueTask_cases intro!: exI[of _ "[f]"])
next
  case (api_stop s s')
  then show ?case by (elim stop_cases) (auto intro: exI[of _ "[]"])
next
  case (api_add e i cb s k s')
  then show ?case by (auto simp: addTimer_here intro: exI[of _ "[]"])
next
  case (api_del i s s')
  then show ?case
    by (auto simp: delTimer_def isInLoopThread_def delTimerInLoop_def res_simps intro: exI[of _ "[]"])
next
  case (api_trans s s1 s')
  then obtain fs gs where "customEvents s1 = customEvents s @ map Func fs"
      "customEvents s' = customEvents s1 @ map Func gs" by blast
  then have "customEvents s' = customEvents s @ map Func (fs @ gs)" by simp
  with api_trans show ?case by (metis order_trans)
qed

definition ids_below :: "('f, 'z) loop_scheme \<Rightarrow> bool" where
  "ids_below s \<longleftrightarrow> (\<forall>t \<in> set (timers s). t_id t \<le> timersCreated s)"

lemma t_id_le: "t_id (Timer n e i cb) \<le> n + 1"
  by (simp add: Timer_def GenerateTimerId_def)

lemma api_ids_below:
  assumes "api bd cur s s'" and "threadId s = cur" and "ids_below s"
  shows "ids_below s'"
  using assms
proof (induction rule: api.induct)
  case (api_other s' s)
  then show ?case by (simp add: ids_below_def)
next
  case (api_queue f s s')
  then show ?case by (auto simp: queueInLoop_def ids_below_def elim!: queueTask_cases)
next
  case (api_stop s s')
  then show ?case by (auto simp: ids_below_def elim!: stop_cases)
next
  case (api_add e i cb s k s')
  then show ?case using t_id_le[of "timersCreated s" e i cb]
    by (auto simp: addTimer_here ids_below_def dest: bspec)
next
  case (api_del i s s')
  then show ?case by (auto simp: delTimer_def isInLoopThread_def delTimerInLoop_def res_simps ids_below_def)
next
  case (api_trans s s1 s')
  then show ?case using api_here by metis
qed

lemma api_timer_steps:
  assumes "api bd cur s s'" and "threadId s = cur" and "ids_below s" and "timersCreated s' < 2 ^ 64"
    and "n \<le> timersCreated s"
  shows "timer_steps {i. n < i} s s'"
  using assms
proof (induction rule: api.induct)
  case (api_other s' s)
  then show ?case by (auto intro: ts_frame)
next
  case (api_queue f s s')
  then show ?case by (auto simp: queueInLoop_def elim!: queueTask_cases intro: ts_frame)
next
  case (api_stop s s')
  then show ?case by (auto elim!: stop_cases intro: ts_frame)
next
  case (api_add e i cb s k s')
  let ?t = "Timer (timersCreated s) e i cb"
  have s': "s' = s\<lparr>timersCreated := timersCreated s + 1, timerIds := insert (t_id ?t) (timerIds s),
      timers := pq_push ?t (timers s)\<rparr>"
    using api_add by (auto simp: addTimer_here)
  then have id: "t_id ?t = timersCreated s + 1" using api_add.prems(3) by (simp add: t_id_Timer)
  have "timer_steps {i. n < i} s (s\<lparr>timersCreated := timersCreated s + 1\<rparr>)" by (rule ts_frame) simp_all
  moreover have "timer_steps {i. n < i} (s\<lparr>timersCreated := timersCreated s + 1\<rparr>) s'"
    by (rule ts_add[of ?t]) (use api_add.prems id s' in \<open>auto simp: ids_below_def addTimerInLoop_def\<close>)
  ultimately show ?case by (rule ts_trans)
next
  case (api_del i s s')
  then show ?case by (auto simp: delTimer_def isInLoopThread_def intro: ts_del)
next
  case (api_trans s s1 s')
  have h: "threadId s1 = cur" "timersCreated s \<le> timersCreated s1" "timersCreated s1 \<le> timersCreated s'"
    using api_here[OF api_trans.hyps(1)] api_here[OF api_trans.hyps(2)] api_trans.prems(1) by auto
  have "timer_steps {i. n < i} s s1" using api_trans h by simp
  moreover have "timer_steps {i. n < i} s1 s'"
    using api_trans h api_ids_below[OF api_trans.hyps(1)] by simp
  ultimately show ?case by (rule ts_trans)
qed

lemma subset_union_chain: "A \<subseteq> B \<union> C \<Longrightarrow> B \<subseteq> D \<union> U \<Longrightarrow> C \<subseteq> E \<Longrightarrow> D \<subseteq> E \<Longrightarrow> A \<subseteq> E \<union> U"
  by blast

lemma timer_steps_new_ids: "timer_steps U s s' \<Longrightarrow> ids (timers s') \<subseteq> ids (timers s) \<union> U"
proof (induction rule: timer_steps.induct)
  case (ts_trans s s1 s')
  then show ?case by blast
qed (auto simp: addTimerInLoop_simp delTimerInLoop_Inr)

locale loop_client =
  fixes call :: "('f, 'z) call" and bd :: build and cur :: nat
  assumes call_api: "threadId s = cur \<Longrightarrow> call f s = Inr s' \<Longrightarrow> api bd cur s s'"

text \<open>The functions of such a user are callbacks the timer queue can cope with.\<close>

sublocale loop_client \<subseteq> tc: timer_client "\<lambda>t. call (callback t)" "{i. n < i}"
  "\<lambda>s. n \<le> timersCreated s \<and> threadId s = cur \<and> ids_below s" "\<lambda>s. timersCreated s < 2 ^ 64" for n
proof
  show "n \<le> timersCreated s' \<and> threadId s' = cur \<and> ids_below s'"
    if "n \<le> timersCreated s \<and> threadId s = cur \<and> ids_below s" "call (callback t) s = Inr s'" for s t s'
    using that call_api[of s "callback t" s'] api_here[of bd cur s s'] api_ids_below[of bd cur s s'] by auto
  show "timer_steps {i. n < i} s s' \<and> timersCreated s < 2 ^ 64"
    if "n \<le> timersCreated s \<and> threadId s = cur \<and> ids_below s" "call (callback t) s = Inr s'"
      "timersCreated s' < 2 ^ 64" for s t s'
    using that call_api[of s "callback t" s'] api_here[of bd cur s s'] api_timer_steps[of bd cur s s' n]
    by auto
qed (auto simp: ids_below_def)

section \<open>Draining the queue of functions\<close>

context loop_client
begin

lemma call_here:
  assumes "threadId s = cur" and "call f s = Inr s'"
  shows "threadId s' = cur \<and> timersCreated s \<le> timersCreated s' \<and> wakeups s \<le> wakeups s' \<and>
    clock s \<le> clock s' \<and> (\<exists>fs. customEvents s' = customEvents s @ map Func fs)"
  using api_here[OF call_api[OF assms] assms(1)] .

lemma runTask_here:
  assumes "threadId s = cur" and "runTask call bd cur t s = Inr s'"
  shows "threadId s' = cur \<and> timersCreated s \<le> timersCreated s' \<and> wakeups s \<le> wakeups s' \<and>
    clock s \<le> clock s' \<and> (\<exists>fs. customEvents s' = customEvents s @ map Func fs)"
proof (cases t)
  case (Func f)
  then show ?thesis using call_here assms by simp
qed (use assms in \<open>auto simp: addTimerInLoop_def delTimerInLoop_def res_simps intro: exI[of _ "[]"]\<close>)

text \<open>The tasks that rs are those that were queued, in their order, and then those queued meanwhile.\<close>

lemma runEvents_fifo:
  assumes "runEvents call bd cur n s = Some (Inr (rs, s'))" and "threadId s = cur"
  shows "customEvents s' = [] \<and> threadId s' = cur \<and> (\<exists>fs. rs = customEvents s @ map Func fs)"
  using assms
proof (induction n arbitrary: s rs)
  case 0
  then show ?case by simp
next
  case (Suc n)
  show ?case
  proof (cases "customEvents s")
    case Nil
    then show ?thesis using Suc.prems by simp
  next
    case (Cons t ts)
    then obtain s1 r where r: "runTask call bd cur t (s\<lparr>customEvents := ts\<rparr>) = Inr s1"
        "runEvents call bd cur n s1 = Some (Inr (r, s'))" "rs = t # r"
      using Suc.prems(1) by (auto simp: res_simps split: sum.splits)
    have "threadId (s\<lparr>customEvents := ts\<rparr>) = cur" using Suc.prems(2) by simp
    from runTask_here[OF this r(1)] obtain fs where fs: "threadId s1 = cur" "customEvents s1 = ts @ map Func fs"
      by auto
    obtain gs where "customEvents s' = []" "threadId s' = cur" "r = customEvents s1 @ map Func gs"
      using Suc.IH[OF r(2) fs(1)] by blast
    then show ?thesis using r(3) fs(2) Cons by (auto intro!: exI[of _ "fs @ gs"])
  qed
qed

lemma runExpired_here:
  assumes "threadId s = cur" and "runExpired (\<lambda>t. call (callback t)) ex s = Inr (fired, s')"
  shows "threadId s' = cur \<and> timersCreated s \<le> timersCreated s' \<and> wakeups s \<le> wakeups s' \<and>
    (\<exists>fs. customEvents s' = customEvents s @ map Func fs) \<and> (ids_below s \<longrightarrow> ids_below s')"
  using assms
proof (induction ex arbitrary: s fired)
  case Nil
  then show ?case by (auto intro: exI[of _ "[]"])
next
  case (Cons t ex)
  show ?case
  proof (cases "t_id t \<in> timerIds s")
    case True
    then obtain s1 r where r: "call (callback t) s = Inr s1"
        "runExpired (\<lambda>t. call (callback t)) ex s1 = Inr (r, s')"
      using Cons.prems(2) by (auto simp: res_simps)
    obtain fs where h: "threadId s1 = cur" "timersCreated s \<le> timersCreated s1" "wakeups s \<le> wakeups s1"
        "customEvents s1 = customEvents s @ map Func fs"
      using call_here[OF Cons.prems(1) r(1)] by blast
    have "ids_below s \<longrightarrow> ids_below s1"
      using api_ids_below[OF call_api[OF Cons.prems(1) r(1)] Cons.prems(1)] by blast
    moreover obtain gs where "threadId s' = cur" "timersCreated s1 \<le> timersCreated s'" "wakeups s1 \<le> wakeups s'"
        "customEvents s' = customEvents s1 @ map Func gs" "ids_below s1 \<longrightarrow> ids_below s'"
      using Cons.IH[OF h(1) r(2)] by blast
    ultimately show ?thesis using h by (auto intro!: exI[of _ "fs @ gs"])
  next
    case False
    then show ?thesis using Cons by simp
  qed
qed

lemma timersPhase_here:
  assumes "threadId s = cur" and "timersPhase call cur s = Inr (fired, s')"
  shows "threadId s' = cur \<and> timersCreated s \<le> timersCreated s' \<and> wakeups s \<le> wakeups s' \<and>
    (\<exists>fs. customEvents s' = customEvents s @ map Func fs) \<and>
    (tq_inv s \<and> ids_below s \<and> timersCreated s' < 2 ^ 64 \<longrightarrow>
       tq_inv s' \<and> ids_below s' \<and> ids (timers s') \<subseteq> ids (timers s) \<union> {i. timersCreated s < i})"
proof -
  obtain ex s1 where ex: "getExpiredTimers (clock s) s = (ex, s1)" by fastforce
  then obtain s2 where s2: "runExpired (\<lambda>t. call (callback t)) ex s1 = Inr (fired, s2)"
      "s' = resetExpiredTimers ex (clock s) s2"
    using assms(1,2) by (auto simp: timersPhase_def handlerTimer_def isInLoopThread_def res_simps)
  obtain ts where ts: "s1 = s\<lparr>timers := ts\<rparr>"
    using ex by (auto simp: getExpiredTimers_def split: prod.splits)
  then have e1: "threadId s1 = threadId s" "timersCreated s1 = timersCreated s" "wakeups s1 = wakeups s"
      "customEvents s1 = customEvents s" by simp_all
  have h: "threadId s2 = cur \<and> timersCreated s1 \<le> timersCreated s2 \<and> wakeups s1 \<le> wakeups s2 \<and>
      (\<exists>fs. customEvents s2 = customEvents s1 @ map Func fs) \<and> (ids_below s1 \<longrightarrow> ids_below s2)"
    using runExpired_here[OF _ s2(1)] e1(1) assms(1) by simp
  obtain us js where "s' = s2\<lparr>timers := us, timerIds := js\<rparr>"
    using reset_frame[of ex "clock s" s2] s2(2) by blast
  then have e3: "threadId s' = threadId s2" "timersCreated s' = timersCreated s2" "wakeups s' = wakeups s2"
      "customEvents s' = customEvents s2" by simp_all
  have "tq_inv s' \<and> ids_below s' \<and> ids (timers s') \<subseteq> ids (timers s) \<union> {i. timersCreated s < i}"
    if b: "tq_inv s" "ids_below s" "timersCreated s' < 2 ^ 64"
  proof -
    note mid = getExpired_mid[OF b(1) ex]
    have "distinct (map t_id ex)" using mid(1) by (simp add: tq_mid_def)
    from arg_cong[OF reset_timers[OF this, of "clock s" s2], of set_mset]
    have "set (timers s') \<subseteq> set (timers s2) \<union> resetExpiration (clock s) ` set ex"
      unfolding s2(2) by auto
    then have re: "ids (timers s') \<subseteq> ids (timers s2) \<union> ids ex"
      by (force simp: resetExpiration_def)
    have old: "ids ex \<subseteq> ids (timers s)" "ids (timers s1) \<subseteq> ids (timers s)" using mid(3,4) by auto
    then have b1: "ids_below s1" using b(2) e1(2) by (fastforce simp: ids_below_def)
    then have b2: "ids_below s2" using h by blast
    have "timer_steps {i. timersCreated s < i} s1 s2"
      using tc.runExpired_steps[of "timersCreated s" s1 ex fired s2] b1 b(3) e1 e3(2) s2(1) assms(1) by simp
    have new: "ids (timers s') \<subseteq> ids (timers s) \<union> {i. timersCreated s < i}"
      by (rule subset_union_chain[OF re timer_steps_new_ids[OF \<open>timer_steps _ s1 s2\<close>] old])
    have older: "i \<le> timersCreated s2" if "i \<in> ids (timers s)" for i
      using that b(2) h e1(2) by (fastforce simp: ids_below_def)
    have "t_id t \<le> timersCreated s2" if "t \<in> set (timers s')" for t
    proof -
      have "t_id t \<in> ids (timers s2) \<or> t_id t \<in> ids ex" using that re by blast
      then show ?thesis
      proof
        assume "t_id t \<in> ids (timers s2)"
        then show ?thesis using b2 by (auto simp: ids_below_def)
      next
        assume "t_id t \<in> ids ex"
        then show ?thesis using older old(1) by blast
      qed
    qed
    then have "ids_below s'" using e3(2) by (simp add: ids_below_def)
    moreover have "tq_inv s'"
    proof -
      have "handlerTimer (\<lambda>t. call (callback t)) True (clock s) s = Inr (fired, s')"
        using assms by (simp add: timersPhase_def isInLoopThread_def)
      moreover have "ids (timers s) \<inter> {i. timersCreated s < i} = {}"
        using b(2) by (fastforce simp: ids_below_def)
      ultimately show ?thesis
        using tc.handler_round(1)[of s "timersCreated s"] b assms(1) by blast
    qed
    ultimately show ?thesis using new by blast
  qed
  with h e1 e3 show ?thesis by simp
qed

end

text \<open>The queued timers have the ids they had, or new ones.\<close>

definition queued_ids :: "('f, 'z) loop_scheme \<Rightarrow> nat list" where
  "queued_ids s = concat (map (\<lambda>t. case t of AddTimerTask t \<Rightarrow> [t_id t] | _ \<Rightarrow> []) (customEvents s))"

lemma queued_ids_Func [simp]:
  "concat (map (\<lambda>t. case t of AddTimerTask t \<Rightarrow> [t_id t] | _ \<Rightarrow> []) (map Func fs)) = []"
  by (induction fs) simp_all

end
