(* ===== verification/Loop_System.thy ===== *)
theory Loop_System
  imports Event_Loop
begin

text \<open>
  An event loop (\<^verbatim>\<open>src/include/godnet/net/event_loop.cpp\<close>) used by other threads while it runs: a step
  relation over the definitions of \<open>Event_Loop\<close>, the invariants of its reachable states (no wakeup
  is lost, the timers and the timers still queued are consistent), and scripts of calls as concrete functions of the
  user.
\<close>

section \<open>The loop among other threads\<close>

text \<open>
  A system of one loop and any number of other threads.  \<open>pc\<close> is where the loop's thread is;
  \<open>pending\<close> lists the threads that are in the middle of a call: they have put a function into the queue, or
  stored the status, and have yet to do the rest, which is the same code as in \<open>queueTask\<close> and \<open>stop\<close>.
  \<open>handedOver\<close> is a ghost: another thread has queued something since the loop last found the queue empty.
  Each use of the loop by another thread is two steps; each callback that runs is one.
\<close>

datatype phase = AtTimers | AtPoll | AtDispatch "nat list" | AtEvents | Returned

datatype call_rest = AfterPush nat | AfterStop nat

fun caller :: "call_rest \<Rightarrow> nat" where
  "caller (AfterPush c) = c"
| "caller (AfterStop c) = c"

fun finish_call :: "build \<Rightarrow> call_rest \<Rightarrow> ('f, 'z) loop_scheme \<Rightarrow> ('f, 'z) loop_scheme res" where
  "finish_call bd (AfterPush c) s = wakeCheck bd c s"
| "finish_call bd (AfterStop c) s = stopWake bd c s"

record 'f system = "'f loop" +
  pc :: phase
  pending :: "call_rest list"
  handedOver :: bool

definition hand_in :: "nat \<Rightarrow> 'f task \<Rightarrow> 'f system \<Rightarrow> 'f system" where
  "hand_in c t s = (pushTask t s)\<lparr>pending := AfterPush c # pending s, handedOver := True\<rparr>"

inductive lstep :: "bool \<Rightarrow> ('f \<Rightarrow> 'f system \<Rightarrow> 'f system res) \<Rightarrow> (nat \<Rightarrow> 'f system \<Rightarrow> bool) \<Rightarrow> build \<Rightarrow>
    'f system \<Rightarrow> 'f system \<Rightarrow> bool" for quiet call locked bd where
  other_queue: "c \<noteq> threadId s \<Longrightarrow> s' = hand_in c (Func f) s \<Longrightarrow> lstep quiet call locked bd s s'"
| other_add: "c \<noteq> threadId s \<Longrightarrow> newTimer e i cb s = (t, s1) \<Longrightarrow> s' = hand_in c (AddTimerTask t) s1 \<Longrightarrow>
    lstep quiet call locked bd s s'"
| other_del: "c \<noteq> threadId s \<Longrightarrow> s' = hand_in c (DelTimerTask i) s \<Longrightarrow> lstep quiet call locked bd s s'"
| other_stop: "c \<noteq> threadId s \<Longrightarrow> setStop bd s = Inr s1 \<Longrightarrow>
    s' = s1\<lparr>pending := AfterStop c # pending s\<rparr> \<Longrightarrow> lstep quiet call locked bd s s'"
| other_wake: "pending s = ps @ p # qs \<Longrightarrow> finish_call bd p s = Inr s1 \<Longrightarrow>
    s' = s1\<lparr>pending := ps @ qs\<rparr> \<Longrightarrow> lstep quiet call locked bd s s'"
| time: "s' = s\<lparr>clock := clock s + int d\<rparr> \<Longrightarrow> lstep quiet call locked bd s s'"
| leave: "pc s = AtTimers \<Longrightarrow> \<not> running s \<Longrightarrow> s' = s\<lparr>pc := Returned\<rparr> \<Longrightarrow> lstep quiet call locked bd s s'"
| do_timers: "pc s = AtTimers \<Longrightarrow> running s \<Longrightarrow> timersPhase call (threadId s) s = Inr (fired, s1) \<Longrightarrow>
    quiet \<longrightarrow> customEvents s1 = customEvents s \<Longrightarrow>
    s' = s1\<lparr>pc := AtPoll, pending := pending s, handedOver := handedOver s\<rparr> \<Longrightarrow> lstep quiet call locked bd s s'"
| do_poll: "pc s = AtPoll \<Longrightarrow> pollPhase (threadId s) slept ready s = Inr (timeout, cs, s1) \<Longrightarrow>
    s' = s1\<lparr>pc := AtDispatch cs\<rparr> \<Longrightarrow> lstep quiet call locked bd s s'"
| do_channel: "pc s = AtDispatch (c # cs) \<Longrightarrow>
    handlerEvent look_loop put_loop (call_callback call) locked True c s = Inr s1 \<Longrightarrow>
    s' = s1\<lparr>pc := AtDispatch cs, pending := pending s, handedOver := handedOver s\<rparr> \<Longrightarrow> lstep quiet call locked bd s s'"
| did_channels: "pc s = AtDispatch [] \<Longrightarrow> s' = s\<lparr>pc := AtEvents\<rparr> \<Longrightarrow> lstep quiet call locked bd s s'"
| do_task: "pc s = AtEvents \<Longrightarrow> customEvents s = t # ts \<Longrightarrow>
    runTask call bd (threadId s) t (s\<lparr>customEvents := ts\<rparr>) = Inr s1 \<Longrightarrow>
    s' = s1\<lparr>pc := AtEvents, pending := pending s, handedOver := handedOver s\<rparr> \<Longrightarrow> lstep quiet call locked bd s s'"
| did_tasks: "pc s = AtEvents \<Longrightarrow> customEvents s = [] \<Longrightarrow> s' = s\<lparr>pc := AtTimers, handedOver := False\<rparr> \<Longrightarrow>
    lstep quiet call locked bd s s'"

text \<open>
  The loop is made, used by its own thread, and started; nobody wrote to the eventfd other than
  to wake it up.
\<close>

definition linit :: "build \<Rightarrow> nat \<Rightarrow> 'f system \<Rightarrow> bool" where
  "linit bd cur s \<longleftrightarrow> (\<exists>c f n now l l'. EventLoop bd cur c f n now = Inr l \<and> api bd cur l l' \<and>
     s = loop.extend (l'\<lparr>running := True\<rparr>) \<lparr>pc = AtTimers, pending = [], handedOver = customEvents l' \<noteq> []\<rparr>)"

section \<open>No wakeup is lost\<close>

text \<open>
  In the phases in which the eventfd is not read: what another thread queued is announced, or its thread is
  still on the way to write; before the timers the queue holds nothing else, and at the poll neither when the
  timers' callbacks queue nothing (\<open>quiet\<close>).
\<close>

definition awake_inv :: "bool \<Rightarrow> 'f system \<Rightarrow> bool" where
  "awake_inv quiet s \<longleftrightarrow> (\<forall>p \<in> set (pending s). caller p \<noteq> threadId s) \<and>
     (pc s = AtTimers \<or> pc s = AtPoll \<longrightarrow>
       (handedOver s \<longrightarrow> 0 < wakeups s \<or> pending s \<noteq> []) \<and>
       (pc s = AtTimers \<or> quiet \<longrightarrow> customEvents s \<noteq> [] \<longrightarrow> handedOver s))"

text \<open>A loop that is not running wakes itself up for what it queues.\<close>

lemma api_stopped:
  assumes "api bd cur s s'" and "\<not> running s" and "customEvents s \<noteq> [] \<longrightarrow> 0 < wakeups s" and "threadId s = cur"
  shows "\<not> running s' \<and> (customEvents s' \<noteq> [] \<longrightarrow> 0 < wakeups s')"
  using assms
proof (induction rule: api.induct)
  case (api_queue f s s')
  then show ?case by (auto simp: queueInLoop_def elim!: queueTask_cases)
next
  case (api_stop s s')
  then show ?case by (auto elim!: stop_cases)
next
  case (api_add e i cb s k s')
  then show ?case by (auto simp: addTimer_here)
next
  case (api_del i s s')
  then show ?case by (auto simp: delTimer_def isInLoopThread_def delTimerInLoop_def res_simps)
next
  case (api_trans s s1 s')
  then show ?case using api_here[OF api_trans.hyps(1)] by blast
qed auto

lemma EventLoop_fields:
  assumes "EventLoop bd cur c f n now = Inr l"
  shows "timers l = [] \<and> timerIds l = {} \<and> timersCreated l = n \<and> threadId l = cur \<and> \<not> running l \<and>
    customEvents l = [] \<and> wakeups l = 0"
  using assms by (auto simp: EventLoop_def with_channel_def res_simps split: option.splits)

lemma awake_init:
  assumes "linit bd cur s"
  shows "awake_inv quiet s \<and> threadId s = cur"
proof -
  obtain c f n now l l' where l: "EventLoop bd cur c f n now = Inr l" "api bd cur l l'"
      "s = loop.extend (l'\<lparr>running := True\<rparr>) \<lparr>pc = AtTimers, pending = [], handedOver = customEvents l' \<noteq> []\<rparr>"
    using assms unfolding linit_def by blast
  note e = EventLoop_fields[OF l(1)]
  have "threadId l' = cur" using api_here[OF l(2)] e by simp
  moreover have "customEvents l' \<noteq> [] \<longrightarrow> 0 < wakeups l'" using api_stopped[OF l(2)] e by simp
  ultimately show ?thesis unfolding l(3) by (simp add: awake_inv_def loop.extend_def)
qed

section \<open>What a callback does to the timers\<close>

text \<open>
  Anything that happens on the loop's thread outside of the handling of the timers: callbacks,
  changes of channels and reads of the eventfd.
\<close>

definition progress :: "('f, 'z) loop_scheme \<Rightarrow> ('f, 'z) loop_scheme \<Rightarrow> bool" where
  "progress s s' \<longleftrightarrow> threadId s' = threadId s \<and> timersCreated s \<le> timersCreated s' \<and>
     (\<exists>fs. customEvents s' = customEvents s @ map Func fs) \<and> (ids_below s \<longrightarrow> ids_below s') \<and>
     (ids_below s \<and> timersCreated s' < 2 ^ 64 \<longrightarrow>
        (\<forall>n \<le> timersCreated s. timer_steps {i. n < i} s s'))"

lemma progress_trans:
  assumes "progress s s1" and "progress s1 s'"
  shows "progress s s'"
proof -
  obtain fs gs where "customEvents s1 = customEvents s @ map Func fs" "customEvents s' = customEvents s1 @ map Func gs"
    using assms unfolding progress_def by blast
  then have "customEvents s' = customEvents s @ map Func (fs @ gs)" by simp
  moreover have "timer_steps {i. n < i} s s'"
    if "ids_below s" "timersCreated s' < 2 ^ 64" "n \<le> timersCreated s" for n
  proof -
    have "timersCreated s1 < 2 ^ 64" "n \<le> timersCreated s1" "ids_below s1"
      using assms that unfolding progress_def by auto
    then show ?thesis using assms that unfolding progress_def by (blast intro: ts_trans)
  qed
  moreover have "threadId s' = threadId s" "timersCreated s \<le> timersCreated s'" "ids_below s \<longrightarrow> ids_below s'"
    using assms unfolding progress_def by auto
  ultimately show ?thesis unfolding progress_def by blast
qed

lemma progress_frame:
  assumes "timers s' = timers s" and "timerIds s' = timerIds s" and "timersCreated s' = timersCreated s"
    and "threadId s' = threadId s" and "customEvents s' = customEvents s"
  shows "progress s s'"
  unfolding progress_def using assms
  by (auto simp: ids_below_def intro: ts_frame exI[of _ "[]"])

lemma progress_put: "progress s (put_loop c ch s)"
  by (rule progress_frame) (simp_all add: put_loop_def)

lemma progress_refl: "progress s s"
  by (rule progress_frame) simp_all

lemma api_progress: "threadId s = cur \<Longrightarrow> api bd cur s s' \<Longrightarrow> progress s s'"
  using api_here[of bd cur s s'] api_ids_below[of bd cur s s'] api_timer_steps[of bd cur s s']
  unfolding progress_def by blast

context loop_client
begin

lemma call_progress: "threadId s = cur \<Longrightarrow> call f s = Inr s' \<Longrightarrow> progress s s'"
  using api_progress call_api by blast

lemma callback_progress: "threadId s = cur \<Longrightarrow> call_callback call cb s = Inr s' \<Longrightarrow> progress s s'"
  by (cases cb) (auto intro: call_progress progress_frame simp: readWakeup_def)

lemma call_if_progress:
  "threadId s = cur \<Longrightarrow> call_if (call_callback call) p cb s = Inr s' \<Longrightarrow> progress s s'"
  by (auto simp: call_if_def intro: callback_progress progress_refl split: if_splits option.splits)

lemma handlerEvent_progress:
  assumes t: "threadId s = cur" and h: "handlerEvent look_loop put_loop (call_callback call) locked il c s = Inr s'"
  shows "progress s s'"
proof -
  have "R s s'" if "R = progress" for R :: "('f, 'z) loop_scheme \<Rightarrow> ('f, 'z) loop_scheme \<Rightarrow> bool"
    unfolding that
  proof (rule ls.handlerEvent_rel[OF h progress_refl progress_trans progress_put])
    show "progress a b" if "progress s a" "call_callback call cb a = Inr b" for cb a b
      using callback_progress[of a cb b] that t by (simp add: progress_def)
  qed
  then show ?thesis by blast
qed

end

section \<open>The timers among other threads\<close>

definition timers_inv :: "('f, 'z) loop_scheme \<Rightarrow> bool" where
  "timers_inv s \<longleftrightarrow> (timersCreated s < 2 ^ 64 \<longrightarrow> tq_inv s \<and> ids_below s \<and> distinct (queued_ids s) \<and>
     set (queued_ids s) \<inter> ids (timers s) = {} \<and> (\<forall>i \<in> set (queued_ids s). i \<le> timersCreated s))"

lemma queued_ids_append:
  "customEvents s' = customEvents s @ map Func fs \<Longrightarrow> queued_ids s' = queued_ids s"
  by (simp add: queued_ids_def)

lemma timers_inv_new:
  assumes "timers_inv s" and "queued_ids s' = queued_ids s" and "timersCreated s \<le> timersCreated s'"
    and "timersCreated s' < 2 ^ 64 \<Longrightarrow> tq_inv s \<Longrightarrow> ids_below s \<Longrightarrow>
      tq_inv s' \<and> ids_below s' \<and> ids (timers s') \<subseteq> ids (timers s) \<union> {i. timersCreated s < i}"
  shows "timers_inv s'"
proof -
  have "set (queued_ids s) \<inter> ids (timers s') = {}"
    if "set (queued_ids s) \<inter> ids (timers s) = {}" "\<forall>i \<in> set (queued_ids s). i \<le> timersCreated s"
      "ids (timers s') \<subseteq> ids (timers s) \<union> {i. timersCreated s < i}"
    using that by fastforce
  then show ?thesis
    using assms unfolding timers_inv_def by (auto dest: order_trans)
qed

lemma timers_inv_progress:
  assumes "timers_inv s" and "progress s s'"
  shows "timers_inv s'"
proof (rule timers_inv_new[OF assms(1)])
  show "queued_ids s' = queued_ids s" "timersCreated s \<le> timersCreated s'"
    using assms(2) queued_ids_append unfolding progress_def by blast+
  assume a: "timersCreated s' < 2 ^ 64" "tq_inv s" "ids_below s"
  then have steps: "timer_steps {i. timersCreated s < i} s s'" and "ids_below s'"
    using assms(2) unfolding progress_def by blast+
  moreover have "tq_inv s'" using timer_steps_mid[OF steps, of "[]"] a(2) by (simp add: tq_inv_def)
  ultimately show "tq_inv s' \<and> ids_below s' \<and> ids (timers s') \<subseteq> ids (timers s) \<union> {i. timersCreated s < i}"
    using timer_steps_new_ids[OF steps] by blast
qed

lemma timers_inv_frame:
  assumes "timers_inv s" and "timers s' = timers s" and "timerIds s' = timerIds s"
    and "timersCreated s' = timersCreated s" and "queued_ids s' = queued_ids s"
  shows "timers_inv s'"
  using assms by (simp add: timers_inv_def tq_inv_def tq_mid_def ids_below_def)

text \<open>Other threads hand over a new timer, or something that is not one.\<close>

lemma timers_inv_push:
  assumes "timers_inv s" and "\<forall>t'. t \<noteq> AddTimerTask t'"
  shows "timers_inv (pushTask t s)"
  using assms(1) by (rule timers_inv_frame) (use assms(2) in \<open>auto simp: pushTask_def queued_ids_def split: task.splits\<close>)

lemma timers_inv_push_new:
  assumes "timers_inv s" and "newTimer e i cb s = (t, s1)"
  shows "timers_inv (pushTask (AddTimerTask t) s1)"
proof -
  have s1: "t = Timer (timersCreated s) e i cb" "s1 = s\<lparr>timersCreated := timersCreated s + 1\<rparr>"
    using assms(2) by (simp_all add: newTimer_def)
  let ?s = "pushTask (AddTimerTask t) s1"
  have f: "timers ?s = timers s" "timerIds ?s = timerIds s" "timersCreated ?s = timersCreated s + 1"
      "queued_ids ?s = queued_ids s @ [t_id t]"
    using s1(2) by (simp_all add: pushTask_def queued_ids_def)
  show ?thesis
    unfolding timers_inv_def
  proof
    assume lt: "timersCreated ?s < 2 ^ 64"
    then have id: "t_id t = timersCreated s + 1" using f(3) s1(1) t_id_Timer by simp
    have I: "tq_inv s" "ids_below s" "distinct (queued_ids s)" "set (queued_ids s) \<inter> ids (timers s) = {}"
        "\<forall>i \<in> set (queued_ids s). i \<le> timersCreated s"
      using assms(1) lt f(3) unfolding timers_inv_def by auto
    have "t_id t \<notin> set (queued_ids s)" "t_id t \<notin> ids (timers s)"
      using id I(2,5) by (fastforce simp: ids_below_def)+
    moreover have "tq_inv ?s" "ids_below ?s"
      using I(1,2) f(1-3) unfolding tq_inv_def tq_mid_def ids_below_def by (simp, fastforce)
    moreover have "\<forall>i \<in> set (queued_ids ?s). i \<le> timersCreated ?s"
      using I(5) id f(3,4) by fastforce
    ultimately show "tq_inv ?s \<and> ids_below ?s \<and> distinct (queued_ids ?s) \<and>
        set (queued_ids ?s) \<inter> ids (timers ?s) = {} \<and> (\<forall>i \<in> set (queued_ids ?s). i \<le> timersCreated ?s)"
      using I(3,4) f(1,4) by simp
  qed
qed

text \<open>The loop takes a task from the queue and runs it.\<close>

context loop_client
begin

lemma timers_inv_task:
  assumes I: "timers_inv s" and t: "threadId s = cur" and q: "customEvents s = t # ts"
    and run: "runTask call bd cur t (s\<lparr>customEvents := ts\<rparr>) = Inr s'"
  shows "timers_inv s'"
proof -
  let ?s = "s\<lparr>customEvents := ts\<rparr>"
  show ?thesis
  proof (cases t)
    case (Func f)
    then have "timers_inv ?s"
      using q by (intro timers_inv_frame[OF I]) (simp_all add: queued_ids_def)
    moreover have "progress ?s s'" using run Func t call_progress[of ?s f s'] by simp
    ultimately show ?thesis by (rule timers_inv_progress)
  next
    case (DelTimerTask i)
    then have "timers_inv ?s"
      using q by (intro timers_inv_frame[OF I]) (simp_all add: queued_ids_def)
    moreover have del: "delTimerInLoop bd True i ?s = Inr s'"
      using run DelTimerTask t by (simp add: isInLoopThread_def)
    moreover have "queued_ids s' = queued_ids ?s" "timersCreated s' = timersCreated ?s" "timers s' = timers ?s"
      using del by (auto simp: delTimerInLoop_Inr queued_ids_def)
    moreover have "tq_inv s'" if "tq_inv ?s"
      using timer_steps_mid[OF ts_del[OF del, of "{}"], of "[]"] that by (simp add: tq_inv_def)
    ultimately show ?thesis by (simp add: timers_inv_def ids_below_def)
  next
    case (AddTimerTask u)
    then have qi: "queued_ids s = t_id u # queued_ids ?s" using q by (simp add: queued_ids_def)
    have add: "addTimerInLoop True u ?s = Inr s'"
      using run AddTimerTask t by (simp add: isInLoopThread_def)
    then have f: "queued_ids s' = queued_ids ?s" "timersCreated s' = timersCreated s"
        "timers s' = pq_push u (timers s)"
      by (auto simp: addTimerInLoop_simp queued_ids_def)
    show ?thesis
      unfolding timers_inv_def
    proof
      assume "timersCreated s' < 2 ^ 64"
      then have J: "tq_inv s" "ids_below s" "distinct (queued_ids s)" "set (queued_ids s) \<inter> ids (timers s) = {}"
          "\<forall>i \<in> set (queued_ids s). i \<le> timersCreated s"
        using I f(2) unfolding timers_inv_def by auto
      have u: "t_id u \<notin> ids (timers s)" "t_id u \<notin> set (queued_ids ?s)" "t_id u \<le> timersCreated s"
        using J(3-5) qi by auto
      have "timer_steps {t_id u} ?s s'" by (rule ts_add[of u]) (use u add in simp_all)
      then have "tq_inv s'"
        using timer_steps_mid[of "{t_id u}" ?s s' "[]"] J(1) by (simp add: tq_inv_def tq_mid_def)
      then show "tq_inv s' \<and> ids_below s' \<and> distinct (queued_ids s') \<and>
          set (queued_ids s') \<inter> ids (timers s') = {} \<and> (\<forall>i \<in> set (queued_ids s'). i \<le> timersCreated s')"
        using J u qi f by (auto simp: ids_below_def)
    qed
  qed
qed

end

definition sys_inv :: "bool \<Rightarrow> nat \<Rightarrow> 'f system \<Rightarrow> bool" where
  "sys_inv quiet cur s \<longleftrightarrow> threadId s = cur \<and> timers_inv s \<and> awake_inv quiet s"

lemma sys_inv_init: "linit bd cur s \<Longrightarrow> sys_inv quiet cur s"
proof -
  assume i: "linit bd cur s"
  then obtain c f n now l l' where l: "EventLoop bd cur c f n now = Inr l" "api bd cur l l'"
      "s = loop.extend (l'\<lparr>running := True\<rparr>) \<lparr>pc = AtTimers, pending = [], handedOver = customEvents l' \<noteq> []\<rparr>"
    unfolding linit_def by blast
  note e = EventLoop_fields[OF l(1)]
  have "timers_inv l"
    using e by (simp add: timers_inv_def tq_inv_def tq_mid_def ids_below_def queued_ids_def)
  moreover have "progress l l'" using api_progress[OF _ l(2)] e by simp
  ultimately have "timers_inv l'" by (rule timers_inv_progress)
  then have "timers_inv s"
    unfolding l(3) by (simp add: timers_inv_def tq_inv_def tq_mid_def ids_below_def queued_ids_def loop.extend_def)
  then show ?thesis using awake_init[OF i] by (simp add: sys_inv_def)
qed

text \<open>The phase, the calls under way and the ghost are nothing the timers depend on.\<close>

lemma timers_inv_pc: "timers_inv (s\<lparr>pc := q, pending := n, handedOver := b\<rparr>) = timers_inv (s :: 'f system)"
  "timers_inv (s\<lparr>pc := q\<rparr>) = timers_inv s" "timers_inv (s\<lparr>pending := n\<rparr>) = timers_inv s"
  "timers_inv (s\<lparr>pc := q, handedOver := b\<rparr>) = timers_inv s"
  "timers_inv (s\<lparr>pending := n, handedOver := b\<rparr>) = timers_inv s"
  by (simp_all add: timers_inv_def tq_inv_def tq_mid_def ids_below_def queued_ids_def)

lemma pollPhase_fields:
  assumes "pollPhase cur slept ready s = Inr (timeout, cs, s1)"
  shows "threadId s1 = threadId s \<and> customEvents s1 = customEvents s \<and> wakeups s1 = wakeups s \<and>
    progress s s1"
  using assms by (auto simp: pollPhase_def res_simps intro: progress_frame)

lemma wakeup_fields:
  "wakeup bd s = Inr s1 \<Longrightarrow> threadId s1 = threadId s \<and> customEvents s1 = customEvents s \<and> 0 < wakeups s1 \<and>
    progress s s1"
  by (auto elim!: wakeup_cases intro: progress_frame)

text \<open>The rest of another thread's call writes to the eventfd.\<close>

lemma finish_call_other:
  assumes "caller p \<noteq> threadId s" and "finish_call bd p s = Inr s1"
  shows "wakeup bd s = Inr s1"
  using assms by (cases p) (auto simp: wakeCheck_def stopWake_def isInLoopThread_def)

lemma progress_thread: "progress s s' \<Longrightarrow> threadId s' = threadId s"
  by (simp add: progress_def)

lemma sys_inv_step:
  fixes s s' :: "'f system"
  assumes C: "loop_client call bd cur" and I: "sys_inv quiet cur s" and st: "lstep quiet call locked bd s s'"
  shows "sys_inv quiet cur s'"
proof -
  have t: "threadId s = cur" and T: "timers_inv s" and A: "awake_inv quiet s"
    using I by (simp_all add: sys_inv_def)
  from st show ?thesis
  proof (cases rule: lstep.cases)
    case (other_queue c f)
    then show ?thesis using t A timers_inv_push[OF T, of "Func f"]
      by (simp add: sys_inv_def timers_inv_pc awake_inv_def pushTask_def hand_in_def)
  next
    case (other_add c e i cb u s1)
    then have "s1 = s\<lparr>timersCreated := timersCreated s + 1\<rparr>" by (simp add: newTimer_def)
    with other_add show ?thesis using t A timers_inv_push_new[OF T, of e i cb u s1]
      by (simp add: sys_inv_def timers_inv_pc awake_inv_def pushTask_def hand_in_def)
  next
    case (other_del c i)
    then show ?thesis using t A timers_inv_push[OF T, of "DelTimerTask i"]
      by (simp add: sys_inv_def timers_inv_pc awake_inv_def pushTask_def hand_in_def)
  next
    case (other_stop c s1)
    then have s1: "s1 = s\<lparr>running := False\<rparr>" by (simp add: setStop_def res_simps)
    moreover have "timers_inv s1"
      by (rule timers_inv_frame[OF T]) (simp_all add: s1 queued_ids_def)
    ultimately show ?thesis using t A other_stop by (simp add: sys_inv_def awake_inv_def timers_inv_pc)
  next
    case (other_wake ps p qs s1)
    then have "caller p \<noteq> threadId s" using A by (simp add: awake_inv_def)
    then have "wakeup bd s = Inr s1" using other_wake(2) by (rule finish_call_other)
    then have w: "threadId s1 = threadId s" "customEvents s1 = customEvents s" "0 < wakeups s1" "progress s s1"
        "pc s1 = pc s" "handedOver s1 = handedOver s"
      using wakeup_fields[of bd s s1] by (auto elim: wakeup_cases)
    have "awake_inv quiet s'"
      using A w(1-3,5,6) other_wake(1,3) by (auto simp: awake_inv_def)
    then show ?thesis using t w(1,4) other_wake(3) timers_inv_progress[OF T, of s1]
      by (simp add: sys_inv_def timers_inv_pc)
  next
    case (time d)
    moreover have "timers_inv (s\<lparr>clock := clock s + int d\<rparr>)"
      by (rule timers_inv_frame[OF T]) (simp_all add: queued_ids_def)
    ultimately show ?thesis using t A by (simp add: sys_inv_def awake_inv_def)
  next
    case leave
    then show ?thesis using t T A by (simp add: sys_inv_def timers_inv_pc awake_inv_def)
  next
    case (do_timers fired s1)
    note h = loop_client.timersPhase_here[OF C t do_timers(3)[unfolded t]]
    have "timers_inv s1"
      by (rule timers_inv_new[OF T]) (use h queued_ids_append in auto)
    moreover have "awake_inv quiet s'"
      using A do_timers(1,4,5) h t by (auto simp: awake_inv_def)
    ultimately show ?thesis using do_timers(5) h t by (simp add: sys_inv_def timers_inv_pc)
  next
    case (do_poll slept ready timeout cs s1)
    then have "pending s1 = pending s" by (auto simp: pollPhase_def res_simps)
    with do_poll show ?thesis using pollPhase_fields[OF do_poll(2)] t A timers_inv_progress[OF T, of s1]
      by (simp add: sys_inv_def timers_inv_pc awake_inv_def)
  next
    case (do_channel c cs s1)
    then have "progress s s1" using loop_client.handlerEvent_progress[OF C t] by blast
    then show ?thesis using do_channel(3) t A timers_inv_progress[OF T, of s1] progress_thread
      by (fastforce simp: sys_inv_def timers_inv_pc awake_inv_def)
  next
    case did_channels
    then show ?thesis using t T A by (simp add: sys_inv_def timers_inv_pc awake_inv_def)
  next
    case (do_task u us s1)
    have "timers_inv s1"
      using loop_client.timers_inv_task[OF C T t do_task(2)] do_task(3) t by simp
    moreover have "threadId s1 = cur"
      using loop_client.runTask_here[OF C, of "s\<lparr>customEvents := us\<rparr>" u s1] do_task(3) t by simp
    ultimately show ?thesis using do_task(4) A t
      by (simp add: sys_inv_def timers_inv_pc awake_inv_def)
  next
    case did_tasks
    then show ?thesis using t T A by (simp add: sys_inv_def timers_inv_pc awake_inv_def)
  qed
qed

lemma system_client:
  assumes "loop_client call bd cur"
  shows "invariant_system (linit bd cur) (lstep quiet call locked bd) (sys_inv quiet cur)"
  by (rule invariant_system.intro) (use sys_inv_init sys_inv_step[OF assms] in blast)+

section \<open>Scripts\<close>

text \<open>
  Functions of the user as lists of calls of a loop's interface, on any thread.  \<open>CWork n\<close> is work of
  the user's own that takes \<open>n\<close> ms.
\<close>

datatype cmd = CQueue "cmd list" | CRun "cmd list" | CTimer int int "cmd list" | CCancel nat | CStop | CWork nat

fun exec_script :: "build \<Rightarrow> nat \<Rightarrow> cmd list \<Rightarrow> (cmd list, 'z) loop_scheme \<Rightarrow> (cmd list, 'z) loop_scheme res" where
  "exec_script bd cur [] s = Inr s"
| "exec_script bd cur (CQueue f # cs) s = res_bind (queueInLoop bd cur f s) (exec_script bd cur cs)"
| "exec_script bd cur (CRun f # cs) s =
     res_bind (if isInLoopThread cur s then exec_script bd cur f s else queueInLoop bd cur f s)
       (exec_script bd cur cs)"
| "exec_script bd cur (CTimer delay i f # cs) s =
     res_bind (runTimer bd cur delay i f s) (\<lambda>(k, s1). exec_script bd cur cs s1)"
| "exec_script bd cur (CCancel i # cs) s = res_bind (cancelTimer bd cur i s) (exec_script bd cur cs)"
| "exec_script bd cur (CStop # cs) s = res_bind (stop bd cur s) (exec_script bd cur cs)"
| "exec_script bd cur (CWork n # cs) s = exec_script bd cur cs (s\<lparr>clock := clock s + int n\<rparr>)"

text \<open>Running a script in the loop is \<open>runInLoop\<close>.\<close>

lemma exec_script_CRun:
  "exec_script bd cur (CRun f # cs) s =
    res_bind (runInLoop (exec_script bd cur) bd cur f s) (exec_script bd cur cs)"
  by (simp add: runInLoop_def)

lemma exec_script_api:
  "exec_script bd cur cs s = Inr s' \<Longrightarrow> threadId s = cur \<Longrightarrow> api bd cur s s'"
proof (induction bd cur cs s arbitrary: s' rule: exec_script.induct)
  case (1 bd cur s)
  then show ?case by (auto intro: api_other)
next
  case (2 bd cur f cs s)
  then obtain s1 where s1: "queueInLoop bd cur f s = Inr s1" "exec_script bd cur cs s1 = Inr s'"
    by (auto simp: res_simps)
  have a: "api bd cur s s1" by (rule api_queue[OF s1(1)])
  then show ?case using 2(1)[OF s1(2)] api_here[OF a] 2(3) by (blast intro: api_trans)
next
  case (3 bd cur f cs s)
  then have h: "isInLoopThread cur s" by (simp add: isInLoopThread_def)
  with 3(3) obtain s1 where s1: "exec_script bd cur f s = Inr s1" "exec_script bd cur cs s1 = Inr s'"
    by (auto simp: res_simps)
  have a: "api bd cur s s1" using 3(1)[OF h s1(1)] 3(4) .
  then show ?case using 3(2)[OF s1(2)] api_here[OF a] 3(4) by (blast intro: api_trans)
next
  case (4 bd cur delay i f cs s)
  then obtain k s1 where s1: "runTimer bd cur delay i f s = Inr (k, s1)" "exec_script bd cur cs s1 = Inr s'"
    by (auto simp: res_simps)
  have a: "api bd cur s s1" using s1(1) unfolding runTimer_def by (rule api_add)
  then show ?case using 4(1)[OF s1(2)] api_here[OF a] 4(3) by (blast intro: api_trans)
next
  case (5 bd cur i cs s)
  then obtain s1 where s1: "cancelTimer bd cur i s = Inr s1" "exec_script bd cur cs s1 = Inr s'"
    by (auto simp: res_simps)
  have a: "api bd cur s s1" using s1(1) unfolding cancelTimer_def by (rule api_del)
  then show ?case using 5(1)[OF s1(2)] api_here[OF a] 5(3) by (blast intro: api_trans)
next
  case (6 bd cur cs s)
  then obtain s1 where s1: "stop bd cur s = Inr s1" "exec_script bd cur cs s1 = Inr s'"
    by (auto simp: res_simps)
  have a: "api bd cur s s1" by (rule api_stop[OF s1(1)])
  then show ?case using 6(1)[OF s1(2)] api_here[OF a] 6(3) by (blast intro: api_trans)
next
  case (7 bd cur n cs s)
  have "api bd cur s (s\<lparr>clock := clock s + int n\<rparr>)" by (rule api_other) simp_all
  then show ?case using 7 by (auto intro: api_trans)
qed

interpretation sc: loop_client "exec_script bd cur" bd cur for bd cur
  by unfold_locales (blast intro: exec_script_api)

text \<open>How many functions a script queues, counting those that these queue in turn.\<close>

fun script_cost :: "cmd list \<Rightarrow> nat" where
  "script_cost [] = 0"
| "script_cost (CQueue f # cs) = Suc (script_cost f + script_cost cs)"
| "script_cost (CRun f # cs) = script_cost f + script_cost cs"
| "script_cost (c # cs) = script_cost cs"

fun task_cost :: "cmd list task \<Rightarrow> nat" where
  "task_cost (Func f) = Suc (script_cost f)"
| "task_cost t = 1"

definition queue_cost :: "(cmd list, 'z) loop_scheme \<Rightarrow> nat" where
  "queue_cost s = sum_list (map task_cost (customEvents s))"

lemma wakeup_Release: "\<exists>s'. wakeup Release s = Inr s'"
  by (simp add: wakeup_def)

lemma queueInLoop_Release: "\<exists>s'. queueInLoop Release cur f s = Inr s'"
  using wakeup_Release by (auto simp: queueInLoop_def queueTask_def wakeCheck_def)

lemma exec_script_total:
  "threadId s = cur \<Longrightarrow> \<exists>s'. exec_script Release cur cs s = Inr s' \<and> queue_cost s' = queue_cost s + script_cost cs"
proof (induction "Release" cur cs s rule: exec_script.induct)
  case (2 cur f cs s)
  obtain s1 where s1: "queueInLoop Release cur f s = Inr s1" using queueInLoop_Release[of cur f s] by blast
  then have "threadId s1 = cur" "queue_cost s1 = queue_cost s + Suc (script_cost f)"
    using 2(2) by (auto simp: queueInLoop_def queue_cost_def elim!: queueTask_cases)
  with 2(1)[of s1] s1 show ?case by auto
next
  case (3 cur f cs s)
  have h: "isInLoopThread cur s" using 3(3) by (simp add: isInLoopThread_def)
  obtain s1 where s1: "exec_script Release cur f s = Inr s1" "queue_cost s1 = queue_cost s + script_cost f"
    using 3(1)[OF h 3(3)] by blast
  have "threadId s1 = cur" using sc.call_here[OF 3(3) s1(1)] by blast
  with 3(2)[of s1] s1 h show ?case by auto
next
  case (4 cur delay i f cs s)
  let ?t = "Timer (timersCreated s) (clock s + delay) i f"
  let ?s = "s\<lparr>timersCreated := timersCreated s + 1, timerIds := insert (t_id ?t) (timerIds s),
    timers := pq_push ?t (timers s)\<rparr>"
  have "runTimer Release cur delay i f s = Inr (t_id ?t, ?s)"
    using 4(2) by (simp add: runTimer_def addTimer_here)
  moreover have "queue_cost ?s = queue_cost s" by (simp add: queue_cost_def)
  ultimately show ?case using 4(1)[of ?s] 4(2) by auto
next
  case (5 cur i cs s)
  let ?s = "s\<lparr>timerIds := timerIds s - {i}\<rparr>"
  have "cancelTimer Release cur i s = Inr ?s"
    using 5(2) by (simp add: cancelTimer_def delTimer_def isInLoopThread_def delTimerInLoop_def)
  with 5(1)[of ?s] 5(2) show ?case by (simp add: queue_cost_def)
next
  case (6 cur cs s)
  have "stop Release cur s = Inr (s\<lparr>running := False\<rparr>)"
    using 6(2) by (simp add: stop_def setStop_def stopWake_def isInLoopThread_def isStop_def)
  with 6(1)[of "s\<lparr>running := False\<rparr>"] 6(2) show ?case by (simp add: queue_cost_def)
next
  case (7 cur n cs s)
  then show ?case by (simp add: queue_cost_def)
qed auto

text \<open>Running the first queued task: one fewer task in all.\<close>

lemma runTask_script_total:
  assumes "threadId s = cur" and "customEvents s = t # ts"
  shows "\<exists>s1. runTask (exec_script Release cur) Release cur t (s\<lparr>customEvents := ts\<rparr>) = Inr s1 \<and>
    threadId s1 = cur \<and> Suc (queue_cost s1) = queue_cost s"
proof -
  let ?s = "s\<lparr>customEvents := ts\<rparr>"
  have t: "threadId ?s = cur" using assms(1) by simp
  have "\<exists>s1. runTask (exec_script Release cur) Release cur t ?s = Inr s1 \<and> Suc (queue_cost s1) = queue_cost s"
  proof (cases t)
    case (Func f)
    then show ?thesis using exec_script_total[OF t, of f] assms(2) by (auto simp: queue_cost_def)
  next
    case (AddTimerTask u)
    then show ?thesis using assms by (simp add: isInLoopThread_def addTimerInLoop_def queue_cost_def)
  next
    case (DelTimerTask i)
    then show ?thesis using assms by (simp add: isInLoopThread_def delTimerInLoop_def queue_cost_def)
  qed
  then show ?thesis using sc.runTask_here[OF t] by blast
qed

lemma runEvents_script_total:
  assumes "threadId s = cur" and "queue_cost s < n"
  shows "\<exists>rs s'. runEvents (exec_script Release cur) Release cur n s = Some (Inr (rs, s')) \<and>
    length rs = queue_cost s"
  using assms
proof (induction n arbitrary: s)
  case 0
  then show ?case by simp
next
  case (Suc n)
  show ?case
  proof (cases "customEvents s")
    case Nil
    then show ?thesis by (simp add: queue_cost_def)
  next
    case (Cons t ts)
    obtain s1 where s1: "runTask (exec_script Release cur) Release cur t (s\<lparr>customEvents := ts\<rparr>) = Inr s1"
        "threadId s1 = cur" "Suc (queue_cost s1) = queue_cost s"
      using runTask_script_total[OF Suc.prems(1) Cons] by blast
    obtain rs s' where "runEvents (exec_script Release cur) Release cur n s1 = Some (Inr (rs, s'))"
        "length rs = queue_cost s1"
      using Suc.IH[OF s1(2)] s1(3) Suc.prems(2) by auto
    with s1 Cons show ?thesis by simp
  qed
qed

section \<open>Properties\<close>

text \<open>
  C13. No wakeup is lost, however other threads use a loop while it runs.  When the loop is about to
  poll with a function in its queue, and another thread has queued one since the loop last emptied the queue, the
  eventfd is readable, so that the poll does not block, or a thread is in the middle of its call; and the rest of
  that call, whoever runs meanwhile, makes the eventfd readable unless its counter is full.  The same holds without the
  second condition when the callbacks of timers queue nothing (\<open>quiet\<close>); what they queue on the loop's own
  thread is the exception.
\<close>

theorem loop_no_lost_wakeup:
  fixes call :: "'f \<Rightarrow> 'f system \<Rightarrow> 'f system res"
  assumes "loop_client call bd cur"
    and "reach (linit bd cur) (lstep quiet call locked bd) s"
    and "pc s = AtPoll" and "customEvents s \<noteq> []" and "handedOver s \<or> quiet"
  shows "(0 < wakeups s \<or> pending s \<noteq> []) \<and>
    (\<forall>p \<in> set (pending s). \<forall>s1. finish_call bd p s = Inr s1 \<longrightarrow> 0 < wakeups s1) \<and>
    (\<forall>p \<in> set (pending s). wakeups s < eventfd_max \<longrightarrow>
       finish_call bd p s = Inr (s\<lparr>wakeups := wakeups s + 1\<rparr>))"
proof -
  have "sys_inv quiet cur s"
    using invariant_system.reachable_inv[OF system_client[OF assms(1)] assms(2)] .
  then have A: "awake_inv quiet s" by (simp add: sys_inv_def)
  then have "0 < wakeups s \<or> pending s \<noteq> []"
    using assms(3-5) by (auto simp: awake_inv_def)
  moreover have "0 < wakeups s1" if "p \<in> set (pending s)" "finish_call bd p s = Inr s1" for p s1
    using A that finish_call_other[of p s bd s1] wakeup_fields[of bd s s1] by (simp add: awake_inv_def)
  moreover have "finish_call bd p s = Inr (s\<lparr>wakeups := wakeups s + 1\<rparr>)"
    if "p \<in> set (pending s)" "wakeups s < eventfd_max" for p
    using A that by (cases p) (auto simp: awake_inv_def wakeCheck_def stopWake_def isInLoopThread_def wakeup_def)
  ultimately show ?thesis by blast
qed

text \<open>The witness: a thread queues a function and has not yet written.\<close>

definition sample_loop :: "cmd list loop" where
  "sample_loop = \<lparr>timers = [], timerIds = {}, timersCreated = 0, threadId = 0, running = False,
     customEvents = [], wakeups = 0,
     poller = \<lparr>chans = [1 \<mapsto> \<lparr>fd = 5, events = READ_EVENT, revents = 0, readCallback = Some WakeupRead,
         writeCallback = None, errorCallback = None, closeCallback = None, eventCallback = None,
         bindObject = None, isHandling = False\<rparr>],
       channels = {1}, interest = [5 \<mapsto> (READ_EVENT, 1)], capacity = 32, sysErrors = 0\<rparr>,
     clock = 0\<rparr>"

lemma sample_loop_made: "EventLoop Debug 0 1 5 0 0 = Inr sample_loop"
  by (simp add: EventLoop_def new_channel_def EventChannel_def EventPoller_def with_channel_def
      setReadCallback_def enableReading_def set_events_def updateChannel_def ctl_def put_channel_def
      sample_loop_def NONE_EVENT_def)

definition sample_sys :: "bool \<Rightarrow> phase \<Rightarrow> cmd list task list \<Rightarrow> call_rest list \<Rightarrow> cmd list system" where
  "sample_sys r q ts ps = loop.extend (sample_loop\<lparr>running := r, customEvents := ts\<rparr>)
     \<lparr>pc = q, pending = ps, handedOver = ts \<noteq> []\<rparr>"

lemma sample_sys_init: "linit Debug 0 (sample_sys True AtTimers [] [])"
proof -
  have "api Debug 0 sample_loop sample_loop" by (rule api_other) simp_all
  moreover have "sample_sys True AtTimers [] [] =
      loop.extend (sample_loop\<lparr>running := True\<rparr>)
        \<lparr>pc = AtTimers, pending = [], handedOver = customEvents sample_loop \<noteq> []\<rparr>"
    by (simp add: sample_sys_def sample_loop_def)
  ultimately show ?thesis using sample_loop_made unfolding linit_def by blast
qed

lemma sample_sys_poll:
  "reach (linit Debug 0) (lstep quiet (exec_script Debug 0) locked Debug) (sample_sys True AtPoll [Func [CStop]] [AfterPush 7])"
proof -
  have "reach (linit Debug 0) (lstep quiet (exec_script Debug 0) locked Debug) (sample_sys True AtPoll [] [])"
    by (rule reach_step[OF reach_init[of "linit Debug 0", OF sample_sys_init]], rule do_timers)
      (auto simp: sample_sys_def sample_loop_def loop.extend_def timersPhase_def handlerTimer_def
        getExpiredTimers_def isInLoopThread_def)
  then show ?thesis
    by (rule reach_step, intro other_queue[where f = "[CStop]" and c = 7])
      (simp_all add: sample_sys_def sample_loop_def loop.extend_def pushTask_def hand_in_def)
qed

theorem loop_no_lost_wakeup_witness:
  "customEvents (sample_sys True AtPoll [Func [CStop]] [AfterPush 7]) = [Func [CStop]] \<and>
   (\<exists>s1. finish_call Debug (AfterPush 7) (sample_sys True AtPoll [Func [CStop]] [AfterPush 7]) = Inr s1 \<and>
     0 < wakeups s1)"
proof -
  let ?s = "sample_sys True AtPoll [Func [CStop]] [AfterPush 7]"
  have e: "pc ?s = AtPoll" "customEvents ?s = [Func [CStop]]" "handedOver ?s" "pending ?s = [AfterPush 7]"
      "wakeups ?s < eventfd_max"
    by (simp_all add: sample_sys_def sample_loop_def loop.extend_def eventfd_max_def)
  from loop_no_lost_wakeup[OF sc.loop_client_axioms sample_sys_poll e(1)] e(2-5) show ?thesis by auto
qed

text \<open>
  C14. In every such state in which the counter of the ids has not wrapped, whatever the callbacks of timers do, the
  timer queue's invariant holds, no two timers that are queued or on their way from another thread have the
  same id, and the timeout the loop will poll with is exact: -1 exactly when no timer is queued, 0 exactly when one is due,
  and never past the first.
\<close>

theorem loop_timers_consistent:
  fixes call :: "'f \<Rightarrow> 'f system \<Rightarrow> 'f system res"
  assumes "loop_client call bd cur"
    and "reach (linit bd cur) (lstep quiet call locked bd) s" and "timersCreated s < 2 ^ 64"
  shows "tq_inv s \<and> distinct (map t_id (timers s) @ queued_ids s) \<and>
    (\<exists>r. getNextTimeout (isInLoopThread cur s) (clock s) s = Inr r \<and> (r = -1 \<longleftrightarrow> timers s = []) \<and>
       (r = 0 \<longleftrightarrow> (\<exists>t \<in> set (timers s). expiration t \<le> clock s)) \<and>
       (\<forall>t \<in> set (timers s). r \<le> max 0 (expiration t - clock s)))"
proof -
  have I: "threadId s = cur" "timers_inv s"
    using invariant_system.reachable_inv[OF system_client[OF assms(1)] assms(2)]
    by (simp_all add: sys_inv_def)
  then have T: "tq_inv s" "distinct (queued_ids s)" "set (queued_ids s) \<inter> ids (timers s) = {}"
    using assms(3) by (simp_all add: timers_inv_def)
  then have "distinct (map t_id (timers s) @ queued_ids s)"
    by (auto simp: tq_inv_def tq_mid_def)
  moreover have "\<exists>r. getNextTimeout True (clock s) s = Inr r \<and> (r = -1 \<longleftrightarrow> timers s = []) \<and>
       (r = 0 \<longleftrightarrow> (\<exists>t \<in> set (timers s). expiration t \<le> clock s)) \<and>
       (\<forall>t \<in> set (timers s). r \<le> max 0 (expiration t - clock s))"
  proof -
    obtain r where r: "getNextTimeout True (clock s) s = Inr r" "-1 \<le> r" "r = -1 \<longleftrightarrow> timers s = []"
        "r = 0 \<longleftrightarrow> (\<exists>t \<in> set (timers s). expiration t \<le> clock s)"
        "0 < r \<longrightarrow> (\<forall>t \<in> set (timers s). clock s + r \<le> expiration t)"
      using next_timeout_exact[OF T(1), of "clock s"] by blast
    then show ?thesis by (intro exI[of _ r]) fastforce
  qed
  ultimately show ?thesis using T(1) I(1) by (simp add: isInLoopThread_def)
qed

theorem loop_timers_consistent_witness:
  "tq_inv (sample_sys True AtPoll [Func [CStop]] [AfterPush 7]) \<and>
   getNextTimeout (isInLoopThread 0 (sample_sys True AtPoll [Func [CStop]] [AfterPush 7])) 0 (sample_sys True AtPoll [Func [CStop]] [AfterPush 7]) = Inr (-1)"
  using loop_timers_consistent[OF sc.loop_client_axioms sample_sys_poll[of False "\<lambda>_ _. True"]]
  by (simp add: sample_sys_def sample_loop_def loop.extend_def)

text \<open>
  C35. A function that the callback of a timer queues, on the loop's own thread, does not wake the loop up: after the round of the
  timers the function is in the queue, the eventfd is not readable, and with no other timer the
  loop polls without a timeout.
\<close>

theorem timer_task_stalls:
  fixes s :: "(cmd list, 'z) loop_scheme"
  assumes "threadId s = cur" and "running s" and "customEvents s = []" and "wakeups s = 0"
    and "timers s = [t]" and "timerIds s = {t_id t}" and "expiration t \<le> clock s" and "\<not> isRepeat t"
    and "callback t = [CQueue f]"
  shows "\<exists>s'. timersPhase (exec_script bd cur) cur s = Inr ([t], s') \<and> customEvents s' = [Func f] \<and>
    wakeups s' = 0 \<and> getNextTimeout (isInLoopThread cur s') (clock s') s' = Inr (-1)"
proof -
  let ?s1 = "s\<lparr>timers := []\<rparr>" and ?s2 = "s\<lparr>timers := [], customEvents := [Func f]\<rparr>"
  have "getExpiredTimers (clock s) s = ([t], ?s1)"
    using assms(5,7) by (simp add: getExpiredTimers_def)
  moreover have "runExpired (\<lambda>t. exec_script bd cur (callback t)) [t] ?s1 = Inr ([t], ?s2)"
    using assms by (simp add: queueInLoop_def queueTask_def wakeCheck_def pushTask_def isInLoopThread_def isStop_def)
  ultimately have "timersPhase (exec_script bd cur) cur s = Inr ([t], ?s2\<lparr>timerIds := {}\<rparr>)"
    using assms(1,6,8) by (simp add: timersPhase_def handlerTimer_def isInLoopThread_def)
  then show ?thesis using assms(1,4) by (simp add: getNextTimeout_def isInLoopThread_def)
qed

theorem timer_task_stalls_witness:
  "\<exists>s'. timersPhase (exec_script Debug 0) 0 (sample_loop\<lparr>running := True, timerIds := {1},
     timers := [\<lparr>t_id = 1, expiration = 0, interval = 0, callback = [CQueue [CStop]]\<rparr>]\<rparr>) =
     Inr ([\<lparr>t_id = 1, expiration = 0, interval = 0, callback = [CQueue [CStop]]\<rparr>], s') \<and>
     customEvents s' = [Func [CStop]] \<and> wakeups s' = 0"
  using timer_task_stalls[of "sample_loop\<lparr>running := True, timerIds := {1},
     timers := [\<lparr>t_id = 1, expiration = 0, interval = 0, callback = [CQueue [CStop]]\<rparr>]\<rparr>" 0
     "\<lparr>t_id = 1, expiration = 0, interval = 0, callback = [CQueue [CStop]]\<rparr>" "[CStop]" Debug]
  by (auto simp: sample_loop_def isRepeat_def)

text \<open>
  C33. Every queued function gets its turn, in order: with functions that are scripts the loop over the queue ends, leaves
  the queue empty and has run exactly the functions that were queued, in that order, followed by those queued meanwhile; their number
  is known in advance.
\<close>

theorem loop_runs_queue:
  assumes "threadId s = cur" and "queue_cost s < n"
  shows "\<exists>rs s'. runEvents (exec_script Release cur) Release cur n s = Some (Inr (rs, s')) \<and>
    customEvents s' = [] \<and> length rs = queue_cost s \<and> (\<exists>fs. rs = customEvents s @ map Func fs)"
proof -
  obtain rs s' where r: "runEvents (exec_script Release cur) Release cur n s = Some (Inr (rs, s'))"
      "length rs = queue_cost s"
    using runEvents_script_total[OF assms] by blast
  then show ?thesis using sc.runEvents_fifo[OF r(1) assms(1)] by blast
qed

theorem loop_runs_queue_witness:
  "\<exists>rs s'. runEvents (exec_script Release 0) Release 0 10
     (sample_loop\<lparr>customEvents := [Func [CQueue [CQueue []]], DelTimerTask 3, Func []]\<rparr>) = Some (Inr (rs, s')) \<and>
     length rs = 5 \<and> customEvents s' = []"
  using loop_runs_queue[of "sample_loop\<lparr>customEvents := [Func [CQueue [CQueue []]], DelTimerTask 3, Func []]\<rparr>" 0 10]
  by (auto simp: sample_loop_def queue_cost_def)

end
