(* ===== verification/Wheel_System.thy ===== *)
theory Wheel_System
  imports Timer_Wheel Loop_System
begin

text \<open>
  The timing wheel of \<^verbatim>\<open>src/include/godnet/net/timer_wheel.cpp\<close> on its event loop: the repeating timer its
  constructor registers, insertion from any thread, and its destructor.  A step relation over the rounds of the
  loop's timers, its tasks and what the user's functions do; in its reachable states, how long the wheel holds an object in
  terms of the clock.
\<close>

section \<open>State\<close>

text \<open>
  The functions the loop holds: the wheel's timer, the lambda of \<open>insertEntry\<close>, and the user's.  \<open>released\<close> are the
  objects the wheel let go of.
\<close>

datatype 'u wfunc = WheelTick | WheelInsert int entry | WheelUser 'u

record 'u wloop = "'u wfunc loop" +
  wheelOf :: "wheel option"
  released :: "nat list"

definition with_wheel :: "'u wloop \<Rightarrow> (wheel \<Rightarrow> 'a res) \<Rightarrow> 'a res" where
  "with_wheel s f = (case wheelOf s of None \<Rightarrow> Inl Dangling | Some w \<Rightarrow> f w)"

section \<open>Construction, ticks, insertion, destruction\<close>

text \<open>The constructor: \<open>timerId_\<close> is 0 until the timer is registered.\<close>

definition makeWheel :: "build \<Rightarrow> nat \<Rightarrow> int \<Rightarrow> int \<Rightarrow> nat \<Rightarrow> 'u wloop \<Rightarrow> 'u wloop option res" where
  "makeWheel bd cur maxTimeout ti n s = res_bind (TimerWheel bd maxTimeout ti n 0) (\<lambda>r. case r of
     None \<Rightarrow> Inr None
   | Some w \<Rightarrow> res_bind (runTimerEvery bd cur ti WheelTick s) (\<lambda>(i, s1).
       Inr (Some (s1\<lparr>wheelOf := Some (w\<lparr>wheelTimer := i\<rparr>)\<rparr>))))"

definition onTick :: "'u wloop \<Rightarrow> 'u wloop res" where
  "onTick s = with_wheel s (\<lambda>w. res_bind (tick w) (\<lambda>(out, w1).
     Inr (s\<lparr>wheelOf := Some w1, released := released s @ out\<rparr>)))"

definition insertHere :: "nat \<Rightarrow> int \<Rightarrow> entry \<Rightarrow> 'u wloop \<Rightarrow> 'u wloop res" where
  "insertHere cur delay e s = with_wheel s (\<lambda>w.
     res_bind (insertEntryInLoop (isInLoopThread cur s) delay e w) (\<lambda>w1. Inr (s\<lparr>wheelOf := Some w1\<rparr>)))"

definition insertEntry :: "build \<Rightarrow> nat \<Rightarrow> int \<Rightarrow> entry \<Rightarrow> 'u wloop \<Rightarrow> 'u wloop res" where
  "insertEntry bd cur delay e s = (if isInLoopThread cur s then insertHere cur delay e s
     else queueInLoop bd cur (WheelInsert delay e) s)"

definition destroyTimerWheel :: "build \<Rightarrow> nat \<Rightarrow> 'u wloop \<Rightarrow> 'u wloop res" where
  "destroyTimerWheel bd cur s = guarding Wrong_Thread (isInLoopThread cur s) (with_wheel s (\<lambda>w.
     res_bind (cancelTimer bd cur (wheelTimer w) s) (\<lambda>s1.
     res_bind (destroyWheel (isInLoopThread cur s1) w) (\<lambda>(out, w1).
       Inr (s1\<lparr>wheelOf := None, released := released s1 @ out\<rparr>)))))"

text \<open>Calling a function the loop holds.\<close>

fun wheel_func :: "nat \<Rightarrow> ('u \<Rightarrow> 'u wloop \<Rightarrow> 'u wloop res) \<Rightarrow> 'u wfunc \<Rightarrow> 'u wloop \<Rightarrow> 'u wloop res" where
  "wheel_func cur other WheelTick s = onTick s"
| "wheel_func cur other (WheelInsert delay e) s = insertHere cur delay e s"
| "wheel_func cur other (WheelUser u) s = other u s"

section \<open>What the functions of the user may do\<close>

text \<open>
  A delay that the wheels have room for.  The wheel's counter of ticks is far from its wrap-around.
\<close>

definition fits :: "wheel \<Rightarrow> int \<Rightarrow> bool" where
  "fits w delay \<longleftrightarrow> 0 \<le> delay \<and> nat (delay div ticksInterval w) < bucketNum w ^ length (wheels w)"

definition young :: "wheel \<Rightarrow> bool" where
  "young w \<longleftrightarrow> tickCounter w + bucketNum w ^ length (wheels w) + 2 < 2 ^ 64"

text \<open>
  The user's functions insert objects, use the interface of the loop, and take time.  The id of
  the wheel's timer is private, so they do not cancel it.  They do not destroy the wheel: what its destructor does is
  a property of its own.
\<close>

inductive user_act :: "build \<Rightarrow> nat \<Rightarrow> 'u wloop \<Rightarrow> 'u wloop \<Rightarrow> bool" for bd cur where
  ua_insert: "wheelOf s = Some w \<Longrightarrow> fits w delay \<Longrightarrow> young w \<Longrightarrow> insertEntry bd cur delay (User u) s = Inr s' \<Longrightarrow> user_act bd cur s s'"
| ua_queue: "queueInLoop bd cur (WheelUser u) s = Inr s' \<Longrightarrow> user_act bd cur s s'"
| ua_add: "addTimer bd cur e i (WheelUser u) s = Inr (k, s') \<Longrightarrow> user_act bd cur s s'"
| ua_del: "\<forall>w. wheelOf s = Some w \<longrightarrow> i \<noteq> wheelTimer w \<Longrightarrow> cancelTimer bd cur i s = Inr s' \<Longrightarrow> user_act bd cur s s'"
| ua_stop: "stop bd cur s = Inr s' \<Longrightarrow> user_act bd cur s s'"
| ua_work: "s' = s\<lparr>clock := clock s + int n, poller := p\<rparr> \<Longrightarrow> user_act bd cur s s'"

locale wheel_user =
  fixes other :: "'u \<Rightarrow> 'u wloop \<Rightarrow> 'u wloop res" and bd :: build and cur :: nat
  assumes other_acts: "threadId s = cur \<Longrightarrow> other u s = Inr s' \<Longrightarrow> (user_act bd cur)\<^sup>*\<^sup>* s s'"

text \<open>Everything the loop runs for the wheel keeps to the interface of the loop.\<close>

lemma onTick_api: "onTick s = Inr s' \<Longrightarrow> api bd cur s s'"
  by (intro api_other) (auto simp: onTick_def with_wheel_def res_simps split: option.splits)

lemma insertHere_api: "insertHere cur delay e s = Inr s' \<Longrightarrow> api bd cur s s'"
  by (intro api_other) (auto simp: insertHere_def with_wheel_def res_simps split: option.splits)

lemma api_refl: "api bd cur s s"
  by (rule api_other) simp_all

lemma user_act_api: "user_act bd cur s s' \<Longrightarrow> api bd cur s s'"
proof (induction rule: user_act.induct)
  case (ua_insert s w delay u s')
  then show ?case using insertHere_api api_queue by (auto simp: insertEntry_def split: if_splits)
next
  case (ua_work s' s n p)
  then show ?case by (intro api_other) simp_all
qed (auto intro: api_queue api_add api_del api_stop simp: cancelTimer_def)

lemma user_acts_api: "(user_act bd cur)\<^sup>*\<^sup>* s s' \<Longrightarrow> api bd cur s s'"
  by (induction rule: rtranclp_induct) (auto intro: api_refl api_trans user_act_api)

sublocale wheel_user \<subseteq> wl: loop_client "wheel_func cur other" bd cur
proof
  show "api bd cur s s'" if "threadId s = cur" "wheel_func cur other f s = Inr s'" for s f s'
    using that onTick_api insertHere_api user_acts_api[OF other_acts] by (cases f) auto
qed

section \<open>What they leave of the wheel\<close>

definition wheel_timer :: "wheel \<Rightarrow> 'u wfunc timer \<Rightarrow> bool" where
  "wheel_timer w t \<longleftrightarrow> t_id t = wheelTimer w \<and> callback t = WheelTick \<and> interval t = ticksInterval w"

definition user_timer :: "wheel \<Rightarrow> 'u wfunc timer \<Rightarrow> bool" where
  "user_timer w t \<longleftrightarrow> t_id t \<noteq> wheelTimer w \<and> (\<exists>u. callback t = WheelUser u)"

fun task_ok :: "wheel \<Rightarrow> 'u wfunc task \<Rightarrow> bool" where
  "task_ok w (Func WheelTick) = False"
| "task_ok w (Func (WheelInsert delay e)) = (fits w delay \<and> (\<exists>u. e = User u))"
| "task_ok w (Func (WheelUser u)) = True"
| "task_ok w (AddTimerTask t) = user_timer w t"
| "task_ok w (DelTimerTask i) = (i \<noteq> wheelTimer w)"

text \<open>
  The wheel has made \<open>n\<close> ticks more: what was due has been released, the rest is kept.
\<close>

definition turned :: "nat \<Rightarrow> wheel \<Rightarrow> nat list \<Rightarrow> wheel \<Rightarrow> nat list \<Rightarrow> bool" where
  "turned n w out w' out' \<longleftrightarrow> wheel_wf w' \<and> same_frame (w\<lparr>tickCounter := tickCounter w + n\<rparr>) w' \<and> set out \<subseteq> set out' \<and>
     (\<forall>(u, d) \<in> sched w. if d \<le> tickCounter w' then u \<in> set out' else (u, d) \<in> sched w')"

definition wl_act :: "wheel \<Rightarrow> 'u wloop \<Rightarrow> wheel \<Rightarrow> 'u wloop \<Rightarrow> bool" where
  "wl_act w s w' s' \<longleftrightarrow> wheelOf s' = Some w' \<and> threadId s' = threadId s \<and> timersCreated s \<le> timersCreated s' \<and> clock s \<le> clock s' \<and>
     (wheelTimer w \<in> timerIds s \<longrightarrow> wheelTimer w \<in> timerIds s') \<and> set (timers s) \<subseteq> set (timers s') \<and>
     (\<forall>t \<in> set (timers s'). t \<in> set (timers s) \<or> user_timer w t) \<and>
     (\<exists>ts. customEvents s' = customEvents s @ ts \<and> (\<forall>t \<in> set ts. task_ok w t))"

lemma turned_frame:
  assumes "turned n w out w' out'"
  shows "wheelTimer w' = wheelTimer w" and "ticksInterval w' = ticksInterval w" and "wheel_timer w' = wheel_timer w"
    and "user_timer w' = user_timer w" and "task_ok w' t = task_ok w t" and "fits w' d = fits w d"
  using assms by (auto simp: turned_def same_frame_def wheel_timer_def user_timer_def fits_def fun_eq_iff) (cases "(w, t)" rule: task_ok.cases;
    simp add: user_timer_def fits_def)+

lemma sched_later: "wheel_wf w \<Longrightarrow> (u, d) \<in> sched w \<Longrightarrow> tickCounter w < d"
  using lsched_later[of "bucketNum w"] by (auto simp: sched_def wheel_wf_def)

lemma turned_grow:
  assumes "wheel_wf w" and "wheel_wf w'" and "same_frame w w'" and "sched w \<subseteq> sched w'"
  shows "turned 0 w out w' out"
  using assms sched_later[OF assms(1)] by (fastforce simp: turned_def same_frame_def)

lemma turned_refl: "wheel_wf w \<Longrightarrow> turned 0 w out w out"
  by (rule turned_grow) (simp_all add: same_frame_def)

lemma turned_trans:
  assumes "turned n w out w1 out1" and "turned m w1 out1 w2 out2"
  shows "turned (n + m) w out w2 out2"
proof -
  have f: "tickCounter w1 \<le> tickCounter w2" using assms(2) by (simp add: turned_def same_frame_def)
  have "if d \<le> tickCounter w2 then u \<in> set out2 else (u, d) \<in> sched w2" if "(u, d) \<in> sched w" for u d
    using assms that f unfolding turned_def by (cases "d \<le> tickCounter w1") fastforce+
  then show ?thesis using assms by (auto simp: turned_def same_frame_def)
qed

lemma wl_act_trans:
  assumes "wl_act w s w1 s1" and "turned n w out w1 out1" and "wl_act w1 s1 w2 s2"
  shows "wl_act w s w2 s2"
proof -
  note f = turned_frame(4)[OF assms(2)] turned_frame(5)[OF assms(2)] turned_frame(1)[OF assms(2)]
  obtain ts where q1: "customEvents s1 = customEvents s @ ts" "\<forall>t \<in> set ts. task_ok w t"
    using assms(1) unfolding wl_act_def by blast
  obtain us where q2: "customEvents s2 = customEvents s1 @ us" "\<forall>t \<in> set us. task_ok w t"
    using assms(3) unfolding wl_act_def f(2) by blast
  have q: "customEvents s2 = customEvents s @ (ts @ us)" "\<forall>t \<in> set (ts @ us). task_ok w t" using q1 q2 by auto
  show ?thesis using assms(1,3) unfolding wl_act_def f(1,3) by (auto intro!: exI[of _ "ts @ us"] simp: q)
qed

lemma wl_act_frame:
  assumes "wheelOf s' = Some w'" and "timers s' = timers s" and "timerIds s' = timerIds s" and "timersCreated s' = timersCreated s"
    and "threadId s' = threadId s" and "clock s \<le> clock s'" and "customEvents s' = customEvents s @ ts" and "\<forall>t \<in> set ts. task_ok w t"
  shows "wl_act w s w' s'"
  using assms unfolding wl_act_def by (auto intro!: exI[of _ ts])

text \<open>An insertion on the loop's thread.\<close>

lemma insertHere_ok:
  assumes w: "wheelOf s = Some w" "wheel_wf w" "0 < ticksInterval w" "young w" and f: "fits w delay" and t: "threadId s = cur"
  shows "\<exists>w'. insertHere cur delay (User u) s = Inr (s\<lparr>wheelOf := Some w'\<rparr>) \<and> wheel_wf w' \<and> same_frame w w' \<and>
    sched w' = insert (u, tickCounter w + nat (delay div ticksInterval w) + 1) (sched w)"
proof -
  let ?k = "nat (delay div ticksInterval w)"
  have k: "?k < bucketNum w ^ length (wheels w)" "tickCounter w + ?k + 1 < 2 ^ 64" "0 \<le> delay"
    using f w(4) by (simp_all add: fits_def young_def)
  obtain w' where "insertEntryInLoop True delay (User u) w = Inr w'" "wheel_wf w'" "same_frame w w'"
      "sched w' = insert (u, tickCounter w + ?k + 1) (sched w)"
    using insert_ok[OF w(2,3) k(3) refl k(1,2)] by blast
  then show ?thesis using w(1) t by (auto simp: insertHere_def with_wheel_def isInLoopThread_def)
qed

text \<open>A use of the loop or of the wheel by the user, on any thread.\<close>

lemma queue_wl_act:
  assumes "queueTask bd c t s = Inr s'" and "wheelOf s = Some w" and "task_ok w t"
  shows "wl_act w s w s' \<and> released s' = released s"
  using assms(1)
proof (cases rule: queueTask_cases)
  case (1 n)
  then show ?thesis using assms(2,3) by (intro conjI wl_act_frame[where ts = "[t]"]) simp_all
qed

lemma user_act_ok:
  assumes a: "user_act bd c s s'" and w: "wheelOf s = Some w" "wheel_wf w" "0 < ticksInterval w"
    and i: "wheelTimer w \<le> timersCreated s" "timersCreated s' < 2 ^ 64"
  shows "\<exists>w'. turned 0 w (released s) w' (released s') \<and> wl_act w s w' s'"
  using a
proof cases
  case (ua_insert w0 delay u)
  have w0: "w0 = w" using ua_insert(1) w(1) by simp
  show ?thesis
  proof (cases "isInLoopThread c s")
    case True
    obtain w' where w': "insertHere c delay (User u) s = Inr (s\<lparr>wheelOf := Some w'\<rparr>)" "turned 0 w (released s) w' (released s)"
      using insertHere_ok[OF w ua_insert(3)[unfolded w0] ua_insert(2)[unfolded w0], of c u] True turned_grow[OF w(2)]
      by (auto simp: isInLoopThread_def)
    then have "s' = s\<lparr>wheelOf := Some w'\<rparr>" using ua_insert(4) True by (simp add: insertEntry_def)
    then have "wl_act w s w' s'" "released s' = released s" by (simp_all add: wl_act_frame[where ts = "[]"])
    then show ?thesis using w'(2) by auto
  next
    case False
    then have "queueTask bd c (Func (WheelInsert delay (User u))) s = Inr s'"
      using ua_insert(4) by (simp add: insertEntry_def queueInLoop_def)
    then show ?thesis using queue_wl_act w(1) turned_refl[OF w(2)] ua_insert(2) w0 by fastforce
  qed
next
  case (ua_queue u)
  then show ?thesis using queue_wl_act w(1) turned_refl[OF w(2)] unfolding queueInLoop_def by fastforce
next
  case (ua_add e j u k)
  have n: "timersCreated s' = timersCreated s + 1"
    using ua_add by (auto simp: addTimer_def newTimer_def addTimerInLoop_def res_simps elim!: queueTask_cases split: if_splits)
  let ?t = "Timer (timersCreated s) e j (WheelUser u)"
  have t: "user_timer w ?t" using t_id_Timer[of "timersCreated s" e j "WheelUser u"] n i
    by (simp add: user_timer_def) (simp add: Timer_def)
  show ?thesis
  proof (cases "isInLoopThread c s")
    case True
    then have "threadId s = c" by (simp add: isInLoopThread_def)
    then have "s' = s\<lparr>timersCreated := timersCreated s + 1, timerIds := insert (t_id ?t) (timerIds s), timers := pq_push ?t (timers s)\<rparr>"
      using ua_add addTimer_here[of s c] by auto
    then have "wl_act w s w s'" "released s' = released s" using w(1) t by (auto simp: wl_act_def)
    then show ?thesis using turned_refl[OF w(2)] by metis
  next
    case False
    then have "queueTask bd c (AddTimerTask ?t) (s\<lparr>timersCreated := timersCreated s + 1\<rparr>) = Inr s'"
      using ua_add by (auto simp: addTimer_def newTimer_def isInLoopThread_def res_simps)
    then have "wl_act w (s\<lparr>timersCreated := timersCreated s + 1\<rparr>) w s' \<and> released s' = released s"
      using queue_wl_act[of bd c "AddTimerTask ?t" "s\<lparr>timersCreated := timersCreated s + 1\<rparr>" s' w] w(1) t by simp
    then show ?thesis using turned_refl[OF w(2)] by (auto simp: wl_act_def)
  qed
next
  case (ua_del j)
  then have j: "j \<noteq> wheelTimer w" using w(1) by simp
  show ?thesis
  proof (cases "isInLoopThread c s")
    case True
    then have "s' = s\<lparr>timerIds := timerIds s - {j}\<rparr>"
      using ua_del by (simp add: cancelTimer_def delTimer_def delTimerInLoop_Inr)
    then show ?thesis using turned_refl[OF w(2)] w(1) j by (auto simp: wl_act_def intro!: exI[of _ w])
  next
    case False
    then have "queueTask bd c (DelTimerTask j) s = Inr s'" using ua_del by (simp add: cancelTimer_def delTimer_def)
    then show ?thesis using queue_wl_act w(1) turned_refl[OF w(2)] j by fastforce
  qed
next
  case ua_stop
  then show ?thesis
  proof (cases rule: stop_cases)
    case (1 n)
    then have "wl_act w s w s'" "released s' = released s" using w(1) by (simp_all add: wl_act_frame[where ts = "[]"])
    then show ?thesis using turned_refl[OF w(2)] by metis
  qed
next
  case (ua_work n p)
  then have "wl_act w s w s'" "released s' = released s" using w(1) by (simp_all add: wl_act_frame[where ts = "[]"])
  then show ?thesis using turned_refl[OF w(2)] by metis
qed

section \<open>What the loop calls\<close>

text \<open>The wheel and its timer, as the loop's thread sees them between the rounds.\<close>

definition wl_inv :: "nat \<Rightarrow> wheel \<Rightarrow> 'u wloop \<Rightarrow> bool" where
  "wl_inv cur w s \<longleftrightarrow> threadId s = cur \<and> wheelOf s = Some w \<and> wheel_wf w \<and> 0 < ticksInterval w \<and> timersCreated s < 2 ^ 64 \<and>
     wheelTimer w \<le> timersCreated s \<and> wheelTimer w \<in> timerIds s \<and> (\<forall>t \<in> set (timers s). wheel_timer w t \<or> user_timer w t) \<and>
     (\<forall>t \<in> set (customEvents s). task_ok w t)"

definition armed :: "wheel \<Rightarrow> int \<Rightarrow> 'u wloop \<Rightarrow> bool" where
  "armed w e s \<longleftrightarrow> (\<exists>t \<in> set (timers s). wheel_timer w t \<and> expiration t = e)"

lemma wl_inv_act:
  assumes "wl_inv cur w s" and "wl_act w s w' s'" and "turned n w out w' out'" and "timersCreated s' < 2 ^ 64"
  shows "wl_inv cur w' s'"
proof -
  have "0 < ticksInterval w'" "wheel_wf w'" using assms(1,3) turned_frame[OF assms(3)] by (simp_all add: wl_inv_def turned_def)
  then show ?thesis
    using assms(1,2,4) by (auto simp: wl_inv_def wl_act_def turned_frame[OF assms(3)])
qed

lemma armed_act:
  assumes "armed w e s" and "wl_act w s w' s'" and "turned n w out w' out'"
  shows "armed w' e s'"
  using assms(1,2) by (auto simp: armed_def wl_act_def turned_frame[OF assms(3)])

lemma user_act_mono:
  assumes "user_act bd cur s s'" and "threadId s = cur"
  shows "threadId s' = cur \<and> timersCreated s \<le> timersCreated s'"
  using api_here[OF user_act_api[OF assms(1)] assms(2)] by blast

lemma user_acts_ok:
  assumes a: "(user_act bd cur)\<^sup>*\<^sup>* s s'" and w: "wl_inv cur w s" and n: "timersCreated s' < 2 ^ 64"
  shows "\<exists>w'. turned 0 w (released s) w' (released s') \<and> wl_act w s w' s'"
  using a n
proof (induction rule: rtranclp_induct)
  case base
  have "wl_act w s w s" using w by (intro wl_act_frame[where ts = "[]"]) (simp_all add: wl_inv_def)
  then show ?case using w turned_refl wl_inv_def by metis
next
  case (step s1 s2)
  have "threadId s1 = cur" using api_here[OF user_acts_api[OF step.hyps(1)]] w by (simp add: wl_inv_def)
  then have lt: "timersCreated s1 < 2 ^ 64" using user_act_mono[OF step.hyps(2)] step.prems by simp
  obtain w1 where w1: "turned 0 w (released s) w1 (released s1)" "wl_act w s w1 s1" using step.IH[OF lt] by blast
  have i: "wl_inv cur w1 s1" by (rule wl_inv_act[OF w w1(2,1) lt])
  then obtain w2 where w2: "turned 0 w1 (released s1) w2 (released s2)" "wl_act w1 s1 w2 s2"
    using user_act_ok[OF step.hyps(2), of w1] step.prems by (auto simp: wl_inv_def)
  then show ?case using turned_trans[OF w1(1) w2(1)] wl_act_trans[OF w1(2,1) w2(2)] by auto
qed

lemma onTick_ok:
  assumes "wl_inv cur w s" and "young w"
  shows "\<exists>w' out. onTick s = Inr (s\<lparr>wheelOf := Some w', released := released s @ out\<rparr>) \<and>
    turned 1 w (released s) w' (released s @ out)"
proof -
  have w: "wheelOf s = Some w" "wheel_wf w" "tickCounter w + 1 < 2 ^ 64" using assms by (simp_all add: wl_inv_def young_def)
  obtain out w' where t: "tick w = Inr (out, w')" "wheel_wf w'" "same_frame (w\<lparr>tickCounter := tickCounter w + 1\<rparr>) w'"
      "set out = {u. (u, tickCounter w + 1) \<in> sched w}" "sched w' = {(u, d) \<in> sched w. d \<noteq> tickCounter w + 1}"
    using tick_ok[OF w(2,3)] by blast
  have "d = tickCounter w + 1 \<or> tickCounter w + 1 < d" if "(u, d) \<in> sched w" for u d
    using sched_later[OF w(2) that] by linarith
  then have "turned 1 w (released s) w' (released s @ out)"
    using t(2-5) by (fastforce simp: turned_def same_frame_def)
  then show ?thesis using w(1) t(1) by (auto simp: onTick_def with_wheel_def)
qed

context wheel_user
begin

lemma func_ok:
  assumes i: "wl_inv cur w s" and f: "wheel_func cur other f s = Inr s'" and n: "timersCreated s' < 2 ^ 64"
    and y: "f = WheelTick \<or> task_ok w (Func f)" and g: "(\<forall>u. f \<noteq> WheelUser u) \<longrightarrow> young w"
  shows "\<exists>w'. turned (if f = WheelTick then 1 else 0) w (released s) w' (released s') \<and> wl_act w s w' s'"
proof (cases f)
  case WheelTick
  obtain w' out where t: "s' = s\<lparr>wheelOf := Some w', released := released s @ out\<rparr>"
      "turned 1 w (released s) w' (released s @ out)"
    using onTick_ok[OF i] g f WheelTick by auto
  then have "wl_act w s w' s'" by (simp add: wl_act_frame[where ts = "[]"])
  then show ?thesis using t WheelTick by auto
next
  case (WheelInsert delay e)
  then obtain u where u: "e = User u" "fits w delay" using y by auto
  have w: "wheelOf s = Some w" "wheel_wf w" "0 < ticksInterval w" "threadId s = cur" using i by (simp_all add: wl_inv_def)
  obtain w' where t: "s' = s\<lparr>wheelOf := Some w'\<rparr>" "wheel_wf w'" "same_frame w w'"
      "sched w' = insert (u, tickCounter w + nat (delay div ticksInterval w) + 1) (sched w)"
    using insertHere_ok[OF w(1-3) _ u(2) w(4), of u] f g WheelInsert u(1) by auto
  have "wl_act w s w' s'" using t(1) by (simp add: wl_act_frame[where ts = "[]"])
  moreover have "turned 0 w (released s) w' (released s')"
    using turned_grow[OF w(2) t(2,3)] t(1,4) by auto
  ultimately show ?thesis using WheelInsert by auto
next
  case (WheelUser u)
  then have "(user_act bd cur)\<^sup>*\<^sup>* s s'" using other_acts[of s u s'] f i by (simp add: wl_inv_def)
  then show ?thesis using user_acts_ok[OF _ i n] WheelUser by simp
qed

text \<open>A round of the timers: one tick when the wheel's timer has expired, otherwise none.\<close>

lemma runExpired_wheel:
  assumes "wl_inv cur w s" and "runExpired (\<lambda>t. wheel_func cur other (callback t)) ex s = Inr (fired, s')"
    and "timersCreated s' < 2 ^ 64" and "\<forall>t \<in> set ex. wheel_timer w t \<or> user_timer w t" and "distinct (map t_id ex)" and "young w"
  shows "\<exists>w'. turned (if wheelTimer w \<in> ids ex then 1 else 0) w (released s) w' (released s') \<and> wl_act w s w' s'"
proof -
  have "\<exists>w'. turned (if wheelTimer w \<in> ids ex then 1 else 0) w (released s) w' (released s') \<and> wl_act w s w' s'"
    if "wl_inv cur w s" "runExpired (\<lambda>t. wheel_func cur other (callback t)) ex s = Inr (fired, s')"
      "\<forall>t \<in> set ex. wheel_timer w t \<or> user_timer w t" "distinct (map t_id ex)" "wheelTimer w \<in> ids ex \<longrightarrow> young w"
    for ex s w fired
    using that
  proof (induction ex arbitrary: s w fired)
    case Nil
    have "wl_act w s w s" using Nil.prems(1) by (intro wl_act_frame[where ts = "[]"]) (simp_all add: wl_inv_def)
    then show ?case using Nil.prems(1,2) turned_refl by (fastforce simp: wl_inv_def)
  next
    case (Cons t ex)
    have t: "wheel_timer w t \<or> user_timer w t" "t_id t \<notin> ids ex" using Cons.prems(3,4) by auto
    show ?case
    proof (cases "t_id t \<in> timerIds s")
      case True
      then obtain s1 r where r: "wheel_func cur other (callback t) s = Inr s1"
          "runExpired (\<lambda>t. wheel_func cur other (callback t)) ex s1 = Inr (r, s')"
        using Cons.prems(2) by (auto simp: res_simps)
      have "threadId s1 = cur" using wl.call_here[OF _ r(1)] Cons.prems(1) by (simp add: wl_inv_def)
      then have lt: "timersCreated s1 < 2 ^ 64" using wl.runExpired_here[OF _ r(2)] assms(3) by simp
      have f: "callback t = (if t_id t = wheelTimer w then WheelTick else callback t)" "callback t = WheelTick \<longleftrightarrow> t_id t = wheelTimer w"
          "callback t = WheelTick \<or> (\<exists>u. callback t = WheelUser u)"
        using t(1) by (auto simp: wheel_timer_def user_timer_def)
      obtain w1 where w1: "turned (if t_id t = wheelTimer w then 1 else 0) w (released s) w1 (released s1)" "wl_act w s w1 s1"
        using func_ok[OF Cons.prems(1) r(1) lt] f(2,3) Cons.prems(5) by auto
      have y: "young w1" if "wheelTimer w1 \<in> ids ex"
      proof -
        have "t_id t \<noteq> wheelTimer w" using that t(2) turned_frame(1)[OF w1(1)] by auto
        then show ?thesis using w1(1) that Cons.prems(5) turned_frame(1)[OF w1(1)] by (auto simp: turned_def same_frame_def young_def)
      qed
      have "\<forall>t \<in> set ex. wheel_timer w1 t \<or> user_timer w1 t" using Cons.prems(3) by (simp add: turned_frame[OF w1(1)])
      then obtain w2 where w2: "turned (if wheelTimer w1 \<in> ids ex then 1 else 0) w1 (released s1) w2 (released s')" "wl_act w1 s1 w2 s'"
        using Cons.IH[OF wl_inv_act[OF Cons.prems(1) w1(2,1) lt] r(2)] Cons.prems(4) y by auto
      have "turned (if wheelTimer w \<in> ids (t # ex) then 1 else 0) w (released s) w2 (released s')"
        using turned_trans[OF w1(1) w2(1)] turned_frame(1)[OF w1(1)] t(2) by (auto split: if_splits)
      then show ?thesis using wl_act_trans[OF w1(2,1) w2(2)] by blast
    next
      case False
      then have "t_id t \<noteq> wheelTimer w" using Cons.prems(1) by (auto simp: wl_inv_def)
      then show ?thesis using Cons.IH[OF Cons.prems(1) _ _ _] Cons.prems False by simp
    qed
  qed
  then show ?thesis using assms by blast
qed

lemma round_ok:
  assumes i: "wl_inv cur w s" "armed w e s" "timers_inv s" and y: "young w"
    and r: "timersPhase (wheel_func cur other) cur s = Inr (fired, s')" and n: "timersCreated s' < 2 ^ 64"
  shows "\<exists>w' n e'. turned n w (released s) w' (released s') \<and> wl_inv cur w' s' \<and> armed w' e' s' \<and> clock s \<le> clock s' \<and>
    (if clock s < e then n = 0 \<and> e' = e else n = 1 \<and> e' = clock s + ticksInterval w)"
proof -
  have t: "threadId s = cur" "timersCreated s < 2 ^ 64" using i(1) by (simp_all add: wl_inv_def)
  then have q: "tq_inv s" using i(3) by (simp add: timers_inv_def)
  obtain ex s1 where ex: "getExpiredTimers (clock s) s = (ex, s1)" by fastforce
  then obtain s2 where s2: "runExpired (\<lambda>t. wheel_func cur other (callback t)) ex s1 = Inr (fired, s2)"
      "s' = resetExpiredTimers ex (clock s) s2"
    using r t(1) by (auto simp: timersPhase_def handlerTimer_def isInLoopThread_def res_simps)
  obtain ts where s1: "s1 = s\<lparr>timers := ts\<rparr>" using ex by (auto simp: getExpiredTimers_def split: prod.splits)
  note mid = getExpired_mid[OF q ex]
  have d: "distinct (map t_id ex)" "distinct (map t_id (ex @ timers s1))" using mid(1) by (simp_all add: tq_mid_def)
  obtain us js where s': "s' = s2\<lparr>timers := us, timerIds := js\<rparr>" using reset_frame[of ex "clock s" s2] s2(2) by blast
  have us: "set us = set (timers s2) \<union> resetExpiration (clock s) ` {t \<in> set ex. t_id t \<in> timerIds s2 \<and> isRepeat t}"
    using arg_cong[OF reset_timers[OF d(1), of "clock s" s2], of set_mset] s' s2(2) by simp
  have js: "js = timerIds s2 - {t_id t |t. t \<in> set ex \<and> \<not> isRepeat t}"
    using reset_timerIds[of ex "clock s" s2] s' s2(2) by simp
  have old: "\<forall>t \<in> set (timers s). wheel_timer w t \<or> user_timer w t" using i(1) by (simp add: wl_inv_def)
  have i1: "wl_inv cur w s1" using i(1) mid(4) by (auto simp: wl_inv_def s1)
  obtain w' where w': "turned (if wheelTimer w \<in> ids ex then 1 else 0) w (released s1) w' (released s2)" "wl_act w s1 w' s2"
    using runExpired_wheel[OF i1 s2(1) _ _ d(1) y] n s' old mid(3) by auto
  note f = turned_frame[OF w'(1)]
  have i2: "wl_inv cur w' s2" using wl_inv_act[OF i1 w'(2,1)] n s' by simp
  have p: "0 < ticksInterval w" using i(1) by (simp add: wl_inv_def)
  then have rep: "isRepeat t" if "wheel_timer w t" for t :: "'u wfunc timer" using that by (simp add: wheel_timer_def isRepeat_def)
  have kind: "wheel_timer w t \<or> user_timer w t" if "t \<in> set ex" for t using old mid(3) that by simp
  have reset: "wheel_timer w (resetExpiration c t) = wheel_timer w t" "user_timer w (resetExpiration c t) = user_timer w t"
    for c and t :: "'u wfunc timer" by (simp_all add: wheel_timer_def user_timer_def resetExpiration_def)
  have "\<forall>t \<in> set us. wheel_timer w' t \<or> user_timer w' t" using i2 unfolding us by (auto simp: wl_inv_def f reset dest: kind)
  moreover have "wheelTimer w' \<in> js"
  proof -
    have "isRepeat t" if "t \<in> set ex" "t_id t = wheelTimer w" for t
      using kind[OF that(1)] rep that(2) by (auto simp: user_timer_def)
    then show ?thesis using i2 f(1) unfolding js by (auto simp: wl_inv_def)
  qed
  ultimately have i': "wl_inv cur w' s'" using i2 by (simp add: wl_inv_def s')
  obtain t where t0: "t \<in> set (timers s)" "wheel_timer w t" "expiration t = e" using i(2) by (auto simp: armed_def)
  have c: "clock s \<le> clock s'" using w'(2) by (simp add: wl_act_def s1 s')
  show ?thesis
  proof (cases "e \<le> clock s")
    case True
    then have "t \<in> set ex" using t0 mid(3) by simp
    moreover have "t_id t \<in> timerIds s2" "isRepeat t" using i2 t0(2) f(1) rep by (simp_all add: wl_inv_def wheel_timer_def)
    ultimately have "resetExpiration (clock s) t \<in> set us" "wheelTimer w \<in> ids ex"
      using us t0(2) by (auto simp: wheel_timer_def intro: rev_image_eqI)
    moreover from this(1) have "armed w' (clock s + ticksInterval w) s'"
      using t0(2) unfolding armed_def by (intro bexI[of _ "resetExpiration (clock s) t"]) (simp_all add: f reset s', simp add: resetExpiration_def wheel_timer_def)
    ultimately show ?thesis using w'(1) i' c True s1 s' by (intro exI[of _ w'] exI[of _ "1::nat"]) auto
  next
    case False
    then have "t \<in> set (timers s1)" using t0 mid(4) by simp
    then have "wheelTimer w \<notin> ids ex" using d(2) t0(2) by (force simp: wheel_timer_def)
    moreover have "armed w' e s'"
      using \<open>t \<in> set (timers s1)\<close> w'(2) t0(2,3) us unfolding armed_def by (intro bexI[of _ t]) (auto simp: f s' wl_act_def)
    ultimately show ?thesis using w'(1) i' c s1 s' False by (intro exI[of _ w'] exI[of _ "0::nat"]) auto
  qed
qed

end

section \<open>The system\<close>

text \<open>
  The wheel is made on the loop's thread; the loop may have been used before.  Then it makes rounds, runs its
  tasks, and the user acts in handlers and on other threads.  Insertions are run while the counter of the ticks is
  far from its end, and the counter of the timers' ids has not wrapped.
\<close>

definition plain :: "nat \<Rightarrow> 'u wloop \<Rightarrow> bool" where
  "plain cur s \<longleftrightarrow> threadId s = cur \<and> timers_inv s \<and> timersCreated s + 1 < 2 ^ 64 \<and>
     (\<forall>t \<in> set (timers s). \<exists>u. callback t = WheelUser u) \<and>
     (\<forall>t \<in> set (customEvents s). case t of Func f \<Rightarrow> \<exists>u. f = WheelUser u
        | AddTimerTask t \<Rightarrow> \<exists>u. callback t = WheelUser u | DelTimerTask i \<Rightarrow> i \<le> timersCreated s)"

definition wh_init :: "build \<Rightarrow> nat \<Rightarrow> 'u wloop \<Rightarrow> bool" where
  "wh_init bd cur s \<longleftrightarrow> (\<exists>s0 maxTimeout ti n. plain cur s0 \<and> 0 < ti \<and> ti < maxTimeout \<and> 1 < n \<and>
     nat (maxTimeout div ti) * n \<le> 2 ^ 64 \<and> makeWheel bd cur maxTimeout ti n s0 = Inr (Some s))"

definition calm :: "'u wloop \<Rightarrow> bool" where
  "calm s \<longleftrightarrow> (\<forall>w. wheelOf s = Some w \<longrightarrow> young w)"

inductive wh_step :: "('u \<Rightarrow> 'u wloop \<Rightarrow> 'u wloop res) \<Rightarrow> build \<Rightarrow> nat \<Rightarrow> 'u wloop \<Rightarrow> 'u wloop \<Rightarrow> bool" for other bd cur where
  wh_round: "calm s \<Longrightarrow> timersPhase (wheel_func cur other) cur s = Inr (fired, s') \<Longrightarrow> timersCreated s' < 2 ^ 64 \<Longrightarrow>
    wh_step other bd cur s s'"
| wh_task: "calm s \<Longrightarrow> customEvents s = t # ts \<Longrightarrow>
    runTask (wheel_func cur other) bd cur t (s\<lparr>customEvents := ts\<rparr>) = Inr s' \<Longrightarrow> timersCreated s' < 2 ^ 64 \<Longrightarrow>
    wh_step other bd cur s s'"
| wh_act: "user_act bd c s s' \<Longrightarrow> timersCreated s' < 2 ^ 64 \<Longrightarrow> wh_step other bd cur s s'"

text \<open>The timers stay consistent.\<close>

lemma timers_inv_queue:
  assumes "timers_inv s" and "queueTask bd c t s = Inr s'" and "\<forall>t'. t \<noteq> AddTimerTask t'"
  shows "timers_inv s'"
  using assms(2)
proof (cases rule: queueTask_cases)
  case (1 n)
  show ?thesis
    by (rule timers_inv_frame[OF timers_inv_push[OF assms(1,3)]]) (simp_all add: 1(1) pushTask_def queued_ids_def)
qed

lemma user_act_timers:
  assumes "timers_inv s" and a: "user_act bd c s s'"
  shows "timers_inv s'"
proof (cases "threadId s = c")
  case True
  then show ?thesis using timers_inv_progress[OF assms(1)] api_progress user_act_api[OF a] by blast
next
  case False
  then have il: "isInLoopThread c s = False" by (simp add: isInLoopThread_def)
  show ?thesis
    using a
  proof cases
    case (ua_insert w delay u)
    then show ?thesis using il timers_inv_queue[OF assms(1)] by (simp add: insertEntry_def queueInLoop_def)
  next
    case (ua_queue u)
    then show ?thesis using timers_inv_queue[OF assms(1)] by (simp add: queueInLoop_def)
  next
    case (ua_add e i u k)
    obtain t s1 where t: "newTimer e i (WheelUser u) s = (t, s1)" by fastforce
    then have q: "queueTask bd c (AddTimerTask t) s1 = Inr s'"
      using ua_add il by (auto simp: addTimer_def isInLoopThread_def newTimer_def res_simps)
    then show ?thesis
    proof (cases rule: queueTask_cases)
      case (1 n)
      show ?thesis
        by (rule timers_inv_frame[OF timers_inv_push_new[OF assms(1) t]]) (simp_all add: 1(1) pushTask_def queued_ids_def)
    qed
  next
    case (ua_del i)
    then show ?thesis using il timers_inv_queue[OF assms(1)] by (simp add: cancelTimer_def delTimer_def)
  next
    case ua_stop
    then show ?thesis
      by (cases rule: stop_cases) (auto intro: timers_inv_frame[OF assms(1)] simp: queued_ids_def)
  next
    case (ua_work n p)
    then show ?thesis by (auto intro: timers_inv_frame[OF assms(1)] simp: queued_ids_def)
  qed
qed

lemma plain_made:
  assumes p: "plain cur s0" and a: "0 < ti" "ti < maxTimeout" "1 < n" "nat (maxTimeout div ti) * n \<le> 2 ^ 64"
  shows "\<exists>s w. makeWheel bd cur maxTimeout ti n s0 = Inr (Some s) \<and> wl_inv cur w s \<and> armed w (clock s0 + ti) s \<and> timers_inv s \<and>
    sched w = {} \<and> ticksInterval w = ti \<and> nat (maxTimeout div ti) \<le> bucketNum w ^ length (wheels w)"
proof -
  obtain w where w: "TimerWheel bd maxTimeout ti n 0 = Inr (Some w)" "wheel_wf w" "sched w = {}" "ticksInterval w = ti"
      "nat (maxTimeout div ti) \<le> bucketNum w ^ length (wheels w)"
    using TimerWheel_ok[OF a, of bd 0] by blast
  let ?t = "Timer (timersCreated s0) (clock s0 + ti) ti (WheelTick :: 'a wfunc)" and ?w = "w\<lparr>wheelTimer := timersCreated s0 + 1\<rparr>"
  let ?s1 = "s0\<lparr>timersCreated := timersCreated s0 + 1, timerIds := insert (t_id ?t) (timerIds s0), timers := pq_push ?t (timers s0)\<rparr>"
  let ?s = "?s1\<lparr>wheelOf := Some ?w\<rparr>"
  have t: "threadId s0 = cur" "timersCreated s0 + 1 < 2 ^ 64" "timers_inv s0" using p by (simp_all add: plain_def)
  have i: "t_id ?t = timersCreated s0 + 1" by (rule t_id_Timer[OF t(2)])
  have add: "addTimer bd cur (clock s0 + ti) ti WheelTick s0 = Inr (t_id ?t, ?s1)" using addTimer_here[OF t(1)] .
  have m: "makeWheel bd cur maxTimeout ti n s0 = Inr (Some ?s)"
    using w(1) add i by (simp add: makeWheel_def runTimerEvery_def runTimer_def)
  have "timers_inv ?s1" using timers_inv_progress[OF t(3)] api_progress[OF t(1) api_add[OF add]] by blast
  then have ti: "timers_inv ?s" by (rule timers_inv_frame) (simp_all add: queued_ids_def)
  have old: "ids_below s0" "\<forall>i \<in> set (queued_ids s0). i \<le> timersCreated s0" using t(2,3) by (auto simp: timers_inv_def)
  have wt: "wheel_timer ?w ?t" using i w(4) by (simp add: wheel_timer_def) (simp add: Timer_def)
  have ut: "user_timer ?w x" if "x \<in> set (timers s0)" for x
    using that p old(1) by (fastforce simp: plain_def user_timer_def ids_below_def)
  have tk: "task_ok ?w x" if x: "x \<in> set (customEvents s0)" for x
  proof (cases x)
    case (AddTimerTask t)
    then have "t_id t \<in> set (queued_ids s0)" using x by (force simp: queued_ids_def)
    then show ?thesis using p x AddTimerTask old(2) by (fastforce simp: plain_def user_timer_def)
  qed (use p x in \<open>fastforce simp: plain_def\<close>)+
  have "wl_inv cur ?w ?s" using t i w(2,4) a(1) wt ut tk by (auto simp: wl_inv_def wheel_wf_def)
  moreover have "armed ?w (clock s0 + ti) ?s"
    unfolding armed_def by (rule bexI[of _ ?t]) (use wt in simp_all, simp add: Timer_def)
  moreover have "sched ?w = {}" using w(3) by (simp add: sched_def)
  ultimately show ?thesis using m ti w(4,5) by (intro exI[of _ ?s] exI[of _ ?w]) simp
qed

section \<open>Every step\<close>

definition wl_sys :: "nat \<Rightarrow> wheel \<Rightarrow> int \<Rightarrow> 'u wloop \<Rightarrow> bool" where
  "wl_sys cur w e s \<longleftrightarrow> wl_inv cur w s \<and> armed w e s \<and> timers_inv s"

text \<open>\<open>n\<close> ticks of the wheel on a timer that expires first at \<open>e\<close>, in terms of the clock.\<close>

definition paced :: "nat \<Rightarrow> wheel \<Rightarrow> int \<Rightarrow> int \<Rightarrow> int \<Rightarrow> int \<Rightarrow> bool" where
  "paced n w e c e' c' \<longleftrightarrow> c \<le> c' \<and>
     (if n = 0 then e' = e else c + int (n - 1) * ticksInterval w \<le> c' \<and> c + int n * ticksInterval w \<le> e')"

context wheel_user
begin

lemma task_step:
  assumes i: "wl_inv cur w s" and y: "young w" and q: "customEvents s = t # ts"
    and r: "runTask (wheel_func cur other) bd cur t (s\<lparr>customEvents := ts\<rparr>) = Inr s'" and n: "timersCreated s' < 2 ^ 64"
  shows "\<exists>w'. turned 0 w (released s) w' (released s') \<and> wl_act w (s\<lparr>customEvents := ts\<rparr>) w' s'"
proof -
  let ?s = "s\<lparr>customEvents := ts\<rparr>"
  have i0: "wl_inv cur w ?s" and ok: "task_ok w t" using i q by (simp_all add: wl_inv_def)
  have il: "isInLoopThread cur ?s" and w: "wheelOf s = Some w" "wheel_wf w" using i by (simp_all add: wl_inv_def isInLoopThread_def)
  show ?thesis
  proof (cases t)
    case (Func f)
    then have "f \<noteq> WheelTick" using ok by auto
    then show ?thesis using func_ok[OF i0 _ n, of f] r y ok Func by simp
  next
    case (AddTimerTask u)
    then have s': "s' = ?s\<lparr>timerIds := insert (t_id u) (timerIds s), timers := pq_push u (timers s)\<rparr>"
      using r il by (simp add: addTimerInLoop_simp)
    have "wl_act w ?s w s'" using ok w(1) AddTimerTask unfolding s' by (auto simp: wl_act_def)
    then show ?thesis using turned_refl[OF w(2)] s' by auto
  next
    case (DelTimerTask i)
    then have s': "s' = ?s\<lparr>timerIds := timerIds s - {i}\<rparr>" using r il by (simp add: delTimerInLoop_Inr)
    have "wl_act w ?s w s'" using ok w(1) DelTimerTask unfolding s' by (auto simp: wl_act_def)
    then show ?thesis using turned_refl[OF w(2)] s' by auto
  qed
qed

lemma step_ok:
  assumes i: "wl_sys cur w e s" and st: "wh_step other bd cur s s'"
  shows "\<exists>w' n e'. turned n w (released s) w' (released s') \<and> wl_sys cur w' e' s' \<and> clock s \<le> clock s' \<and>
    (if n = 0 then e' = e else n = 1 \<and> e \<le> clock s \<and> e' = clock s + ticksInterval w)"
  using st
proof cases
  case (wh_round fired)
  have y: "young w" using wh_round(1) i by (simp add: calm_def wl_sys_def wl_inv_def)
  obtain w' n e' where r: "turned n w (released s) w' (released s')" "wl_inv cur w' s'" "armed w' e' s'" "clock s \<le> clock s'"
      "if clock s < e then n = 0 \<and> e' = e else n = 1 \<and> e' = clock s + ticksInterval w"
    using round_ok[OF _ _ _ y wh_round(2,3)] i unfolding wl_sys_def by blast
  have t: "threadId s = cur" using i by (simp add: wl_sys_def wl_inv_def)
  have "timers_inv s'"
  proof (rule timers_inv_new)
    show "timers_inv s" using i by (simp add: wl_sys_def)
  qed (use wl.timersPhase_here[OF t wh_round(2)] queued_ids_append in blast)+
  moreover have "if n = 0 then e' = e else n = 1 \<and> e \<le> clock s \<and> e' = clock s + ticksInterval w"
    using r(5) by (auto split: if_splits)
  ultimately show ?thesis using r(1-4) unfolding wl_sys_def by blast
next
  case (wh_task t ts)
  have y: "young w" using wh_task(1) i by (simp add: calm_def wl_sys_def wl_inv_def)
  have w: "wl_inv cur w s" "armed w e s" "timers_inv s" using i by (simp_all add: wl_sys_def)
  let ?s = "s\<lparr>customEvents := ts\<rparr>"
  have i0: "wl_inv cur w ?s" "armed w e ?s" using w wh_task(2) by (simp_all add: wl_inv_def armed_def)
  obtain w' where r: "turned 0 w (released s) w' (released s')" "wl_act w ?s w' s'"
    using task_step[OF w(1) y wh_task(2,3,4)] by blast
  have "timers_inv s'" using wl.timers_inv_task[OF w(3) _ wh_task(2,3)] w(1) by (simp add: wl_inv_def)
  moreover have "clock s \<le> clock s'" using r(2) by (simp add: wl_act_def)
  ultimately show ?thesis
    using r(1) wl_inv_act[OF i0(1) r(2,1) wh_task(4)] armed_act[OF i0(2) r(2,1)] unfolding wl_sys_def by (metis (full_types))
next
  case (wh_act c)
  have w: "wl_inv cur w s" "armed w e s" "timers_inv s" using i by (simp_all add: wl_sys_def)
  obtain w' where r: "turned 0 w (released s) w' (released s')" "wl_act w s w' s'"
    using user_act_ok[OF wh_act(1) _ _ _ _ wh_act(2)] w(1) unfolding wl_inv_def by blast
  moreover have "clock s \<le> clock s'" using r(2) by (simp add: wl_act_def)
  ultimately show ?thesis
    using user_act_timers[OF w(3) wh_act(1)] wl_inv_act[OF w(1) r(2,1) wh_act(2)] armed_act[OF w(2) r(2,1)]
    unfolding wl_sys_def by (metis (full_types))
qed

lemma steps_ok:
  assumes i: "wl_sys cur w e s" and st: "(wh_step other bd cur)\<^sup>*\<^sup>* s s'"
  shows "\<exists>w' n e'. turned n w (released s) w' (released s') \<and> wl_sys cur w' e' s' \<and> paced n w e (clock s) e' (clock s')"
  using st
proof (induction rule: rtranclp_induct)
  case base
  then show ?case using i turned_refl by (intro exI[of _ w] exI[of _ "0::nat"] exI[of _ e]) (simp add: paced_def wl_sys_def wl_inv_def)
next
  case (step s1 s2)
  then obtain w1 n e1 where r1: "turned n w (released s) w1 (released s1)" "wl_sys cur w1 e1 s1" "paced n w e (clock s) e1 (clock s1)"
    by blast
  obtain w2 m e2 where r2: "turned m w1 (released s1) w2 (released s2)" "wl_sys cur w2 e2 s2" "clock s1 \<le> clock s2"
      "if m = 0 then e2 = e1 else m = 1 \<and> e1 \<le> clock s1 \<and> e2 = clock s1 + ticksInterval w1"
    using step_ok[OF r1(2) step.hyps(2)] by blast
  have p: "0 < ticksInterval w" using i by (simp add: wl_sys_def wl_inv_def)
  have "paced (n + m) w e (clock s) e2 (clock s2)"
    using r1(3) r2(3,4) p unfolding paced_def turned_frame(2)[OF r1(1)] by (cases n) (auto simp: algebra_simps split: if_splits)
  then show ?case using turned_trans[OF r1(1) r2(1)] r2(2) by blast
qed

lemma reach_ok: "reach (wh_init bd cur) (wh_step other bd cur) s \<Longrightarrow> \<exists>w e. wl_sys cur w e s"
proof (induction rule: reach.induct)
  case (reach_init s)
  then obtain s0 mt ti n where p: "plain cur s0" "0 < ti" "ti < mt" "1 < n" "nat (mt div ti) * n \<le> 2 ^ 64"
      "makeWheel bd cur mt ti n s0 = Inr (Some s)" unfolding wh_init_def by blast
  then show ?case using plain_made[OF p(1-5), of bd] unfolding wl_sys_def by auto
next
  case (reach_step s s')
  then show ?case using step_ok by blast
qed

end

section \<open>Scripts of calls as the functions of the user\<close>

datatype wcmd = WInsert int nat | WQueue "wcmd list" | WTimer int int "wcmd list" | WStop | WWork nat

fun exec_wheel :: "build \<Rightarrow> nat \<Rightarrow> wcmd list \<Rightarrow> wcmd list wloop \<Rightarrow> wcmd list wloop res" where
  "exec_wheel bd cur [] s = Inr s"
| "exec_wheel bd cur (WInsert delay u # cs) s = res_bind
     (case wheelOf s of None \<Rightarrow> Inr s
      | Some w \<Rightarrow> if fits w delay \<and> young w then insertEntry bd cur delay (User u) s else Inr s) (exec_wheel bd cur cs)"
| "exec_wheel bd cur (WQueue f # cs) s = res_bind (queueInLoop bd cur (WheelUser f) s) (exec_wheel bd cur cs)"
| "exec_wheel bd cur (WTimer delay i f # cs) s =
     res_bind (runTimer bd cur delay i (WheelUser f) s) (\<lambda>(k, s1). exec_wheel bd cur cs s1)"
| "exec_wheel bd cur (WStop # cs) s = res_bind (stop bd cur s) (exec_wheel bd cur cs)"
| "exec_wheel bd cur (WWork n # cs) s = exec_wheel bd cur cs (s\<lparr>clock := clock s + int n\<rparr>)"

lemma exec_wheel_acts:
  "exec_wheel bd cur cs s = Inr s' \<Longrightarrow> (user_act bd cur)\<^sup>*\<^sup>* s s'"
proof (induction bd cur cs s arbitrary: s' rule: exec_wheel.induct)
  case (1 bd cur s)
  then show ?case by simp
next
  case (2 bd cur delay u cs s)
  then obtain s1 where s1: "(case wheelOf s of None \<Rightarrow> Inr s
      | Some w \<Rightarrow> if fits w delay \<and> young w then insertEntry bd cur delay (User u) s else Inr s) = Inr s1"
      "exec_wheel bd cur cs s1 = Inr s'" by (auto simp: res_bind_Inr_iff)
  then have "s1 = s \<or> user_act bd cur s s1" by (auto intro: ua_insert split: option.splits if_splits)
  then show ?case using 2(1)[OF s1(2)] by (auto intro: converse_rtranclp_into_rtranclp)
next
  case (3 bd cur f cs s)
  then obtain s1 where "queueInLoop bd cur (WheelUser f) s = Inr s1" "exec_wheel bd cur cs s1 = Inr s'"
    by (auto simp: res_bind_Inr_iff)
  then show ?case using 3(1) by (auto intro: converse_rtranclp_into_rtranclp ua_queue)
next
  case (4 bd cur delay i f cs s)
  then obtain k s1 where "addTimer bd cur (clock s + delay) i (WheelUser f) s = Inr (k, s1)" "exec_wheel bd cur cs s1 = Inr s'"
    by (auto simp: res_bind_Inr_iff runTimer_def)
  then show ?case using 4(1) by (auto intro: converse_rtranclp_into_rtranclp ua_add)
next
  case (5 bd cur cs s)
  then obtain s1 where "stop bd cur s = Inr s1" "exec_wheel bd cur cs s1 = Inr s'" by (auto simp: res_bind_Inr_iff)
  then show ?case using 5(1) by (auto intro: converse_rtranclp_into_rtranclp ua_stop)
next
  case (6 bd cur n cs s)
  have "user_act bd cur s (s\<lparr>clock := clock s + int n\<rparr>)" by (rule ua_work[where p = "poller s"]) simp
  then show ?case using 6 by (auto intro: converse_rtranclp_into_rtranclp)
qed

interpretation wsc: wheel_user "exec_wheel bd cur" bd cur for bd cur
  by unfold_locales (rule exec_wheel_acts)

section \<open>Properties\<close>

text \<open>
  C27. An object inserted on the loop's thread with a delay of \<open>k\<close> whole ticks that fits is scheduled, and whatever
  rounds, tasks and uses of the loop by the user follow, on any thread, it stays scheduled until \<open>k + 1\<close> ticks have been made;
  then it has been released, and at least \<open>k\<close> intervals have passed since the insertion.
\<close>

theorem wheel_holds:
  assumes "wheel_user other bd cur" and "reach (wh_init bd cur) (wh_step other bd cur) s" and "wheelOf s = Some w"
    and "young w" and "fits w delay" and "k = nat (delay div ticksInterval w)"
  shows "\<exists>s1. insertHere cur delay (User u) s = Inr s1 \<and> (\<forall>s2. (wh_step other bd cur)\<^sup>*\<^sup>* s1 s2 \<longrightarrow> (\<exists>w2. wheelOf s2 = Some w2 \<and>
    (if tickCounter w2 \<le> tickCounter w + k then (u, tickCounter w + k + 1) \<in> sched w2
     else u \<in> set (released s2) \<and> clock s + int k * ticksInterval w \<le> clock s2)))"
proof -
  obtain v e where "wl_sys cur v e s" using wheel_user.reach_ok[OF assms(1,2)] by blast
  moreover from this have "v = w" using assms(3) by (simp add: wl_sys_def wl_inv_def)
  ultimately have i: "wl_sys cur w e s" by simp
  then have w: "wheel_wf w" "0 < ticksInterval w" "threadId s = cur" by (simp_all add: wl_sys_def wl_inv_def)
  obtain w1 where w1: "insertHere cur delay (User u) s = Inr (s\<lparr>wheelOf := Some w1\<rparr>)" "wheel_wf w1" "same_frame w w1"
      "sched w1 = insert (u, tickCounter w + k + 1) (sched w)"
    using insertHere_ok[OF assms(3) w(1,2) assms(4,5) w(3)] assms(6) by blast
  let ?s1 = "s\<lparr>wheelOf := Some w1\<rparr>"
  have t: "turned 0 w (released s) w1 (released ?s1)" using turned_grow[OF w(1) w1(2,3)] w1(4) by auto
  have a: "wl_act w s w1 ?s1" by (simp add: wl_act_frame[where ts = "[]"])
  have "timers_inv ?s1" using i by (auto intro: timers_inv_frame simp: wl_sys_def queued_ids_def)
  then have i1: "wl_sys cur w1 e ?s1"
    using i wl_inv_act[OF _ a t] armed_act[OF _ a t] by (simp add: wl_sys_def wl_inv_def)
  have "\<exists>w2. wheelOf s2 = Some w2 \<and> (if tickCounter w2 \<le> tickCounter w + k then (u, tickCounter w + k + 1) \<in> sched w2
      else u \<in> set (released s2) \<and> clock s + int k * ticksInterval w \<le> clock s2)"
    if st: "(wh_step other bd cur)\<^sup>*\<^sup>* ?s1 s2" for s2
  proof -
    obtain w2 n e2 where r: "turned n w1 (released ?s1) w2 (released s2)" "wl_sys cur w2 e2 s2" "paced n w1 e (clock s) e2 (clock s2)"
      using wheel_user.steps_ok[OF assms(1) i1 st] by auto
    have f: "tickCounter w2 = tickCounter w + n" "ticksInterval w1 = ticksInterval w"
      using r(1) w1(3) by (simp_all add: turned_def same_frame_def)
    have "(u, tickCounter w + k + 1) \<in> sched w1" using w1(4) by simp
    then have "if tickCounter w2 \<le> tickCounter w + k then (u, tickCounter w + k + 1) \<in> sched w2 else u \<in> set (released s2)"
      using r(1) by (fastforce simp: turned_def)
    moreover have "clock s + int k * ticksInterval w \<le> clock s2" if "k < n"
    proof -
      have "int k * ticksInterval w \<le> int (n - 1) * ticksInterval w" using that w(2) by (intro mult_right_mono) auto
      then show ?thesis using r(3) that f(2) by (simp add: paced_def)
    qed
    ultimately show ?thesis using r(2) f(1) by (auto simp: wl_sys_def wl_inv_def)
  qed
  then show ?thesis using w1(1) by blast
qed

text \<open>The witness: three wheels of two buckets, ticks of 10 ms; after the insertion 5 ms pass.\<close>

definition empty_wloop :: "wcmd list wloop" where
  "empty_wloop = \<lparr>timers = [], timerIds = {}, timersCreated = 0, threadId = 0, running = True, customEvents = [], wakeups = 0,
     poller = \<lparr>chans = Map.empty, channels = {}, interest = Map.empty, capacity = 32, sysErrors = 0\<rparr>, clock = 0,
     wheelOf = None, released = []\<rparr>"

definition sample_wloop :: "wcmd list wloop" where
  "sample_wloop = empty_wloop\<lparr>timersCreated := 1, timerIds := {1},
     timers := [\<lparr>t_id = 1, expiration = 10, interval = 10, callback = WheelTick\<rparr>], wheelOf := Some (sample_wheel\<lparr>tickCounter := 0\<rparr>)\<rparr>"

lemma sample_wloop_made: "makeWheel Debug 0 60 10 2 empty_wloop = Inr (Some sample_wloop)"
  by (simp add: makeWheel_def TimerWheel_def countWheels.simps quot_def runTimerEvery_def runTimer_def addTimer_def newTimer_def
    isInLoopThread_def addTimerInLoop_def Timer_def GenerateTimerId_def empty_wloop_def sample_wloop_def sample_wheel_def
    numeral_3_eq_3)

lemma sample_wloop_reach: "reach (wh_init Debug 0) (wh_step other Debug 0) sample_wloop"
proof (rule reach_init)
  have "plain 0 empty_wloop"
    by (simp add: plain_def empty_wloop_def timers_inv_def tq_inv_def tq_mid_def ids_below_def queued_ids_def)
  then show "wh_init Debug 0 sample_wloop"
    unfolding wh_init_def using sample_wloop_made by (intro exI[of _ empty_wloop] exI[of _ 60] exI[of _ 10] exI[of _ "2::nat"]) simp
qed

theorem wheel_holds_witness:
  "\<exists>s1 w2. insertHere 0 25 (User 42) sample_wloop = Inr s1 \<and> wheelOf (s1\<lparr>clock := clock s1 + 5\<rparr>) = Some w2 \<and>
    (if tickCounter w2 \<le> 2 then (42, 3) \<in> sched w2 else 42 \<in> set (released s1))"
proof -
  let ?w = "sample_wheel\<lparr>tickCounter := 0\<rparr>"
  have w: "wheelOf sample_wloop = Some ?w" "young ?w" "fits ?w 25" "2 = nat (25 div ticksInterval ?w)"
    by (simp_all add: sample_wloop_def young_def fits_def sample_wheel_def)
  obtain s1 where s1: "insertHere 0 25 (User 42) sample_wloop = Inr s1"
      "\<forall>s2. (wh_step (exec_wheel Debug 0) Debug 0)\<^sup>*\<^sup>* s1 s2 \<longrightarrow> (\<exists>w2. wheelOf s2 = Some w2 \<and>
        (if tickCounter w2 \<le> tickCounter ?w + 2 then (42, tickCounter ?w + 2 + 1) \<in> sched w2
         else 42 \<in> set (released s2) \<and> clock sample_wloop + int 2 * ticksInterval ?w \<le> clock s2))"
    using wheel_holds[OF wsc.wheel_user_axioms sample_wloop_reach w, of 42] by blast
  let ?s2 = "s1\<lparr>clock := clock s1 + 5\<rparr>"
  have "timersCreated s1 = 1"
    using s1(1) by (auto simp: insertHere_def with_wheel_def sample_wloop_def res_simps split: option.splits)
  then have "wh_step (exec_wheel Debug 0) Debug 0 s1 ?s2"
    by (intro wh_act[OF ua_work[where n = 5 and p = "poller s1"]]) simp_all
  then have "\<exists>w2. wheelOf ?s2 = Some w2 \<and> (if tickCounter w2 \<le> tickCounter ?w + 2 then (42, tickCounter ?w + 2 + 1) \<in> sched w2
         else 42 \<in> set (released ?s2) \<and> clock sample_wloop + int 2 * ticksInterval ?w \<le> clock ?s2)"
    using s1(2) by blast
  then show ?thesis using s1(1) by (auto simp: numeral_3_eq_3 numeral_2_eq_2 split: if_splits)
qed

text \<open>
  C28. In every reachable state a round of the timers makes one tick if the wheel's timer has expired, and none
  otherwise; the timer expires next one interval after that round began, so that a tick that is late is not made up for.
\<close>

theorem wheel_ticks:
  assumes "wheel_user other bd cur" and "reach (wh_init bd cur) (wh_step other bd cur) s" and "wheelOf s = Some w" and "young w"
    and "timersPhase (wheel_func cur other) cur s = Inr (fired, s')" and "timersCreated s' < 2 ^ 64"
  shows "\<exists>e w' e'. armed w e s \<and> wheelOf s' = Some w' \<and> armed w' e' s' \<and>
    (if clock s < e then tickCounter w' = tickCounter w \<and> e' = e
     else tickCounter w' = tickCounter w + 1 \<and> e' = clock s + ticksInterval w \<and>
       (\<forall>u. (u, tickCounter w + 1) \<in> sched w \<longrightarrow> u \<in> set (released s')))"
proof -
  obtain v e where "wl_sys cur v e s" using wheel_user.reach_ok[OF assms(1,2)] by blast
  then have i: "wl_inv cur w s" "armed w e s" "timers_inv s" using assms(3) by (auto simp: wl_sys_def wl_inv_def)
  obtain w' n e' where r: "turned n w (released s) w' (released s')" "wl_inv cur w' s'" "armed w' e' s'"
      "if clock s < e then n = 0 \<and> e' = e else n = 1 \<and> e' = clock s + ticksInterval w"
    using wheel_user.round_ok[OF assms(1) i assms(4-6)] by blast
  have "tickCounter w' = tickCounter w + n" using r(1) by (simp add: turned_def same_frame_def)
  moreover have "u \<in> set (released s')" if "n = 1" "(u, tickCounter w + 1) \<in> sched w" for u
    using r(1) that calculation unfolding turned_def by fastforce
  ultimately show ?thesis using i(2) r(2-4)
    by (intro exI[of _ e] exI[of _ w'] exI[of _ e']) (auto simp: wl_inv_def split: if_splits)
qed

text \<open>
  C29. In every reachable state the destructor, run on the loop's thread, cancels the wheel's timer and releases every object the wheel
  still holds, and no other; it leaves the loop's queue alone, and an insertion that another thread has queued
  uses the destroyed wheel when its turn comes.
\<close>

theorem wheel_destroy:
  assumes "wheel_user other bd cur" and "reach (wh_init bd cur) (wh_step other bd cur) s" and "wheelOf s = Some w"
  shows "\<exists>s'. destroyTimerWheel bd cur s = Inr s' \<and> wheelOf s' = None \<and> set (released s') = set (released s) \<union> fst ` sched w \<and>
    wheelTimer w \<notin> timerIds s' \<and> customEvents s' = customEvents s \<and>
    runTask (wheel_func cur other) bd cur (Func (WheelInsert delay e)) s' = Inl Dangling"
proof -
  obtain v e where "wl_sys cur v e s" using wheel_user.reach_ok[OF assms(1,2)] by blast
  then have i: "wl_inv cur w s" using assms(3) by (auto simp: wl_sys_def wl_inv_def)
  have il: "isInLoopThread cur s" using i by (simp add: wl_inv_def isInLoopThread_def)
  let ?s1 = "s\<lparr>timerIds := timerIds s - {wheelTimer w}\<rparr>"
  have c: "cancelTimer bd cur (wheelTimer w) s = Inr ?s1"
    using i il by (simp add: cancelTimer_def delTimer_def delTimerInLoop_Inr wl_inv_def)
  obtain out w' where d: "destroyWheel True w = Inr (out, w')" "set out = fst ` sched w"
    using destroyWheel_ok[of w] i unfolding wl_inv_def by blast
  have il': "isInLoopThread cur ?s1" using il by (simp add: isInLoopThread_def)
  show ?thesis
    using c d il il' assms(3) by (auto simp: destroyTimerWheel_def with_wheel_def insertHere_def)
qed

theorem wheel_destroy_witness:
  "\<exists>s'. destroyTimerWheel Debug 0 sample_wloop = Inr s' \<and> wheelOf s' = None \<and> 1 \<notin> timerIds s' \<and>
    runTask (wheel_func 0 (exec_wheel Debug 0)) Debug 0 (Func (WheelInsert 10 (User 3))) s' = Inl Dangling"
proof -
  let ?w = "sample_wheel\<lparr>tickCounter := 0\<rparr>"
  have w: "wheelOf sample_wloop = Some ?w" "wheelTimer ?w = 1" by (simp_all add: sample_wloop_def sample_wheel_def)
  show ?thesis
    using wheel_destroy[OF wsc.wheel_user_axioms sample_wloop_reach w(1), of 10 "User 3"] unfolding w(2) by blast
qed

theorem wheel_ticks_witness:
  "\<exists>fired s' w'. timersPhase (wheel_func 0 (exec_wheel Debug 0)) 0 (sample_wloop\<lparr>clock := 25\<rparr>) = Inr (fired, s') \<and>
    wheelOf s' = Some w' \<and> tickCounter w' = 1 \<and> armed w' 35 s'"
proof -
  let ?w = "sample_wheel\<lparr>tickCounter := 0\<rparr>" and ?s = "sample_wloop\<lparr>clock := 25\<rparr>"
  have w: "wheelOf ?s = Some ?w" "young ?w" by (simp_all add: sample_wloop_def young_def sample_wheel_def)
  have st: "wh_step (exec_wheel Debug 0) Debug 0 sample_wloop ?s"
    by (rule wh_act[OF ua_work[where n = 25 and p = "poller sample_wloop"]]) (simp_all add: sample_wloop_def empty_wloop_def)
  have r: "reach (wh_init Debug 0) (wh_step (exec_wheel Debug 0) Debug 0) ?s" by (rule reach_step[OF sample_wloop_reach st])
  have f: "\<exists>fired s'. timersPhase (wheel_func 0 (exec_wheel Debug 0)) 0 ?s = Inr (fired, s') \<and> timersCreated s' = 1"
  proof -
    obtain v e where "wl_sys 0 v e ?s" using wheel_user.reach_ok[OF wsc.wheel_user_axioms r] by blast
    then have "wl_inv 0 ?w (?s\<lparr>timers := []\<rparr>)" using w by (auto simp: wl_sys_def wl_inv_def)
    then obtain out w' where "onTick (?s\<lparr>timers := []\<rparr>) = Inr (?s\<lparr>timers := [], wheelOf := Some w', released := released ?s @ out\<rparr>)"
      using onTick_ok[OF _ w(2)] by fastforce
    then show ?thesis
      by (simp add: timersPhase_def handlerTimer_def isInLoopThread_def getExpiredTimers_def sample_wloop_def empty_wloop_def isRepeat_def)
  qed
  then obtain fired s' where f: "timersPhase (wheel_func 0 (exec_wheel Debug 0)) 0 ?s = Inr (fired, s')" "timersCreated s' = 1" by blast
  have "armed ?w e ?s \<Longrightarrow> e = 10" for e by (simp add: armed_def sample_wloop_def)
  then obtain e w' e' where e10: "e = 10" and e: "armed ?w e ?s" "wheelOf s' = Some w'" "armed w' e' s'"
      "if clock ?s < e then tickCounter w' = tickCounter ?w \<and> e' = e
       else tickCounter w' = tickCounter ?w + 1 \<and> e' = clock ?s + ticksInterval ?w \<and>
         (\<forall>u. (u, tickCounter ?w + 1) \<in> sched ?w \<longrightarrow> u \<in> set (released s'))"
    using wheel_ticks[OF wsc.wheel_user_axioms r w f(1)] f(2) by auto
  have "\<not> clock ?s < e" using e10 by simp
  with e(4) have "tickCounter w' = tickCounter ?w + 1" "e' = clock ?s + ticksInterval ?w" by simp_all
  moreover have "ticksInterval ?w = 10" by (simp add: sample_wheel_def)
  ultimately have "tickCounter w' = 1" "e' = 35" by simp_all
  then show ?thesis using f(1) e(2,3) by blast
qed

end
