(* ===== verification/Fifo_Queue.thy ===== *)
theory Fifo_Queue
  imports GN_Prelude
begin

text \<open>
  The contract of a first-in first-out queue, as \<open>EventLoop\<close> uses it for the functions other
  threads hand to the loop: \<open>holds q xs\<close> relates the queue to the list of its elements,
  \<open>usable a q\<close> says that the allocator may return \<open>a\<close>.  The loop that dequeues until the
  queue answers that it is empty is written over \<open>deq\<close>; it gets fuel.
\<close>

fun deq_loop :: "('q \<Rightarrow> ('a option \<times> 'q) res) \<Rightarrow> nat \<Rightarrow> 'q \<Rightarrow> ('a list \<times> 'q) res option" where
  "deq_loop deq 0 q = None"
| "deq_loop deq (Suc n) q = (case deq q of
     Inl e \<Rightarrow> Some (Inl e)
   | Inr (None, q') \<Rightarrow> Some (Inr ([], q'))
   | Inr (Some x, q') \<Rightarrow>
       map_option (\<lambda>r. res_bind r (\<lambda>(xs, q''). Inr (x # xs, q''))) (deq_loop deq n q'))"

fun enq_all :: "(nat \<Rightarrow> 'a \<Rightarrow> 'q \<Rightarrow> 'q res) \<Rightarrow> (nat \<times> 'a) list \<Rightarrow> 'q \<Rightarrow> 'q res" where
  "enq_all enq [] q = Inr q"
| "enq_all enq ((a, x) # ps) q = res_bind (enq a x q) (enq_all enq ps)"

locale fifo_queue =
  fixes holds :: "'q \<Rightarrow> 'a list \<Rightarrow> bool" and nodes :: "'q \<Rightarrow> nat set"
    and enq :: "nat \<Rightarrow> 'a \<Rightarrow> 'q \<Rightarrow> 'q res" and deq :: "'q \<Rightarrow> ('a option \<times> 'q) res"
  assumes enq_law: "holds q xs \<Longrightarrow> a \<notin> nodes q \<Longrightarrow>
      \<exists>q'. enq a x q = Inr q' \<and> holds q' (xs @ [x]) \<and> nodes q' = insert a (nodes q)"
    and deq_empty: "holds q [] \<Longrightarrow> deq q = Inr (None, q)"
    and deq_law: "holds q (x # xs) \<Longrightarrow> \<exists>q'. deq q = Inr (Some x, q') \<and> holds q' xs \<and> nodes q' \<subseteq> nodes q"
begin

lemma enq_all_law:
  assumes "holds q xs" and "distinct (map fst ps)" and "nodes q \<inter> fst ` set ps = {}"
  shows "\<exists>q'. enq_all enq ps q = Inr q' \<and> holds q' (xs @ map snd ps) \<and> nodes q' = nodes q \<union> fst ` set ps"
  using assms
proof (induction ps arbitrary: q xs)
  case Nil
  then show ?case by simp
next
  case (Cons p ps)
  obtain a x where p: "p = (a, x)" by fastforce
  obtain q1 where q1: "enq a x q = Inr q1" "holds q1 (xs @ [x])" "nodes q1 = insert a (nodes q)"
    using enq_law[OF Cons.prems(1), of a x] Cons.prems(3) p by auto
  obtain q' where "enq_all enq ps q1 = Inr q'" "holds q' ((xs @ [x]) @ map snd ps)"
      "nodes q' = nodes q1 \<union> fst ` set ps"
    using Cons.IH[OF q1(2)] q1(3) Cons.prems(2,3) p by auto
  then show ?case using q1 p by auto
qed

lemma deq_loop_law:
  assumes "holds q xs" and "length xs < n"
  shows "\<exists>q'. deq_loop deq n q = Some (Inr (xs, q')) \<and> holds q' [] \<and> nodes q' \<subseteq> nodes q"
  using assms
proof (induction n arbitrary: q xs)
  case 0
  then show ?case by simp
next
  case (Suc n)
  show ?case
  proof (cases xs)
    case Nil
    then show ?thesis using Suc.prems(1) deq_empty by simp
  next
    case (Cons x ys)
    obtain q1 where q1: "deq q = Inr (Some x, q1)" "holds q1 ys" "nodes q1 \<subseteq> nodes q"
      using deq_law Suc.prems(1) Cons by blast
    obtain q' where "deq_loop deq n q1 = Some (Inr (ys, q'))" "holds q' []" "nodes q' \<subseteq> nodes q1"
      using Suc.IH[OF q1(2)] Suc.prems(2) Cons by auto
    then show ?thesis using q1 Cons by auto
  qed
qed

end

end
