(* ===== verification/Lock_Free_Queue.thy ===== *)
theory Lock_Free_Queue
  imports Fifo_Queue
begin

text \<open>
  \<^verbatim>\<open>src/include/godnet/util/lock_free_queue.hpp\<close>: the queue through which other threads hand
  functions to an event loop, a linked list with one node more than it has elements.  Any
  number of threads may enqueue, one thread dequeues.

  First the primitive accesses to the shared memory, one definition each, and the
  operations composed of them as the code does it, for one thread.  Then the same accesses
  as the steps of a system of threads.  Every load and store of \<open>head_\<close>, \<open>tail_\<close> and
  \<open>next_\<close> is one step; the exchange is one step.  The interleaving is sequentially
  consistent: an enqueuing thread publishes its node by the release store to \<open>next_\<close> that
  the acquire load in \<open>dequeue\<close> reads, and \<open>tail_\<close> is used by the dequeuing thread only.
  A destroyed node or element is gone: a later access to it is the failure \<open>Dangling\<close>.
\<close>

section \<open>Memory\<close>

text \<open>
  \<open>data_\<close> is null, or points to an element, to one moved from, or to freed memory; the
  code does not clear it after \<open>delete\<close>.
\<close>

datatype 'a data = Null | Value 'a | Moved | Freed

record 'a node =
  ndata :: "'a data"
  nnext :: "nat option"

record 'a lfq =
  heap :: "nat \<Rightarrow> 'a node option"
  headPtr :: nat
  tailPtr :: nat

definition newNode :: "nat \<Rightarrow> 'a data \<Rightarrow> ('a, 'm) lfq_scheme \<Rightarrow> ('a, 'm) lfq_scheme" where
  "newNode a d q = q\<lparr>heap := (heap q)(a \<mapsto> \<lparr>ndata = d, nnext = None\<rparr>)\<rparr>"

definition node :: "nat \<Rightarrow> ('a, 'm) lfq_scheme \<Rightarrow> 'a node res" where
  "node a q = (case heap q a of None \<Rightarrow> Inl Dangling | Some n \<Rightarrow> Inr n)"

definition setNode :: "nat \<Rightarrow> 'a node \<Rightarrow> ('a, 'm) lfq_scheme \<Rightarrow> ('a, 'm) lfq_scheme" where
  "setNode a n q = q\<lparr>heap := (heap q)(a \<mapsto> n)\<rparr>"

definition exchangeHead :: "nat \<Rightarrow> ('a, 'm) lfq_scheme \<Rightarrow> nat \<times> ('a, 'm) lfq_scheme" where
  "exchangeHead a q = (headPtr q, q\<lparr>headPtr := a\<rparr>)"

definition storeNext :: "nat \<Rightarrow> nat \<Rightarrow> ('a, 'm) lfq_scheme \<Rightarrow> ('a, 'm) lfq_scheme res" where
  "storeNext p a q = res_bind (node p q) (\<lambda>n. Inr (setNode p (n\<lparr>nnext := Some a\<rparr>) q))"

definition loadNext :: "nat \<Rightarrow> ('a, 'm) lfq_scheme \<Rightarrow> nat option res" where
  "loadNext t q = res_bind (node t q) (\<lambda>n. Inr (nnext n))"

definition moveData :: "nat \<Rightarrow> ('a, 'm) lfq_scheme \<Rightarrow> ('a \<times> ('a, 'm) lfq_scheme) res" where
  "moveData a q = res_bind (node a q) (\<lambda>n. case ndata n of
     Value x \<Rightarrow> Inr (x, setNode a (n\<lparr>ndata := Moved\<rparr>) q)
   | Null \<Rightarrow> Inl Null_Deref
   | Moved \<Rightarrow> Inl Indeterminate
   | Freed \<Rightarrow> Inl Dangling)"

definition deleteData :: "nat \<Rightarrow> ('a, 'm) lfq_scheme \<Rightarrow> ('a, 'm) lfq_scheme res" where
  "deleteData a q = res_bind (node a q) (\<lambda>n. case ndata n of
     Null \<Rightarrow> Inr q
   | Freed \<Rightarrow> Inl Dangling
   | _ \<Rightarrow> Inr (setNode a (n\<lparr>ndata := Freed\<rparr>) q))"

definition storeTail :: "nat \<Rightarrow> ('a, 'm) lfq_scheme \<Rightarrow> ('a, 'm) lfq_scheme" where
  "storeTail n q = q\<lparr>tailPtr := n\<rparr>"

definition deleteNode :: "nat \<Rightarrow> ('a, 'm) lfq_scheme \<Rightarrow> ('a, 'm) lfq_scheme res" where
  "deleteNode a q = res_bind (node a q) (\<lambda>_. Inr (q\<lparr>heap := (heap q)(a := None)\<rparr>))"

section \<open>The operations\<close>

text \<open>\<open>a\<close> is the address the allocator returns for the new node.\<close>

definition LockFreeQueue :: "nat \<Rightarrow> 'a lfq" where
  "LockFreeQueue a = \<lparr>heap = [a \<mapsto> \<lparr>ndata = Null, nnext = None\<rparr>], headPtr = a, tailPtr = a\<rparr>"

definition enqueue :: "nat \<Rightarrow> 'a \<Rightarrow> ('a, 'm) lfq_scheme \<Rightarrow> ('a, 'm) lfq_scheme res" where
  "enqueue a x q = (let q1 = newNode a (Value x) q; (prev, q2) = exchangeHead a q1
     in storeNext prev a q2)"

definition dequeue :: "('a, 'm) lfq_scheme \<Rightarrow> ('a option \<times> ('a, 'm) lfq_scheme) res" where
  "dequeue q = (let t = tailPtr q in res_bind (loadNext t q) (\<lambda>next. case next of
     None \<Rightarrow> Inr (None, q)
   | Some n \<Rightarrow> res_bind (moveData n q) (\<lambda>(x, q1). res_bind (deleteData n q1) (\<lambda>q2.
       res_bind (deleteNode t (storeTail n q2)) (\<lambda>q3. Inr (Some x, q3))))))"

definition queue_empty :: "('a, 'm) lfq_scheme \<Rightarrow> bool res" where
  "queue_empty q = res_bind (loadNext (tailPtr q) q) (\<lambda>next. Inr (next = None))"

text \<open>The destructor; its loop gets fuel.\<close>

definition destroyQueue :: "nat \<Rightarrow> ('a, 'm) lfq_scheme \<Rightarrow> ('a, 'm) lfq_scheme res option" where
  "destroyQueue n q = map_option (\<lambda>r. res_bind r (\<lambda>(xs, q'). deleteNode (headPtr q') q'))
     (deq_loop dequeue n q)"

section \<open>Neighbours in the list of nodes\<close>

definition adj :: "'b list \<Rightarrow> ('b \<times> 'b) set" where
  "adj L = set (zip L (tl L))"

lemma adj_single [simp]: "adj [a] = {}"
  by (simp add: adj_def)

lemma adj_Cons [simp]: "adj (a # b # L) = insert (a, b) (adj (b # L))"
  by (simp add: adj_def)

lemma adj_snoc: "L \<noteq> [] \<Longrightarrow> adj (L @ [a]) = insert (last L, a) (adj L)"
  by (induction L rule: induct_list012) (auto simp: adj_def)

lemma adj_mem: "(a, b) \<in> adj L \<Longrightarrow> a \<in> set L \<and> b \<in> set (tl L)"
  by (auto simp: adj_def dest: set_zip_leftD set_zip_rightD)

lemma adj_fun: "distinct L \<Longrightarrow> (a, b) \<in> adj L \<Longrightarrow> (a, c) \<in> adj L \<Longrightarrow> b = c"
  by (induction L rule: induct_list012) (auto dest: adj_mem)

lemma adj_last: "distinct L \<Longrightarrow> (a, b) \<in> adj L \<Longrightarrow> a \<noteq> last L"
  by (induction L rule: induct_list012) (auto dest: adj_mem simp: adj_def)

section \<open>One thread\<close>

text \<open>
  The queue holds \<open>xs\<close>: its nodes \<open>L\<close> are linked from \<open>tail_\<close> to \<open>head_\<close>, all but the
  first with their element, and there is no other node.
\<close>

definition linked :: "(nat \<Rightarrow> 'a node option) \<Rightarrow> nat list \<Rightarrow> bool" where
  "linked hp L \<longleftrightarrow> (\<forall>(a, b) \<in> adj L. \<exists>n. hp a = Some n \<and> nnext n = Some b)
     \<and> (\<exists>n. hp (last L) = Some n \<and> nnext n = None)"

definition carries :: "(nat \<Rightarrow> 'a node option) \<Rightarrow> nat list \<Rightarrow> 'a list \<Rightarrow> bool" where
  "carries hp L xs \<longleftrightarrow> list_all2 (\<lambda>a x. \<exists>n. hp a = Some n \<and> ndata n = Value x) L xs"

definition seq_nodes :: "'a lfq \<Rightarrow> nat list \<Rightarrow> 'a list \<Rightarrow> bool" where
  "seq_nodes q L xs \<longleftrightarrow> L \<noteq> [] \<and> distinct L \<and> tailPtr q = hd L \<and> headPtr q = last L
     \<and> dom (heap q) = set L \<and> linked (heap q) L \<and> carries (heap q) (tl L) xs"

definition seq_holds :: "'a lfq \<Rightarrow> 'a list \<Rightarrow> bool" where
  "seq_holds q xs \<longleftrightarrow> (\<exists>L. seq_nodes q L xs)"

definition seq_addrs :: "'a lfq \<Rightarrow> nat set" where
  "seq_addrs q = dom (heap q)"

lemma carries_other: "a \<notin> set L \<Longrightarrow> carries (hp(a := v)) L xs = carries hp L xs"
  unfolding carries_def by (intro list.rel_cong) auto

lemma seq_new: "seq_nodes (LockFreeQueue a) [a] []"
  by (simp add: seq_nodes_def LockFreeQueue_def linked_def carries_def)

lemma linked_frame:
  assumes "linked hp L" and "L \<noteq> []"
    and "\<And>a n. a \<in> set L \<Longrightarrow> hp a = Some n \<Longrightarrow> \<exists>n'. hp' a = Some n' \<and> nnext n' = nnext n"
  shows "linked hp' L"
proof -
  have "\<exists>n. hp' a = Some n \<and> nnext n = Some b" if "(a, b) \<in> adj L" for a b
    using that assms(1) assms(3)[of a] adj_mem[OF that] by (auto simp: linked_def)
  moreover have "\<exists>n. hp' (last L) = Some n \<and> nnext n = None"
    using assms(1,2) assms(3)[of "last L"] by (auto simp: linked_def)
  ultimately show ?thesis by (auto simp: linked_def)
qed

lemma linked_tl: "linked hp (t # n # M) \<Longrightarrow> linked hp (n # M)"
  by (simp add: linked_def)

lemma linked_append:
  assumes "linked hp L" and "distinct L" and "L \<noteq> []" and "a \<notin> set L"
    and "hp (last L) = Some n"
  shows "linked (hp(a \<mapsto> \<lparr>ndata = d, nnext = None\<rparr>, last L \<mapsto> n\<lparr>nnext := Some a\<rparr>)) (L @ [a])"
proof -
  have "c \<noteq> last L \<and> c \<noteq> a" if "(c, b) \<in> adj L" for c b
    using that assms(2,4) adj_last adj_mem by fastforce
  moreover have "a \<noteq> last L" using assms(3,4) by auto
  ultimately show ?thesis
    using assms(1,3) by (fastforce simp: linked_def adj_snoc)
qed

lemma seq_enqueue:
  assumes "seq_nodes q L xs" and "a \<notin> dom (heap q)"
  shows "\<exists>q'. enqueue a x q = Inr q' \<and> seq_nodes q' (L @ [a]) (xs @ [x])"
proof -
  have L: "L \<noteq> []" "distinct L" "headPtr q = last L" "dom (heap q) = set L" "a \<notin> set L"
    using assms by (simp_all add: seq_nodes_def)
  then have "a \<noteq> last L" "last L \<in> set L" by auto
  obtain n where n: "heap q (last L) = Some n"
    using assms(1) by (auto simp: seq_nodes_def linked_def)
  let ?q = "q\<lparr>heap := (heap q)(a \<mapsto> \<lparr>ndata = Value x, nnext = None\<rparr>, last L \<mapsto> n\<lparr>nnext := Some a\<rparr>),
    headPtr := a\<rparr>"
  have "enqueue a x q = Inr ?q"
    using L n \<open>a \<noteq> last L\<close>
    by (simp add: enqueue_def newNode_def exchangeHead_def storeNext_def node_def setNode_def)
  moreover have "linked (heap ?q) (L @ [a])"
    using linked_append[where hp = "heap q", OF _ L(2,1,5) n] assms(1) by (simp add: seq_nodes_def)
  moreover have "carries (heap ?q) (tl (L @ [a])) (xs @ [x])"
  proof -
    have "carries (heap q) (tl L) xs" using assms(1) by (simp add: seq_nodes_def)
    then have "list_all2 (\<lambda>b y. \<exists>m. heap ?q b = Some m \<and> ndata m = Value y) (tl L) xs"
      unfolding carries_def
      by (rule list.rel_mono_strong) (use L(5) n in \<open>auto dest: list.set_sel(2)[OF L(1)]\<close>)
    then show ?thesis using L(1) \<open>a \<noteq> last L\<close> by (simp add: carries_def list_all2_appendI)
  qed
  ultimately show ?thesis
    using L assms(1) \<open>last L \<in> set L\<close> by (auto simp: seq_nodes_def)
qed

lemma seq_dequeue_empty: "seq_nodes q L [] \<Longrightarrow> dequeue q = Inr (None, q)"
  by (cases L) (auto simp: seq_nodes_def linked_def carries_def dequeue_def loadNext_def node_def)

lemma seq_dequeue:
  assumes "seq_nodes q L (x # xs)"
  shows "\<exists>q'. dequeue q = Inr (Some x, q') \<and> seq_nodes q' (tl L) xs"
proof -
  obtain t n M where L: "L = t # n # M"
    using assms by (cases L; cases "tl L") (auto simp: seq_nodes_def carries_def)
  obtain tn nn where h: "heap q t = Some tn" "nnext tn = Some n" "heap q n = Some nn" "ndata nn = Value x"
    using assms L by (auto simp: seq_nodes_def linked_def carries_def)
  have d: "t \<noteq> n" "t \<notin> set M" "n \<notin> set M" using assms L by (auto simp: seq_nodes_def)
  let ?q = "q\<lparr>heap := (heap q)(n \<mapsto> nn\<lparr>ndata := Freed\<rparr>, t := None), tailPtr := n\<rparr>"
  have "dequeue q = Inr (Some x, ?q)"
    using assms h d L
    by (simp add: seq_nodes_def dequeue_def loadNext_def moveData_def deleteData_def deleteNode_def
        storeTail_def node_def setNode_def Let_def)
  moreover have "linked (heap ?q) (n # M)"
    by (rule linked_frame[OF linked_tl[of "heap q" t]])
      (use assms L h(3) d in \<open>auto simp: seq_nodes_def\<close>)
  moreover have "carries (heap ?q) M xs"
  proof -
    have "carries (heap q) M xs" using assms L by (simp add: seq_nodes_def carries_def)
    then show ?thesis using d by (simp add: carries_other)
  qed
  ultimately show ?thesis
    using assms L d h(3) by (auto simp: seq_nodes_def)
qed

interpretation lfq: fifo_queue seq_holds seq_addrs enqueue dequeue
proof
  show "\<exists>q'. enqueue a x q = Inr q' \<and> seq_holds q' (xs @ [x]) \<and> seq_addrs q' = insert a (seq_addrs q)"
    if h: "seq_holds q xs" "a \<notin> seq_addrs q" for q :: "'a lfq" and xs a x
  proof -
    obtain L where L: "seq_nodes q L xs" using h(1) by (auto simp: seq_holds_def)
    obtain q' where "enqueue a x q = Inr q'" "seq_nodes q' (L @ [a]) (xs @ [x])"
      using seq_enqueue[OF L, of a x] h(2) unfolding seq_addrs_def by blast
    moreover from this L have "seq_addrs q' = insert a (seq_addrs q)"
      by (simp add: seq_addrs_def seq_nodes_def)
    ultimately show ?thesis unfolding seq_holds_def by blast
  qed
  show "dequeue q = Inr (None, q)" if "seq_holds q []" for q :: "'a lfq"
    using that seq_dequeue_empty by (auto simp: seq_holds_def)
  show "\<exists>q'. dequeue q = Inr (Some x, q') \<and> seq_holds q' xs \<and> seq_addrs q' \<subseteq> seq_addrs q"
    if h: "seq_holds q (x # xs)" for q :: "'a lfq" and x xs
  proof -
    obtain L where L: "seq_nodes q L (x # xs)" using h by (auto simp: seq_holds_def)
    obtain q' where "dequeue q = Inr (Some x, q')" "seq_nodes q' (tl L) xs"
      using seq_dequeue[OF L] by blast
    moreover from this L have "seq_addrs q' \<subseteq> seq_addrs q"
      using list.set_sel(2)[of L] by (auto simp: seq_addrs_def seq_nodes_def)
    ultimately show ?thesis unfolding seq_holds_def by blast
  qed
qed

section \<open>Threads\<close>

text \<open>
  Where an enqueuing thread is: not in \<open>enqueue\<close>; with a new node at \<open>a\<close>; past the exchange,
  with \<open>prev\<close>.  Where the dequeuing thread is: not in \<open>dequeue\<close>; past the load of \<open>tail_\<close>;
  past the load of a non-null \<open>next_\<close>; past the move to \<open>output\<close>; past the \<open>delete\<close> of the
  element; past the store to \<open>tail_\<close>.
\<close>

datatype 'a producer_pc = PIdle | PNode nat 'a | PExchanged nat nat

datatype 'a consumer_pc = CIdle | CTail nat | CNext nat nat | CMoved nat nat 'a
  | CDeleted nat nat 'a | CStored nat 'a

text \<open>
  The last three fields are history: the nodes from the current dummy node on in the order of the
  exchanges, the elements in the order of the exchanges, and the elements handed out.
\<close>

record 'a conc = "'a lfq" +
  producer :: "nat \<Rightarrow> 'a producer_pc"
  consumer :: "'a consumer_pc"
  order :: "nat list"
  enqueued :: "'a list"
  dequeued :: "'a list"

datatype 'a action = NewNode nat nat 'a | Exchange nat | Link nat
  | LoadTail | LoadNext | MoveData | DeleteData | StoreTail | DeleteTail

fun enabled :: "'a action \<Rightarrow> 'a conc \<Rightarrow> bool" where
  "enabled (NewNode p a x) s = (producer s p = PIdle \<and> heap s a = None)"
| "enabled (Exchange p) s = (case producer s p of PNode a x \<Rightarrow> True | _ \<Rightarrow> False)"
| "enabled (Link p) s = (case producer s p of PExchanged a prev \<Rightarrow> True | _ \<Rightarrow> False)"
| "enabled LoadTail s = (case consumer s of CIdle \<Rightarrow> True | _ \<Rightarrow> False)"
| "enabled LoadNext s = (case consumer s of CTail t \<Rightarrow> True | _ \<Rightarrow> False)"
| "enabled MoveData s = (case consumer s of CNext t n \<Rightarrow> True | _ \<Rightarrow> False)"
| "enabled DeleteData s = (case consumer s of CMoved t n x \<Rightarrow> True | _ \<Rightarrow> False)"
| "enabled StoreTail s = (case consumer s of CDeleted t n x \<Rightarrow> True | _ \<Rightarrow> False)"
| "enabled DeleteTail s = (case consumer s of CStored t x \<Rightarrow> True | _ \<Rightarrow> False)"

fun exec :: "'a action \<Rightarrow> 'a conc \<Rightarrow> 'a conc res" where
  "exec (NewNode p a x) s =
     Inr ((newNode a (Value x) s)\<lparr>producer := (producer s)(p := PNode a x)\<rparr>)"
| "exec (Exchange p) s = (case producer s p of
     PNode a x \<Rightarrow> (let (prev, s1) = exchangeHead a s in
       Inr (s1\<lparr>producer := (producer s)(p := PExchanged a prev), order := order s @ [a],
         enqueued := enqueued s @ [x]\<rparr>))
   | _ \<Rightarrow> Inr s)"
| "exec (Link p) s = (case producer s p of
     PExchanged a prev \<Rightarrow> res_bind (storeNext prev a s)
       (\<lambda>s1. Inr (s1\<lparr>producer := (producer s)(p := PIdle)\<rparr>))
   | _ \<Rightarrow> Inr s)"
| "exec LoadTail s = Inr (s\<lparr>consumer := CTail (tailPtr s)\<rparr>)"
| "exec LoadNext s = (case consumer s of
     CTail t \<Rightarrow> res_bind (loadNext t s) (\<lambda>next. case next of
       None \<Rightarrow> Inr (s\<lparr>consumer := CIdle\<rparr>)
     | Some n \<Rightarrow> Inr (s\<lparr>consumer := CNext t n\<rparr>))
   | _ \<Rightarrow> Inr s)"
| "exec MoveData s = (case consumer s of
     CNext t n \<Rightarrow> res_bind (moveData n s) (\<lambda>(x, s1). Inr (s1\<lparr>consumer := CMoved t n x\<rparr>))
   | _ \<Rightarrow> Inr s)"
| "exec DeleteData s = (case consumer s of
     CMoved t n x \<Rightarrow> res_bind (deleteData n s) (\<lambda>s1. Inr (s1\<lparr>consumer := CDeleted t n x\<rparr>))
   | _ \<Rightarrow> Inr s)"
| "exec StoreTail s = (case consumer s of
     CDeleted t n x \<Rightarrow> Inr ((storeTail n s)\<lparr>consumer := CStored t x, order := tl (order s),
       dequeued := dequeued s @ [x]\<rparr>)
   | _ \<Rightarrow> Inr s)"
| "exec DeleteTail s = (case consumer s of
     CStored t x \<Rightarrow> res_bind (deleteNode t s) (\<lambda>s1. Inr (s1\<lparr>consumer := CIdle\<rparr>))
   | _ \<Rightarrow> Inr s)"

inductive lfq_step :: "'a conc \<Rightarrow> 'a conc \<Rightarrow> bool" where
  act: "enabled act s \<Longrightarrow> exec act s = Inr s' \<Longrightarrow> lfq_step s s'"

definition conc_new :: "nat \<Rightarrow> 'a conc" where
  "conc_new a = lfq.extend (LockFreeQueue a)
     \<lparr>producer = \<lambda>_. PIdle, consumer = CIdle, order = [a], enqueued = [], dequeued = []\<rparr>"

definition conc_init :: "'a conc \<Rightarrow> bool" where
  "conc_init s \<longleftrightarrow> (\<exists>a. s = conc_new a)"

section \<open>The invariant\<close>

text \<open>
  Each node is linked to the next one in the order of the exchanges, or the thread that
  enqueued the next one has yet to do so.
\<close>

definition chain_ok :: "(nat \<Rightarrow> 'a node option) \<Rightarrow> (nat \<Rightarrow> 'a producer_pc) \<Rightarrow> nat list \<Rightarrow> bool" where
  "chain_ok hp P L \<longleftrightarrow> (\<exists>n. hp (last L) = Some n \<and> nnext n = None)
     \<and> (\<forall>(a, b) \<in> adj L. \<exists>n. hp a = Some n \<and>
          (nnext n = Some b \<or> nnext n = None \<and> (\<exists>p. P p = PExchanged b a)))"

definition producers_ok :: "(nat \<Rightarrow> 'a node option) \<Rightarrow> (nat \<Rightarrow> 'a producer_pc) \<Rightarrow> nat list \<Rightarrow> bool" where
  "producers_ok hp P L \<longleftrightarrow>
     (\<forall>p a x. P p = PNode a x \<longrightarrow> hp a = Some \<lparr>ndata = Value x, nnext = None\<rparr> \<and> a \<notin> set L)
   \<and> (\<forall>p p' a x x'. P p = PNode a x \<longrightarrow> P p' = PNode a x' \<longrightarrow> p = p')
   \<and> (\<forall>p a b. P p = PExchanged a b \<longrightarrow> (b, a) \<in> adj L \<and> (\<exists>n. hp b = Some n \<and> nnext n = None))
   \<and> (\<forall>p p' a a' b. P p = PExchanged a b \<longrightarrow> P p' = PExchanged a' b \<longrightarrow> p = p')"

text \<open>The element of node \<open>a\<close> is there, or the dequeuing thread is about to store \<open>a\<close> to \<open>tail_\<close>.\<close>

fun elem_ok :: "'a consumer_pc \<Rightarrow> nat \<Rightarrow> 'a data \<Rightarrow> 'a \<Rightarrow> bool" where
  "elem_ok (CMoved t n y) a d x = (if a = n then d = Moved \<and> y = x else d = Value x)"
| "elem_ok (CDeleted t n y) a d x = (if a = n then d = Freed \<and> y = x else d = Value x)"
| "elem_ok c a d x = (d = Value x)"

definition elems_ok :: "(nat \<Rightarrow> 'a node option) \<Rightarrow> 'a consumer_pc \<Rightarrow> nat list \<Rightarrow> 'a list \<Rightarrow> bool" where
  "elems_ok hp c L xs \<longleftrightarrow> list_all2 (\<lambda>a x. \<exists>n. hp a = Some n \<and> elem_ok c a (ndata n) x) L xs"

fun consumer_ok :: "(nat \<Rightarrow> 'a node option) \<Rightarrow> (nat \<Rightarrow> 'a producer_pc) \<Rightarrow> nat list \<Rightarrow> 'a consumer_pc \<Rightarrow> bool" where
  "consumer_ok hp P L CIdle = True"
| "consumer_ok hp P L (CTail t) = (t = hd L)"
| "consumer_ok hp P L (CNext t n) = (t = hd L \<and> (t, n) \<in> adj L \<and> (\<exists>m. hp t = Some m \<and> nnext m = Some n))"
| "consumer_ok hp P L (CMoved t n x) = (t = hd L \<and> (t, n) \<in> adj L \<and> (\<exists>m. hp t = Some m \<and> nnext m = Some n))"
| "consumer_ok hp P L (CDeleted t n x) = (t = hd L \<and> (t, n) \<in> adj L \<and> (\<exists>m. hp t = Some m \<and> nnext m = Some n))"
| "consumer_ok hp P L (CStored t x) = (t \<notin> set L \<and> (\<forall>p x. P p \<noteq> PNode t x))"

fun stale :: "'a consumer_pc \<Rightarrow> nat set" where
  "stale (CStored t x) = {t}"
| "stale c = {}"

definition fresh_nodes :: "(nat \<Rightarrow> 'a producer_pc) \<Rightarrow> nat set" where
  "fresh_nodes P = {a. \<exists>p x. P p = PNode a x}"

definition conc_at :: "'a list \<Rightarrow> 'a conc \<Rightarrow> bool" where
  "conc_at xs s \<longleftrightarrow> order s \<noteq> [] \<and> distinct (order s)
     \<and> headPtr s = last (order s) \<and> tailPtr s = hd (order s)
     \<and> chain_ok (heap s) (producer s) (order s)
     \<and> producers_ok (heap s) (producer s) (order s)
     \<and> elems_ok (heap s) (consumer s) (tl (order s)) xs
     \<and> consumer_ok (heap s) (producer s) (order s) (consumer s)
     \<and> dom (heap s) = set (order s) \<union> fresh_nodes (producer s) \<union> stale (consumer s)
     \<and> enqueued s = dequeued s @ xs"

definition conc_inv :: "'a conc \<Rightarrow> bool" where
  "conc_inv s \<longleftrightarrow> (\<exists>xs. conc_at xs s)"

section \<open>Every step keeps the invariant\<close>

lemma chain_nextD:
  assumes "chain_ok hp P L" and "(a, b) \<in> adj L"
  obtains n where "hp a = Some n"
    and "nnext n = Some b \<or> nnext n = None \<and> (\<exists>p. P p = PExchanged b a)"
  using assms unfolding chain_ok_def by blast

lemma fresh_nodes_upd:
  "b \<in> fresh_nodes (P(p := v)) \<longleftrightarrow> (\<exists>x. v = PNode b x) \<or> (\<exists>q x. q \<noteq> p \<and> P q = PNode b x)"
  unfolding fresh_nodes_def by (simp, metis)

text \<open>Changes that leave the links, the elements or the threads alone.\<close>

lemma chain_frame:
  assumes "chain_ok hp P L" and "L \<noteq> []"
    and "\<And>a n. a \<in> set L \<Longrightarrow> hp a = Some n \<Longrightarrow> \<exists>n'. hp' a = Some n' \<and> nnext n' = nnext n"
    and "\<And>p a b. P p = PExchanged a b \<Longrightarrow> \<exists>p'. P' p' = PExchanged a b"
  shows "chain_ok hp' P' L"
proof -
  have "\<exists>n. hp' a = Some n \<and> (nnext n = Some b \<or> nnext n = None \<and> (\<exists>p. P' p = PExchanged b a))"
    if ab: "(a, b) \<in> adj L" for a b
  proof -
    obtain n where n: "hp a = Some n" "nnext n = Some b \<or> nnext n = None \<and> (\<exists>p. P p = PExchanged b a)"
      using chain_nextD[OF assms(1) ab] .
    obtain n' where "hp' a = Some n'" "nnext n' = nnext n" using assms(3) n(1) adj_mem[OF ab] by blast
    with n(2) assms(4) show ?thesis by metis
  qed
  moreover have "\<exists>n. hp' (last L) = Some n \<and> nnext n = None"
    using assms(1,2) assms(3)[of "last L"] by (auto simp: chain_ok_def)
  ultimately show ?thesis by (auto simp: chain_ok_def)
qed

lemma producers_frame:
  assumes "producers_ok hp P L"
    and "\<And>a n. a \<in> set L \<Longrightarrow> hp a = Some n \<Longrightarrow> \<exists>n'. hp' a = Some n' \<and> nnext n' = nnext n"
    and "\<And>a. a \<in> fresh_nodes P \<Longrightarrow> hp' a = hp a"
  shows "producers_ok hp' P L"
proof -
  have "\<exists>n. hp' b = Some n \<and> nnext n = None" if "P p = PExchanged a b" for p a b
  proof -
    have "(b, a) \<in> adj L" "\<exists>n. hp b = Some n \<and> nnext n = None"
      using assms(1) that by (auto simp: producers_ok_def)
    then show ?thesis using assms(2)[of b] adj_mem[of b a L] by auto
  qed
  moreover have "hp' a = hp a" if "P p = PNode a x" for p a x
    using that assms(3) by (auto simp: fresh_nodes_def)
  ultimately show ?thesis using assms(1) by (auto simp: producers_ok_def)
qed

lemma elems_frame:
  "elems_ok hp c L xs \<Longrightarrow> (\<And>a. a \<in> set L \<Longrightarrow> hp' a = hp a) \<Longrightarrow> elems_ok hp' c L xs"
  unfolding elems_ok_def by (rule list.rel_mono_strong) auto

lemma fresh_not_order: "producers_ok hp P L \<Longrightarrow> a \<in> fresh_nodes P \<Longrightarrow> a \<notin> set L"
  by (auto simp: producers_ok_def fresh_nodes_def)

lemma set_tl: "a \<in> set (tl L) \<Longrightarrow> a \<in> set L"
  by (cases L) auto

lemma conc_NewNode:
  assumes I: "conc_at xs s" and e: "enabled (NewNode p a x) s"
  shows "\<exists>s'. exec (NewNode p a x) s = Inr s' \<and> conc_at xs s'"
proof -
  let ?s = "(newNode a (Value x) s)\<lparr>producer := (producer s)(p := PNode a x)\<rparr>"
  let ?P = "producer s" and ?L = "order s" and ?hp = "(heap s)(a \<mapsto> \<lparr>ndata = Value x, nnext = None\<rparr>)"
  have p: "?P p = PIdle" and a: "a \<notin> set ?L" "a \<notin> fresh_nodes ?P" "a \<notin> stale (consumer s)"
    using I e by (auto simp: conc_at_def)
  have "chain_ok ?hp (?P(p := PNode a x)) ?L"
  proof (rule chain_frame)
    show "chain_ok (heap s) ?P ?L" "?L \<noteq> []" using I by (simp_all add: conc_at_def)
    show "\<exists>n'. ?hp b = Some n' \<and> nnext n' = nnext n" if "b \<in> set ?L" "heap s b = Some n" for b n
      using that a(1) by auto
    show "\<exists>p'. (?P(p := PNode a x)) p' = PExchanged b c" if "?P q = PExchanged b c" for q b c
      using that p by (intro exI[of _ q]) auto
  qed
  moreover have "producers_ok ?hp (?P(p := PNode a x)) ?L"
  proof -
    have "producers_ok (heap s) ?P ?L" using I by (simp add: conc_at_def)
    then have "producers_ok ?hp ?P ?L" by (rule producers_frame) (use a in auto)
    then show ?thesis using a p by (auto simp: producers_ok_def fresh_nodes_def)
  qed
  moreover have "elems_ok ?hp (consumer s) (tl ?L) xs"
    using I a(1) by (auto simp: conc_at_def dest!: set_tl intro: elems_frame)
  moreover have "consumer_ok ?hp (?P(p := PNode a x)) ?L (consumer s)"
    using I a(1,3) by (cases "consumer s") (auto simp: conc_at_def dest: adj_mem)
  moreover have "fresh_nodes (?P(p := PNode a x)) = insert a (fresh_nodes ?P)"
  proof (rule set_eqI)
    show "b \<in> fresh_nodes (?P(p := PNode a x)) \<longleftrightarrow> b \<in> insert a (fresh_nodes ?P)" for b
      unfolding fresh_nodes_upd using p by (auto simp: fresh_nodes_def) (metis producer_pc.distinct(1))
  qed
  ultimately have "conc_at xs ?s" using I by (auto simp: conc_at_def newNode_def)
  then show ?thesis by simp
qed

lemma conc_Exchange:
  assumes I: "conc_at xs s" and e: "producer s p = PNode a x"
  shows "\<exists>s'. exec (Exchange p) s = Inr s' \<and> conc_at (xs @ [x]) s'"
proof -
  let ?P = "producer s" and ?L = "order s" and ?h = "last (order s)"
  let ?Q = "?P(p := PExchanged a ?h)"
  let ?s = "s\<lparr>headPtr := a, producer := ?Q, order := ?L @ [a], enqueued := enqueued s @ [x]\<rparr>"
  have L: "?L \<noteq> []" "distinct ?L" "chain_ok (heap s) ?P ?L" and P: "producers_ok (heap s) ?P ?L"
    using I by (simp_all add: conc_at_def)
  have a: "heap s a = Some \<lparr>ndata = Value x, nnext = None\<rparr>" "a \<notin> set ?L"
    using P e unfolding producers_ok_def by blast+
  have h: "\<exists>n. heap s ?h = Some n \<and> nnext n = None" using L(3) by (simp add: chain_ok_def)
  have Q: "\<exists>p'. ?Q p' = PExchanged b c" if "?P q = PExchanged b c" for q b c
    using that e by (intro exI[of _ q]) auto
  have "chain_ok (heap s) ?Q ?L"
    using L Q by (intro chain_frame[OF L(3,1)]) auto
  then have "chain_ok (heap s) ?Q (?L @ [a])"
    using L(1) a(1) h by (auto simp: chain_ok_def adj_snoc)
  moreover have "producers_ok (heap s) ?Q (?L @ [a])"
  proof -
    have "c \<noteq> ?h" if "?P q = PExchanged b c" for q b c
      using P that adj_last[OF L(2)] unfolding producers_ok_def by blast
    moreover have "b \<noteq> a" if "?P q = PNode b y" "q \<noteq> p" for q b y
      using P that e unfolding producers_ok_def by blast
    ultimately show ?thesis
      using P L(1) h unfolding producers_ok_def adj_snoc[OF L(1)] by (auto split: if_splits)
  qed
  moreover have "elems_ok (heap s) (consumer s) (tl (?L @ [a])) (xs @ [x])"
  proof -
    have "elem_ok (consumer s) a (Value x) x"
      using I a(2) by (cases "consumer s") (auto simp: conc_at_def dest: adj_mem set_tl)
    then show ?thesis using I L(1) a(1) by (auto simp: conc_at_def elems_ok_def intro!: list_all2_appendI)
  qed
  moreover have "consumer_ok (heap s) ?Q (?L @ [a]) (consumer s)"
    using I e L(1) a by (cases "consumer s") (auto simp: conc_at_def adj_snoc)
  moreover have "insert a (fresh_nodes ?Q) = fresh_nodes ?P"
  proof (rule set_eqI)
    show "b \<in> insert a (fresh_nodes ?Q) \<longleftrightarrow> b \<in> fresh_nodes ?P" for b
      unfolding insert_iff fresh_nodes_upd using e by (auto simp: fresh_nodes_def) (metis producer_pc.inject(1))
  qed
  ultimately have "conc_at (xs @ [x]) ?s" using I a(2) L(1) by (auto simp: conc_at_def)
  moreover have "exec (Exchange p) s = Inr ?s"
    using e I by (simp add: exchangeHead_def conc_at_def)
  ultimately show ?thesis by blast
qed

lemma conc_Link:
  assumes I: "conc_at xs s" and e: "producer s p = PExchanged a b"
  shows "\<exists>s'. exec (Link p) s = Inr s' \<and> conc_at xs s'"
proof -
  let ?P = "producer s" and ?L = "order s" and ?Q = "(producer s)(p := PIdle)"
  have L: "?L \<noteq> []" "distinct ?L" "chain_ok (heap s) ?P ?L" and P: "producers_ok (heap s) ?P ?L"
    using I by (simp_all add: conc_at_def)
  have ba: "(b, a) \<in> adj ?L" and "\<exists>n. heap s b = Some n \<and> nnext n = None"
    using P e unfolding producers_ok_def by blast+
  then obtain n where n: "heap s b = Some n" "nnext n = None" by blast
  have b: "b \<in> set ?L" "b \<noteq> last ?L" "b \<notin> fresh_nodes ?P"
    using adj_mem[OF ba] adj_last[OF L(2) ba] fresh_not_order[OF P] by auto
  let ?hp = "(heap s)(b \<mapsto> n\<lparr>nnext := Some a\<rparr>)"
  let ?s = "s\<lparr>heap := ?hp, producer := ?Q\<rparr>"
  have "\<exists>m. ?hp c = Some m \<and> (nnext m = Some d \<or> nnext m = None \<and> (\<exists>q. ?Q q = PExchanged d c))"
    if cd: "(c, d) \<in> adj ?L" for c d
  proof (cases "c = b")
    case True
    then show ?thesis using adj_fun[OF L(2) ba] cd by simp
  next
    case False
    then have "?P q = PExchanged d c \<Longrightarrow> ?Q q = PExchanged d c" for q using e by auto
    with False show ?thesis using chain_nextD[OF L(3) cd] by (metis fun_upd_other)
  qed
  moreover have "\<exists>m. ?hp (last ?L) = Some m \<and> nnext m = None"
    using L(3) b(2) by (auto simp: chain_ok_def)
  ultimately have "chain_ok ?hp ?Q ?L" unfolding chain_ok_def by blast
  moreover have "producers_ok ?hp ?Q ?L"
  proof -
    have "c \<noteq> b" if "?P q = PExchanged d c" "q \<noteq> p" for q c d
      using P that e unfolding producers_ok_def by blast
    moreover have "c \<noteq> b" if "?P q = PNode c y" for q c y
      using b(3) that by (auto simp: fresh_nodes_def)
    ultimately show ?thesis using P unfolding producers_ok_def by auto
  qed
  moreover have "elems_ok ?hp (consumer s) (tl ?L) xs"
  proof -
    have "elems_ok (heap s) (consumer s) (tl ?L) xs" using I by (simp add: conc_at_def)
    then show ?thesis unfolding elems_ok_def by (rule list.rel_mono_strong) (use n in auto)
  qed
  moreover have "consumer_ok ?hp ?Q ?L (consumer s)"
    using I n by (cases "consumer s") (auto simp: conc_at_def)
  moreover have "fresh_nodes ?Q = fresh_nodes ?P"
  proof (rule set_eqI)
    show "c \<in> fresh_nodes ?Q \<longleftrightarrow> c \<in> fresh_nodes ?P" for c
      unfolding fresh_nodes_upd using e by (auto simp: fresh_nodes_def) (metis producer_pc.distinct(5))
  qed
  ultimately have "conc_at xs ?s" using I b(1) by (auto simp: conc_at_def)
  moreover have "exec (Link p) s = Inr ?s"
    using e n by (simp add: storeNext_def node_def setNode_def)
  ultimately show ?thesis by blast
qed

lemma conc_LoadTail:
  assumes "conc_at xs s" and "consumer s = CIdle"
  shows "\<exists>s'. exec LoadTail s = Inr s' \<and> conc_at xs s'"
  using assms by (simp add: conc_at_def elems_ok_def)

lemma conc_hd_next:
  assumes "conc_at xs s" and "heap s (hd (order s)) = Some n" and "nnext n = Some b"
  shows "(hd (order s), b) \<in> adj (order s)"
proof -
  obtain h M where L: "order s = h # M" using assms(1) by (cases "order s") (auto simp: conc_at_def)
  have c: "chain_ok (heap s) (producer s) (h # M)" using assms(1) L by (simp add: conc_at_def)
  show ?thesis
  proof (cases M)
    case Nil
    then show ?thesis using c assms(2,3) L by (auto simp: chain_ok_def)
  next
    case (Cons k K)
    then have "(h, k) \<in> adj (h # M)" by simp
    with chain_nextD[OF c this] assms(2,3) L show ?thesis by auto
  qed
qed

lemma conc_hd_node: "conc_at xs s \<Longrightarrow> \<exists>n. heap s (hd (order s)) = Some n"
  by (cases "order s") (auto simp: conc_at_def)

lemma conc_LoadNext:
  assumes I: "conc_at xs s" and e: "consumer s = CTail t"
  shows "\<exists>s'. exec LoadNext s = Inr s' \<and> conc_at xs s'"
proof -
  have t: "t = hd (order s)" using I e by (simp add: conc_at_def)
  obtain n where n: "heap s t = Some n" using conc_hd_node[OF I] t by auto
  show ?thesis
  proof (cases "nnext n")
    case None
    then show ?thesis using I e n by (simp add: conc_at_def elems_ok_def loadNext_def node_def)
  next
    case (Some b)
    then have "(t, b) \<in> adj (order s)" using conc_hd_next[OF I] n t by simp
    with Some show ?thesis using I e n by (simp add: conc_at_def elems_ok_def loadNext_def node_def)
  qed
qed

text \<open>The dequeuing thread has found the node \<open>n\<close> behind the dummy node \<open>t\<close>.\<close>

lemma conc_found:
  assumes "conc_at xs s" and "(hd (order s), n) \<in> adj (order s)"
  obtains M x ys nn where "order s = hd (order s) # n # M" and "xs = x # ys"
    and "heap s n = Some nn" and "elem_ok (consumer s) n (ndata nn) x"
proof -
  have d: "distinct (order s)" and ne: "order s \<noteq> []"
    and el: "elems_ok (heap s) (consumer s) (tl (order s)) xs"
    using assms(1) by (simp_all add: conc_at_def)
  obtain k M where L: "order s = hd (order s) # k # M"
    using assms(2) ne by (cases "order s"; cases "tl (order s)") auto
  have "(hd (order s), k) \<in> adj (order s)" by (subst (2) L) simp
  then have "k = n" using adj_fun[OF d] assms(2) by blast
  then have "elems_ok (heap s) (consumer s) (n # M) xs" using el L by (metis list.sel(3))
  then obtain x ys nn where "xs = x # ys" "heap s n = Some nn" "elem_ok (consumer s) n (ndata nn) x"
    by (auto simp: elems_ok_def list_all2_Cons1)
  with that L \<open>k = n\<close> show thesis by metis
qed

text \<open>A step that changes only the element of \<open>n\<close>, and the place the dequeuing thread is at.\<close>

lemma conc_elem_change:
  assumes I: "conc_at (x # ys) s" and L: "order s = t # n # M" and n: "heap s n = Some nn"
    and c: "consumer_ok (heap s) (producer s) (order s) c" "stale c = {}" "stale (consumer s) = {}"
    and d: "elem_ok c n d x"
    and other: "\<And>a v y. a \<noteq> n \<Longrightarrow> elem_ok (consumer s) a v y \<Longrightarrow> elem_ok c a v y"
  shows "conc_at (x # ys) (s\<lparr>heap := (heap s)(n \<mapsto> nn\<lparr>ndata := d\<rparr>), consumer := c\<rparr>)"
proof -
  let ?hp = "(heap s)(n \<mapsto> nn\<lparr>ndata := d\<rparr>)"
  have dist: "distinct (order s)" and P: "producers_ok (heap s) (producer s) (order s)"
    using I by (simp_all add: conc_at_def)
  have nL: "n \<in> set (order s)" "t \<noteq> n" "n \<notin> set M" using L dist by auto
  then have nf: "n \<notin> fresh_nodes (producer s)" using fresh_not_order[OF P] by blast
  have "chain_ok ?hp (producer s) (order s)"
  proof (rule chain_frame)
    show "chain_ok (heap s) (producer s) (order s)" "order s \<noteq> []" using I by (simp_all add: conc_at_def)
  qed (use n in auto)
  moreover have "producers_ok ?hp (producer s) (order s)"
    using P by (rule producers_frame) (use n nf in auto)
  moreover have "elems_ok ?hp c (tl (order s)) (x # ys)"
  proof -
    have "elems_ok (heap s) (consumer s) M ys" using I L by (simp add: conc_at_def elems_ok_def)
    then have "elems_ok ?hp c M ys"
      unfolding elems_ok_def by (rule list.rel_mono_strong) (use nL(3) other in auto)
    then show ?thesis using L d by (simp add: elems_ok_def)
  qed
  moreover have "consumer_ok ?hp (producer s) (order s) c"
    using c(1) nL(2) L by (cases c) auto
  ultimately show ?thesis using I c(2,3) nL(1) by (auto simp: conc_at_def)
qed

lemma conc_MoveData:
  assumes I: "conc_at xs s" and e: "consumer s = CNext t n"
  shows "\<exists>s'. exec MoveData s = Inr s' \<and> conc_at xs s'"
proof -
  have t: "t = hd (order s)" "(hd (order s), n) \<in> adj (order s)" using I e by (auto simp: conc_at_def)
  obtain M x ys nn where L: "order s = t # n # M" and xs: "xs = x # ys" and nn: "heap s n = Some nn"
      and "elem_ok (consumer s) n (ndata nn) x"
    using conc_found[OF I t(2)] t(1) by metis
  then have v: "ndata nn = Value x" using e by simp
  let ?s = "s\<lparr>heap := (heap s)(n \<mapsto> nn\<lparr>ndata := Moved\<rparr>), consumer := CMoved t n x\<rparr>"
  have "conc_at (x # ys) ?s"
    by (rule conc_elem_change) (use I xs L nn e in \<open>auto simp: conc_at_def\<close>)
  moreover have "exec MoveData s = Inr ?s"
    using e nn v by (simp add: moveData_def node_def setNode_def)
  ultimately show ?thesis using xs by blast
qed

lemma conc_DeleteData:
  assumes I: "conc_at xs s" and e: "consumer s = CMoved t n y"
  shows "\<exists>s'. exec DeleteData s = Inr s' \<and> conc_at xs s'"
proof -
  have t: "t = hd (order s)" "(hd (order s), n) \<in> adj (order s)" using I e by (auto simp: conc_at_def)
  obtain M x ys nn where L: "order s = t # n # M" and xs: "xs = x # ys" and nn: "heap s n = Some nn"
      and "elem_ok (consumer s) n (ndata nn) x"
    using conc_found[OF I t(2)] t(1) by metis
  then have v: "ndata nn = Moved" "y = x" using e by auto
  let ?s = "s\<lparr>heap := (heap s)(n \<mapsto> nn\<lparr>ndata := Freed\<rparr>), consumer := CDeleted t n y\<rparr>"
  have "conc_at (x # ys) ?s"
    by (rule conc_elem_change) (use I xs L nn e v in \<open>auto simp: conc_at_def\<close>)
  moreover have "exec DeleteData s = Inr ?s"
    using e nn v by (simp add: deleteData_def node_def setNode_def)
  ultimately show ?thesis using xs by blast
qed

lemma conc_StoreTail:
  assumes I: "conc_at xs s" and e: "consumer s = CDeleted t n y"
  shows "\<exists>s'. exec StoreTail s = Inr s' \<and> conc_at (tl xs) s' \<and> xs = y # tl xs"
proof -
  have t: "t = hd (order s)" "(hd (order s), n) \<in> adj (order s)" using I e by (auto simp: conc_at_def)
  obtain M x ys nn where L: "order s = t # n # M" and xs: "xs = x # ys" and nn: "heap s n = Some nn"
      and "elem_ok (consumer s) n (ndata nn) x"
    using conc_found[OF I t(2)] t(1) by metis
  then have v: "y = x" using e by auto
  let ?P = "producer s" and ?hp = "heap s"
  let ?s = "s\<lparr>tailPtr := n, consumer := CStored t y, order := n # M, dequeued := dequeued s @ [y]\<rparr>"
  have d: "t \<notin> set (n # M)" "n \<notin> set M" using I L by (auto simp: conc_at_def)
  have P: "producers_ok ?hp ?P (t # n # M)" using I L by (simp add: conc_at_def)
  obtain m where m: "?hp t = Some m" "nnext m = Some n" using I e by (auto simp: conc_at_def)
  have "chain_ok ?hp ?P (n # M)" using I L by (simp add: conc_at_def chain_ok_def)
  moreover have "producers_ok ?hp ?P (n # M)"
  proof -
    have "(b, a) \<in> adj (n # M)" if "?P q = PExchanged a b" for q a b
    proof -
      have "(b, a) \<in> adj (t # n # M)" "\<exists>k. ?hp b = Some k \<and> nnext k = None"
        using P that unfolding producers_ok_def by blast+
      then show ?thesis using m by auto
    qed
    then show ?thesis using P unfolding producers_ok_def by auto
  qed
  moreover have "elems_ok ?hp (CStored t y) M ys"
  proof -
    have "elems_ok ?hp (CDeleted t n y) M ys" using I L xs e by (simp add: conc_at_def elems_ok_def)
    then show ?thesis
      unfolding elems_ok_def by (rule list.rel_mono_strong) (use d in \<open>auto split: if_splits\<close>)
  qed
  moreover have "?P p \<noteq> PNode t x" for p x
  proof
    assume "?P p = PNode t x"
    then have "t \<notin> set (t # n # M)" using P unfolding producers_ok_def by blast
    then show False by simp
  qed
  moreover have "dom ?hp = set (n # M) \<union> fresh_nodes ?P \<union> {t}" "enqueued s = (dequeued s @ [y]) @ ys"
    "headPtr s = last (n # M)" "distinct (n # M)"
  proof -
    have "dom ?hp = set (order s) \<union> fresh_nodes ?P \<union> stale (consumer s)" "enqueued s = dequeued s @ xs"
      "headPtr s = last (order s)" "distinct (order s)"
      using I by (simp_all add: conc_at_def)
    then show "dom ?hp = set (n # M) \<union> fresh_nodes ?P \<union> {t}" "enqueued s = (dequeued s @ [y]) @ ys"
      "headPtr s = last (n # M)" "distinct (n # M)"
      unfolding L xs v e by auto
  qed
  ultimately have "conc_at ys ?s" using d unfolding conc_at_def by simp
  moreover have "exec StoreTail s = Inr ?s" using e L by (simp add: storeTail_def)
  ultimately show ?thesis using xs v by auto
qed

lemma conc_DeleteTail:
  assumes I: "conc_at xs s" and e: "consumer s = CStored t x"
  shows "\<exists>s'. exec DeleteTail s = Inr s' \<and> conc_at xs s'"
proof -
  let ?hp = "(heap s)(t := None)" and ?P = "producer s"
  let ?s = "s\<lparr>heap := ?hp, consumer := CIdle\<rparr>"
  have t: "t \<notin> set (order s)" "t \<notin> fresh_nodes ?P" "t \<in> dom (heap s)"
    using I e by (auto simp: conc_at_def fresh_nodes_def)
  have "chain_ok ?hp ?P (order s)"
  proof (rule chain_frame)
    show "chain_ok (heap s) ?P (order s)" "order s \<noteq> []" using I by (simp_all add: conc_at_def)
  qed (use t in auto)
  moreover have "producers_ok (heap s) ?P (order s)" using I by (simp add: conc_at_def)
  then have "producers_ok ?hp ?P (order s)"
    by (rule producers_frame) (use t in \<open>auto simp: fresh_nodes_def\<close>)
  moreover have "elems_ok ?hp CIdle (tl (order s)) xs"
  proof -
    have "elems_ok (heap s) CIdle (tl (order s)) xs" using I e by (simp add: conc_at_def elems_ok_def)
    then show ?thesis by (rule elems_frame) (use t in \<open>auto dest: set_tl\<close>)
  qed
  ultimately have "conc_at xs ?s" using I e t by (auto simp: conc_at_def)
  moreover have "exec DeleteTail s = Inr ?s" using e t(3) by (auto simp: deleteNode_def node_def)
  ultimately show ?thesis by blast
qed

lemma conc_exec:
  assumes "conc_inv s" and "enabled act s"
  shows "\<exists>s'. exec act s = Inr s' \<and> conc_inv s'"
proof -
  obtain xs where I: "conc_at xs s" using assms(1) by (auto simp: conc_inv_def)
  show ?thesis
  proof (cases act)
    case (NewNode p a x)
    then show ?thesis using conc_NewNode[OF I] assms(2) by (auto simp: conc_inv_def)
  next
    case (Exchange p)
    then obtain a x where "producer s p = PNode a x"
      using assms(2) by (auto split: producer_pc.splits)
    from conc_Exchange[OF I this] show ?thesis unfolding Exchange conc_inv_def by blast
  next
    case (Link p)
    then obtain a b where "producer s p = PExchanged a b"
      using assms(2) by (auto split: producer_pc.splits)
    from conc_Link[OF I this] show ?thesis unfolding Link conc_inv_def by blast
  next
    case LoadTail
    then have "consumer s = CIdle" using assms(2) by (auto split: consumer_pc.splits)
    from conc_LoadTail[OF I this] show ?thesis unfolding LoadTail conc_inv_def by blast
  next
    case LoadNext
    then obtain t where "consumer s = CTail t" using assms(2) by (auto split: consumer_pc.splits)
    from conc_LoadNext[OF I this] show ?thesis unfolding LoadNext conc_inv_def by blast
  next
    case MoveData
    then obtain t n where "consumer s = CNext t n" using assms(2) by (auto split: consumer_pc.splits)
    from conc_MoveData[OF I this] show ?thesis unfolding MoveData conc_inv_def by blast
  next
    case DeleteData
    then obtain t n x where "consumer s = CMoved t n x"
      using assms(2) by (auto split: consumer_pc.splits)
    from conc_DeleteData[OF I this] show ?thesis unfolding DeleteData conc_inv_def by blast
  next
    case StoreTail
    then obtain t n x where "consumer s = CDeleted t n x"
      using assms(2) by (auto split: consumer_pc.splits)
    from conc_StoreTail[OF I this] show ?thesis unfolding StoreTail conc_inv_def by blast
  next
    case DeleteTail
    then obtain t x where "consumer s = CStored t x" using assms(2) by (auto split: consumer_pc.splits)
    from conc_DeleteTail[OF I this] show ?thesis unfolding DeleteTail conc_inv_def by blast
  qed
qed

lemma conc_at_new: "conc_at [] (conc_new a)"
  by (simp add: conc_at_def conc_new_def LockFreeQueue_def lfq.extend_def chain_ok_def
      producers_ok_def elems_ok_def fresh_nodes_def)

interpretation lfc: invariant_system conc_init lfq_step conc_inv
proof
  show "conc_inv s" if "conc_init s" for s :: "'a conc"
    using that conc_at_new by (auto simp: conc_init_def conc_inv_def)
  show "conc_inv s'" if "conc_inv s" "lfq_step s s'" for s s' :: "'a conc"
    using that(2,1) conc_exec by (fastforce elim: lfq_step.cases)
qed

text \<open>Runs of given actions, for concrete instances.\<close>

fun run_actions :: "'a action list \<Rightarrow> 'a conc \<Rightarrow> 'a conc option" where
  "run_actions [] s = Some s"
| "run_actions (act # acts) s = (if enabled act s
     then (case exec act s of Inl e \<Rightarrow> None | Inr s' \<Rightarrow> run_actions acts s') else None)"

lemma reach_run:
  "reach conc_init lfq_step s \<Longrightarrow> run_actions acts s = Some s' \<Longrightarrow> reach conc_init lfq_step s'"
proof (induction acts arbitrary: s)
  case Nil
  then show ?case by simp
next
  case (Cons act acts)
  then obtain s1 where "enabled act s" "exec act s = Inr s1" "run_actions acts s1 = Some s'"
    by (auto split: if_splits sum.splits)
  then show ?case using Cons reach_step lfq_step.act by metis
qed

lemma reach_new: "reach conc_init lfq_step (conc_new a)"
  by (rule reach_init) (auto simp: conc_init_def)

lemmas reach_run_new = reach_run[OF reach_new]

section \<open>Properties\<close>

text \<open>
  C10. Whatever the threads have done so far, the next access any of them makes hits a live
  node and a live element: no node is used after its deletion, no element is moved or
  deleted twice, and no null pointer is followed.
\<close>

theorem lockfree_memory_safe:
  assumes "reach conc_init lfq_step s" and "enabled act s"
  shows "\<exists>s'. exec act s = Inr s'"
  using conc_exec[OF lfc.reachable_inv[OF assms(1)] assms(2)] by blast

definition sample_run :: "nat action list" where
  "sample_run = [NewNode 1 10 100, NewNode 2 11 200, Exchange 2, Exchange 1, Link 1, LoadTail]"

definition sample_conc :: "nat conc" where
  "sample_conc = the (run_actions sample_run (conc_new 9))"

lemmas conc_eval = newNode_def node_def setNode_def exchangeHead_def storeNext_def loadNext_def
  moveData_def deleteData_def storeTail_def deleteNode_def conc_new_def LockFreeQueue_def
  lfq.extend_def

lemma sample_reach: "reach conc_init lfq_step sample_conc"
  unfolding sample_conc_def
  by (rule reach_run_new[of sample_run 9]) (simp add: sample_run_def conc_eval)

theorem lockfree_memory_safe_witness:
  "\<exists>s'. exec LoadNext sample_conc = Inr s'"
  by (rule lockfree_memory_safe[OF sample_reach])
    (simp add: sample_conc_def sample_run_def conc_eval)

text \<open>
  C9. First in, first out, across all threads: the elements handed out are the first of
  those enqueued, in the order of the exchanges, and exactly the others are in nodes behind
  the dummy node; the nodes alive are these, the new nodes of threads that are about to
  enqueue them and at most the one dummy node about to be deleted.
\<close>

theorem lockfree_fifo:
  assumes "reach conc_init lfq_step s"
  shows "\<exists>xs. enqueued s = dequeued s @ xs \<and> length (order s) = length xs + 1 \<and>
    distinct (order s) \<and>
    dom (heap s) = set (order s) \<union> fresh_nodes (producer s) \<union> stale (consumer s)"
proof -
  obtain xs where "conc_at xs s"
    using lfc.reachable_inv[OF assms] by (auto simp: conc_inv_def)
  then show ?thesis
    by (cases "order s") (auto simp: conc_at_def elems_ok_def dest: list_all2_lengthD)
qed

theorem lockfree_fifo_witness:
  "\<exists>xs. [200, 100] = dequeued sample_conc @ xs \<and> 3 = length xs + 1"
  using lockfree_fifo[OF sample_reach]
  by (simp add: sample_conc_def sample_run_def conc_eval)

text \<open>
  C31. When \<open>dequeue\<close> answers that the queue is empty, every element enqueued so far has
  been handed out, or a thread is between its exchange and its store to \<open>next_\<close> of the
  dummy node: one such thread hides the elements of all others.
\<close>

theorem lockfree_empty_answer:
  assumes "reach conc_init lfq_step s" and "consumer s = CTail t"
  shows "loadNext t s = Inr None \<longleftrightarrow>
    dequeued s = enqueued s \<or> (\<exists>p a. producer s p = PExchanged a t)"
proof -
  obtain xs where I: "conc_at xs s"
    using lfc.reachable_inv[OF assms(1)] by (auto simp: conc_inv_def)
  have t: "t = hd (order s)" using I assms(2) by (simp add: conc_at_def)
  have P: "producers_ok (heap s) (producer s) (order s)" and C: "chain_ok (heap s) (producer s) (order s)"
    using I by (simp_all add: conc_at_def)
  obtain M where L: "order s = t # M" using I t by (cases "order s") (auto simp: conc_at_def)
  have "list_all2 (\<lambda>a x. \<exists>n. heap s a = Some n \<and> ndata n = Value x) M xs"
    using I L assms(2) by (simp add: conc_at_def elems_ok_def)
  then have len: "length M = length xs" by (rule list_all2_lengthD)
  have "enqueued s = dequeued s @ xs" using I by (simp add: conc_at_def)
  then have fin: "dequeued s = enqueued s \<longleftrightarrow> M = []" using len by auto
  obtain n where n: "heap s t = Some n" using conc_hd_node[OF I] t by auto
  then have load: "loadNext t s = Inr None \<longleftrightarrow> nnext n = None" by (simp add: loadNext_def node_def)
  show ?thesis
  proof (cases M)
    case Nil
    then show ?thesis using C L n load fin by (auto simp: chain_ok_def)
  next
    case (Cons k K)
    then have "(t, k) \<in> adj (order s)" using L by simp
    then have "nnext n = Some k \<or> nnext n = None \<and> (\<exists>p. producer s p = PExchanged k t)"
      by (rule chain_nextD[OF C]) (use n in simp)
    moreover have "nnext n = None" if "producer s p = PExchanged a t" for p a
    proof -
      have "\<exists>m. heap s t = Some m \<and> nnext m = None"
        using P that unfolding producers_ok_def by blast
      then show ?thesis using n by simp
    qed
    ultimately show ?thesis unfolding load fin using Cons by auto
  qed
qed

theorem lockfree_empty_answer_witness:
  "loadNext 9 sample_conc = Inr None \<and> dequeued sample_conc \<noteq> enqueued sample_conc"
  using lockfree_empty_answer[OF sample_reach, of 9]
  by (auto simp: sample_conc_def sample_run_def conc_eval)

text \<open>
  C36. When no thread is inside an operation, the queue is a sequential queue with exactly
  the elements enqueued and not yet handed out: dequeuing until the answer is that the queue
  is empty yields them in order, and the destructor deletes every node.
\<close>

lemma idle_sequential:
  assumes "conc_at xs s" and "\<forall>p. producer s p = PIdle" and "consumer s = CIdle"
  shows "seq_nodes (lfq.truncate s) (order s) xs"
proof -
  have "fresh_nodes (producer s) = {}" using assms(2) by (simp add: fresh_nodes_def)
  then show ?thesis using assms
    by (auto simp: seq_nodes_def lfq.truncate_def conc_at_def linked_def chain_ok_def
        carries_def elems_ok_def)
qed

lemma destroyQueue_ok:
  assumes "seq_holds q xs" and "length xs < n"
  shows "\<exists>q'. destroyQueue n q = Some (Inr q') \<and> heap q' = Map.empty"
proof -
  obtain q' where q': "deq_loop dequeue n q = Some (Inr (xs, q'))" "seq_holds q' []"
    using lfq.deq_loop_law[OF assms] by blast
  then obtain L where L: "seq_nodes q' L []" by (auto simp: seq_holds_def)
  then obtain a where a: "L = [a]" by (cases L) (auto simp: seq_nodes_def carries_def)
  then have d: "dom (heap q') = {a}" "headPtr q' = a" using L by (simp_all add: seq_nodes_def)
  then obtain m where "heap q' a = Some m" by blast
  moreover have "(heap q')(a := None) = Map.empty" using d(1) by (auto simp: fun_eq_iff dom_def)
  ultimately have "deleteNode (headPtr q') q' = Inr (q'\<lparr>heap := Map.empty\<rparr>)"
    using d(2) by (simp add: deleteNode_def node_def)
  with q' show ?thesis by (simp add: destroyQueue_def)
qed

theorem lockfree_quiescent:
  assumes "reach conc_init lfq_step s" and "\<forall>p. producer s p = PIdle" and "consumer s = CIdle"
  shows "\<exists>xs q'. enqueued s = dequeued s @ xs \<and>
    deq_loop dequeue (length xs + 1) (lfq.truncate s) = Some (Inr (xs, q')) \<and>
    destroyQueue (length xs + 1) (lfq.truncate s) = Some (Inr (q'\<lparr>heap := Map.empty\<rparr>))"
proof -
  obtain xs where I: "conc_at xs s"
    using lfc.reachable_inv[OF assms(1)] by (auto simp: conc_inv_def)
  then have h: "seq_holds (lfq.truncate s) xs"
    using idle_sequential assms(2,3) by (auto simp: seq_holds_def)
  obtain q' where q': "deq_loop dequeue (length xs + 1) (lfq.truncate s) = Some (Inr (xs, q'))"
    using lfq.deq_loop_law[OF h, of "length xs + 1"] by auto
  obtain r where r: "destroyQueue (length xs + 1) (lfq.truncate s) = Some (Inr r)" "heap r = Map.empty"
    using destroyQueue_ok[OF h, of "length xs + 1"] by auto
  have "r = q'\<lparr>heap := Map.empty\<rparr>"
    using r q' by (auto simp: destroyQueue_def deleteNode_def res_simps)
  with q' r I show ?thesis by (auto simp: conc_at_def)
qed

definition sample_idle :: "nat conc" where
  "sample_idle = the (run_actions (sample_run @ [LoadNext, Link 2, LoadTail, LoadNext, MoveData,
     DeleteData, StoreTail, DeleteTail]) (conc_new 9))"

lemma sample_idle_reach: "reach conc_init lfq_step sample_idle"
  unfolding sample_idle_def
  by (rule reach_run_new[of "sample_run @ [LoadNext, Link 2, LoadTail, LoadNext, MoveData,
     DeleteData, StoreTail, DeleteTail]" 9]) (simp add: sample_run_def conc_eval)

theorem lockfree_quiescent_witness:
  "\<exists>q'. deq_loop dequeue 2 (lfq.truncate sample_idle) = Some (Inr ([100], q')) \<and>
    destroyQueue 2 (lfq.truncate sample_idle) = Some (Inr (q'\<lparr>heap := Map.empty\<rparr>))"
proof -
  have "dequeued sample_idle = [200]" "enqueued sample_idle = [200, 100]"
    "\<forall>p. producer sample_idle p = PIdle" "consumer sample_idle = CIdle"
    by (simp_all add: sample_idle_def sample_run_def conc_eval)
  moreover from this obtain xs q' where "[200, 100] = [200] @ xs"
    "deq_loop dequeue (length xs + 1) (lfq.truncate sample_idle) = Some (Inr (xs, q'))"
    "destroyQueue (length xs + 1) (lfq.truncate sample_idle) = Some (Inr (q'\<lparr>heap := Map.empty\<rparr>))"
    using lockfree_quiescent[OF sample_idle_reach] by metis
  moreover from this(1) have xs: "xs = [100]" by simp
  moreover have "length xs + 1 = 2" unfolding xs by simp
  ultimately show ?thesis by metis
qed

text \<open>
  For one thread the operations are those of a list: what was enqueued comes out in
  order.
\<close>

theorem lockfree_sequential:
  assumes "distinct (a # map fst ps)"
  shows "\<exists>q q'. enq_all enqueue ps (LockFreeQueue a) = Inr q \<and>
    queue_empty q = Inr (ps = []) \<and>
    deq_loop dequeue (length ps + 1) q = Some (Inr (map snd ps, q')) \<and>
    queue_empty q' = Inr True"
proof -
  have new: "seq_holds (LockFreeQueue a) []" using seq_new unfolding seq_holds_def by blast
  have "seq_addrs (LockFreeQueue a) \<inter> fst ` set ps = {}"
    using assms by (simp add: seq_addrs_def LockFreeQueue_def)
  with lfq.enq_all_law[OF new, of ps] assms obtain q where
    q: "enq_all enqueue ps (LockFreeQueue a) = Inr q" "seq_holds q (map snd ps)" by auto
  obtain q' where
    q': "deq_loop dequeue (length ps + 1) q = Some (Inr (map snd ps, q'))" "seq_holds q' []"
    using lfq.deq_loop_law[OF q(2), of "length ps + 1"] by auto
  have e: "queue_empty r = Inr (xs = [])" if r: "seq_holds r xs" for r :: "'a lfq" and xs
  proof -
    obtain L where L: "seq_nodes r L xs" using r by (auto simp: seq_holds_def)
    then show ?thesis
      by (cases L; cases "tl L") (auto simp: seq_nodes_def linked_def carries_def queue_empty_def
          loadNext_def node_def)
  qed
  show ?thesis using q q' e[OF q(2)] e[OF q'(2)] by auto
qed

theorem lockfree_sequential_witness:
  "\<exists>q q'. enq_all enqueue [(1, ''a''), (2, ''b'')] (LockFreeQueue 0) = Inr q \<and>
    deq_loop dequeue 3 q = Some (Inr ([''a'', ''b''], q'))"
  using lockfree_sequential[of 0 "[(1, ''a''), (2, ''b'')]"] by (auto simp: numeral_3_eq_3)

end
