(* ===== verification/Inet_Address.thy ===== *)
theory Inet_Address
  imports Endian
begin

text \<open>
  \<^verbatim>\<open>src/include/godnet/net/inet_address.hpp\<close> and \<^verbatim>\<open>inet_address.cpp\<close>: a socket address
  of family \<open>AF_INET\<close> or \<open>AF_INET6\<close>.

  The union \<open>addr_\<close> is its 28 bytes, as Linux lays them out: the family at offset 0, the
  port at 2, an IPv4 address at 4, an IPv6 address at 8.  It is zero-initialised, which GCC
  does for all of its bytes.  The host's byte order is a parameter.  \<^verbatim>\<open>inet_pton\<close> and
  \<^verbatim>\<open>inet_ntop\<close> are parameters: they give the bytes of an address, or its text, or fail.
  A \<^verbatim>\<open>string_view\<close> is taken to end with a null byte, which \<^verbatim>\<open>ip.data()\<close> relies on.
\<close>

section \<open>Memory\<close>

type_synonym sockaddr = "byte list"

definition peek :: "nat \<Rightarrow> nat \<Rightarrow> byte list \<Rightarrow> byte list" where
  "peek off n m = take n (drop off m)"

definition poke :: "nat \<Rightarrow> byte list \<Rightarrow> byte list \<Rightarrow> byte list" where
  "poke off bs m = take off m @ bs @ drop (off + length bs) m"

lemma length_poke [simp]: "off + length bs \<le> length m \<Longrightarrow> length (poke off bs m) = length m"
  by (simp add: poke_def)

lemma peek_poke_same [simp]:
  "off \<le> length m \<Longrightarrow> n = length bs \<Longrightarrow> peek off n (poke off bs m) = bs"
  by (simp add: peek_def poke_def)

lemma peek_poke_before:
  "off' + n \<le> off \<Longrightarrow> off \<le> length m \<Longrightarrow> peek off' n (poke off bs m) = peek off' n m"
  by (simp add: peek_def poke_def take_drop)

lemma peek_poke_after:
  "off + length bs \<le> off' \<Longrightarrow> off + length bs \<le> length m \<Longrightarrow> peek off' n (poke off bs m) = peek off' n m"
  by (simp add: peek_def poke_def drop_append)

lemma peek_zero: "off + n \<le> k \<Longrightarrow> peek off n (replicate k 0) = replicate n 0"
  by (simp add: peek_def)

named_theorems mem_simps \<open>the fields of a socket address\<close>

lemmas [mem_simps] = peek_poke_before peek_poke_after peek_zero

section \<open>Constants of the platform\<close>

definition AF_INET :: "16 word" where "AF_INET = 2"
definition AF_INET6 :: "16 word" where "AF_INET6 = 10"
definition INADDR_ANY :: "32 word" where "INADDR_ANY = 0"
definition INADDR_LOOPBACK :: "32 word" where "INADDR_LOOPBACK = 0x7f000001"
definition in6addr_any :: "byte list" where "in6addr_any = replicate 16 0"
definition in6addr_loopback :: "byte list" where "in6addr_loopback = replicate 15 0 @ [1]"

definition addr_zero :: sockaddr where "addr_zero = replicate 28 0"

section \<open>Construction\<close>

definition set_family :: "host \<Rightarrow> 16 word \<Rightarrow> sockaddr \<Rightarrow> sockaddr" where
  "set_family h f m = poke 0 (store h 2 f) m"

definition set_port :: "host \<Rightarrow> 16 word \<Rightarrow> sockaddr \<Rightarrow> sockaddr" where
  "set_port h p m = poke 2 (store h 2 p) m"

definition InetAddress :: "host \<Rightarrow> 16 word \<Rightarrow> bool \<Rightarrow> bool \<Rightarrow> sockaddr" where
  "InetAddress h port loopback ipv6 =
     (if ipv6
      then poke 8 (if loopback then in6addr_loopback else in6addr_any)
        (set_port h (hostToNetwork16 h port) (set_family h AF_INET6 addr_zero))
      else poke 4 (store h 4 (if loopback then INADDR_LOOPBACK else INADDR_ANY))
        (set_port h (hostToNetwork16 h port) (set_family h AF_INET addr_zero)))"

type_synonym pton = "16 word \<Rightarrow> string \<Rightarrow> byte list option"
type_synonym ntop = "16 word \<Rightarrow> byte list \<Rightarrow> string option"

definition InetAddressIp :: "host \<Rightarrow> pton \<Rightarrow> string \<Rightarrow> 16 word \<Rightarrow> bool \<Rightarrow> sockaddr" where
  "InetAddressIp h inet_pton ip port ipv6 =
     (if ipv6
      then (case inet_pton AF_INET6 ip of
          Some bs \<Rightarrow> set_port h (hostToNetwork16 h port) (set_family h AF_INET6 (poke 8 bs addr_zero))
        | None \<Rightarrow> addr_zero)
      else (case inet_pton AF_INET ip of
          Some bs \<Rightarrow> set_port h (hostToNetwork16 h port) (set_family h AF_INET (poke 4 bs addr_zero))
        | None \<Rightarrow> addr_zero))"

definition V4 :: "host \<Rightarrow> sockaddr" where
  "V4 h = InetAddress h 0 False False"
definition V4Ip :: "host \<Rightarrow> pton \<Rightarrow> string \<Rightarrow> 16 word \<Rightarrow> sockaddr" where
  "V4Ip h inet_pton ip port = InetAddressIp h inet_pton ip port False"
definition V4Any :: "host \<Rightarrow> 16 word \<Rightarrow> sockaddr" where
  "V4Any h port = InetAddress h port False False"
definition V4Loopback :: "host \<Rightarrow> 16 word \<Rightarrow> sockaddr" where
  "V4Loopback h port = InetAddress h port True False"
definition V6 :: "host \<Rightarrow> sockaddr" where
  "V6 h = InetAddress h 0 False True"
definition V6Ip :: "host \<Rightarrow> pton \<Rightarrow> string \<Rightarrow> 16 word \<Rightarrow> sockaddr" where
  "V6Ip h inet_pton ip port = InetAddressIp h inet_pton ip port True"
definition V6Any :: "host \<Rightarrow> 16 word \<Rightarrow> sockaddr" where
  "V6Any h port = InetAddress h port False True"
definition V6Loopback :: "host \<Rightarrow> 16 word \<Rightarrow> sockaddr" where
  "V6Loopback h port = InetAddress h port True True"

section \<open>Queries\<close>

definition family :: "host \<Rightarrow> sockaddr \<Rightarrow> 16 word" where
  "family h m = load h (peek 0 2 m)"

definition isV4 :: "host \<Rightarrow> sockaddr \<Rightarrow> bool" where
  "isV4 h m \<longleftrightarrow> family h m = AF_INET"
definition isV6 :: "host \<Rightarrow> sockaddr \<Rightarrow> bool" where
  "isV6 h m \<longleftrightarrow> family h m = AF_INET6"
definition isValid :: "host \<Rightarrow> sockaddr \<Rightarrow> bool" where
  "isValid h m \<longleftrightarrow> isV4 h m \<or> isV6 h m"

definition s_addr :: "host \<Rightarrow> sockaddr \<Rightarrow> 32 word" where
  "s_addr h m = load h (peek 4 4 m)"

definition isAny :: "host \<Rightarrow> sockaddr \<Rightarrow> bool" where
  "isAny h m = (if isV4 h m then s_addr h m = INADDR_ANY else peek 8 16 m = in6addr_any)"

definition isLoopback :: "host \<Rightarrow> sockaddr \<Rightarrow> bool" where
  "isLoopback h m = (if isV4 h m then s_addr h m = INADDR_LOOPBACK
     else peek 8 16 m = in6addr_loopback)"

text \<open>The buffer keeps its null bytes when \<^verbatim>\<open>inet_ntop\<close> fails.\<close>

definition toIp :: "host \<Rightarrow> ntop \<Rightarrow> sockaddr \<Rightarrow> string" where
  "toIp h inet_ntop m =
     (case inet_ntop (family h m) (if isV4 h m then peek 4 4 m else peek 8 16 m) of
        Some s \<Rightarrow> s | None \<Rightarrow> [])"

definition sin_port :: "host \<Rightarrow> sockaddr \<Rightarrow> 16 word" where
  "sin_port h m = load h (peek 2 2 m)"

definition toPort :: "host \<Rightarrow> sockaddr \<Rightarrow> 16 word" where
  "toPort h m = networkToHost16 h (sin_port h m)"

text \<open>Decimal digits, as the format \<^verbatim>\<open>{}\<close> prints an unsigned integer.\<close>

fun decimal :: "nat \<Rightarrow> string" where
  "decimal n = (if n < 10 then [char_of (48 + n)] else decimal (n div 10) @ [char_of (48 + n mod 10)])"

declare decimal.simps [simp del]

definition toIpPort :: "host \<Rightarrow> ntop \<Rightarrow> sockaddr \<Rightarrow> string" where
  "toIpPort h inet_ntop m = toIp h inet_ntop m @ '':'' @ decimal (unat (toPort h m))"

text \<open>\<open>same\<close>: the operands are one object.\<close>

definition inet_eq :: "host \<Rightarrow> bool \<Rightarrow> sockaddr \<Rightarrow> sockaddr \<Rightarrow> bool" where
  "inet_eq h same l p =
     (if same then True
      else if isV4 h l \<and> isV4 h p then s_addr h l = s_addr h p \<and> sin_port h l = sin_port h p
      else if isV6 h l \<and> isV6 h l then sin_port h l = sin_port h p \<and> peek 8 16 l = peek 8 16 p
      else False)"

section \<open>Fields of the addresses the constructors make\<close>

lemmas construct_defs = InetAddress_def InetAddressIp_def V4_def V4Ip_def V4Any_def V4Loopback_def
  V6_def V6Ip_def V6Any_def V6Loopback_def set_family_def set_port_def addr_zero_def
lemmas query_defs = family_def isV4_def isV6_def isValid_def s_addr_def sin_port_def toPort_def
lemmas const_defs = AF_INET_def AF_INET6_def INADDR_ANY_def INADDR_LOOPBACK_def

lemma length_in6 [simp]: "length in6addr_any = 16" "length in6addr_loopback = 16"
  by (simp_all add: in6addr_any_def in6addr_loopback_def)

lemma loopback_not_any: "in6addr_loopback \<noteq> in6addr_any"
  by (simp add: in6addr_any_def in6addr_loopback_def numeral_eq_Suc)

lemma length_InetAddress [simp]: "length (InetAddress h port lo v6) = 28"
  by (simp add: construct_defs)

lemma InetAddress_fields:
  "family h (InetAddress h port lo v6) = (if v6 then AF_INET6 else AF_INET)"
  "sin_port h (InetAddress h port lo v6) = hostToNetwork16 h port"
  "\<not> v6 \<Longrightarrow> s_addr h (InetAddress h port lo v6) = (if lo then INADDR_LOOPBACK else INADDR_ANY)"
  "v6 \<Longrightarrow> peek 8 16 (InetAddress h port lo v6) = (if lo then in6addr_loopback else in6addr_any)"
  "\<not> v6 \<Longrightarrow> peek 8 16 (InetAddress h port lo v6) = in6addr_any"
  by (simp_all add: construct_defs query_defs mem_simps in6addr_any_def)

lemma InetAddressIp_fields:
  assumes "inet_pton (if v6 then AF_INET6 else AF_INET) ip = Some bs" and "length bs = (if v6 then 16 else 4)"
    and "m = InetAddressIp h inet_pton ip port v6"
  shows "family h m = (if v6 then AF_INET6 else AF_INET)" and "sin_port h m = hostToNetwork16 h port"
    and "v6 \<Longrightarrow> peek 8 16 m = bs" and "\<not> v6 \<Longrightarrow> peek 4 4 m = bs"
    and "\<not> v6 \<Longrightarrow> peek 8 16 m = in6addr_any"
  using assms by (auto simp: construct_defs query_defs mem_simps in6addr_any_def)

lemma port_roundtrip [simp]: "networkToHost16 h (hostToNetwork16 h p) = p"
  by (rule order16.to_from)

lemma family_neq [simp]: "AF_INET \<noteq> AF_INET6" "AF_INET6 \<noteq> AF_INET"
  by (simp_all add: AF_INET_def AF_INET6_def)

section \<open>Decimal numbers\<close>

definition undecimal :: "string \<Rightarrow> nat" where
  "undecimal s = foldl (\<lambda>n c. n * 10 + (of_char c - 48)) 0 s"

lemma undecimal_decimal: "undecimal (decimal n) = n"
proof (induction n rule: decimal.induct)
  case (1 n)
  have d: "(of_char (char_of (48 + k)) :: nat) - 48 = k" if "k < 10" for k
    using that by (simp add: of_char_of)
  show ?case
  proof (cases "n < 10")
    case True
    then show ?thesis using d[of n] by (subst decimal.simps) (simp add: undecimal_def)
  next
    case False
    then have "undecimal (decimal n) = undecimal (decimal (n div 10)) * 10 + n mod 10"
      using d[of "n mod 10"] by (subst decimal.simps) (simp add: undecimal_def)
    then show ?thesis using 1 False by simp
  qed
qed

lemma decimal_inj: "decimal m = decimal n \<longleftrightarrow> m = n"
  by (metis undecimal_decimal)

section \<open>Properties\<close>

text \<open>
  The addresses made from a port alone, on either host: they are valid and of the
  family asked for, give the port back, and answer the questions for the wildcard and the
  loopback address the way they were made.
\<close>

theorem inet_factories:
  "isValid h (InetAddress h port lo v6) \<and> isV6 h (InetAddress h port lo v6) = v6 \<and>
   isV4 h (InetAddress h port lo v6) = (\<not> v6) \<and> toPort h (InetAddress h port lo v6) = port \<and>
   isAny h (InetAddress h port lo v6) = (\<not> lo) \<and> isLoopback h (InetAddress h port lo v6) = lo"
  using loopback_not_any
  by (auto simp: isValid_def isV4_def isV6_def toPort_def isAny_def isLoopback_def InetAddress_fields
      INADDR_ANY_def INADDR_LOOPBACK_def)

text \<open>
  C38. An address made from a text that \<^verbatim>\<open>inet_pton\<close> accepts prints as that text, a colon
  and the port in decimal, when \<^verbatim>\<open>inet_ntop\<close> gives that text back; the printed port
  determines the port.
\<close>

theorem inet_text_roundtrip:
  assumes "inet_pton (if v6 then AF_INET6 else AF_INET) ip = Some bs"
    and "length bs = (if v6 then 16 else 4)"
    and "inet_ntop (if v6 then AF_INET6 else AF_INET) bs = Some ip"
  shows "toIpPort h inet_ntop (InetAddressIp h inet_pton ip port v6) = ip @ '':'' @ decimal (unat port)
    \<and> isValid h (InetAddressIp h inet_pton ip port v6)
    \<and> (toIpPort h inet_ntop (InetAddressIp h inet_pton ip port v6) =
       toIpPort h inet_ntop (InetAddressIp h inet_pton ip port' v6) \<longleftrightarrow> port = port')"
proof -
  have "toIpPort h inet_ntop (InetAddressIp h inet_pton ip p v6) = ip @ '':'' @ decimal (unat p)" for p
    using InetAddressIp_fields[of inet_pton v6 ip bs _ h p, OF assms(1,2) refl] assms(3)
    by (cases v6) (simp_all add: toIpPort_def toIp_def toPort_def isV4_def)
  moreover have "isValid h (InetAddressIp h inet_pton ip port v6)"
    using InetAddressIp_fields(1)[of inet_pton v6 ip bs _ h port, OF assms(1,2) refl]
    by (simp add: isValid_def isV4_def isV6_def)
  ultimately show ?thesis by (simp add: decimal_inj word_unat_eq_iff)
qed

text \<open>The witness: a table of one address stands for the library's functions.\<close>

definition pton_local :: pton where
  "pton_local f s = (if f = AF_INET \<and> s = ''127.0.0.1'' then Some [127, 0, 0, 1] else None)"

definition ntop_local :: ntop where
  "ntop_local f bs = (if f = AF_INET \<and> bs = [127, 0, 0, 1] then Some ''127.0.0.1'' else None)"

theorem inet_text_roundtrip_witness:
  "toIpPort Little ntop_local (InetAddressIp Little pton_local ''127.0.0.1'' 8080 False) = ''127.0.0.1:8080''"
proof -
  have "decimal 8080 = ''8080''" by (simp add: decimal.simps char_of_def bit_0 bit_Suc)
  then show ?thesis
    using inet_text_roundtrip[of pton_local False "''127.0.0.1''" "[127, 0, 0, 1]" ntop_local Little 8080 8080]
    by (simp add: pton_local_def ntop_local_def)
qed

text \<open>
  \<^verbatim>\<open>INADDR_LOOPBACK\<close> is stored without conversion: on a little-endian host the
  IPv4 loopback address is 1.0.0.127, and an address parsed from the bytes of 127.0.0.1 is not
  taken for the loopback address; on a big-endian host both are right.
\<close>

theorem inet_loopback_order:
  assumes "inet_pton AF_INET ip = Some [127, 0, 0, 1]"
  shows "peek 4 4 (V4Loopback h port) = (if h = Little then [1, 0, 0, 127] else [127, 0, 0, 1]) \<and>
    isLoopback h (V4Ip h inet_pton ip port) = (h = Big)"
proof -
  have s: "store h 4 INADDR_LOOPBACK = (if h = Little then [1, 0, 0, 127] else [127, 0, 0, 1])"
    by (cases h) (simp_all add: INADDR_LOOPBACK_def le_bytes_def be_bytes_def upt_rec)
  have "peek 4 4 (V4Loopback h port) = store h 4 INADDR_LOOPBACK"
    by (simp add: construct_defs)
  moreover have "isLoopback h (V4Ip h inet_pton ip port) \<longleftrightarrow> load h [127, 0, 0, 1] = INADDR_LOOPBACK"
    using InetAddressIp_fields[of inet_pton False ip "[127, 0, 0, 1]" _ h port] assms
    by (simp add: V4Ip_def isLoopback_def isV4_def s_addr_def)
  moreover have "load h [127, 0, 0, 1] = INADDR_LOOPBACK \<longleftrightarrow> h = Big"
    by (cases h) (simp_all add: INADDR_LOOPBACK_def be_val_def)
  ultimately show ?thesis using s by simp
qed

theorem inet_loopback_order_witness:
  "peek 4 4 (V4Loopback Little 80) = [1, 0, 0, 127] \<and>
   \<not> isLoopback Little (V4Ip Little pton_local ''127.0.0.1'' 80)"
  using inet_loopback_order[of pton_local "''127.0.0.1''" Little 80] by (simp add: pton_local_def)

text \<open>Reading four bytes, or comparing the four bytes themselves, is the same.\<close>

lemma s_addr_eq:
  assumes "length (peek 4 4 l) = 4" and "length (peek 4 4 p) = 4"
  shows "s_addr h l = s_addr h p \<longleftrightarrow> peek 4 4 l = peek 4 4 p"
proof
  assume "s_addr h l = s_addr h p"
  then have "store h 4 (s_addr h l) = store h 4 (s_addr h p)" by simp
  with assms show "peek 4 4 l = peek 4 4 p"
    using store_load[of "peek 4 4 l" h, where 'a = 32] store_load[of "peek 4 4 p" h, where 'a = 32]
    by (simp add: s_addr_def)
qed (simp add: s_addr_def)

text \<open>
  C39. Comparison of two different objects, each made from any text that \<^verbatim>\<open>inet_pton\<close>
  accepts, is equality of all the bytes of the address and of the port when both have the same
  family.  When the families differ, an IPv4 address on the left is never equal, but an
  IPv6 address on the left is compared with the bytes of the IPv4 object that lie where an IPv6
  address would, which are zero: the IPv6 wildcard equals every IPv4 address with the same port.
\<close>

theorem inet_comparison:
  assumes "inet_pton (if v6 then AF_INET6 else AF_INET) ip = Some a"
    and "length a = (if v6 then 16 else 4)"
    and "inet_pton (if v6' then AF_INET6 else AF_INET) ip' = Some a'"
    and "length a' = (if v6' then 16 else 4)"
  shows "inet_eq h False (InetAddressIp h inet_pton ip p v6) (InetAddressIp h inet_pton ip' p' v6') \<longleftrightarrow>
    p = p' \<and> (if v6 = v6' then a = a' else v6 \<and> a = replicate 16 0)"
proof -
  let ?l = "InetAddressIp h inet_pton ip p v6" and ?r = "InetAddressIp h inet_pton ip' p' v6'"
  note l = InetAddressIp_fields[of inet_pton v6 ip a ?l h p, OF assms(1,2) refl]
  note r = InetAddressIp_fields[of inet_pton v6' ip' a' ?r h p', OF assms(3,4) refl]
  have v4: "s_addr h ?l = s_addr h ?r \<longleftrightarrow> a = a'" if "\<not> v6" "\<not> v6'"
    using that l(4) r(4) assms(2,4) by (simp add: s_addr_eq)
  show ?thesis
    using l r v4
    by (cases v6; cases v6')
      (auto simp: inet_eq_def isV4_def isV6_def order16.toNet_inj in6addr_any_def)
qed

text \<open>The witness: 127.0.0.1 and the IPv6 wildcard, told apart from one side only.\<close>

definition pton_two :: pton where
  "pton_two f s = (if f = AF_INET \<and> s = ''127.0.0.1'' then Some [127, 0, 0, 1]
     else if f = AF_INET6 \<and> s = ''::'' then Some (replicate 16 0) else None)"

theorem inet_comparison_witness:
  "inet_eq Little False (InetAddressIp Little pton_two ''::'' 80 True)
     (InetAddressIp Little pton_two ''127.0.0.1'' 80 False) \<and>
   \<not> inet_eq Little False (InetAddressIp Little pton_two ''127.0.0.1'' 80 False)
     (InetAddressIp Little pton_two ''::'' 80 True)"
  using inet_comparison[of pton_two True "''::''" "replicate 16 0" False "''127.0.0.1''" "[127, 0, 0, 1]" Little 80 80]
    inet_comparison[of pton_two False "''127.0.0.1''" "[127, 0, 0, 1]" True "''::''" "replicate 16 0" Little 80 80]
  by (simp add: pton_two_def)

end
