(* ===== verification/Loop_Registry.thy ===== *)
theory Loop_Registry
  imports Event_Loop
begin

text \<open>
  The loops of a process and the thread-local pointer \<^verbatim>\<open>currentThreadLoop\<close> of
  \<^verbatim>\<open>src/include/godnet/net/event_loop.cpp\<close>: each thread has at most one loop, which \<^verbatim>\<open>GetLoop\<close> finds.
\<close>

section \<open>State and operations\<close>

text \<open>The loops by their address, and each thread's copy of the pointer.\<close>

record 'f process =
  loops :: "nat \<rightharpoonup> 'f loop"
  currentThreadLoop :: "nat \<rightharpoonup> nat"

definition GetLoop :: "nat \<Rightarrow> ('f, 'z) process_scheme \<Rightarrow> nat option" where
  "GetLoop cur p = currentThreadLoop p cur"

text \<open>The constructor and the destructor of a loop at address \<open>a\<close>, with what they do to the pointer.\<close>

definition makeLoop :: "build \<Rightarrow> nat \<Rightarrow> nat \<Rightarrow> nat \<Rightarrow> int \<Rightarrow> nat \<Rightarrow> int \<Rightarrow> ('f, 'z) process_scheme \<Rightarrow> ('f, 'z) process_scheme res" where
  "makeLoop bd cur a c f n now p = asserting bd (currentThreadLoop p cur = None)
     (res_bind (EventLoop bd cur c f n now) (\<lambda>l.
        Inr (p\<lparr>loops := (loops p)(a \<mapsto> l), currentThreadLoop := (currentThreadLoop p)(cur \<mapsto> a)\<rparr>)))"

definition dropLoop :: "build \<Rightarrow> nat \<Rightarrow> nat \<Rightarrow> nat \<Rightarrow> ('f, 'z) process_scheme \<Rightarrow> ('f, 'z) process_scheme res" where
  "dropLoop bd cur a c p = (case loops p a of None \<Rightarrow> Inl Dangling | Some l \<Rightarrow>
     res_bind (destroyLoop bd cur c l) (\<lambda>_.
       Inr (p\<lparr>loops := (loops p)(a := None), currentThreadLoop := (currentThreadLoop p)(cur := None)\<rparr>)))"

section \<open>The loops of a process\<close>

text \<open>Loops are made at free addresses, used, and destroyed; no use changes the thread of a loop.\<close>

inductive process_step :: "build \<Rightarrow> 'f process \<Rightarrow> 'f process \<Rightarrow> bool" for bd where
  ps_make: "loops p a = None \<Longrightarrow> makeLoop bd cur a c f n now p = Inr p' \<Longrightarrow> process_step bd p p'"
| ps_drop: "dropLoop bd cur a c p = Inr p' \<Longrightarrow> process_step bd p p'"
| ps_use: "loops p a = Some l \<Longrightarrow> threadId l' = threadId l \<Longrightarrow> p' = p\<lparr>loops := (loops p)(a \<mapsto> l')\<rparr> \<Longrightarrow> process_step bd p p'"

definition process_inv :: "'f process \<Rightarrow> bool" where
  "process_inv p \<longleftrightarrow> (\<forall>t a. GetLoop t p = Some a \<longleftrightarrow> (\<exists>l. loops p a = Some l \<and> threadId l = t))"

lemma EventLoop_thread: "EventLoop bd cur c f n now = Inr l \<Longrightarrow> threadId l = cur"
  by (auto simp: EventLoop_def with_channel_def res_simps split: option.splits)

lemma process_inv_step:
  assumes "process_inv p" and "process_step Debug p p'"
  shows "process_inv p'"
  using assms(2)
proof cases
  case (ps_make a cur c f n now)
  then obtain l where l: "currentThreadLoop p cur = None" "threadId l = cur"
      "p' = p\<lparr>loops := (loops p)(a \<mapsto> l), currentThreadLoop := (currentThreadLoop p)(cur \<mapsto> a)\<rparr>"
    by (auto simp: makeLoop_def res_simps dest: EventLoop_thread)
  have inv: "currentThreadLoop p t = Some b \<longleftrightarrow> (\<exists>l. loops p b = Some l \<and> threadId l = t)" for t b
    using assms(1) by (simp add: process_inv_def GetLoop_def)
  have "currentThreadLoop p t \<noteq> Some a" for t using inv[of t a] ps_make(1) by simp
  moreover have "loops p b = Some k \<Longrightarrow> threadId k \<noteq> cur" for b k using inv[of cur b] l(1) by simp
  ultimately show ?thesis using l inv by (auto simp: process_inv_def GetLoop_def)
next
  case (ps_drop cur a c)
  then obtain l where l: "loops p a = Some l" "threadId l = cur"
      "p' = p\<lparr>loops := (loops p)(a := None), currentThreadLoop := (currentThreadLoop p)(cur := None)\<rparr>"
    by (auto simp: dropLoop_def destroyLoop_def isInLoopThread_def res_simps split: option.splits)
  have inv: "currentThreadLoop p t = Some b \<longleftrightarrow> (\<exists>l. loops p b = Some l \<and> threadId l = t)" for t b
    using assms(1) by (simp add: process_inv_def GetLoop_def)
  have one: "threadId k \<noteq> cur" if "loops p b = Some k" "b \<noteq> a" for b k
    using inv[of cur b] inv[of cur a] l(1,2) that by auto
  have other: "currentThreadLoop p t \<noteq> Some a" if "t \<noteq> cur" for t using inv[of t a] that l(1,2) by simp
  have "currentThreadLoop p' t = Some b \<longleftrightarrow> (\<exists>k. loops p' b = Some k \<and> threadId k = t)" for t b
    using inv[of t b] one[of b] other[of t] unfolding l(3) by (cases "t = cur"; cases "b = a") auto
  then show ?thesis by (simp add: process_inv_def GetLoop_def)
next
  case (ps_use a l l')
  then show ?thesis using assms(1) by (auto simp: process_inv_def GetLoop_def)
qed

interpretation ps: invariant_system "\<lambda>p. p = \<lparr>loops = Map.empty, currentThreadLoop = Map.empty\<rparr>" "process_step Debug" process_inv
  by unfold_locales (simp add: process_inv_def GetLoop_def, rule process_inv_step)

text \<open>
  So in a Debug build, whatever loops are made, used and destroyed on any threads, \<^verbatim>\<open>GetLoop\<close> returns the
  loop of the thread, or null if it has none, and a thread has at most one.
\<close>

lemma one_loop_per_thread:
  assumes "reach (\<lambda>p. p = \<lparr>loops = Map.empty, currentThreadLoop = Map.empty\<rparr>) (process_step Debug) p"
  shows "GetLoop t p = Some a \<longleftrightarrow> (\<exists>l. loops p a = Some l \<and> threadId l = t)"
    and "loops p a = Some l \<Longrightarrow> loops p b = Some k \<Longrightarrow> threadId l = threadId k \<Longrightarrow> a = b"
proof -
  have i: "process_inv p" by (rule ps.reachable_inv[OF assms])
  then show "GetLoop t p = Some a \<longleftrightarrow> (\<exists>l. loops p a = Some l \<and> threadId l = t)" by (simp add: process_inv_def)
  show "a = b" if "loops p a = Some l" "loops p b = Some k" "threadId l = threadId k"
  proof -
    have "GetLoop (threadId l) p = Some a" "GetLoop (threadId l) p = Some b" using i that by (auto simp: process_inv_def)
    then show ?thesis by simp
  qed
qed

end
