(* ===== verification/Loop_Thread.thy ===== *)
theory Loop_Thread
  imports Loop_System
begin

text \<open>
  \<^verbatim>\<open>src/include/godnet/net/event_loop_thread.hpp\<close>, \<^verbatim>\<open>event_loop_thread.cpp\<close>,
  \<^verbatim>\<open>event_loop_thread_pool.hpp\<close> and \<^verbatim>\<open>event_loop_thread_pool.cpp\<close>: an event loop on a
  thread of its own, and a pool of them.

  The thread's function is a function on the state of its loop, extended by what it shares with the thread that
  started it: the pointer \<open>loop_\<close> and the promise.  The loop is on the thread's stack, at an address that is
  an argument.
\<close>

section \<open>The thread's function\<close>

text \<open>\<open>Announce\<close> is the function the new thread queues before it starts its loop.\<close>

datatype 'f tfunc = Announce nat | ThreadUser 'f

record 'f lthread = "'f tfunc loop" +
  loopPtr :: "nat option"
  promiseSet :: bool

fun thread_call :: "('f \<Rightarrow> 'f lthread \<Rightarrow> 'f lthread res) \<Rightarrow> 'f tfunc \<Rightarrow> 'f lthread \<Rightarrow> 'f lthread res" where
  "thread_call user (Announce l) s = Inr (s\<lparr>loopPtr := Some l, promiseSet := True\<rparr>)"
| "thread_call user (ThreadUser f) s = user f s"

text \<open>
  Up to \<open>loop.start()\<close>, and the whole function: \<open>c\<close>, \<open>f\<close>, \<open>n\<close> and \<open>now\<close> are the arguments of
  \<open>EventLoop\<close>, \<open>fuel\<close> and \<open>env\<close> those of \<open>start\<close>.
\<close>

definition threadBegin :: "build \<Rightarrow> nat \<Rightarrow> nat \<Rightarrow> nat \<Rightarrow> int \<Rightarrow> nat \<Rightarrow> int \<Rightarrow> 'f lthread res" where
  "threadBegin bd cur l c f n now = res_bind (EventLoop bd cur c f n now) (\<lambda>loop.
     queueInLoop bd cur (Announce l) (loop.extend loop \<lparr>loopPtr = None, promiseSet = False\<rparr>))"

text \<open>After \<open>loop.start()\<close>: the pointer is cleared, and the loop is destroyed at the end of its scope.\<close>

definition threadEnd :: "build \<Rightarrow> nat \<Rightarrow> nat \<Rightarrow> 'f lthread \<Rightarrow> 'f lthread res" where
  "threadEnd bd cur c s = destroyLoop bd cur c (s\<lparr>loopPtr := None\<rparr>)"

definition threadMain :: "('f \<Rightarrow> 'f lthread \<Rightarrow> 'f lthread res) \<Rightarrow> (nat \<Rightarrow> 'f lthread \<Rightarrow> bool) \<Rightarrow> build \<Rightarrow> nat \<Rightarrow>
    nat \<Rightarrow> nat \<Rightarrow> int \<Rightarrow> nat \<Rightarrow> int \<Rightarrow> nat \<Rightarrow> (nat \<times> (nat \<times> 32 word) list option) list \<Rightarrow> 'f lthread option res" where
  "threadMain user locked bd cur l c f n now fuel env = res_bind (threadBegin bd cur l c f n now) (\<lambda>s.
     res_bind (start (thread_call user) locked bd cur fuel env s) (\<lambda>r. case r of
       None \<Rightarrow> Inr None
     | Some s1 \<Rightarrow> res_bind (threadEnd bd cur c s1) (\<lambda>s2. Inr (Some s2))))"

section \<open>EventLoopThread\<close>

text \<open>
  What the other threads see of it: \<open>elLoop\<close> is the \<open>loopPtr\<close> the thread's function stores.  \<open>start\<close> returns when the promise is set, which is when \<open>loop_\<close> holds the
  address of the new thread's loop; \<open>stop\<close> stops the loop and waits for the thread, which ends with \<open>loop_\<close> null.  The
  loop may also end because one of its own functions stopped it.  Assigning to a joinable \<^verbatim>\<open>std::thread\<close> terminates the
  process, and so does the exception of joining a thread from itself.
\<close>

record elthread =
  joinable :: bool
  elLoop :: "nat option"

definition EventLoopThread :: elthread where
  "EventLoopThread = \<lparr>joinable = False, elLoop = None\<rparr>"

definition elStart :: "build \<Rightarrow> nat \<Rightarrow> elthread \<Rightarrow> elthread res" where
  "elStart bd l t = asserting bd (\<not> joinable t) (guarding Terminated (\<not> joinable t)
     (Inr (t\<lparr>joinable := True, elLoop := Some l\<rparr>)))"

definition loopEnds :: "elthread \<Rightarrow> elthread" where
  "loopEnds t = t\<lparr>elLoop := None\<rparr>"

text \<open>\<open>other\<close>: the caller is not the loop's thread.\<close>

definition elStop :: "build \<Rightarrow> bool \<Rightarrow> elthread \<Rightarrow> elthread res" where
  "elStop bd other t = asserting bd (elLoop t \<noteq> None)
     (if elLoop t = None then Inl Null_Deref
      else asserting bd other (asserting bd (joinable t) (guarding Terminated (other \<and> joinable t)
        (Inr ((loopEnds t)\<lparr>joinable := False\<rparr>)))))"

definition elGetLoop :: "build \<Rightarrow> elthread \<Rightarrow> nat option res" where
  "elGetLoop bd t = asserting bd (elLoop t \<noteq> None) (Inr (elLoop t))"

definition elDestroy :: "build \<Rightarrow> bool \<Rightarrow> elthread \<Rightarrow> elthread res" where
  "elDestroy bd other t = (if joinable t then elStop bd other t else Inr t)"

section \<open>EventLoopThreadPool\<close>

record pool =
  loopThreads :: "elthread list"
  loops :: "nat option list"
  index :: nat

definition EventLoopThreadPool :: "nat \<Rightarrow> pool" where
  "EventLoopThreadPool threadNum = \<lparr>loopThreads = replicate threadNum EventLoopThread, loops = [], index = 0\<rparr>"

fun startThreads :: "build \<Rightarrow> nat list \<Rightarrow> elthread list \<Rightarrow> elthread list res" where
  "startThreads bd ls [] = Inr []"
| "startThreads bd ls (t # ts) = res_bind (elStart bd (hd ls) t) (\<lambda>t1.
     res_bind (startThreads bd (tl ls) ts) (\<lambda>ts1. Inr (t1 # ts1)))"

fun getLoops :: "build \<Rightarrow> elthread list \<Rightarrow> nat option list res" where
  "getLoops bd [] = Inr []"
| "getLoops bd (t # ts) = res_bind (elGetLoop bd t) (\<lambda>l. res_bind (getLoops bd ts) (\<lambda>ls. Inr (l # ls)))"

fun stopThreads :: "build \<Rightarrow> bool \<Rightarrow> elthread list \<Rightarrow> elthread list res" where
  "stopThreads bd other [] = Inr []"
| "stopThreads bd other (t # ts) = res_bind (elStop bd other t) (\<lambda>t1.
     res_bind (stopThreads bd other ts) (\<lambda>ts1. Inr (t1 # ts1)))"

text \<open>\<open>ls\<close>: the addresses of the loops the threads make.\<close>

definition poolStart :: "build \<Rightarrow> nat list \<Rightarrow> pool \<Rightarrow> pool res" where
  "poolStart bd ls p = asserting bd (loops p = []) (res_bind (startThreads bd ls (loopThreads p)) (\<lambda>ts.
     res_bind (getLoops bd ts) (\<lambda>xs. Inr (p\<lparr>loopThreads := ts, loops := loops p @ xs\<rparr>))))"

definition poolStop :: "build \<Rightarrow> bool \<Rightarrow> pool \<Rightarrow> pool res" where
  "poolStop bd other p = asserting bd (loops p \<noteq> []) (res_bind (stopThreads bd other (loopThreads p)) (\<lambda>ts.
     Inr (p\<lparr>loopThreads := ts, loops := []\<rparr>)))"

definition getNextLoop :: "build \<Rightarrow> pool \<Rightarrow> (nat option \<times> pool) res" where
  "getNextLoop bd p = asserting bd (loops p \<noteq> [])
     (let i = (if index p \<ge> length (loops p) then 0 else index p) in
      guarding Out_Of_Bounds (i < length (loops p)) (Inr (loops p ! i, p\<lparr>index := i + 1\<rparr>)))"

fun nextLoops :: "build \<Rightarrow> nat \<Rightarrow> pool \<Rightarrow> (nat option list \<times> pool) res" where
  "nextLoops bd 0 p = Inr ([], p)"
| "nextLoops bd (Suc k) p = res_bind (getNextLoop bd p) (\<lambda>(l, p1).
     res_bind (nextLoops bd k p1) (\<lambda>(ls, p2). Inr (l # ls, p2)))"

section \<open>The first iteration\<close>

definition wakeup_poller :: "nat \<Rightarrow> int \<Rightarrow> 'f callback poller" where
  "wakeup_poller c f = \<lparr>chans = [c \<mapsto> \<lparr>fd = f, events = READ_EVENT, revents = 0, readCallback = Some WakeupRead,
     writeCallback = None, errorCallback = None, closeCallback = None, eventCallback = None, bindObject = None,
     isHandling = False\<rparr>], channels = {c}, interest = [f \<mapsto> (READ_EVENT, c)], capacity = 32, sysErrors = 0\<rparr>"

lemma EventLoop_made:
  assumes "0 \<le> f"
  shows "EventLoop bd cur c f n now = Inr \<lparr>timers = [], timerIds = {}, timersCreated = n, threadId = cur, running = False,
    customEvents = [], wakeups = 0, poller = wakeup_poller c f, clock = now\<rparr>"
  using assms
  by (simp add: EventLoop_def new_channel_def EventChannel_def with_channel_def enableReading_def set_events_def
      updateChannel_def ctl_def setReadCallback_def put_channel_def EventPoller_def NONE_EVENT_def wakeup_poller_def)

lemma idle_timers:
  "threadId s = cur \<Longrightarrow> timers s = [] \<Longrightarrow> timersPhase call cur s = Inr ([], s)"
  by (simp add: timersPhase_def handlerTimer_def isInLoopThread_def getExpiredTimers_def)

text \<open>The wakeup channel's event empties the eventfd.\<close>

lemma dispatch_wakeup:
  assumes "threadId s = cur" and "chans (poller s) c = Some ch" and "readCallback ch = Some WakeupRead"
    and "eventCallback ch = None" and "writeCallback ch = None" and "errorCallback ch = None" and "closeCallback ch = None"
    and "bindObject ch = None" and "revents ch = EPOLLIN"
  shows "dispatchPhase call locked cur [c] s =
    Inr (s\<lparr>wakeups := 0, poller := put_channel c (ch\<lparr>isHandling := False\<rparr>) (poller s)\<rparr>)"
proof -
  let ?s1 = "put_loop c (ch\<lparr>isHandling := True\<rparr>) s"
  have "res_fold (\<lambda>c s. handlerEvent look_loop put_loop (call_callback call) locked (isInLoopThread cur s) c s) [c] s =
      handlerEvent look_loop put_loop (call_callback call) locked True c s"
    using assms(1) by (cases "handlerEvent look_loop put_loop (call_callback call) locked True c s")
      (simp_all add: isInLoopThread_def)
  also have "\<dots> = Inr (put_loop c (ch\<lparr>isHandling := False\<rparr>) (readWakeup ?s1))"
    using assms(2-9) by (simp add: handlerEvent_def handlerEventSafe_def with_channel_def set_handling_def stage_def
        call_if_def look_loop_def put_loop_def readWakeup_def epoll_defs)
  also have "\<dots> = Inr (s\<lparr>wakeups := 0, poller := put_channel c (ch\<lparr>isHandling := False\<rparr>) (poller s)\<rparr>)"
    by (simp add: put_loop_def readWakeup_def put_channel_def)
  finally show ?thesis by (simp add: dispatchPhase_def)
qed

text \<open>
  An iteration in which the wakeup channel is reported and one function is in the queue: \<open>wake_channel\<close> is what
  the constructor of the loop makes.
\<close>

definition wake_channel :: "'f callback channel \<Rightarrow> bool" where
  "wake_channel ch \<longleftrightarrow> readCallback ch = Some WakeupRead \<and> eventCallback ch = None \<and> writeCallback ch = None \<and>
     errorCallback ch = None \<and> closeCallback ch = None \<and> bindObject ch = None"

definition woken :: "nat \<Rightarrow> nat \<Rightarrow> ('f, 'z) loop_scheme \<Rightarrow> ('f, 'z) loop_scheme" where
  "woken c slept s = s\<lparr>wakeups := 0, clock := clock s + int slept, customEvents := [],
     poller := put_channel c ((setRevents EPOLLIN (the (chans (poller s) c)))\<lparr>isHandling := False\<rparr>) (poller s)\<rparr>"

lemma wakeup_iteration:
  assumes t: "threadId s = cur" and no: "timers s = []" and ch: "chans (poller s) c = Some ch" "wake_channel ch"
    and cap: "capacity (poller s) \<noteq> 1" and q: "customEvents s = [Func f]"
    and run: "call f (woken c slept s) = Inr s'" "customEvents s' = []"
  shows "iteration call locked bd cur 2 (slept, Some [(c, EPOLLIN)]) s = Inr (Some s')"
proof -
  let ?ch = "setRevents EPOLLIN ch"
  let ?s2 = "s\<lparr>poller := put_channel c ?ch (poller s), clock := clock s + int slept\<rparr>"
  let ?s3 = "?s2\<lparr>wakeups := 0, poller := put_channel c (?ch\<lparr>isHandling := False\<rparr>) (poller ?s2)\<rparr>"
  have p1: "timersPhase call cur s = Inr ([], s)" by (rule idle_timers[OF t no])
  have p2: "pollPhase cur slept (Some [(c, EPOLLIN)]) s = Inr (-1, [c], ?s2)"
    using t no ch(1) cap by (simp add: pollPhase_def getNextTimeout_def isInLoopThread_def pollEvents_def with_channel_def)
  have p3: "dispatchPhase call locked cur [c] ?s2 = Inr ?s3"
    by (rule dispatch_wakeup) (use t ch(2) in \<open>simp_all add: setRevents_def wake_channel_def put_channel_def\<close>)
  have "?s3\<lparr>customEvents := []\<rparr> = woken c slept s"
    using ch(1) by (simp add: woken_def put_channel_def)
  then have p4: "runEvents call bd cur 2 ?s3 = Some (Inr ([Func f], s'))"
    using q run by (simp add: numeral_2_eq_2)
  show ?thesis using p1 p2 p3 p4 by (simp add: iteration_def)
qed

text \<open>The state of the thread after its first iteration: the loop runs, has nothing to do and is announced.\<close>

definition announced :: "nat \<Rightarrow> nat \<Rightarrow> nat \<Rightarrow> int \<Rightarrow> 'f lthread \<Rightarrow> bool" where
  "announced cur l c f s \<longleftrightarrow> threadId s = cur \<and> timers s = [] \<and> customEvents s = [] \<and> wakeups s = 0 \<and> running s \<and>
     loopPtr s = Some l \<and> promiseSet s \<and> (\<exists>ch. wake_channel ch \<and> fd ch = f \<and> events ch = READ_EVENT \<and> \<not> isHandling ch \<and>
     poller s = put_channel c ch (wakeup_poller c f))"

lemma thread_announces:
  assumes "0 \<le> f"
  shows "\<exists>s s1. threadBegin bd cur l c f n now = Inr s \<and> wakeups s = 1 \<and> loopPtr s = None \<and> \<not> promiseSet s \<and>
    poller s = wakeup_poller c f \<and>
    iteration (thread_call user) locked bd cur 2 (slept, Some [(c, EPOLLIN)]) (s\<lparr>running := True\<rparr>) = Inr (Some s1) \<and>
    announced cur l c f s1"
proof -
  define s :: "'a lthread" where "s = loop.extend \<lparr>timers = [], timerIds = {}, timersCreated = n, threadId = cur, running = False,
    customEvents = [Func (Announce l)], wakeups = 1, poller = wakeup_poller c f, clock = now\<rparr> \<lparr>loopPtr = None, promiseSet = False\<rparr>"
  have bg: "threadBegin bd cur l c f n now = Inr s"
    by (simp add: threadBegin_def EventLoop_made[OF assms] queueInLoop_def queueTask_def wakeCheck_def pushTask_def isStop_def wakeup_def
        eventfd_max_def s_def loop.extend_def)
  let ?s = "s\<lparr>running := True\<rparr>" and ?ch = "the (chans (wakeup_poller c f) c)"
  let ?s1 = "(woken c slept ?s)\<lparr>loopPtr := Some l, promiseSet := True\<rparr>"
  have ch: "wake_channel ?ch" "fd ?ch = f" "events ?ch = READ_EVENT" by (simp_all add: wake_channel_def wakeup_poller_def)
  have it: "iteration (thread_call user) locked bd cur 2 (slept, Some [(c, EPOLLIN)]) ?s = Inr (Some ?s1)"
    by (rule wakeup_iteration[where ch = ?ch and f = "Announce l"])
      (use ch in \<open>simp_all add: s_def loop.extend_def woken_def wakeup_poller_def\<close>)
  have "announced cur l c f ?s1"
    using ch by (auto simp: announced_def woken_def s_def loop.extend_def wake_channel_def setRevents_def
        intro!: exI[of _ "(setRevents EPOLLIN ?ch)\<lparr>isHandling := False\<rparr>"])
  with bg it show ?thesis by (intro exI[of _ s] exI[of _ ?s1]) (simp add: s_def loop.extend_def)
qed

lemma loopWhile_stopped: "\<not> running s \<Longrightarrow> loopWhile call locked bd cur fuel env s = Inr (Some s)"
  by (cases env) simp_all

text \<open>The end of the thread's function, in a state that differs from an announced one by what the loop ran.\<close>

lemma threadEnd_ok:
  assumes "threadId s = cur" and "poller s = put_channel c ch (wakeup_poller c f)" and "fd ch = f" and "events ch = READ_EVENT"
    and "\<not> isHandling ch"
  shows "\<exists>s'. threadEnd bd cur c s = Inr s' \<and> loopPtr s' = None \<and> chans (poller s') c = None"
  using assms
  by (auto simp: threadEnd_def destroyLoop_def isInLoopThread_def channel_op_def disableAll_def with_channel_def set_events_def
      updateChannel_def ctl_def put_channel_def wakeup_poller_def delete_channel_def EventChannel_destroy_def
      isNoneEvent_def NONE_EVENT_def READ_EVENT_def)

section \<open>Properties\<close>

text \<open>
  C24. A thread that is started gets its loop announced: when its function reaches the loop its eventfd is
  readable, so the first poll returns, and that iteration stores the loop's address and sets the promise, with the loop still running: \<open>start\<close>
  returns, with a usable loop.  When another thread has stopped the loop, its next check ends it, and the pointer is null again.
\<close>

theorem loop_thread_starts:
  assumes "0 \<le> f"
  shows "\<exists>s s1 ch. threadBegin bd cur l c f n now = Inr s \<and> wakeups s = 1 \<and> loopPtr s = None \<and> \<not> promiseSet s \<and>
    chans (poller s) c = Some ch \<and> interest (poller s) f = Some (READ_EVENT, c) \<and>
    iteration (thread_call user) locked bd cur 2 (slept, Some [(c, EPOLLIN)]) (s\<lparr>running := True\<rparr>) = Inr (Some s1) \<and>
    loopPtr s1 = Some l \<and> promiseSet s1 \<and> running s1 \<and> customEvents s1 = [] \<and> wakeups s1 = 0 \<and>
    (\<forall>s2 other. other \<noteq> cur \<longrightarrow> Event_Loop.stop bd other s1 = Inr s2 \<longrightarrow>
       loopWhile (thread_call user) locked bd cur fuel env s2 = Inr (Some s2) \<and>
       (\<exists>s3. threadEnd bd cur c s2 = Inr s3 \<and> loopPtr s3 = None))"
proof -
  obtain s s1 where s: "threadBegin bd cur l c f n now = Inr s" "wakeups s = 1" "loopPtr s = None" "\<not> promiseSet s"
      "poller s = wakeup_poller c f"
      "iteration (thread_call user) locked bd cur 2 (slept, Some [(c, EPOLLIN)]) (s\<lparr>running := True\<rparr>) = Inr (Some s1)"
      "announced cur l c f s1"
    using thread_announces[OF assms, of bd cur l c n now user locked slept] by blast
  have "loopWhile (thread_call user) locked bd cur fuel env s2 = Inr (Some s2) \<and>
      (\<exists>s3. threadEnd bd cur c s2 = Inr s3 \<and> loopPtr s3 = None)"
    if st: "Event_Loop.stop bd other s1 = Inr s2" for s2 other
  proof -
    have s2: "\<not> running s2" "threadId s2 = cur" "poller s2 = poller s1"
      using st s(7) by (auto elim!: stop_cases simp: announced_def)
    then obtain ch where "poller s2 = put_channel c ch (wakeup_poller c f)" "fd ch = f" "events ch = READ_EVENT" "\<not> isHandling ch"
      using s(7) by (auto simp: announced_def)
    from threadEnd_ok[OF s2(2) this, of bd] loopWhile_stopped[OF s2(1)] show ?thesis by blast
  qed
  moreover have "\<exists>ch. chans (poller s) c = Some ch \<and> interest (poller s) f = Some (READ_EVENT, c)"
    unfolding s(5) by (simp add: wakeup_poller_def)
  ultimately show ?thesis using s unfolding announced_def by blast
qed

theorem loop_thread_starts_witness:
  "\<exists>s s1. threadBegin Debug 1 42 2 5 0 0 = Inr (s :: nat lthread) \<and>
     iteration (thread_call (\<lambda>f. Inr)) (\<lambda>_ _. True) Debug 1 2 (3, Some [(2, EPOLLIN)]) (s\<lparr>running := True\<rparr>) = Inr (Some s1) \<and>
     loopPtr s1 = Some 42"
  using loop_thread_starts[of 5 Debug 1 42 2 0 0 "\<lambda>f. Inr" "\<lambda>_ _. True" 3] by (simp del: One_nat_def) blast

lemma startThreads_ok:
  assumes "length ls = length ts" and "\<forall>t \<in> set ts. \<not> joinable t"
  shows "startThreads bd ls ts = Inr (map (\<lambda>l. \<lparr>joinable = True, elLoop = Some l\<rparr>) ls)"
  using assms
proof (induction ts arbitrary: ls)
  case (Cons t ts)
  then obtain l ls' where "ls = l # ls'" "length ls' = length ts" by (cases ls) auto
  with Cons show ?case by (cases t) (simp add: elStart_def)
qed simp

lemma getLoops_ok: "getLoops bd (map (\<lambda>l. \<lparr>joinable = True, elLoop = Some l\<rparr>) ls) = Inr (map Some ls)"
  by (induction ls) (simp_all add: elGetLoop_def)

lemma nextLoops_ok:
  assumes "loops p = xs" and "xs \<noteq> []" and "index p \<le> length xs"
  shows "\<exists>p'. nextLoops bd k p = Inr (map (\<lambda>j. xs ! ((index p + j) mod length xs)) [0..<k], p')"
  using assms
proof (induction k arbitrary: p)
  case (Suc k)
  let ?i = "if index p \<ge> length xs then 0 else index p"
  have i: "?i < length xs" "?i = index p mod length xs" using Suc.prems by (auto simp: le_less)
  let ?p = "p\<lparr>index := ?i + 1\<rparr>"
  have g: "getNextLoop bd p = Inr (xs ! ?i, ?p)" using Suc.prems i(1) by (simp add: getNextLoop_def Let_def)
  obtain p' where p': "nextLoops bd k ?p = Inr (map (\<lambda>j. xs ! ((?i + 1 + j) mod length xs)) [0..<k], p')"
    using Suc.IH[of ?p] Suc.prems i(1) by auto
  have "(?i + 1 + j) mod length xs = (index p + Suc j) mod length xs" for j
    unfolding i(2) by (metis add.assoc add_Suc_right mod_add_left_eq plus_1_eq_Suc add.commute)
  then have "map (\<lambda>j. xs ! ((?i + 1 + j) mod length xs)) [0..<k] = map (\<lambda>j. xs ! ((index p + Suc j) mod length xs)) [0..<k]"
    by simp
  also have "xs ! ?i # \<dots> = map (\<lambda>j. xs ! ((index p + j) mod length xs)) [0..<Suc k]"
    unfolding i(2) by (simp add: upt_conv_Cons map_Suc_upt[symmetric] del: upt_Suc)
  finally show ?case using g p' by simp
qed simp

lemma rotate_hits:
  assumes "m < (n::nat)"
  shows "\<exists>j < n. (i + j) mod n = m"
proof -
  define r where "r = i mod n"
  let ?j = "(m + (n - r)) mod n"
  have r: "0 < n" "r < n" using assms by (simp_all add: r_def)
  have "(i + ?j) mod n = (r + (m + (n - r))) mod n" unfolding r_def by (simp add: mod_add_left_eq mod_add_right_eq)
  also have "r + (m + (n - r)) = m + n" using r(2) by linarith
  also have "(m + n) mod n = m" using assms by simp
  finally show ?thesis using r(1) by (intro exI[of _ ?j]) simp
qed

lemma rotate_set:
  "set (map (\<lambda>j. xs ! ((i + j) mod length xs)) [0..<length xs]) = set xs"
proof (cases "xs = []")
  case False
  show ?thesis
  proof (intro equalityI subsetI)
    fix x assume "x \<in> set xs"
    then obtain m where m: "m < length xs" "x = xs ! m" by (auto simp: in_set_conv_nth)
    obtain j where "j < length xs" "(i + j) mod length xs = m" using rotate_hits[OF m(1), of i] by blast
    then show "x \<in> set (map (\<lambda>j. xs ! ((i + j) mod length xs)) [0..<length xs])" using m(2) by force
  next
    fix x assume "x \<in> set (map (\<lambda>j. xs ! ((i + j) mod length xs)) [0..<length xs])"
    then show "x \<in> set xs" using False by auto
  qed
qed simp

text \<open>
  C25. A pool hands out its loops in turn: from the start on, the j-th call of \<open>getNextLoop\<close> returns loop number
  j modulo their number, which is never null, and any n calls in a row on n threads return each loop once.  A pool of no threads
  cannot be used: in a Debug build an assertion fails, in a Release build the access is out of bounds.
\<close>

theorem pool_round_robin:
  assumes "length ls = n"
  shows "(0 < n \<longrightarrow> (\<exists>p. poolStart bd ls (EventLoopThreadPool n) = Inr p \<and>
      (\<forall>k. \<exists>p'. nextLoops bd k p = Inr (map (\<lambda>j. Some (ls ! (j mod n))) [0..<k], p')))) \<and>
    (\<forall>i. set (map (\<lambda>j. ls ! ((i + j) mod n)) [0..<n]) = set ls) \<and>
    (n = 0 \<longrightarrow> (\<exists>p. poolStart bd ls (EventLoopThreadPool n) = Inr p \<and>
      getNextLoop bd p = Inl (if bd = Debug then Assert_Failed else Out_Of_Bounds)))"
proof -
  let ?ts = "map (\<lambda>l. \<lparr>joinable = True, elLoop = Some l\<rparr>) ls"
  let ?p = "\<lparr>loopThreads = ?ts, loops = map Some ls, index = 0\<rparr>"
  have "startThreads bd ls (replicate n EventLoopThread) = Inr ?ts"
    by (rule startThreads_ok) (simp_all add: assms EventLoopThread_def)
  then have start: "poolStart bd ls (EventLoopThreadPool n) = Inr ?p"
    by (simp add: poolStart_def EventLoopThreadPool_def getLoops_ok)
  have turn: "\<exists>p'. nextLoops bd k ?p = Inr (map (\<lambda>j. Some (ls ! (j mod n))) [0..<k], p')" if "0 < n" for k
  proof -
    have "map Some ls ! (j mod n) = Some (ls ! (j mod n))" for j using that assms by simp
    then show ?thesis using nextLoops_ok[of ?p "map Some ls" bd k] that assms by auto
  qed
  have all: "set (map (\<lambda>j. ls ! ((i + j) mod n)) [0..<n]) = set ls" for i
    using rotate_set[of ls i] by (simp only: assms)
  have none: "getNextLoop bd ?p = Inl (if bd = Debug then Assert_Failed else Out_Of_Bounds)" if "n = 0"
    using that assms by (cases bd) (simp_all add: getNextLoop_def)
  show ?thesis
    using start turn all none by blast
qed

theorem pool_round_robin_witness:
  "\<exists>p p'. poolStart Debug [30, 40, 50] (EventLoopThreadPool 3) = Inr p \<and>
     nextLoops Debug 4 p = Inr ([Some 30, Some 40, Some 50, Some 30], p')"
proof -
  have e: "map (\<lambda>j. Some ([30, 40, 50::nat] ! (j mod 3))) [0..<4] = [Some 30, Some 40, Some 50, Some 30]"
    by code_simp
  have l: "length [30, 40, 50::nat] = 3" "0 < (3::nat)" by simp_all
  obtain p where p: "poolStart Debug [30, 40, 50] (EventLoopThreadPool 3) = Inr p"
    "\<forall>k. \<exists>p'. nextLoops Debug k p = Inr (map (\<lambda>j. Some ([30, 40, 50::nat] ! (j mod 3))) [0..<k], p')"
    using pool_round_robin[OF l(1), of Debug] l(2) by blast
  obtain p' where "nextLoops Debug 4 p = Inr (map (\<lambda>j. Some ([30, 40, 50::nat] ! (j mod 3))) [0..<4], p')"
    using p(2) by blast
  then show ?thesis using p(1) unfolding e by blast
qed

text \<open>
  C34. A thread whose loop is stopped by one of its own functions cannot be destroyed.  The thread is started and announces its loop;
  another thread queues a function that calls \<open>stop\<close>; the loop wakes up, runs it and ends, and the thread's function ends with the
  pointer null while the thread is still joinable.  The destructor then calls \<open>stop\<close>, which asserts in a Debug build and calls
  through the null pointer in a Release build, and starting it again asserts or terminates the process.  Destroying it from another thread
  while the loop runs stops the loop and joins, and a thread that was never started is destroyed without any of this.
\<close>

theorem thread_destroy_after_stop:
  assumes "0 \<le> f" and "other \<noteq> cur" and "\<And>s. threadId s = cur \<Longrightarrow> user g s = Event_Loop.stop bd cur s"
  shows "\<exists>t s s1 s2 s3 s4. elStart bd l EventLoopThread = Inr t \<and> threadBegin bd cur l c f n now = Inr s \<and>
    iteration (thread_call user) locked bd cur 2 (0, Some [(c, EPOLLIN)]) (s\<lparr>running := True\<rparr>) = Inr (Some s1) \<and>
    elLoop t = loopPtr s1 \<and>
    queueInLoop bd other (ThreadUser g) s1 = Inr s2 \<and> 0 < wakeups s2 \<and>
    iteration (thread_call user) locked bd cur 2 (slept, Some [(c, EPOLLIN)]) s2 = Inr (Some s3) \<and>
    loopWhile (thread_call user) locked bd cur fuel env s3 = Inr (Some s3) \<and> threadEnd bd cur c s3 = Inr s4 \<and>
    elDestroy bd True (t\<lparr>elLoop := loopPtr s4\<rparr>) = Inl (if bd = Debug then Assert_Failed else Null_Deref) \<and>
    elStart bd l (t\<lparr>elLoop := loopPtr s4\<rparr>) = Inl (if bd = Debug then Assert_Failed else Terminated) \<and>
    elDestroy bd True (t\<lparr>elLoop := loopPtr s1\<rparr>) = Inr EventLoopThread \<and>
    elDestroy bd True EventLoopThread = Inr EventLoopThread"
proof -
  obtain s s1 where s: "threadBegin bd cur l c f n now = Inr s"
      "iteration (thread_call user) locked bd cur 2 (0, Some [(c, EPOLLIN)]) (s\<lparr>running := True\<rparr>) = Inr (Some s1)"
      "announced cur l c f s1"
    using thread_announces[OF assms(1), of bd cur l c n now user locked 0] by blast
  obtain ch where ch: "wake_channel ch" "fd ch = f" "events ch = READ_EVENT" "poller s1 = put_channel c ch (wakeup_poller c f)"
    using s(3) by (auto simp: announced_def)
  have a: "threadId s1 = cur" "timers s1 = []" "customEvents s1 = []" "wakeups s1 = 0" "running s1" "loopPtr s1 = Some l"
    using s(3) by (simp_all add: announced_def)
  let ?s2 = "s1\<lparr>customEvents := [Func (ThreadUser g)], wakeups := 1\<rparr>"
  have q: "queueInLoop bd other (ThreadUser g) s1 = Inr ?s2"
    using a assms(2) by (simp add: queueInLoop_def queueTask_def wakeCheck_def pushTask_def isInLoopThread_def wakeup_def eventfd_max_def)
  let ?s3 = "(woken c slept ?s2)\<lparr>running := False\<rparr>" and ?ch = "(setRevents EPOLLIN ch)\<lparr>isHandling := False\<rparr>"
  have "user g (woken c slept ?s2) = Inr ?s3"
    using a assms(3) by (simp add: Event_Loop.stop_def setStop_def stopWake_def isInLoopThread_def isStop_def woken_def)
  then have it: "iteration (thread_call user) locked bd cur 2 (slept, Some [(c, EPOLLIN)]) ?s2 = Inr (Some ?s3)"
    by (intro wakeup_iteration[where ch = ch and f = "ThreadUser g"])
      (use a ch in \<open>simp_all add: woken_def put_channel_def wakeup_poller_def\<close>)
  have "poller ?s3 = put_channel c ?ch (wakeup_poller c f)"
    using ch(4) by (simp add: woken_def put_channel_def)
  moreover have "threadId ?s3 = cur" using a(1) by (simp add: woken_def)
  ultimately obtain s4 where s4: "threadEnd bd cur c ?s3 = Inr s4" "loopPtr s4 = None"
    using threadEnd_ok[of ?s3 cur c ?ch f bd] ch by (auto simp: setRevents_def)
  have "loopWhile (thread_call user) locked bd cur fuel env ?s3 = Inr (Some ?s3)" by (simp add: loopWhile_stopped)
  moreover have "elStart bd l EventLoopThread = Inr \<lparr>joinable = True, elLoop = Some l\<rparr>"
    by (simp add: elStart_def EventLoopThread_def)
  moreover have "elDestroy bd True \<lparr>joinable = True, elLoop = None\<rparr> = Inl (if bd = Debug then Assert_Failed else Null_Deref)"
    "elStart bd l \<lparr>joinable = True, elLoop = None\<rparr> = Inl (if bd = Debug then Assert_Failed else Terminated)"
    "elDestroy bd True \<lparr>joinable = True, elLoop = Some l\<rparr> = Inr EventLoopThread"
    "elDestroy bd True EventLoopThread = Inr EventLoopThread"
    by (cases bd; simp add: elDestroy_def elStop_def elStart_def loopEnds_def EventLoopThread_def)+
  ultimately show ?thesis
    using s(1,2) q it s4 a(6)
    by (intro exI[of _ "\<lparr>joinable = True, elLoop = Some l\<rparr>"] exI[of _ s] exI[of _ s1] exI[of _ ?s2] exI[of _ ?s3] exI[of _ s4]) simp
qed

text \<open>The witness: the functions of the user are the booleans, and \<open>True\<close> stops the loop.\<close>

theorem thread_destroy_after_stop_witness:
  "\<exists>t s4. elStart Release 7 EventLoopThread = Inr t \<and> loopPtr (s4 :: bool lthread) = None \<and>
     elDestroy Release True (t\<lparr>elLoop := loopPtr s4\<rparr>) = Inl Null_Deref"
proof -
  let ?user = "\<lambda>b. if b then Event_Loop.stop Release 1 else (Inr :: bool lthread \<Rightarrow> bool lthread res)"
  have "0 \<le> (5::int)" "2 \<noteq> (1::nat)" "\<And>s. threadId s = 1 \<Longrightarrow> ?user True s = Event_Loop.stop Release 1 s" by simp_all
  from thread_destroy_after_stop[where user = ?user and g = True, OF this, of 7 3 0 0 "\<lambda>_ _. True" 4 2 "[]"]
  obtain t s4 where t: "elStart Release 7 EventLoopThread = Inr t" "elDestroy Release True (t\<lparr>elLoop := loopPtr (s4 :: bool lthread)\<rparr>) = Inl Null_Deref"
    by auto
  moreover from this have "loopPtr s4 = None"
    by (auto simp: elStart_def EventLoopThread_def elDestroy_def elStop_def split: if_splits)
  ultimately show ?thesis by blast
qed

end
