(* ===== verification/Socket.thy ===== *)
theory Socket
  imports Inet_Address
begin

text \<open>
  \<^verbatim>\<open>src/include/godnet/net/socket.hpp\<close> and \<^verbatim>\<open>socket.cpp\<close>: the system calls behind a
  socket, their flags, and the functions that decide something about their results.

  The operating system is a parameter: a record of the system calls the code makes, as functions
  over a state \<open>'k\<close> of the kernel, with \<^verbatim>\<open>errno\<close> read from that state.  A call that fills
  memory of the caller returns what it fills in.  The definitions are those of the Linux branch;
  \<open>recv_loop\<close> is the loop the Windows branch of \<open>read\<close> has in place of \<^verbatim>\<open>readv\<close>, with the
  parameter \<^verbatim>\<open>sockfd\<close> for the undeclared name \<^verbatim>\<open>sockfd_\<close>.
\<close>

unbundle bit_operations_syntax

section \<open>The operating system\<close>

record 'k os =
  sys_socket :: "int \<Rightarrow> int \<Rightarrow> int \<Rightarrow> 'k \<Rightarrow> int \<times> 'k"
  sys_fcntl :: "int \<Rightarrow> int \<Rightarrow> int \<Rightarrow> 'k \<Rightarrow> int \<times> 'k"
  sys_close :: "int \<Rightarrow> 'k \<Rightarrow> int \<times> 'k"
  sys_bind :: "int \<Rightarrow> sockaddr \<Rightarrow> nat \<Rightarrow> 'k \<Rightarrow> int \<times> 'k"
  sys_listen :: "int \<Rightarrow> int \<Rightarrow> 'k \<Rightarrow> int \<times> 'k"
  sys_accept4 :: "int \<Rightarrow> sockaddr \<Rightarrow> nat \<Rightarrow> int \<Rightarrow> 'k \<Rightarrow> int \<times> sockaddr \<times> 'k"
  sys_connect :: "int \<Rightarrow> sockaddr \<Rightarrow> nat \<Rightarrow> 'k \<Rightarrow> int \<times> 'k"
  sys_readv :: "int \<Rightarrow> nat list \<Rightarrow> 'k \<Rightarrow> int \<times> byte list \<times> 'k"
  sys_recv :: "int \<Rightarrow> nat \<Rightarrow> 'k \<Rightarrow> int \<times> byte list \<times> 'k"
  sys_write :: "int \<Rightarrow> byte list \<Rightarrow> 'k \<Rightarrow> int \<times> 'k"
  sys_getsockname :: "int \<Rightarrow> sockaddr \<Rightarrow> nat \<Rightarrow> 'k \<Rightarrow> int \<times> sockaddr \<times> 'k"
  sys_getpeername :: "int \<Rightarrow> sockaddr \<Rightarrow> nat \<Rightarrow> 'k \<Rightarrow> int \<times> sockaddr \<times> 'k"
  sys_shutdown :: "int \<Rightarrow> int \<Rightarrow> 'k \<Rightarrow> int \<times> 'k"
  sys_setsockopt :: "int \<Rightarrow> int \<Rightarrow> int \<Rightarrow> int \<Rightarrow> nat \<Rightarrow> 'k \<Rightarrow> int \<times> 'k"
  sys_getsockopt :: "int \<Rightarrow> int \<Rightarrow> int \<Rightarrow> 'k \<Rightarrow> int \<times> int \<times> 'k"
  sys_errno :: "'k \<Rightarrow> int"

text \<open>The constants of Linux on x86-64.\<close>

definition SOCK_STREAM :: int where "SOCK_STREAM = 1"
definition SOCK_DGRAM :: int where "SOCK_DGRAM = 2"
definition SOCK_NONBLOCK :: int where "SOCK_NONBLOCK = 0x800"
definition SOCK_CLOEXEC :: int where "SOCK_CLOEXEC = 0x80000"
definition IPPROTO_TCP :: int where "IPPROTO_TCP = 6"
definition IPPROTO_UDP :: int where "IPPROTO_UDP = 17"
definition F_GETFD :: int where "F_GETFD = 1"
definition F_SETFD :: int where "F_SETFD = 2"
definition F_GETFL :: int where "F_GETFL = 3"
definition F_SETFL :: int where "F_SETFL = 4"
definition O_NONBLOCK :: int where "O_NONBLOCK = 0x800"
definition FD_CLOEXEC :: int where "FD_CLOEXEC = 1"
definition SOMAXCONN :: int where "SOMAXCONN = 4096"
definition SHUT_WR :: int where "SHUT_WR = 1"
definition TCP_NODELAY :: int where "TCP_NODELAY = 1"
definition SOL_SOCKET :: int where "SOL_SOCKET = 1"
definition SO_REUSEADDR :: int where "SO_REUSEADDR = 2"
definition SO_ERROR :: int where "SO_ERROR = 4"
definition SO_KEEPALIVE :: int where "SO_KEEPALIVE = 9"
definition SO_REUSEPORT :: int where "SO_REUSEPORT = 15"
definition EINTR :: int where "EINTR = 4"
definition EAGAIN :: int where "EAGAIN = 11"
definition ENETUNREACH :: int where "ENETUNREACH = 101"
definition EISCONN :: int where "EISCONN = 106"
definition ECONNREFUSED :: int where "ECONNREFUSED = 111"
definition EINPROGRESS :: int where "EINPROGRESS = 115"

lemmas errno_defs = EINTR_def EAGAIN_def ENETUNREACH_def EISCONN_def ECONNREFUSED_def EINPROGRESS_def

text \<open>\<^verbatim>\<open>getSockLen\<close>: the size of the union.\<close>

definition getSockLen :: "sockaddr \<Rightarrow> nat" where
  "getSockLen a = length a"

section \<open>Sockets and their flags\<close>

definition setNonBlock :: "'k os \<Rightarrow> int \<Rightarrow> 'k \<Rightarrow> 'k" where
  "setNonBlock os sockfd k =
     (let (flags, k1) = sys_fcntl os sockfd F_GETFL 0 k;
          (_, k2) = sys_fcntl os sockfd F_SETFL (flags OR O_NONBLOCK) k1;
          (flags, k3) = sys_fcntl os sockfd F_GETFD 0 k2;
          (_, k4) = sys_fcntl os sockfd F_SETFD (flags OR FD_CLOEXEC) k3
      in k4)"

definition tcpSocket :: "'k os \<Rightarrow> 16 word \<Rightarrow> 'k \<Rightarrow> int \<times> 'k" where
  "tcpSocket os fam = sys_socket os (uint fam) (SOCK_STREAM OR SOCK_NONBLOCK OR SOCK_CLOEXEC) IPPROTO_TCP"

definition udpSocket :: "'k os \<Rightarrow> 16 word \<Rightarrow> 'k \<Rightarrow> int \<times> 'k" where
  "udpSocket os fam = sys_socket os (uint fam) (SOCK_DGRAM OR SOCK_NONBLOCK OR SOCK_CLOEXEC) IPPROTO_UDP"

definition closeSocket :: "'k os \<Rightarrow> int \<Rightarrow> 'k \<Rightarrow> int \<times> 'k" where
  "closeSocket os sockfd = sys_close os sockfd"

definition socket_bind :: "'k os \<Rightarrow> int \<Rightarrow> sockaddr \<Rightarrow> 'k \<Rightarrow> int \<times> 'k" where
  "socket_bind os sockfd localAddr = sys_bind os sockfd localAddr (getSockLen localAddr)"

definition socket_listen :: "'k os \<Rightarrow> int \<Rightarrow> 'k \<Rightarrow> int \<times> 'k" where
  "socket_listen os sockfd = sys_listen os sockfd SOMAXCONN"

definition socket_accept :: "'k os \<Rightarrow> int \<Rightarrow> sockaddr \<Rightarrow> 'k \<Rightarrow> int \<times> sockaddr \<times> 'k" where
  "socket_accept os sockfd peerAddr =
     sys_accept4 os sockfd peerAddr (getSockLen peerAddr) (SOCK_NONBLOCK OR SOCK_CLOEXEC)"

definition socket_shutdown :: "'k os \<Rightarrow> int \<Rightarrow> 'k \<Rightarrow> int \<times> 'k" where
  "socket_shutdown os sockfd = sys_shutdown os sockfd SHUT_WR"

definition socket_write :: "'k os \<Rightarrow> int \<Rightarrow> byte list \<Rightarrow> 'k \<Rightarrow> int \<times> 'k" where
  "socket_write os sockfd buf = sys_write os sockfd buf"

section \<open>Connecting\<close>

definition socket_connect :: "'k os \<Rightarrow> int \<Rightarrow> sockaddr \<Rightarrow> 'k \<Rightarrow> int \<times> 'k" where
  "socket_connect os sockfd addr k =
     (let (ret, k1) = sys_connect os sockfd addr (getSockLen addr) k;
          err = (if ret \<noteq> 0 then sys_errno os k1 else ret)
      in if err = 0 \<or> err = EINPROGRESS \<or> err = EINTR \<or> err = EISCONN then (0, k1)
         else if err = EAGAIN \<or> err = ECONNREFUSED \<or> err = ENETUNREACH then (-1, k1)
         else (-1, k1))"

section \<open>Reading into two buffers\<close>

text \<open>
  The bytes read are returned in one piece; how they lie in the buffers is \<open>scatter\<close>:
  \<^verbatim>\<open>readv\<close> fills the first buffer before the next.
\<close>

definition socket_read :: "'k os \<Rightarrow> int \<Rightarrow> nat list \<Rightarrow> 'k \<Rightarrow> int \<times> byte list \<times> 'k" where
  "socket_read os sockfd len = sys_readv os sockfd len"

fun scatter :: "nat list \<Rightarrow> byte list \<Rightarrow> byte list list" where
  "scatter [] bs = []"
| "scatter (n # ns) bs = take n bs # scatter ns (drop n bs)"

text \<open>
  \<open>ret\<close> is the count so far.  The bytes each \<^verbatim>\<open>recv\<close> puts into its buffer are listed.  The comparison
  \<^verbatim>\<open>n == len[i]\<close> is one of \<^verbatim>\<open>size_t\<close>.
\<close>

fun recv_loop :: "'k os \<Rightarrow> int \<Rightarrow> nat list \<Rightarrow> int \<Rightarrow> 'k \<Rightarrow> int \<times> byte list list \<times> 'k" where
  "recv_loop os sockfd [] ret k = (ret, [], k)"
| "recv_loop os sockfd (len # lens) ret k =
     (let (n, bs, k1) = sys_recv os sockfd len k
      in if n mod 2 ^ 64 = int len then
           (let (r, bss, k2) = recv_loop os sockfd lens (ret + n) k1 in (r, bs # bss, k2))
         else ((if n < 0 then if ret = 0 then n else ret else ret + n), [bs], k1))"

section \<open>Addresses and options\<close>

definition getLocalAddr :: "'k os \<Rightarrow> int \<Rightarrow> sockaddr \<Rightarrow> 'k \<Rightarrow> int \<times> sockaddr \<times> 'k" where
  "getLocalAddr os sockfd localAddr = sys_getsockname os sockfd localAddr (getSockLen localAddr)"

definition getPeerAddr :: "'k os \<Rightarrow> int \<Rightarrow> sockaddr \<Rightarrow> 'k \<Rightarrow> int \<times> sockaddr \<times> 'k" where
  "getPeerAddr os sockfd peerAddr = sys_getpeername os sockfd peerAddr (getSockLen peerAddr)"

definition set_flag :: "'k os \<Rightarrow> int \<Rightarrow> int \<Rightarrow> int \<Rightarrow> bool \<Rightarrow> 'k \<Rightarrow> int \<times> 'k" where
  "set_flag os sockfd level opt on = sys_setsockopt os sockfd level opt (if on then 1 else 0) 4"

definition setTcpNoDelay :: "'k os \<Rightarrow> int \<Rightarrow> bool \<Rightarrow> 'k \<Rightarrow> int \<times> 'k" where
  "setTcpNoDelay os sockfd = set_flag os sockfd IPPROTO_TCP TCP_NODELAY"
definition setReuseAddr :: "'k os \<Rightarrow> int \<Rightarrow> bool \<Rightarrow> 'k \<Rightarrow> int \<times> 'k" where
  "setReuseAddr os sockfd = set_flag os sockfd SOL_SOCKET SO_REUSEADDR"
definition setReusePort :: "'k os \<Rightarrow> int \<Rightarrow> bool \<Rightarrow> 'k \<Rightarrow> int \<times> 'k" where
  "setReusePort os sockfd = set_flag os sockfd SOL_SOCKET SO_REUSEPORT"
definition setKeepAlive :: "'k os \<Rightarrow> int \<Rightarrow> bool \<Rightarrow> 'k \<Rightarrow> int \<times> 'k" where
  "setKeepAlive os sockfd = set_flag os sockfd SOL_SOCKET SO_KEEPALIVE"

definition getSocketError :: "'k os \<Rightarrow> int \<Rightarrow> 'k \<Rightarrow> int \<times> 'k" where
  "getSocketError os sockfd k =
     (let (ret, optval, k1) = sys_getsockopt os sockfd SOL_SOCKET SO_ERROR k
      in if ret < 0 then (sys_errno os k1, k1) else (optval, k1))"

definition isSelfConnect :: "'k os \<Rightarrow> host \<Rightarrow> int \<Rightarrow> 'k \<Rightarrow> bool \<times> 'k" where
  "isSelfConnect os h sockfd k =
     (let (ret, localAddr, k1) = getLocalAddr os sockfd addr_zero k
      in if ret < 0 then (False, k1)
         else let (ret, peerAddr, k2) = getPeerAddr os sockfd addr_zero k1
           in if ret < 0 then (False, k2) else (inet_eq h False localAddr peerAddr, k2))"

section \<open>Lemmas\<close>

lemma socket_connect_ret: "fst (socket_connect os f a k) \<in> {0, -1}"
  by (auto simp: socket_connect_def Let_def split: prod.splits)

lemma concat_scatter: "length bs \<le> sum_list ns \<Longrightarrow> concat (scatter ns bs) = bs"
proof (induction ns arbitrary: bs)
  case (Cons n ns)
  then have "concat (scatter ns (drop n bs)) = drop n bs" by simp
  then show ?case by simp
qed simp

text \<open>
  A stream socket, as \<^verbatim>\<open>recv(2)\<close> and \<^verbatim>\<open>readv(2)\<close> describe it, that does not block: the kernel holds the
  bytes \<open>avail\<close> of the descriptor.  A call hands out as many of them as fit; when there are none it fails, or returns 0 if the peer
  closed its end (\<open>eof\<close>).
\<close>

definition recv_law :: "'k os \<Rightarrow> int \<Rightarrow> ('k \<Rightarrow> byte list) \<Rightarrow> ('k \<Rightarrow> bool) \<Rightarrow> bool" where
  "recv_law os f avail eof \<longleftrightarrow> (\<forall>len k. case sys_recv os f len k of (n, bs, k1) \<Rightarrow>
     eof k1 = eof k \<and> bs = take len (avail k) \<and> avail k1 = drop len (avail k) \<and>
     n = (if len = 0 \<or> avail k \<noteq> [] \<or> eof k then int (length bs) else -1))"

definition readv_law :: "'k os \<Rightarrow> int \<Rightarrow> ('k \<Rightarrow> byte list) \<Rightarrow> ('k \<Rightarrow> bool) \<Rightarrow> bool" where
  "readv_law os f avail eof \<longleftrightarrow> (\<forall>lens k. case sys_readv os f lens k of (n, bs, k1) \<Rightarrow>
     eof k1 = eof k \<and> bs = take (sum_list lens) (avail k) \<and> avail k1 = drop (sum_list lens) (avail k) \<and>
     n = (if sum_list lens = 0 \<or> avail k \<noteq> [] \<or> eof k then int (length bs) else -1))"

lemma recv_loop_ok:
  assumes "recv_law os f avail eof" and "\<forall>len \<in> set lens. len < 2 ^ 63" and "0 \<le> ret"
  shows "case recv_loop os f lens ret k of (r, bss, k1) \<Rightarrow>
    concat bss = take (sum_list lens) (avail k) \<and> avail k1 = drop (sum_list lens) (avail k) \<and>
    (\<forall>i < length bss. bss ! i = scatter lens (concat bss) ! i) \<and> length bss \<le> length lens \<and> eof k1 = eof k \<and>
    r = (if sum_list lens = 0 \<or> avail k \<noteq> [] \<or> eof k \<or> 0 < ret then ret + int (length (concat bss)) else -1)"
  using assms(2,3)
proof (induction lens arbitrary: ret k)
  case (Cons len lens)
  obtain n bs k1 where r: "sys_recv os f len k = (n, bs, k1)" by (cases "sys_recv os f len k")
  have law: "eof k1 = eof k" "bs = take len (avail k)" "avail k1 = drop len (avail k)"
      "n = (if len = 0 \<or> avail k \<noteq> [] \<or> eof k then int (length bs) else -1)"
    using assms(1) r unfolding recv_law_def by (auto dest!: spec[of _ len] spec[of _ k])
  have len: "int len < 2 ^ 63" using Cons.prems(1) by simp
  show ?case
  proof (cases "n = int len")
    case True
    obtain r' bss k2 where l: "recv_loop os f lens (ret + n) k1 = (r', bss, k2)"
      by (cases "recv_loop os f lens (ret + n) k1")
    have full: "length bs = len" using True law(4) by (cases "len = 0 \<or> avail k \<noteq> [] \<or> eof k") auto
    have "n mod 2 ^ 64 = int len" using True len by simp
    then have e: "recv_loop os f (len # lens) ret k = (r', bs # bss, k2)"
      using r l by simp
    have IH: "concat bss = take (sum_list lens) (avail k1)" "avail k2 = drop (sum_list lens) (avail k1)"
        "\<forall>i < length bss. bss ! i = scatter lens (concat bss) ! i" "length bss \<le> length lens" "eof k2 = eof k1"
        "r' = (if sum_list lens = 0 \<or> avail k1 \<noteq> [] \<or> eof k1 \<or> 0 < ret + n then ret + n + int (length (concat bss)) else -1)"
      using Cons.IH[of "ret + n" k1] Cons.prems True l by auto
    have c: "concat (bs # bss) = take (sum_list (len # lens)) (avail k)"
      using IH(1) law(2,3) by (simp add: take_add)
    have "avail k2 = drop (sum_list (len # lens)) (avail k)"
      using IH(2) law(3) by (simp add: add.commute)
    moreover have "\<forall>i < length (bs # bss). (bs # bss) ! i = scatter (len # lens) (concat (bs # bss)) ! i"
      using IH(3) full by (auto simp: nth_Cons split: nat.splits)
    moreover have "r' = (if sum_list (len # lens) = 0 \<or> avail k \<noteq> [] \<or> eof k \<or> 0 < ret
        then ret + int (length (concat (bs # bss))) else -1)"
    proof (cases "len = 0")
      case True
      then show ?thesis using IH(6) law(1,3) full \<open>n = int len\<close> by (simp del: sum_list_eq_0_iff)
    next
      case False
      then have "avail k \<noteq> []" using full law(2) by auto
      moreover have "0 < ret + n" using False True Cons.prems(2) by simp
      ultimately show ?thesis using IH(6) full True by simp
    qed
    ultimately show ?thesis unfolding e prod.case using c IH(4,5) law(1) by (simp del: sum_list_eq_0_iff concat.simps)
  next
    case False
    have l: "length bs < len" using False law(2,4) by (auto split: if_splits)
    then have d: "drop len (avail k) = []" "bs = avail k" using law(2) by auto
    have "n mod 2 ^ 64 \<noteq> int len"
    proof (cases "n = -1")
      case True
      then show ?thesis using len by simp
    next
      case False
      then have "n = int (length bs)" using law(4) by (auto split: if_splits)
      then have "0 \<le> n" "n < 2 ^ 64" using l len by simp_all
      then show ?thesis using \<open>n \<noteq> int len\<close> by (simp add: mod_pos_pos_trivial del: numeral_power_eq_of_nat_cancel_iff)
    qed
    then have e: "recv_loop os f (len # lens) ret k = ((if n < 0 then if ret = 0 then n else ret else ret + n), [bs], k1)"
      using r by simp
    have "(if n < 0 then if ret = 0 then n else ret else ret + n) =
        (if sum_list (len # lens) = 0 \<or> avail k \<noteq> [] \<or> eof k \<or> 0 < ret then ret + int (length bs) else -1)"
      using law(4) l d(2) Cons.prems(2) by (auto split: if_splits)
    then show ?thesis using e d l law(1,3) by (simp add: take_all)
  qed
qed simp

end
