(* ===== verification/Sample_Kernel.thy ===== *)
theory Sample_Kernel
  imports Socket
begin

text \<open>
  A concrete operating system, at which the witnesses of the network theories evaluate.  Descriptors are
  numbered upwards; each holds the bytes that arrived and those it accepted; writing accepts
  at most \<open>k_room\<close> bytes and fails with \<open>EAGAIN\<close> when there is no room; a
  connection attempt is in progress until it ends with \<open>k_soerr\<close>.
\<close>

record kern =
  k_in :: "int \<Rightarrow> byte list"
  k_eof :: "int \<Rightarrow> bool"
  k_out :: "int \<Rightarrow> byte list"
  k_room :: nat
  k_open :: "int set"
  k_shut :: "int set"
  k_next :: nat
  k_soerr :: int
  k_backlog :: nat
  k_local :: sockaddr
  k_peer :: sockaddr
  k_errno :: int

definition kern0 :: kern where
  "kern0 = \<lparr>k_in = (\<lambda>_. []), k_eof = (\<lambda>_. False), k_out = (\<lambda>_. []), k_room = 0, k_open = {}, k_shut = {},
     k_next = 10, k_soerr = 0, k_backlog = 0, k_local = V4Any Little 1000, k_peer = V4Any Little 80, k_errno = 0\<rparr>"

definition k_fail :: "int \<Rightarrow> kern \<Rightarrow> kern" where
  "k_fail e k = k\<lparr>k_errno := e\<rparr>"

definition k_make :: "kern \<Rightarrow> int \<times> kern" where
  "k_make k = (int (k_next k), k\<lparr>k_open := insert (int (k_next k)) (k_open k), k_next := k_next k + 1\<rparr>)"

definition k_fds :: "kern \<Rightarrow> int set" where
  "k_fds k = {f \<in> k_open k. f < int (k_next k)}"

definition k_read :: "int \<Rightarrow> nat \<Rightarrow> kern \<Rightarrow> int \<times> byte list \<times> kern" where
  "k_read f len k = (if len = 0 \<or> k_in k f \<noteq> [] \<or> k_eof k f
     then (int (length (take len (k_in k f))), take len (k_in k f),
       k\<lparr>k_in := (k_in k)(f := drop len (k_in k f))\<rparr>)
     else (-1, [], k_fail EAGAIN k))"

definition k_write :: "int \<Rightarrow> byte list \<Rightarrow> kern \<Rightarrow> int \<times> kern" where
  "k_write f bs k = (if bs \<noteq> [] \<and> k_room k = 0 then (-1, k_fail EAGAIN k)
     else (int (length (take (k_room k) bs)),
       k\<lparr>k_out := (k_out k)(f := k_out k f @ take (k_room k) bs), k_room := k_room k - length bs\<rparr>))"

definition sample_os :: "kern os" where
  "sample_os = \<lparr>
     sys_socket = (\<lambda>_ _ _. k_make),
     sys_fcntl = (\<lambda>_ _ _ k. (0, k)),
     sys_close = (\<lambda>f k. if f \<in> k_open k \<and> f < int (k_next k) then (0, k\<lparr>k_open := k_open k - {f}\<rparr>) else (-1, k_fail 9 k)),
     sys_bind = (\<lambda>_ _ _ k. (0, k)),
     sys_listen = (\<lambda>_ _ k. (0, k)),
     sys_accept4 = (\<lambda>_ a _ _ k. if k_backlog k = 0 then (-1, a, k_fail EAGAIN k)
       else let (f, k1) = k_make k in (f, k_peer k, k1\<lparr>k_backlog := k_backlog k - 1\<rparr>)),
     sys_connect = (\<lambda>f _ _ k. (-1, k_fail (if f < 0 then 9 else EINPROGRESS) k)),
     sys_readv = (\<lambda>f lens. k_read f (sum_list lens)),
     sys_recv = k_read,
     sys_write = k_write,
     sys_getsockname = (\<lambda>_ _ _ k. (0, k_local k, k)),
     sys_getpeername = (\<lambda>_ _ _ k. (0, k_peer k, k)),
     sys_shutdown = (\<lambda>f _ k. (0, k\<lparr>k_shut := insert f (k_shut k)\<rparr>)),
     sys_setsockopt = (\<lambda>_ _ _ _ _ k. (0, k)),
     sys_getsockopt = (\<lambda>_ _ _ k. (0, k_soerr k, k)),
     sys_errno = k_errno\<rparr>"

lemmas sample_defs = sample_os_def k_make_def k_read_def k_write_def k_fail_def

lemma sample_recv_law: "recv_law sample_os f (\<lambda>k. k_in k f) (\<lambda>k. k_eof k f)"
  by (auto simp: recv_law_def sample_defs)

lemma sample_readv_law: "readv_law sample_os f (\<lambda>k. k_in k f) (\<lambda>k. k_eof k f)"
  by (auto simp: readv_law_def sample_defs)

section \<open>Reading into two buffers\<close>

text \<open>
  On a stream socket that does not block, the loop over \<^verbatim>\<open>recv\<close> and one \<^verbatim>\<open>readv\<close>
  have the same result, take the same bytes from the kernel, and put them at the same places of the buffers.
\<close>

theorem recv_loop_is_readv:
  assumes "recv_law os f avail eof" and "readv_law os f avail eof" and "\<forall>n \<in> set len. n < 2 ^ 63"
    and "recv_loop os f len 0 k = (r, bss, k1)" and "socket_read os f len k = (n, bs, k2)"
  shows "r = n \<and> concat bss = bs \<and> avail k1 = avail k2 \<and> (\<forall>i < length bss. bss ! i = scatter len bs ! i)"
proof -
  have "bs = take (sum_list len) (avail k)" "avail k2 = drop (sum_list len) (avail k)"
      "n = (if sum_list len = 0 \<or> avail k \<noteq> [] \<or> eof k then int (length bs) else -1)"
    using assms(2,5) unfolding readv_law_def socket_read_def
    by (auto simp del: sum_list_eq_0_iff dest!: spec[of _ len] spec[of _ k])
  then show ?thesis
    using recv_loop_ok[OF assms(1,3), of 0 k] assms(4) by (simp del: sum_list_eq_0_iff)
qed

definition sample_input :: kern where
  "sample_input = kern0\<lparr>k_in := (\<lambda>_. [1, 2, 3, 4, 5])\<rparr>"

theorem recv_loop_is_readv_witness:
  "fst (recv_loop sample_os 3 [2, 8] 0 sample_input) = 5 \<and>
   fst (snd (recv_loop sample_os 3 [2, 8] 0 sample_input)) = [[1, 2], [3, 4, 5]]"
proof -
  obtain r bss k1 where l: "recv_loop sample_os 3 [2, 8] 0 sample_input = (r, bss, k1)"
    by (cases "recv_loop sample_os 3 [2, 8] 0 sample_input")
  obtain n bs k2 where s: "socket_read sample_os 3 [2, 8] sample_input = (n, bs, k2)"
    by (cases "socket_read sample_os 3 [2, 8] sample_input")
  have "n = 5" "bs = [1, 2, 3, 4, 5]"
    using s by (simp_all add: socket_read_def sample_defs sample_input_def kern0_def)
  moreover have "length bss = 2"
    using l by (auto simp: sample_defs sample_input_def kern0_def)
  moreover have "\<forall>x \<in> set [2, 8 :: nat]. x < 2 ^ 63" by simp
  ultimately have r: "r = 5" "\<forall>i < 2. bss ! i = [[1, 2], [3, 4, 5]] ! i"
    using recv_loop_is_readv[OF sample_recv_law sample_readv_law _ l s] by auto
  have "bss = [[1, 2], [3, 4, 5]]"
    by (rule nth_equalityI) (use r(2) \<open>length bss = 2\<close> in simp_all)
  then show ?thesis using l r(1) by simp
qed

end
