(* ===== verification/Tcp_Socket.thy ===== *)
theory Tcp_Socket
  imports Sample_Kernel
begin

text \<open>
  \<^verbatim>\<open>src/include/godnet/net/tcp_socket.hpp\<close> and \<^verbatim>\<open>tcp_socket.cpp\<close>: a descriptor with its
  owner.  A socket is its descriptor; each operation makes one system call, and reports a failure to the log
  and in its result.  The log is not part of the model.
\<close>

section \<open>Construction and destruction\<close>

text \<open>The assertion is \<^verbatim>\<open>assert(sockfd_)\<close>: it rejects descriptor 0, and no negative one.\<close>

definition TcpSocket :: "build \<Rightarrow> int \<Rightarrow> int res" where
  "TcpSocket bd sockfd = asserting bd (sockfd \<noteq> 0) (Inr sockfd)"

definition forceClose :: "'k os \<Rightarrow> int \<Rightarrow> 'k \<Rightarrow> bool \<times> 'k" where
  "forceClose os sockfd k = (let (ret, k1) = closeSocket os sockfd k in (\<not> ret < 0, k1))"

definition TcpSocket_destroy :: "build \<Rightarrow> 'k os \<Rightarrow> int \<Rightarrow> 'k \<Rightarrow> 'k res" where
  "TcpSocket_destroy bd os sockfd k = (let (ret, k1) = forceClose os sockfd k in asserting bd ret (Inr k1))"

section \<open>Operations\<close>

definition bind :: "'k os \<Rightarrow> int \<Rightarrow> sockaddr \<Rightarrow> 'k \<Rightarrow> bool \<times> 'k" where
  "bind os sockfd localAddr k = (let (ret, k1) = socket_bind os sockfd localAddr k in (\<not> ret < 0, k1))"

definition listen :: "'k os \<Rightarrow> int \<Rightarrow> 'k \<Rightarrow> bool \<times> 'k" where
  "listen os sockfd k = (let (ret, k1) = socket_listen os sockfd k in (\<not> ret < 0, k1))"

definition accept :: "'k os \<Rightarrow> int \<Rightarrow> sockaddr \<Rightarrow> 'k \<Rightarrow> int \<times> sockaddr \<times> 'k" where
  "accept os sockfd peerAddr = socket_accept os sockfd peerAddr"

definition tcp_shutdown :: "'k os \<Rightarrow> int \<Rightarrow> 'k \<Rightarrow> bool \<times> 'k" where
  "tcp_shutdown os sockfd k = (let (ret, k1) = socket_shutdown os sockfd k in (\<not> ret < 0, k1))"

definition tcp_read :: "'k os \<Rightarrow> int \<Rightarrow> nat list \<Rightarrow> 'k \<Rightarrow> int \<times> byte list \<times> 'k" where
  "tcp_read os sockfd len = socket_read os sockfd len"

definition tcp_write :: "'k os \<Rightarrow> int \<Rightarrow> byte list \<Rightarrow> 'k \<Rightarrow> int \<times> 'k" where
  "tcp_write os sockfd buf = socket_write os sockfd buf"

definition localAddress :: "'k os \<Rightarrow> int \<Rightarrow> 'k \<Rightarrow> sockaddr \<times> 'k" where
  "localAddress os sockfd k = (let (ret, a, k1) = getLocalAddr os sockfd addr_zero k in (a, k1))"

text \<open>Here the code makes the system call itself.\<close>

definition peerAddress :: "'k os \<Rightarrow> int \<Rightarrow> 'k \<Rightarrow> sockaddr \<times> 'k" where
  "peerAddress os sockfd k =
     (let (ret, a, k1) = sys_getpeername os sockfd addr_zero (getSockLen addr_zero) k in (a, k1))"

definition tcp_setTcpNoDelay :: "'k os \<Rightarrow> int \<Rightarrow> bool \<Rightarrow> 'k \<Rightarrow> bool \<times> 'k" where
  "tcp_setTcpNoDelay os sockfd on k = (let (ret, k1) = setTcpNoDelay os sockfd on k in (\<not> ret < 0, k1))"

definition tcp_setReuseAddr :: "'k os \<Rightarrow> int \<Rightarrow> bool \<Rightarrow> 'k \<Rightarrow> bool \<times> 'k" where
  "tcp_setReuseAddr os sockfd on k = (let (ret, k1) = setReuseAddr os sockfd on k in (\<not> ret < 0, k1))"

definition tcp_setReusePort :: "'k os \<Rightarrow> int \<Rightarrow> bool \<Rightarrow> 'k \<Rightarrow> bool \<times> 'k" where
  "tcp_setReusePort os sockfd on k = (let (ret, k1) = setReusePort os sockfd on k in (\<not> ret < 0, k1))"

definition tcp_setKeepAlive :: "'k os \<Rightarrow> int \<Rightarrow> bool \<Rightarrow> 'k \<Rightarrow> bool \<times> 'k" where
  "tcp_setKeepAlive os sockfd on k = (let (ret, k1) = setKeepAlive os sockfd on k in (\<not> ret < 0, k1))"

section \<open>What the owner of a descriptor relies on\<close>

text \<open>
  The kernel's descriptors: a new one was not open, closing an open one succeeds and closes it, no other call
  opens or closes any.
\<close>

definition fd_law :: "'k os \<Rightarrow> ('k \<Rightarrow> int set) \<Rightarrow> bool" where
  "fd_law os fds \<longleftrightarrow>
     (\<forall>a b c k. case sys_socket os a b c k of (f, k1) \<Rightarrow>
        if f < 0 then fds k1 = fds k else f \<notin> fds k \<and> fds k1 = insert f (fds k))
   \<and> (\<forall>s a n fl k. case sys_accept4 os s a n fl k of (f, a', k1) \<Rightarrow>
        if f < 0 then fds k1 = fds k else f \<notin> fds k \<and> fds k1 = insert f (fds k))
   \<and> (\<forall>f k. case sys_close os f k of (r, k1) \<Rightarrow>
        if f \<in> fds k then 0 \<le> r \<and> fds k1 = fds k - {f} else r < 0 \<and> fds k1 = fds k)
   \<and> (\<forall>f a n k. fds (snd (sys_bind os f a n k)) = fds k)
   \<and> (\<forall>f n k. fds (snd (sys_listen os f n k)) = fds k)
   \<and> (\<forall>f a n k. fds (snd (sys_connect os f a n k)) = fds k)
   \<and> (\<forall>f ns k. fds (snd (snd (sys_readv os f ns k))) = fds k)
   \<and> (\<forall>f bs k. fds (snd (sys_write os f bs k)) = fds k)
   \<and> (\<forall>f a n k. fds (snd (snd (sys_getsockname os f a n k))) = fds k)
   \<and> (\<forall>f a n k. fds (snd (snd (sys_getpeername os f a n k))) = fds k)
   \<and> (\<forall>f a k. fds (snd (sys_shutdown os f a k)) = fds k)
   \<and> (\<forall>f a b c n k. fds (snd (sys_setsockopt os f a b c n k)) = fds k)
   \<and> (\<forall>f a b k. fds (snd (snd (sys_getsockopt os f a b k))) = fds k)"

named_theorems fd_simps \<open>which descriptors are open after a call\<close>

lemma fd_law_keep:
  assumes "fd_law os fds"
  shows "fds (snd (sys_bind os f a n k)) = fds k" and "fds (snd (sys_listen os f i k)) = fds k"
    and "fds (snd (sys_connect os f a n k)) = fds k" and "fds (snd (snd (sys_readv os f ns k))) = fds k"
    and "fds (snd (sys_write os f bs k)) = fds k" and "fds (snd (snd (sys_getsockname os f a n k))) = fds k"
    and "fds (snd (snd (sys_getpeername os f a n k))) = fds k" and "fds (snd (sys_shutdown os f i k)) = fds k"
    and "fds (snd (sys_setsockopt os f i j l n k)) = fds k"
    and "fds (snd (snd (sys_getsockopt os f i j k))) = fds k"
  by (simp_all add: assms[unfolded fd_law_def])

lemma fd_law_simps [fd_simps]:
  assumes "fd_law os fds"
  shows "fds (snd (bind os f a k)) = fds k" and "fds (snd (listen os f k)) = fds k"
    and "fds (snd (socket_connect os f a k)) = fds k" and "fds (snd (snd (tcp_read os f ns k))) = fds k"
    and "fds (snd (tcp_write os f bs k)) = fds k" and "fds (snd (localAddress os f k)) = fds k"
    and "fds (snd (snd (getPeerAddr os f a k))) = fds k" and "fds (snd (tcp_shutdown os f k)) = fds k"
    and "fds (snd (tcp_setKeepAlive os f on k)) = fds k" and "fds (snd (tcp_setReuseAddr os f on k)) = fds k"
    and "fds (snd (tcp_setReusePort os f on k)) = fds k" and "fds (snd (getSocketError os f k)) = fds k"
    and "fds (snd (isSelfConnect os h f k)) = fds k"
  by (simp_all add: bind_def socket_bind_def listen_def socket_listen_def socket_connect_def tcp_read_def
      socket_read_def tcp_write_def socket_write_def tcp_shutdown_def socket_shutdown_def localAddress_def
      getLocalAddr_def getPeerAddr_def tcp_setKeepAlive_def tcp_setReuseAddr_def tcp_setReusePort_def
      setKeepAlive_def setReuseAddr_def setReusePort_def set_flag_def getSocketError_def isSelfConnect_def
      Let_def case_prod_beta fd_law_keep[OF assms])

lemma tcpSocket_fds:
  assumes "fd_law os fds" and "tcpSocket os fam k = (f, k1)"
  shows "if f < 0 then fds k1 = fds k else f \<notin> fds k \<and> fds k1 = insert f (fds k)"
proof -
  have "\<forall>a b c k. case sys_socket os a b c k of (f, k1) \<Rightarrow>
        if f < 0 then fds k1 = fds k else f \<notin> fds k \<and> fds k1 = insert f (fds k)"
    using assms(1) by (simp add: fd_law_def)
  from this[rule_format, where a = "uint fam" and c = IPPROTO_TCP and k = k and
    b = "SOCK_STREAM OR SOCK_NONBLOCK OR SOCK_CLOEXEC"]
  show ?thesis using assms(2) by (simp add: tcpSocket_def)
qed

lemma accept_fds:
  assumes "fd_law os fds" and "accept os s a k = (f, a', k1)"
  shows "if f < 0 then fds k1 = fds k else f \<notin> fds k \<and> fds k1 = insert f (fds k)"
proof -
  have "\<forall>s a n fl k. case sys_accept4 os s a n fl k of (f, a', k1) \<Rightarrow>
        if f < 0 then fds k1 = fds k else f \<notin> fds k \<and> fds k1 = insert f (fds k)"
    using assms(1) by (simp add: fd_law_def)
  from this[rule_format, where s = s and a = a and n = "getSockLen a" and
    fl = "SOCK_NONBLOCK OR SOCK_CLOEXEC" and k = k]
  show ?thesis using assms(2) by (simp add: accept_def socket_accept_def)
qed

lemma closeSocket_fds:
  assumes "fd_law os fds"
  shows "fds (snd (closeSocket os f k)) = fds k - {f}" and "fst (closeSocket os f k) < 0 \<longleftrightarrow> f \<notin> fds k"
proof -
  have "\<forall>f k. case sys_close os f k of (r, k1) \<Rightarrow>
      if f \<in> fds k then 0 \<le> r \<and> fds k1 = fds k - {f} else r < 0 \<and> fds k1 = fds k"
    using assms by (simp add: fd_law_def)
  from this[rule_format, where f = f and k = k]
  show "fds (snd (closeSocket os f k)) = fds k - {f}" "fst (closeSocket os f k) < 0 \<longleftrightarrow> f \<notin> fds k"
    by (auto simp: closeSocket_def split: prod.splits if_splits)
qed

lemma TcpSocket_destroy_fds:
  assumes "fd_law os fds" and "f \<in> fds k"
  shows "\<exists>k1. TcpSocket_destroy bd os f k = Inr k1 \<and> fds k1 = fds k - {f}"
  using closeSocket_fds[OF assms(1), of f k] assms(2)
  by (auto simp: TcpSocket_destroy_def forceClose_def split: prod.splits)

lemma sample_fd_law: "fd_law sample_os k_fds"
  by (auto simp: fd_law_def sample_defs k_fds_def)

end
