(* ===== verification/Tcp_Connection.thy ===== *)
theory Tcp_Connection
  imports Tcp_Socket Message_Buffer Event_Loop
begin

text \<open>
  \<^verbatim>\<open>src/include/godnet/net/tcp_connection.hpp\<close> and \<^verbatim>\<open>tcp_connection.cpp\<close>: a connection with
  its socket, its channel and its two buffers, on the thread of its loop.

  The state extends that of an event loop by the kernel and the connections, found by their address.  The functions a
  loop holds (the lambdas of the network classes) are the values of \<open>func\<close>, those a connection holds are
  those of \<open>cfunc\<close> (\<open>OwnerRemove\<close> is the lambda of the client's or server's \<open>newConnection\<close>); what calling one of the latter does is part of the environment \<open>env\<close>, with the
  operating system and the thread that makes the call.

  A connection is owned by \<^verbatim>\<open>shared_ptr\<close>s: it is destroyed when the last one goes.
  \<open>held\<close> lists those that are local variables of the code being run; \<open>e_owned\<close> tells whether an
  object has one; those in queued functions are found in the queue.
\<close>

section \<open>Functions as data\<close>

datatype 'u func =
    HandleRead nat | HandleWrite nat | HandleClose nat | HandleError nat
  | InitInLoop nat | ShutdownInLoop nat | ForceCloseInLoop nat | SendInLoop nat "byte list"
  | AcceptorRead | ConnectorWrite | ConnectorConnect
  | ClientStart | ClientStop | ServerStart | ServerStop | ServerRemoveInLoop nat
  | User 'u

datatype 'u cfunc = UserFunc 'u | OwnerRemove

section \<open>State\<close>

datatype status = Disconnected | Connecting | Connected | Disconnecting

record 'u conn =
  sockfd :: int
  chan :: nat
  status :: status
  localAddr :: sockaddr
  peerAddr :: sockaddr
  connectionCallback :: "'u cfunc option"
  messageCallback :: "'u cfunc option"
  connCloseCallback :: "'u cfunc option"
  readBuffer :: mbuf
  writeBuffer :: mbuf

record ('u, 'k) net = "'u func loop" +
  kernel :: 'k
  conns :: "nat \<Rightarrow> 'u conn option"
  held :: "nat list"

record ('u, 'k, 's) env =
  e_build :: build
  e_host :: host
  e_os :: "'k os"
  e_cur :: nat
  e_ccall :: "'u cfunc \<Rightarrow> nat \<Rightarrow> 's \<Rightarrow> 's res"
  e_owned :: "nat \<Rightarrow> 's \<Rightarrow> bool"

definition with_conn :: "nat \<Rightarrow> ('u, 'k, 'z) net_scheme \<Rightarrow> ('u conn \<Rightarrow> 'a res) \<Rightarrow> 'a res" where
  "with_conn c s k = (case conns s c of None \<Rightarrow> Inl Dangling | Some n \<Rightarrow> k n)"

definition put_conn :: "nat \<Rightarrow> 'u conn \<Rightarrow> ('u, 'k, 'z) net_scheme \<Rightarrow> ('u, 'k, 'z) net_scheme" where
  "put_conn c n s = s\<lparr>conns := (conns s)(c \<mapsto> n)\<rparr>"

type_synonym ('u, 'k, 'z) net_env = "('u, 'k, ('u, 'k, 'z) net_scheme) env"

definition in_loop :: "('u, 'k, 'z) net_env \<Rightarrow> ('u, 'k, 'z) net_scheme \<Rightarrow> bool" where
  "in_loop E s = isInLoopThread (e_cur E) s"

text \<open>An operation of a connection's channel.\<close>

definition conn_chan :: "('u, 'k, 'z) net_env \<Rightarrow> chan_op \<Rightarrow> 'u conn \<Rightarrow> ('u, 'k, 'z) net_scheme \<Rightarrow>
    ('u, 'k, 'z) net_scheme res" where
  "conn_chan E op n s = channel_op (e_cur E) op (chan n) s"

definition call_conn :: "('u, 'k, 'z) net_env \<Rightarrow> nat \<Rightarrow> ('u conn \<Rightarrow> 'u cfunc option) \<Rightarrow> ('u, 'k, 'z) net_scheme \<Rightarrow>
    ('u, 'k, 'z) net_scheme res" where
  "call_conn E c cb s = with_conn c s (\<lambda>n. case cb n of
     None \<Rightarrow> Inl Bad_Function_Call | Some f \<Rightarrow> e_ccall E f c s)"

section \<open>Construction and destruction\<close>

text \<open>The connection is at address \<open>c\<close>, its channel at \<open>d\<close>.\<close>

definition TcpConnection :: "('u, 'k, 'z) net_env \<Rightarrow> nat \<Rightarrow> nat \<Rightarrow> int \<Rightarrow> sockaddr \<Rightarrow>
    ('u, 'k, 'z) net_scheme \<Rightarrow> ('u, 'k, 'z) net_scheme res" where
  "TcpConnection E c d sock peer s =
     res_bind (TcpSocket (e_build E) sock) (\<lambda>sock.
     res_bind (new_channel (e_build E) d sock (poller s)) (\<lambda>p1.
     let (la, k1) = localAddress (e_os E) sock (kernel s) in
     asserting (e_build E) (isValid (e_host E) la) (asserting (e_build E) (isValid (e_host E) peer)
     (with_channel look_channel d p1 (\<lambda>ch.
       let ch1 = setReadCallback (Callback (HandleRead c)) ch;
           ch2 = setWriteCallback (Callback (HandleWrite c)) ch1;
           ch3 = setCloseCallback (Callback (HandleClose c)) ch2;
           ch4 = setErrorCallback (Callback (HandleError c)) ch3;
           (_, k2) = tcp_setKeepAlive (e_os E) sock True k1
       in Inr (s\<lparr>poller := put_channel d ch4 p1, kernel := k2, conns := (conns s)(c \<mapsto>
         \<lparr>sockfd = sock, chan = d, status = Disconnected, localAddr = la, peerAddr = peer,
          connectionCallback = None, messageCallback = None, connCloseCallback = None,
          readBuffer = MessageBuffer 1024, writeBuffer = MessageBuffer 1024\<rparr>)\<rparr>))))))"

text \<open>The destructor, then those of the members: the channel's, and the socket's, which closes it.\<close>

definition destroyConnection :: "('u, 'k, 'z) net_env \<Rightarrow> nat \<Rightarrow> ('u, 'k, 'z) net_scheme \<Rightarrow>
    ('u, 'k, 'z) net_scheme res" where
  "destroyConnection E c s = with_conn c s (\<lambda>n. asserting (e_build E) (status n = Disconnected)
     (res_bind (delete_channel (e_build E) (chan n) (poller s)) (\<lambda>p1.
      res_bind (TcpSocket_destroy (e_build E) (e_os E) (sockfd n) (kernel s)) (\<lambda>k1.
      Inr (s\<lparr>poller := close_fd (sockfd n) p1, kernel := k1, conns := (conns s)(c := None)\<rparr>)))))"

definition setConnectionCallback :: "nat \<Rightarrow> 'u cfunc option \<Rightarrow> ('u, 'k, 'z) net_scheme \<Rightarrow>
    ('u, 'k, 'z) net_scheme res" where
  "setConnectionCallback c cb s = with_conn c s (\<lambda>n. Inr (put_conn c (n\<lparr>connectionCallback := cb\<rparr>) s))"
definition setMessageCallback :: "nat \<Rightarrow> 'u cfunc option \<Rightarrow> ('u, 'k, 'z) net_scheme \<Rightarrow>
    ('u, 'k, 'z) net_scheme res" where
  "setMessageCallback c cb s = with_conn c s (\<lambda>n. Inr (put_conn c (n\<lparr>messageCallback := cb\<rparr>) s))"
definition setConnCloseCallback :: "nat \<Rightarrow> 'u cfunc option \<Rightarrow> ('u, 'k, 'z) net_scheme \<Rightarrow>
    ('u, 'k, 'z) net_scheme res" where
  "setConnCloseCallback c cb s = with_conn c s (\<lambda>n. Inr (put_conn c (n\<lparr>connCloseCallback := cb\<rparr>) s))"

text \<open>References in queued functions, and the end of a reference that is a local variable.\<close>

fun keeps :: "nat \<Rightarrow> 'u func task \<Rightarrow> bool" where
  "keeps c (Func (InitInLoop d)) = (c = d)"
| "keeps c (Func (ShutdownInLoop d)) = (c = d)"
| "keeps c (Func (ForceCloseInLoop d)) = (c = d)"
| "keeps c (Func (SendInLoop d bs)) = (c = d)"
| "keeps c (Func (ServerRemoveInLoop d)) = (c = d)"
| "keeps c _ = False"

definition referenced :: "('u, 'k, 'z) net_env \<Rightarrow> nat \<Rightarrow> ('u, 'k, 'z) net_scheme \<Rightarrow> bool" where
  "referenced E c s \<longleftrightarrow> c \<in> set (held s) \<or> e_owned E c s \<or> (\<exists>t \<in> set (customEvents s). keeps c t)"

definition hold :: "nat \<Rightarrow> ('u, 'k, 'z) net_scheme \<Rightarrow> ('u, 'k, 'z) net_scheme" where
  "hold c s = s\<lparr>held := c # held s\<rparr>"

definition drop_ref :: "('u, 'k, 'z) net_env \<Rightarrow> nat \<Rightarrow> ('u, 'k, 'z) net_scheme \<Rightarrow> ('u, 'k, 'z) net_scheme res" where
  "drop_ref E c s = (if referenced E c s \<or> conns s c = None then Inr s else destroyConnection E c s)"

definition unhold :: "('u, 'k, 'z) net_env \<Rightarrow> nat \<Rightarrow> ('u, 'k, 'z) net_scheme \<Rightarrow> ('u, 'k, 'z) net_scheme res" where
  "unhold E c s = drop_ref E c (s\<lparr>held := remove1 c (held s)\<rparr>)"

definition holding :: "('u, 'k, 'z) net_env \<Rightarrow> nat \<Rightarrow> (('u, 'k, 'z) net_scheme \<Rightarrow> ('u, 'k, 'z) net_scheme res) \<Rightarrow>
    ('u, 'k, 'z) net_scheme \<Rightarrow> ('u, 'k, 'z) net_scheme res" where
  "holding E c f s = res_bind (f (hold c s)) (unhold E c)"

section \<open>Opening and closing\<close>

text \<open>\<open>initInLoop\<close> up to its callback.\<close>

definition openChannel :: "('u, 'k, 'z) net_env \<Rightarrow> nat \<Rightarrow> ('u, 'k, 'z) net_scheme \<Rightarrow> ('u, 'k, 'z) net_scheme res" where
  "openChannel E c s = guarding Wrong_Thread (in_loop E s) (with_conn c s (\<lambda>n.
     asserting (e_build E) (status n = Disconnected)
       (let s1 = put_conn c (n\<lparr>status := Connected\<rparr>) s in
        with_channel look_loop (chan n) s1 (\<lambda>ch.
        conn_chan E EnableReading n (put_loop (chan n) (bindWeakPtr c ch) s1)))))"

definition initInLoop :: "('u, 'k, 'z) net_env \<Rightarrow> nat \<Rightarrow> ('u, 'k, 'z) net_scheme \<Rightarrow> ('u, 'k, 'z) net_scheme res" where
  "initInLoop E c s = res_bind (openChannel E c s) (holding E c (call_conn E c connectionCallback))"

definition connInit :: "('u, 'k, 'z) net_env \<Rightarrow> nat \<Rightarrow> ('u, 'k, 'z) net_scheme \<Rightarrow> ('u, 'k, 'z) net_scheme res" where
  "connInit E c s = (if in_loop E s then initInLoop E c s
     else queueInLoop (e_build E) (e_cur E) (InitInLoop c) s)"

definition shutdownInLoop :: "('u, 'k, 'z) net_env \<Rightarrow> nat \<Rightarrow> ('u, 'k, 'z) net_scheme \<Rightarrow> ('u, 'k, 'z) net_scheme res" where
  "shutdownInLoop E c s = with_conn c s (\<lambda>n. if status n = Connected then
       let s1 = put_conn c (n\<lparr>status := Disconnecting\<rparr>) s in
       with_channel look_loop (chan n) s1 (\<lambda>ch.
         if \<not> isWriting ch then Inr (s1\<lparr>kernel := snd (tcp_shutdown (e_os E) (sockfd n) (kernel s1))\<rparr>)
         else Inr s1)
     else Inr s)"

definition connShutdown :: "('u, 'k, 'z) net_env \<Rightarrow> nat \<Rightarrow> ('u, 'k, 'z) net_scheme \<Rightarrow> ('u, 'k, 'z) net_scheme res" where
  "connShutdown E c s = (if in_loop E s then shutdownInLoop E c s
     else queueInLoop (e_build E) (e_cur E) (ShutdownInLoop c) s)"

text \<open>\<open>handleClose\<close> up to its callbacks.\<close>

definition closeChannel :: "('u, 'k, 'z) net_env \<Rightarrow> nat \<Rightarrow> ('u, 'k, 'z) net_scheme \<Rightarrow> ('u, 'k, 'z) net_scheme res" where
  "closeChannel E c s = guarding Wrong_Thread (in_loop E s) (with_conn c s (\<lambda>n.
     asserting (e_build E) (status n = Connected \<or> status n = Disconnecting)
       (conn_chan E DisableAll n (put_conn c (n\<lparr>status := Disconnected\<rparr>) s))))"

definition handleClose :: "('u, 'k, 'z) net_env \<Rightarrow> nat \<Rightarrow> ('u, 'k, 'z) net_scheme \<Rightarrow> ('u, 'k, 'z) net_scheme res" where
  "handleClose E c s = res_bind (closeChannel E c s) (holding E c (\<lambda>s1.
     res_bind (call_conn E c connectionCallback s1) (call_conn E c connCloseCallback)))"

definition forceCloseInLoop :: "('u, 'k, 'z) net_env \<Rightarrow> nat \<Rightarrow> ('u, 'k, 'z) net_scheme \<Rightarrow> ('u, 'k, 'z) net_scheme res" where
  "forceCloseInLoop E c s = with_conn c s (\<lambda>n.
     if status n = Connected \<or> status n = Disconnecting
     then handleClose E c (put_conn c (n\<lparr>status := Disconnected\<rparr>) s) else Inr s)"

definition connForceClose :: "('u, 'k, 'z) net_env \<Rightarrow> nat \<Rightarrow> ('u, 'k, 'z) net_scheme \<Rightarrow> ('u, 'k, 'z) net_scheme res" where
  "connForceClose E c s = (if in_loop E s then forceCloseInLoop E c s
     else queueInLoop (e_build E) (e_cur E) (ForceCloseInLoop c) s)"

definition handleError :: "('u, 'k, 'z) net_env \<Rightarrow> nat \<Rightarrow> ('u, 'k, 'z) net_scheme \<Rightarrow> ('u, 'k, 'z) net_scheme res" where
  "handleError E c s = Inr s"

section \<open>Sending\<close>

definition sendInLoop :: "('u, 'k, 'z) net_env \<Rightarrow> nat \<Rightarrow> byte list \<Rightarrow> ('u, 'k, 'z) net_scheme \<Rightarrow>
    ('u, 'k, 'z) net_scheme res" where
  "sendInLoop E c buf s = guarding Wrong_Thread (in_loop E s) (with_conn c s (\<lambda>n.
     with_channel look_loop (chan n) s (\<lambda>ch.
       let (w, k1) = (if \<not> isWriting ch \<and> buf_empty (writeBuffer n)
              then (let (w, k1) = tcp_write (e_os E) (sockfd n) buf (kernel s) in (if w < 0 then 0 else w, k1))
              else (0, kernel s));
           s1 = s\<lparr>kernel := k1\<rparr>
       in if nat w < length buf then
            res_bind (write_buf (drop (nat w) buf) (writeBuffer n)) (\<lambda>wb.
              let s2 = put_conn c (n\<lparr>writeBuffer := wb\<rparr>) s1 in
              if \<not> isWriting ch then conn_chan E EnableWriting n s2 else Inr s2)
          else Inr s1)))"

definition send :: "('u, 'k, 'z) net_env \<Rightarrow> nat \<Rightarrow> byte list \<Rightarrow> ('u, 'k, 'z) net_scheme \<Rightarrow>
    ('u, 'k, 'z) net_scheme res" where
  "send E c buf s = (if in_loop E s then sendInLoop E c buf s
     else queueInLoop (e_build E) (e_cur E) (SendInLoop c buf) s)"

text \<open>From a string, and from a string the caller gives up.\<close>

definition sendString :: "('u, 'k, 'z) net_env \<Rightarrow> nat \<Rightarrow> byte list \<Rightarrow> ('u, 'k, 'z) net_scheme \<Rightarrow>
    ('u, 'k, 'z) net_scheme res" where
  "sendString E c buf s = (if in_loop E s then sendInLoop E c buf s
     else queueInLoop (e_build E) (e_cur E) (SendInLoop c buf) s)"

definition sendMoved :: "('u, 'k, 'z) net_env \<Rightarrow> nat \<Rightarrow> byte list \<Rightarrow> ('u, 'k, 'z) net_scheme \<Rightarrow>
    ('u, 'k, 'z) net_scheme res" where
  "sendMoved E c buf s = (if in_loop E s then sendInLoop E c buf s
     else queueInLoop (e_build E) (e_cur E) (SendInLoop c buf) s)"

definition sendBuffer :: "('u, 'k, 'z) net_env \<Rightarrow> nat \<Rightarrow> mbuf \<Rightarrow> ('u, 'k, 'z) net_scheme \<Rightarrow>
    ('u, 'k, 'z) net_scheme res" where
  "sendBuffer E c b s = res_bind (read_mem (buf_size b) b) (\<lambda>bs. if in_loop E s then sendInLoop E c bs s
     else queueInLoop (e_build E) (e_cur E) (SendInLoop c bs) s)"

definition handleWrite :: "('u, 'k, 'z) net_env \<Rightarrow> nat \<Rightarrow> ('u, 'k, 'z) net_scheme \<Rightarrow> ('u, 'k, 'z) net_scheme res" where
  "handleWrite E c s = guarding Wrong_Thread (in_loop E s) (with_conn c s (\<lambda>n.
     with_channel look_loop (chan n) s (\<lambda>ch. if isWriting ch then
       res_bind (read_mem (readByte (writeBuffer n)) (writeBuffer n)) (\<lambda>bs.
       let (w, k1) = tcp_write (e_os E) (sockfd n) bs (kernel s); s1 = s\<lparr>kernel := k1\<rparr> in
       if w > 0 then
         res_bind (retrieve (e_build E) (nat w) (writeBuffer n)) (\<lambda>wb.
         let s2 = put_conn c (n\<lparr>writeBuffer := wb\<rparr>) s1 in
         if buf_empty wb then
           res_bind (conn_chan E DisableWriting n s2) (\<lambda>s3.
             if status n = Disconnecting
             then Inr (s3\<lparr>kernel := snd (tcp_shutdown (e_os E) (sockfd n) (kernel s3))\<rparr>)
             else Inr s3)
         else Inr s2)
       else Inr s1)
     else Inr s)))"

section \<open>Receiving\<close>

text \<open>\<open>extBuffer\<close> is 8192 bytes; it is used when the read buffer has less room than that.\<close>

definition read_lens :: "mbuf \<Rightarrow> nat list" where
  "read_lens rb = (if writeByte rb < 8192 then [writeByte rb, 8192] else [writeByte rb])"

text \<open>The bytes the kernel put behind \<open>write\<close> and into \<open>extBuffer\<close>, made part of the buffer.\<close>

definition takeIn :: "build \<Rightarrow> nat \<Rightarrow> byte list \<Rightarrow> mbuf \<Rightarrow> mbuf res" where
  "takeIn bd n bs rb =
     (let len0 = writeByte rb; rb1 = rb\<lparr>mem := put_mem (wr rb) (take len0 bs) (mem rb)\<rparr> in
      if n \<le> len0 then advanceWrite bd n rb1
      else res_bind (advanceWrite bd len0 rb1) (\<lambda>rb2.
        guarding Indeterminate (n - len0 \<le> length (drop len0 bs))
          (write_buf (take (n - len0) (drop len0 bs)) rb2)))"

definition handleRead :: "('u, 'k, 'z) net_env \<Rightarrow> nat \<Rightarrow> ('u, 'k, 'z) net_scheme \<Rightarrow> ('u, 'k, 'z) net_scheme res" where
  "handleRead E c s = guarding Wrong_Thread (in_loop E s) (with_conn c s (\<lambda>n.
     let rb = readBuffer n; (r, bs, k1) = tcp_read (e_os E) (sockfd n) (read_lens rb) (kernel s);
         s1 = s\<lparr>kernel := k1\<rparr>
     in if r > 0 then
          res_bind (takeIn (e_build E) (nat r) bs rb) (\<lambda>rb1.
            holding E c (call_conn E c messageCallback) (put_conn c (n\<lparr>readBuffer := rb1\<rparr>) s1))
        else if r = 0 then handleClose E c s1
        else handleClose E c s1))"

text \<open>The functions a loop holds for its connections; a queued one has a reference to its connection.\<close>

fun call_func :: "('u, 'k, 'z) net_env \<Rightarrow> ('u func \<Rightarrow> ('u, 'k, 'z) net_scheme \<Rightarrow> ('u, 'k, 'z) net_scheme res) \<Rightarrow>
    'u func \<Rightarrow> ('u, 'k, 'z) net_scheme \<Rightarrow> ('u, 'k, 'z) net_scheme res" where
  "call_func E other (HandleRead c) s = handleRead E c s"
| "call_func E other (HandleWrite c) s = handleWrite E c s"
| "call_func E other (HandleClose c) s = handleClose E c s"
| "call_func E other (HandleError c) s = handleError E c s"
| "call_func E other (InitInLoop c) s = holding E c (initInLoop E c) s"
| "call_func E other (ShutdownInLoop c) s = holding E c (shutdownInLoop E c) s"
| "call_func E other (ForceCloseInLoop c) s = holding E c (forceCloseInLoop E c) s"
| "call_func E other (SendInLoop c bs) s = holding E c (sendInLoop E c bs) s"
| "call_func E other f s = other f s"

text \<open>
  An event on a channel: \<open>lock()\<close> of a bound connection gives a reference that lasts until the handler
  is done.
\<close>

definition conn_event :: "('u, 'k, 'z) net_env \<Rightarrow> ('u func \<Rightarrow> ('u, 'k, 'z) net_scheme \<Rightarrow> ('u, 'k, 'z) net_scheme res) \<Rightarrow>
    nat \<Rightarrow> ('u, 'k, 'z) net_scheme \<Rightarrow> ('u, 'k, 'z) net_scheme res" where
  "conn_event E other d s = with_channel look_loop d s (\<lambda>ch.
     let handle = handlerEvent look_loop put_loop (call_callback (call_func E other)) (\<lambda>obj s. conns s obj \<noteq> None)
           (in_loop E s) d
     in case bindObject ch of
          Some c \<Rightarrow> if conns s c \<noteq> None then holding E c handle s else handle s
        | None \<Rightarrow> handle s)"

end
