(* ===== verification/Tcp_Stream.thy ===== *)
theory Tcp_Stream
  imports Tcp_Connection
begin

text \<open>
  What a connection (\<^verbatim>\<open>src/include/godnet/net/tcp_connection.cpp\<close>) does with the bytes it sends
  and receives: every byte sent reaches the kernel once and in order, the writing half is shut down
  after the last of them, and what the kernel hands out arrives in the read buffer.
\<close>

section \<open>What the kernel does with a stream\<close>

text \<open>
  \<open>acc\<close> is what the kernel has accepted for a descriptor, \<open>shut\<close> the descriptors whose writing
  half it was asked to shut down.  \<^verbatim>\<open>write(2)\<close> accepts a prefix of the bytes, or fails.
\<close>

definition stream_law :: "'k os \<Rightarrow> ('k \<Rightarrow> int \<Rightarrow> byte list) \<Rightarrow> ('k \<Rightarrow> int set) \<Rightarrow> bool" where
  "stream_law os acc shut \<longleftrightarrow>
     (\<forall>f bs k. case sys_write os f bs k of (n, k1) \<Rightarrow> n \<le> int (length bs) \<and>
        acc k1 = (acc k)(f := acc k f @ take (nat n) bs) \<and> shut k1 = shut k)
   \<and> (\<forall>f k. case sys_shutdown os f SHUT_WR k of (r, k1) \<Rightarrow> acc k1 = acc k \<and> shut k1 = insert f (shut k))
   \<and> (\<forall>f ns k. case sys_readv os f ns k of (n, bs, k1) \<Rightarrow> acc k1 = acc k \<and> shut k1 = shut k)
   \<and> (\<forall>f a n k. case sys_getsockname os f a n k of (r, a, k1) \<Rightarrow> acc k1 = acc k \<and> shut k1 = shut k)
   \<and> (\<forall>f l i v n k. case sys_setsockopt os f l i v n k of (r, k1) \<Rightarrow> acc k1 = acc k \<and> shut k1 = shut k)"

lemma stream_law_write:
  assumes "stream_law os acc shut" and "tcp_write os f bs k = (n, k1)"
  shows "n \<le> int (length bs)" "acc k1 f = acc k f @ take (nat n) bs" "shut k1 = shut k"
proof -
  have "\<forall>f bs k. case sys_write os f bs k of (n, k1) \<Rightarrow> n \<le> int (length bs) \<and>
        acc k1 = (acc k)(f := acc k f @ take (nat n) bs) \<and> shut k1 = shut k"
    using assms(1) by (simp add: stream_law_def)
  from this[rule_format, where f = f and bs = bs and k = k]
  show "n \<le> int (length bs)" "acc k1 f = acc k f @ take (nat n) bs" "shut k1 = shut k"
    using assms(2) by (simp_all add: tcp_write_def socket_write_def)
qed

lemma stream_law_shutdown:
  assumes "stream_law os acc shut"
  shows "acc (snd (tcp_shutdown os f k)) = acc k" "shut (snd (tcp_shutdown os f k)) = insert f (shut k)"
proof -
  have "\<forall>f k. case sys_shutdown os f SHUT_WR k of (r, k1) \<Rightarrow> acc k1 = acc k \<and> shut k1 = insert f (shut k)"
    using assms by (simp add: stream_law_def)
  from this[rule_format, where f = f and k = k]
  show "acc (snd (tcp_shutdown os f k)) = acc k" "shut (snd (tcp_shutdown os f k)) = insert f (shut k)"
    by (auto simp: tcp_shutdown_def socket_shutdown_def split: prod.splits)
qed

lemma stream_law_read:
  assumes "stream_law os acc shut" and "tcp_read os f ns k = (n, bs, k1)"
  shows "acc k1 = acc k" "shut k1 = shut k"
proof -
  have "\<forall>f ns k. case sys_readv os f ns k of (n, bs, k1) \<Rightarrow> acc k1 = acc k \<and> shut k1 = shut k"
    using assms(1) by (simp add: stream_law_def)
  from this[rule_format, where f = f and ns = ns and k = k]
  show "acc k1 = acc k" "shut k1 = shut k"
    using assms(2) by (simp_all add: tcp_read_def socket_read_def)
qed

lemma stream_law_setup:
  assumes "stream_law os acc shut"
  shows "acc (snd (tcp_setKeepAlive os f on k)) = acc k" "shut (snd (tcp_setKeepAlive os f on k)) = shut k"
    and "acc (snd (localAddress os f k)) = acc k" "shut (snd (localAddress os f k)) = shut k"
proof -
  have "\<forall>f l i v n k. case sys_setsockopt os f l i v n k of (r, k1) \<Rightarrow> acc k1 = acc k \<and> shut k1 = shut k"
    and "\<forall>f a n k. case sys_getsockname os f a n k of (r, a, k1) \<Rightarrow> acc k1 = acc k \<and> shut k1 = shut k"
    using assms by (simp_all add: stream_law_def)
  then have "acc (snd (sys_setsockopt os f l i v n k)) = acc k \<and> shut (snd (sys_setsockopt os f l i v n k)) = shut k"
    and "acc (snd (snd (sys_getsockname os f a n k))) = acc k \<and> shut (snd (snd (sys_getsockname os f a n k))) = shut k"
    for f l i v n k a by (auto simp: case_prod_beta)
  then show "acc (snd (tcp_setKeepAlive os f on k)) = acc k" "shut (snd (tcp_setKeepAlive os f on k)) = shut k"
    "acc (snd (localAddress os f k)) = acc k" "shut (snd (localAddress os f k)) = shut k"
    by (simp_all add: tcp_setKeepAlive_def setKeepAlive_def set_flag_def localAddress_def getLocalAddr_def
        Let_def case_prod_beta)
qed

section \<open>What happens to an open connection\<close>

text \<open>
  The steps of the code and of its callbacks that touch the connection at \<open>c\<close>, and anything that leaves it,
  its channel and its stream alone; \<open>bs\<close> are the bytes given to \<open>sendInLoop\<close>.  The user sends
  while the connection is connected.
\<close>

definition same_conn :: "('k \<Rightarrow> int \<Rightarrow> byte list) \<Rightarrow> ('k \<Rightarrow> int set) \<Rightarrow> nat \<Rightarrow> ('u, 'k, 'z) net_scheme \<Rightarrow>
    ('u, 'k, 'z) net_scheme \<Rightarrow> bool" where
  "same_conn acc shut c s s' \<longleftrightarrow> threadId s' = threadId s \<and> conns s' c = conns s c \<and>
     (poller_inv (poller s) \<longrightarrow> poller_inv (poller s')) \<and>
     (\<forall>n. conns s c = Some n \<longrightarrow> chans (poller s') (chan n) = chans (poller s) (chan n) \<and>
        acc (kernel s') (sockfd n) = acc (kernel s) (sockfd n) \<and>
        (sockfd n \<in> shut (kernel s') \<longleftrightarrow> sockfd n \<in> shut (kernel s)))"

inductive conn_acts :: "('u, 'k, 'z) net_env \<Rightarrow> ('k \<Rightarrow> int \<Rightarrow> byte list) \<Rightarrow> ('k \<Rightarrow> int set) \<Rightarrow> nat \<Rightarrow> byte list \<Rightarrow>
    ('u, 'k, 'z) net_scheme \<Rightarrow> ('u, 'k, 'z) net_scheme \<Rightarrow> bool" for E acc shut c where
  act_other: "same_conn acc shut c s s' \<Longrightarrow> conn_acts E acc shut c [] s s'"
| act_send: "conns s c = Some n \<Longrightarrow> status n = Connected \<Longrightarrow> sendInLoop E c bs s = Inr s' \<Longrightarrow>
     conn_acts E acc shut c bs s s'"
| act_shutdown: "shutdownInLoop E c s = Inr s' \<Longrightarrow> conn_acts E acc shut c [] s s'"
| act_write: "handleWrite E c s = Inr s' \<Longrightarrow> conn_acts E acc shut c [] s s'"
| act_input: "conns s c = Some n \<Longrightarrow> acc k1 = acc (kernel s) \<Longrightarrow> shut k1 = shut (kernel s) \<Longrightarrow>
     s' = put_conn c (n\<lparr>readBuffer := rb\<rparr>) (s\<lparr>kernel := k1\<rparr>) \<Longrightarrow> conn_acts E acc shut c [] s s'"
| act_close: "conns s c = Some n \<Longrightarrow> status n = Connected \<or> status n = Disconnecting \<Longrightarrow>
     closeChannel E c (put_conn c (n\<lparr>status := st\<rparr>) s) = Inr s' \<Longrightarrow> conn_acts E acc shut c [] s s'"
| act_trans: "conn_acts E acc shut c bs s s1 \<Longrightarrow> conn_acts E acc shut c bs' s1 s' \<Longrightarrow>
     conn_acts E acc shut c (bs @ bs') s s'"

text \<open>The invariant of a connection that was initialised.\<close>

definition conn_ok :: "('u, 'k, 'z) net_env \<Rightarrow> ('k \<Rightarrow> int set) \<Rightarrow> 'u conn \<Rightarrow> ('u, 'k, 'z) net_scheme \<Rightarrow> bool" where
  "conn_ok E shut n s \<longleftrightarrow> poller_inv (poller s) \<and> threadId s = e_cur E \<and> buf_wf (writeBuffer n) \<and>
     (\<exists>ch. chans (poller s) (chan n) = Some ch \<and> fd ch = sockfd n \<and>
       (case status n of
          Connected \<Rightarrow> isReading ch \<and> (isWriting ch \<longleftrightarrow> contents (writeBuffer n) \<noteq> []) \<and> sockfd n \<notin> shut (kernel s)
        | Disconnecting \<Rightarrow> isReading ch \<and> (isWriting ch \<longleftrightarrow> contents (writeBuffer n) \<noteq> []) \<and>
            (sockfd n \<in> shut (kernel s) \<longleftrightarrow> contents (writeBuffer n) = [])
        | Disconnected \<Rightarrow> isNoneEvent ch
        | Connecting \<Rightarrow> False))"

lemma isReading_events: "isReading ch \<longleftrightarrow> events ch AND READ_EVENT \<noteq> 0" "isWriting ch \<longleftrightarrow> events ch AND WRITE_EVENT \<noteq> 0"
  by (simp_all add: isReading_def isWriting_def)

lemma watching_not_none: "isReading ch \<Longrightarrow> \<not> isNoneEvent ch" "isWriting ch \<Longrightarrow> \<not> isNoneEvent ch"
  by (auto simp: isReading_def isWriting_def isNoneEvent_def NONE_EVENT_def)

lemma mask_nonzero: "READ_EVENT \<noteq> 0" "WRITE_EVENT \<noteq> 0"
  by (simp_all add: event_defs)

lemma read_not_write: "READ_EVENT AND WRITE_EVENT = 0"
  by (simp add: event_defs)

lemma event_masks:
  "(e OR WRITE_EVENT) AND READ_EVENT = e AND READ_EVENT" "(e OR WRITE_EVENT) AND WRITE_EVENT \<noteq> 0"
  "(e AND NOT WRITE_EVENT) AND READ_EVENT = e AND READ_EVENT" "(e AND NOT WRITE_EVENT) AND WRITE_EVENT = 0"
  "(e OR READ_EVENT) AND READ_EVENT \<noteq> 0" "(e OR READ_EVENT) AND WRITE_EVENT = e AND WRITE_EVENT"
proof -
  have d: "READ_EVENT AND WRITE_EVENT = 0" "WRITE_EVENT AND READ_EVENT = 0" "READ_EVENT \<noteq> 0" "WRITE_EVENT \<noteq> 0"
    by (simp_all add: event_defs)
  show "(e OR WRITE_EVENT) AND READ_EVENT = e AND READ_EVENT" "(e OR READ_EVENT) AND WRITE_EVENT = e AND WRITE_EVENT"
    by (simp_all add: bit.conj_disj_distrib2 d)
  show "(e OR WRITE_EVENT) AND WRITE_EVENT \<noteq> 0" "(e OR READ_EVENT) AND READ_EVENT \<noteq> 0"
    by (simp_all add: bit.conj_disj_distrib2 d or_eq_0_iff)
  have "NOT WRITE_EVENT AND READ_EVENT = READ_EVENT"
    by (simp add: event_defs)
  then show "(e AND NOT WRITE_EVENT) AND READ_EVENT = e AND READ_EVENT"
    by (simp add: and.assoc)
  show "(e AND NOT WRITE_EVENT) AND WRITE_EVENT = 0"
    by (simp add: and.assoc)
qed

text \<open>\<open>watched\<close>: the poller watches only open descriptors, and those are not negative.\<close>

definition watched :: "('k \<Rightarrow> int set) \<Rightarrow> ('u, 'k, 'z) net_scheme \<Rightarrow> bool" where
  "watched fds s \<longleftrightarrow> poller_inv (poller s) \<and> (\<forall>f \<in> fds (kernel s). 0 \<le> f) \<and>
     (\<forall>c ch. chans (poller s) c = Some ch \<and> \<not> isNoneEvent ch \<longrightarrow> fd ch \<in> fds (kernel s))"

lemma interest_watched:
  assumes "poller_inv p"
  shows "interest p f \<noteq> None \<longleftrightarrow> (\<exists>c ch. chans p c = Some ch \<and> fd ch = f \<and> \<not> isNoneEvent ch)"
proof
  assume "interest p f \<noteq> None"
  then obtain ev c where "interest p f = Some (ev, c)" by auto
  then show "\<exists>c ch. chans p c = Some ch \<and> fd ch = f \<and> \<not> isNoneEvent ch"
    using poller_invD(1,3)[OF assms] by blast
next
  assume "\<exists>c ch. chans p c = Some ch \<and> fd ch = f \<and> \<not> isNoneEvent ch"
  then obtain c ch where ch: "chans p c = Some ch" "fd ch = f" "\<not> isNoneEvent ch" by blast
  then have "c \<in> channels p" using poller_invD(1)[OF assms] by blast
  then show "interest p f \<noteq> None" using poller_invD(2)[OF assms] ch by fastforce
qed

lemma watched_same: "poller s' = poller s \<Longrightarrow> fds (kernel s') = fds (kernel s) \<Longrightarrow> watched fds s' = watched fds s"
  by (simp add: watched_def)

lemma watched_interest: "watched fds s \<Longrightarrow> f \<notin> fds (kernel s) \<Longrightarrow> interest (poller s) f = None"
  using interest_watched[of "poller s" f] unfolding watched_def by blast

section \<open>Each step keeps the invariant and the stream\<close>

lemma conn_chan_ok:
  assumes "poller_inv (poller s)" and "threadId s = e_cur E"
    and "chans (poller s) (chan n) = Some ch" and "\<not> isNoneEvent ch"
  shows "\<exists>p'. conn_chan E op n s = Inr (s\<lparr>poller := p'\<rparr>) \<and> poller_inv p' \<and>
    chans p' = (chans (poller s))(chan n \<mapsto> ch\<lparr>events := new_events op (events ch)\<rparr>)"
proof -
  have "chan n \<in> channels (poller s)" using poller_invD(1)[OF assms(1,3)] assms(4) by blast
  then obtain p' where "set_events True (new_events op) (chan n) (poller s) = Inr p'" "poller_inv p'"
      "chans p' = (chans (poller s))(chan n \<mapsto> ch\<lparr>events := new_events op (events ch)\<rparr>)"
    using set_events_ok[OF assms(1,3), of "new_events op"] by blast
  then show ?thesis
    using assms(2) by (auto simp: conn_chan_def channel_op_def do_op_set_events isInLoopThread_def)
qed

text \<open>The stream and the invariant after a step, in terms of those before.\<close>

definition stream_step :: "('u, 'k, 'z) net_env \<Rightarrow> ('k \<Rightarrow> int \<Rightarrow> byte list) \<Rightarrow> ('k \<Rightarrow> int set) \<Rightarrow> nat \<Rightarrow> byte list \<Rightarrow>
    'u conn \<Rightarrow> ('u, 'k, 'z) net_scheme \<Rightarrow> ('u, 'k, 'z) net_scheme \<Rightarrow> bool" where
  "stream_step E acc shut c bs n s s' \<longleftrightarrow> (\<exists>n'. conns s' c = Some n' \<and> conn_ok E shut n' s' \<and>
     sockfd n' = sockfd n \<and> chan n' = chan n \<and> (\<exists>out. acc (kernel s') (sockfd n) = acc (kernel s) (sockfd n) @ out) \<and>
     acc (kernel s') (sockfd n) @ contents (writeBuffer n') = acc (kernel s) (sockfd n) @ contents (writeBuffer n) @ bs)"

lemma write_stream:
  assumes "stream_law os acc shut" and "tcp_write os f bs k = (w, k1)"
  shows "acc k1 f @ drop (nat w) bs = acc k f @ bs" "shut k1 = shut k" "nat w \<le> length bs"
    and "\<exists>out. acc k1 f = acc k f @ out"
  using stream_law_write[OF assms] by auto

lemma send_step:
  assumes L: "stream_law (e_os E) acc shut" and n: "conns s c = Some n" "status n = Connected"
    and ok: "conn_ok E shut n s" and len: "length (contents (writeBuffer n)) + length bs < 2 ^ 63"
    and r: "sendInLoop E c bs s = Inr s'"
  shows "stream_step E acc shut c bs n s s'"
proof -
  obtain ch where ch: "chans (poller s) (chan n) = Some ch" "fd ch = sockfd n" "isReading ch"
      "isWriting ch \<longleftrightarrow> contents (writeBuffer n) \<noteq> []" "sockfd n \<notin> shut (kernel s)"
    using ok n(2) by (auto simp: conn_ok_def)
  have I: "poller_inv (poller s)" "threadId s = e_cur E" "buf_wf (writeBuffer n)"
    using ok by (simp_all add: conn_ok_def)
  let ?W = "(if \<not> isWriting ch \<and> buf_empty (writeBuffer n)
       then (let (w, k1) = tcp_write (e_os E) (sockfd n) bs (kernel s) in (if w < 0 then 0 else w, k1))
       else (0, kernel s))"
  obtain w k1 where W: "?W = (w, k1)" by (cases ?W)
  have wk: "acc k1 (sockfd n) @ drop (nat w) bs = acc (kernel s) (sockfd n) @ bs" "shut k1 = shut (kernel s)"
      "nat w \<le> length bs" "\<exists>out. acc k1 (sockfd n) = acc (kernel s) (sockfd n) @ out"
      "isWriting ch \<Longrightarrow> w = 0 \<and> k1 = kernel s"
    using W write_stream[OF L, of "sockfd n" bs "kernel s"]
    by (auto split: if_splits prod.splits; force)+
  have bw: "buf_empty (writeBuffer n) \<longleftrightarrow> contents (writeBuffer n) = []"
    using buf_empty_contents[OF I(3)] .
  have body: "(if nat w < length bs then
            res_bind (write_buf (drop (nat w) bs) (writeBuffer n)) (\<lambda>wb.
              let s2 = put_conn c (n\<lparr>writeBuffer := wb\<rparr>) (s\<lparr>kernel := k1\<rparr>) in
              if \<not> isWriting ch then conn_chan E EnableWriting n s2 else Inr s2)
          else Inr (s\<lparr>kernel := k1\<rparr>)) = Inr s'"
    using r n(1) ch(1) W I(2)
    by (simp add: sendInLoop_def with_conn_def with_channel_def look_loop_def in_loop_def isInLoopThread_def Let_def)
  show ?thesis
  proof (cases "nat w < length bs")
    case False
    then have "s' = s\<lparr>kernel := k1\<rparr>" "nat w = length bs" using body wk(3) by simp_all
    moreover have "bs = [] \<or> contents (writeBuffer n) = []"
      using wk(5) ch(4) \<open>nat w = length bs\<close> by (cases "isWriting ch") auto
    ultimately show ?thesis
      using n ok wk(1,2,4) ch I unfolding stream_step_def conn_ok_def by (intro exI[of _ n]) auto
  next
    case True
    obtain wb where wb: "write_buf (drop (nat w) bs) (writeBuffer n) = Inr wb" "buf_wf wb"
        "contents wb = contents (writeBuffer n) @ drop (nat w) bs"
      using write_buf_ok[OF I(3), of "drop (nat w) bs"] len length_contents[OF I(3)] by fastforce
    let ?n = "n\<lparr>writeBuffer := wb\<rparr>" and ?s2 = "put_conn c (n\<lparr>writeBuffer := wb\<rparr>) (s\<lparr>kernel := k1\<rparr>)"
    have stream: "acc k1 (sockfd n) @ contents wb = acc (kernel s) (sockfd n) @ contents (writeBuffer n) @ bs"
    proof (cases "isWriting ch")
      case True
      then show ?thesis using wk(5) wb(3) by simp
    next
      case False
      then show ?thesis using ch(4) wk(1) wb(3) by simp
    qed
    have ne: "contents wb \<noteq> []" using wb(3) True by simp
    show ?thesis
    proof (cases "isWriting ch")
      case w: True
      then have "s' = ?s2" using body True wb(1) by (simp add: Let_def)
      then show ?thesis
        using n ch I wb(2) ne stream wk(2,4) w unfolding stream_step_def conn_ok_def
        by (intro exI[of _ ?n]) (simp add: put_conn_def)
    next
      case w: False
      have e: "conn_chan E EnableWriting n ?s2 = Inr s'" using body True wb(1) w by (simp add: Let_def)
      obtain p' where p': "conn_chan E EnableWriting n ?s2 = Inr (?s2\<lparr>poller := p'\<rparr>)" "poller_inv p'"
          "chans p' = (chans (poller s))(chan n \<mapsto> ch\<lparr>events := events ch OR WRITE_EVENT\<rparr>)"
        using conn_chan_ok[of ?s2 E n ch EnableWriting] I ch(1) watching_not_none(1)[OF ch(3)]
        by (auto simp: put_conn_def)
      then have s': "s' = ?s2\<lparr>poller := p'\<rparr>" using e by simp
      show ?thesis
        using n ch I wb(2) ne stream wk(2,4) p'(2,3) unfolding stream_step_def conn_ok_def s'
        by (intro exI[of _ ?n]) (simp add: put_conn_def isReading_events event_masks mask_nonzero)
    qed
  qed
qed

lemma conn_okD:
  assumes "conn_ok E shut n s"
  shows "poller_inv (poller s)" "threadId s = e_cur E" "buf_wf (writeBuffer n)"
    and "\<exists>ch. chans (poller s) (chan n) = Some ch \<and> fd ch = sockfd n"
  using assms by (auto simp: conn_ok_def)

lemma shutdown_step:
  assumes L: "stream_law (e_os E) acc shut" and n: "conns s c = Some n"
    and ok: "conn_ok E shut n s" and r: "shutdownInLoop E c s = Inr s'"
  shows "stream_step E acc shut c [] n s s'"
proof (cases "status n = Connected")
  case False
  then have "s' = s" using r n by (simp add: shutdownInLoop_def with_conn_def)
  then show ?thesis using n ok by (simp add: stream_step_def)
next
  case True
  then obtain ch where ch: "chans (poller s) (chan n) = Some ch" "fd ch = sockfd n" "isReading ch"
      "isWriting ch \<longleftrightarrow> contents (writeBuffer n) \<noteq> []" "sockfd n \<notin> shut (kernel s)"
    using ok by (auto simp: conn_ok_def)
  let ?n = "n\<lparr>status := Disconnecting\<rparr>"
  let ?k = "if isWriting ch then kernel s else snd (tcp_shutdown (e_os E) (sockfd n) (kernel s))"
  have s': "s' = (put_conn c ?n s)\<lparr>kernel := ?k\<rparr>"
    using r n True ch(1)
    by (auto simp: shutdownInLoop_def with_conn_def with_channel_def look_loop_def put_conn_def Let_def)
  show ?thesis
    using conn_okD(1-3)[OF ok] ch stream_law_shutdown[OF L, of "sockfd n" "kernel s"]
    unfolding stream_step_def conn_ok_def s' by (intro exI[of _ ?n]) (simp add: put_conn_def)
qed

lemma close_step:
  assumes n: "conns s c = Some n" and ok: "conn_ok E shut n s"
    and op: "status n = Connected \<or> status n = Disconnecting"
    and r: "closeChannel E c (put_conn c (n\<lparr>status := st\<rparr>) s) = Inr s'"
  shows "stream_step E acc shut c [] n s s'"
proof -
  obtain ch where ch: "chans (poller s) (chan n) = Some ch" "fd ch = sockfd n" "isReading ch"
    using ok op by (auto simp: conn_ok_def split: status.splits)
  note I = conn_okD(1-3)[OF ok]
  let ?n = "n\<lparr>status := Disconnected\<rparr>"
  have e: "conn_chan E DisableAll (n\<lparr>status := st\<rparr>) (put_conn c ?n s) = Inr s'"
    using r n by (auto simp: closeChannel_def with_conn_def put_conn_def res_simps)
  then obtain p' where p': "s' = (put_conn c ?n s)\<lparr>poller := p'\<rparr>" "poller_inv p'"
      "chans p' = (chans (poller s))(chan n \<mapsto> ch\<lparr>events := NONE_EVENT\<rparr>)"
    using conn_chan_ok[of "put_conn c ?n s" E "n\<lparr>status := st\<rparr>" ch DisableAll] I ch(1) watching_not_none(1)[OF ch(3)]
    by (auto simp: put_conn_def)
  show ?thesis
    using I ch p'(2,3) unfolding stream_step_def conn_ok_def p'(1)
    by (intro exI[of _ ?n]) (simp add: put_conn_def isNoneEvent_def)
qed

lemma write_step:
  assumes L: "stream_law (e_os E) acc shut" and n: "conns s c = Some n"
    and ok: "conn_ok E shut n s" and r: "handleWrite E c s = Inr s'"
  shows "stream_step E acc shut c [] n s s'"
proof -
  obtain ch where ch: "chans (poller s) (chan n) = Some ch" "fd ch = sockfd n"
    using conn_okD(4)[OF ok] by blast
  note I = conn_okD(1-3)[OF ok]
  let ?wb = "writeBuffer n"
  have rm: "read_mem (readByte ?wb) ?wb = Inr (contents ?wb)"
    using read_mem_ok[OF I(3), of "readByte ?wb"] length_contents[OF I(3)] by simp
  obtain w k1 where W: "tcp_write (e_os E) (sockfd n) (contents ?wb) (kernel s) = (w, k1)"
    by (cases "tcp_write (e_os E) (sockfd n) (contents ?wb) (kernel s)")
  note wk = write_stream[OF L W]
  show ?thesis
  proof (cases "isWriting ch")
    case False
    then have "s' = s" using r n ch(1)
      by (auto simp: handleWrite_def with_conn_def with_channel_def look_loop_def res_simps)
    then show ?thesis using n ok by (simp add: stream_step_def)
  next
    case w: True
    then have op: "isReading ch" "contents ?wb \<noteq> []" "sockfd n \<notin> shut (kernel s)"
        "status n = Connected \<or> status n = Disconnecting"
      using ok ch watching_not_none(2)[OF w] by (auto simp: conn_ok_def split: status.splits)
    have body: "(if w > 0 then res_bind (retrieve (e_build E) (nat w) ?wb) (\<lambda>wb.
         let s2 = put_conn c (n\<lparr>writeBuffer := wb\<rparr>) (s\<lparr>kernel := k1\<rparr>) in
         if buf_empty wb then
           res_bind (conn_chan E DisableWriting n s2) (\<lambda>s3.
             if status n = Disconnecting
             then Inr (s3\<lparr>kernel := snd (tcp_shutdown (e_os E) (sockfd n) (kernel s3))\<rparr>)
             else Inr s3)
         else Inr s2)
       else Inr (s\<lparr>kernel := k1\<rparr>)) = Inr s'"
      using r n ch(1) w rm W I(2)
      by (simp add: handleWrite_def with_conn_def with_channel_def look_loop_def in_loop_def isInLoopThread_def Let_def)
    show ?thesis
    proof (cases "w > 0")
      case False
      then have "s' = s\<lparr>kernel := k1\<rparr>" "nat w = 0" using body by simp_all
      then show ?thesis
        using n ok wk(1,2,4) unfolding stream_step_def conn_ok_def
          by (intro exI[of _ n]) (auto split: status.splits)
    next
      case pos: True
      have "nat w \<le> readByte ?wb" using wk(3) length_contents[OF I(3)] by simp
      then obtain wb where wb: "retrieve (e_build E) (nat w) ?wb = Inr wb" "buf_wf wb"
          "contents wb = drop (nat w) (contents ?wb)"
        using retrieve_ok[OF I(3)] by blast
      let ?n = "n\<lparr>writeBuffer := wb\<rparr>" and ?s2 = "put_conn c (n\<lparr>writeBuffer := wb\<rparr>) (s\<lparr>kernel := k1\<rparr>)"
      have stream: "acc k1 (sockfd n) @ contents wb = acc (kernel s) (sockfd n) @ contents ?wb"
        using wk(1) wb(3) by simp
      have be: "buf_empty wb \<longleftrightarrow> contents wb = []" using buf_empty_contents[OF wb(2)] .
      show ?thesis
      proof (cases "buf_empty wb")
        case False
        then have "s' = ?s2" using body pos wb(1) by (simp add: Let_def)
        then show ?thesis
          using ch I wb(2) stream wk(2,4) w op False be unfolding stream_step_def conn_ok_def
          by (intro exI[of _ ?n]) (auto simp: put_conn_def)
      next
        case True
        obtain p' where p': "conn_chan E DisableWriting n ?s2 = Inr (?s2\<lparr>poller := p'\<rparr>)" "poller_inv p'"
            "chans p' = (chans (poller s))(chan n \<mapsto> ch\<lparr>events := events ch AND NOT WRITE_EVENT\<rparr>)"
          using conn_chan_ok[of ?s2 E n ch DisableWriting] I ch(1) watching_not_none(2)[OF w]
          by (auto simp: put_conn_def)
        let ?k = "if status n = Disconnecting then snd (tcp_shutdown (e_os E) (sockfd n) k1) else k1"
        have s': "s' = ?s2\<lparr>poller := p', kernel := ?k\<rparr>"
          using body pos wb(1) True p'(1) by (auto simp: Let_def put_conn_def split: if_splits)
        show ?thesis
          using ch I wb(2) stream wk(2,4) op True be p'(2,3) stream_law_shutdown[OF L, of "sockfd n" k1]
          unfolding stream_step_def conn_ok_def s'
          by (intro exI[of _ ?n]) (auto simp: put_conn_def isReading_events event_masks split: status.splits)
      qed
    qed
  qed
qed

lemma other_step:
  assumes n: "conns s c = Some n" and ok: "conn_ok E shut n s" and o: "same_conn acc shut c s s'"
  shows "stream_step E acc shut c [] n s s'"
  using assms unfolding stream_step_def conn_ok_def same_conn_def
  by (intro exI[of _ n]) (auto split: status.splits)

lemma input_step:
  assumes n: "conns s c = Some n" and ok: "conn_ok E shut n s"
    and k: "acc k1 = acc (kernel s)" "shut k1 = shut (kernel s)"
  shows "stream_step E acc shut c [] n s (put_conn c (n\<lparr>readBuffer := rb\<rparr>) (s\<lparr>kernel := k1\<rparr>))"
  using assms unfolding stream_step_def conn_ok_def
  by (intro exI[of _ "n\<lparr>readBuffer := rb\<rparr>"]) (auto simp: put_conn_def split: status.splits)

lemma conn_acts_stream:
  assumes "conn_acts E acc shut c bs s s'" and "stream_law (e_os E) acc shut" and "conns s c = Some n"
    and "conn_ok E shut n s" and "length (contents (writeBuffer n)) + length bs < 2 ^ 63"
  shows "stream_step E acc shut c bs n s s'"
  using assms
proof (induction arbitrary: n rule: conn_acts.induct)
  case (act_trans bs s s1 bs' s')
  have "length (contents (writeBuffer n)) + length bs < 2 ^ 63" using act_trans.prems(4) by simp
  then obtain n1 out where n1: "conns s1 c = Some n1" "conn_ok E shut n1 s1" "sockfd n1 = sockfd n" "chan n1 = chan n"
      "acc (kernel s1) (sockfd n) = acc (kernel s) (sockfd n) @ out" "out @ contents (writeBuffer n1) = contents (writeBuffer n) @ bs"
    using act_trans.IH(1)[of n] act_trans.prems(1-3) unfolding stream_step_def by auto
  have "length (contents (writeBuffer n1)) \<le> length (contents (writeBuffer n) @ bs)"
    unfolding n1(6)[symmetric] by simp
  then have "length (contents (writeBuffer n1)) + length bs' < 2 ^ 63"
    using act_trans.prems(4) by simp
  then have "stream_step E acc shut c bs' n1 s1 s'"
    using act_trans.IH(2)[of n1] act_trans.prems(1) n1(1,2) by blast
  moreover have "acc (kernel s) (sockfd n) @ out @ contents (writeBuffer n1) @ bs' =
      acc (kernel s) (sockfd n) @ contents (writeBuffer n) @ bs @ bs'"
    using n1(6) by simp
  ultimately show ?case using n1(3-5) unfolding stream_step_def by auto
next
  case (act_close s m st s')
  then show ?case using close_step[of s c n] by auto
next
  case (act_send s m bs s')
  then show ?case using send_step[of E acc shut s c n] by auto
next
  case (act_input s m k1 s' rb)
  then show ?case using input_step[of s c n E shut acc k1 rb] by auto
next
  case (act_other s s')
  then show ?case using other_step[of s c n E shut acc s'] by auto
next
  case (act_shutdown s s')
  then show ?case using shutdown_step[of E acc shut s c n s'] by auto
next
  case (act_write s s')
  then show ?case using write_step[of E acc shut s c n s'] by auto
qed

section \<open>A new connection\<close>

lemma TcpConnection_new:
  assumes r: "TcpConnection E c d f peer s = Inr s1" and I: "poller_inv (poller s)" and "chans (poller s) d = None"
  shows "\<exists>ch la. chans (poller s1) = (chans (poller s))(d \<mapsto> ch) \<and> fd ch = f \<and> isNoneEvent ch \<and>
    \<not> isHandling ch \<and> eventCallback ch = None \<and>
    readCallback ch = Some (Callback (HandleRead c)) \<and> writeCallback ch = Some (Callback (HandleWrite c)) \<and>
    closeCallback ch = Some (Callback (HandleClose c)) \<and> errorCallback ch = Some (Callback (HandleError c)) \<and>
    poller_inv (poller s1) \<and> interest (poller s1) = interest (poller s) \<and>
    kernel s1 = snd (tcp_setKeepAlive (e_os E) f True (snd (localAddress (e_os E) f (kernel s)))) \<and>
    s1 = s\<lparr>poller := poller s1, kernel := kernel s1, conns := (conns s)(c \<mapsto>
      \<lparr>sockfd = f, chan = d, status = Disconnected, localAddr = la, peerAddr = peer, connectionCallback = None,
       messageCallback = None, connCloseCallback = None, readBuffer = MessageBuffer 1024,
       writeBuffer = MessageBuffer 1024\<rparr>)\<rparr>"
proof -
  obtain la k1 where la: "localAddress (e_os E) f (kernel s) = (la, k1)" by (cases "localAddress (e_os E) f (kernel s)")
  obtain b k2 where k2: "tcp_setKeepAlive (e_os E) f True k1 = (b, k2)" by (cases "tcp_setKeepAlive (e_os E) f True k1")
  obtain p1 ch where p1: "new_channel (e_build E) d f (poller s) = Inr p1" "chans p1 d = Some ch"
    and s1: "s1 = s\<lparr>poller := put_channel d (setErrorCallback (Callback (HandleError c)) (setCloseCallback (Callback (HandleClose c))
        (setWriteCallback (Callback (HandleWrite c)) (setReadCallback (Callback (HandleRead c)) ch)))) p1,
      kernel := k2, conns := (conns s)(c \<mapsto>
      \<lparr>sockfd = f, chan = d, status = Disconnected, localAddr = la, peerAddr = peer, connectionCallback = None,
       messageCallback = None, connCloseCallback = None, readBuffer = MessageBuffer 1024,
       writeBuffer = MessageBuffer 1024\<rparr>)\<rparr>"
    using r by (auto simp: TcpConnection_def TcpSocket_def la k2 with_channel_def res_simps Let_def split: option.splits)
  have ch: "ch = \<lparr>fd = f, events = NONE_EVENT, revents = 0, readCallback = None, writeCallback = None,
       errorCallback = None, closeCallback = None, eventCallback = None, bindObject = None, isHandling = False\<rparr>"
    using p1 by (auto simp: new_channel_def EventChannel_def res_simps)
  let ?ch = "setErrorCallback (Callback (HandleError c)) (setCloseCallback (Callback (HandleClose c))
        (setWriteCallback (Callback (HandleWrite c)) (setReadCallback (Callback (HandleRead c)) ch)))"
  have p: "poller_inv p1" "interest p1 = interest (poller s)" "chans p1 = (chans (poller s))(d \<mapsto> ch)"
    using poller_inv_new[OF I assms(3) p1(1)] p1(2) by auto
  have P: "poller s1 = put_channel d ?ch p1" unfolding s1 by simp
  have "poller_inv (poller s1)"
    unfolding P by (rule poller_inv_put[OF p(1) p1(2)]) (simp_all add: ch setReadCallback_def setWriteCallback_def
        setCloseCallback_def setErrorCallback_def)
  moreover have "chans (poller s1) = (chans (poller s))(d \<mapsto> ?ch)" "interest (poller s1) = interest (poller s)"
    unfolding P using p by simp_all
  moreover have "kernel s1 = snd (tcp_setKeepAlive (e_os E) f True (snd (localAddress (e_os E) f (kernel s))))"
    unfolding s1 using la k2 by simp
  ultimately show ?thesis
    by (intro exI[of _ ?ch] exI[of _ la])
      (simp add: ch setReadCallback_def setWriteCallback_def setCloseCallback_def setErrorCallback_def
        isNoneEvent_def, simp add: s1)
qed

text \<open>Nothing was sent on it yet, its channel is not watched and no other channel watches its descriptor.\<close>

definition conn_new :: "('u, 'k, 'z) net_env \<Rightarrow> ('k \<Rightarrow> int set) \<Rightarrow> 'u conn \<Rightarrow> ('u, 'k, 'z) net_scheme \<Rightarrow> bool" where
  "conn_new E shut n s \<longleftrightarrow> poller_inv (poller s) \<and> threadId s = e_cur E \<and> status n = Disconnected \<and>
     buf_wf (readBuffer n) \<and> buf_wf (writeBuffer n) \<and> contents (readBuffer n) = [] \<and> contents (writeBuffer n) = [] \<and>
     sockfd n \<notin> shut (kernel s) \<and> interest (poller s) (sockfd n) = None \<and>
     (\<exists>ch. chans (poller s) (chan n) = Some ch \<and> fd ch = sockfd n \<and> isNoneEvent ch)"

lemma conn_new_callbacks:
  assumes "conns s c = Some n" and "conn_new E shut n s"
  shows "setConnectionCallback c cb s = Inr s' \<Longrightarrow> \<exists>n'. conns s' c = Some n' \<and> conn_new E shut n' s' \<and>
      sockfd n' = sockfd n \<and> chan n' = chan n \<and> kernel s' = kernel s"
    and "setMessageCallback c cb s = Inr s' \<Longrightarrow> \<exists>n'. conns s' c = Some n' \<and> conn_new E shut n' s' \<and>
      sockfd n' = sockfd n \<and> chan n' = chan n \<and> kernel s' = kernel s"
    and "setConnCloseCallback c cb s = Inr s' \<Longrightarrow> \<exists>n'. conns s' c = Some n' \<and> conn_new E shut n' s' \<and>
      sockfd n' = sockfd n \<and> chan n' = chan n \<and> kernel s' = kernel s"
  using assms by (auto simp: setConnectionCallback_def setMessageCallback_def setConnCloseCallback_def
      with_conn_def put_conn_def conn_new_def)

lemma openChannel_eq:
  assumes n: "conns s c = Some n" and new: "conn_new E shut n s" and ch: "chans (poller s) (chan n) = Some ch"
  shows "\<exists>p. openChannel E c s = Inr (put_conn c (n\<lparr>status := Connected\<rparr>) s\<lparr>poller := p\<rparr>) \<and> poller_inv p \<and>
    chans p = (chans (poller s))(chan n \<mapsto> ch\<lparr>bindObject := Some c, events := READ_EVENT\<rparr>)"
proof -
  have f: "fd ch = sockfd n" "events ch = 0" using new ch by (auto simp: conn_new_def isNoneEvent_def NONE_EVENT_def)
  have I: "poller_inv (poller s)" "threadId s = e_cur E" "status n = Disconnected" "interest (poller s) (sockfd n) = None"
    using new by (simp_all add: conn_new_def)
  let ?n = "n\<lparr>status := Connected\<rparr>" and ?ch = "bindWeakPtr c ch"
  let ?s1 = "put_loop (chan n) ?ch (put_conn c ?n s)"
  have P: "poller ?s1 = put_channel (chan n) ?ch (poller s)" by (simp add: put_loop_def put_conn_def)
  have "poller_inv (poller ?s1)"
    unfolding P by (rule poller_inv_put[OF I(1) ch]) (simp_all add: bindWeakPtr_def)
  then obtain p' where p': "set_events True (new_events EnableReading) (chan n) (poller ?s1) = Inr p'" "poller_inv p'"
      "chans p' = (chans (poller ?s1))(chan n \<mapsto> ?ch\<lparr>events := events ?ch OR READ_EVENT\<rparr>)"
    using set_events_ok[of "poller ?s1" "chan n" ?ch "new_events EnableReading"] P I(4) f(1) or_watch_neq(1)
    by (auto simp: bindWeakPtr_def)
  have "openChannel E c s = Inr (?s1\<lparr>poller := p'\<rparr>)"
    using n I(2,3) ch p'(1)
    by (simp add: openChannel_def with_conn_def with_channel_def look_loop_def in_loop_def isInLoopThread_def Let_def
        conn_chan_def channel_op_def do_op_set_events put_conn_def put_loop_def)
  then show ?thesis using p'(2,3) f(2) by (auto simp: put_loop_def put_conn_def bindWeakPtr_def)
qed

lemma openChannel_ok:
  assumes n: "conns s c = Some n" and new: "conn_new E shut n s"
  shows "\<exists>s' n'. openChannel E c s = Inr s' \<and> conns s' c = Some n' \<and> conn_ok E shut n' s' \<and> status n' = Connected \<and>
    contents (writeBuffer n') = [] \<and> sockfd n' = sockfd n \<and> chan n' = chan n \<and> kernel s' = kernel s"
proof -
  obtain ch where ch: "chans (poller s) (chan n) = Some ch" "fd ch = sockfd n"
    using new by (auto simp: conn_new_def)
  obtain p where p: "openChannel E c s = Inr (put_conn c (n\<lparr>status := Connected\<rparr>) s\<lparr>poller := p\<rparr>)" "poller_inv p"
    "chans p = (chans (poller s))(chan n \<mapsto> ch\<lparr>bindObject := Some c, events := READ_EVENT\<rparr>)"
    using openChannel_eq[OF n new ch(1)] by blast
  let ?n = "n\<lparr>status := Connected\<rparr>" and ?s = "put_conn c (n\<lparr>status := Connected\<rparr>) s\<lparr>poller := p\<rparr>"
  have "conn_ok E shut ?n ?s"
    using new ch(2) p(2,3) by (simp add: conn_ok_def conn_new_def put_conn_def isReading_events mask_nonzero read_not_write)
  then show ?thesis
    using p(1) new by (intro exI[of _ ?s] exI[of _ ?n]) (simp add: put_conn_def conn_new_def)
qed

section \<open>Properties of the sending side\<close>

text \<open>
  C11. From its construction on, through any sequence of sends, shutdowns, write and read events and closing, and whatever else
  happens in the loop, what the kernel accepted of a connection followed by what its write buffer holds
  is what was sent, in order.  The channel waits for writing exactly
  while the buffer holds something; the writing half of the socket is shut down only when everything that was sent
  has been accepted, and then it is.
\<close>

theorem conn_stream:
  assumes "stream_law (e_os E) acc shut"
    and "poller_inv (poller s)" and "threadId s = e_cur E" and "chans (poller s) d = None"
    and "interest (poller s) f = None" and "f \<notin> shut (kernel s)"
    and "TcpConnection E c d f peer s = Inr s1" and "setConnectionCallback c cb1 s1 = Inr s2"
    and "setMessageCallback c cb2 s2 = Inr s3" and "setConnCloseCallback c cb3 s3 = Inr s4"
  shows "\<exists>s5. openChannel E c s4 = Inr s5 \<and> kernel s5 = kernel s1 \<and>
    (\<forall>bs s'. conn_acts E acc shut c bs s5 s' \<longrightarrow> length bs < 2 ^ 63 \<longrightarrow>
      (\<exists>n ch. conns s' c = Some n \<and> sockfd n = f \<and> chans (poller s') (chan n) = Some ch \<and>
        acc (kernel s') f @ contents (writeBuffer n) = acc (kernel s1) f @ bs \<and>
        (status n = Connected \<or> status n = Disconnecting \<longrightarrow> isReading ch \<and>
          (isWriting ch \<longleftrightarrow> contents (writeBuffer n) \<noteq> []) \<and>
          (f \<in> shut (kernel s') \<longleftrightarrow> status n = Disconnecting \<and> acc (kernel s') f = acc (kernel s1) f @ bs)) \<and>
        (status n = Disconnected \<longrightarrow> chan n \<notin> channels (poller s'))))"
proof -
  obtain ch la where s1: "chans (poller s1) = (chans (poller s))(d \<mapsto> ch)" "fd ch = f" "isNoneEvent ch"
      "poller_inv (poller s1)" "interest (poller s1) = interest (poller s)"
      "kernel s1 = snd (tcp_setKeepAlive (e_os E) f True (snd (localAddress (e_os E) f (kernel s))))"
      "s1 = s\<lparr>poller := poller s1, kernel := kernel s1, conns := (conns s)(c \<mapsto>
      \<lparr>sockfd = f, chan = d, status = Disconnected, localAddr = la, peerAddr = peer, connectionCallback = None,
       messageCallback = None, connCloseCallback = None, readBuffer = MessageBuffer 1024,
       writeBuffer = MessageBuffer 1024\<rparr>)\<rparr>" (is "_ = s\<lparr>poller := _, kernel := _, conns := (conns s)(c \<mapsto> ?n)\<rparr>")
    using TcpConnection_new[OF assms(7,2,4)] by blast
  have "threadId s1 = threadId s" "conns s1 = (conns s)(c \<mapsto> ?n)" by (subst s1(7), simp)+
  then have new: "conns s1 c = Some ?n" "conn_new E shut ?n s1"
    using s1(1-6) assms(3,5,6) wf_MessageBuffer stream_law_setup[OF assms(1)] by (simp_all add: conn_new_def)
  obtain n4 where n4: "conns s4 c = Some n4" "conn_new E shut n4 s4" "sockfd n4 = f" "kernel s4 = kernel s1"
    using conn_new_callbacks[OF new] assms(8-10) conn_new_callbacks by (metis conn.select_convs(1))
  obtain s5 n5 where s5: "openChannel E c s4 = Inr s5" "conns s5 c = Some n5" "conn_ok E shut n5 s5"
      "status n5 = Connected" "contents (writeBuffer n5) = []" "sockfd n5 = f" "kernel s5 = kernel s1"
    using openChannel_ok[OF n4(1,2)] n4(3,4) by auto
  show ?thesis
  proof (intro exI[of _ s5] conjI s5 allI impI)
    fix bs s' assume a: "conn_acts E acc shut c bs s5 s'" and len: "length bs < 2 ^ 63"
    have "stream_step E acc shut c bs n5 s5 s'"
      using conn_acts_stream[OF a assms(1) s5(2,3)] s5(5) len by simp
    then obtain n where n: "conns s' c = Some n" "conn_ok E shut n s'" "sockfd n = f"
        "acc (kernel s') f @ contents (writeBuffer n) = acc (kernel s1) f @ bs"
      using s5(5-7) unfolding stream_step_def by auto
    obtain ch where ch: "chans (poller s') (chan n) = Some ch" "fd ch = f"
      using conn_okD(4)[OF n(2)] n(3) by blast
    have e: "contents (writeBuffer n) = [] \<longleftrightarrow> acc (kernel s') f = acc (kernel s1) f @ bs"
      using n(4) by (metis append_self_conv)
    have "chan n \<notin> channels (poller s')" if "isNoneEvent ch"
      using poller_invD(1)[OF conn_okD(1)[OF n(2)] ch(1)] that by blast
    then show "\<exists>n ch. conns s' c = Some n \<and> sockfd n = f \<and> chans (poller s') (chan n) = Some ch \<and>
        acc (kernel s') f @ contents (writeBuffer n) = acc (kernel s1) f @ bs \<and>
        (status n = Connected \<or> status n = Disconnecting \<longrightarrow> isReading ch \<and>
          (isWriting ch \<longleftrightarrow> contents (writeBuffer n) \<noteq> []) \<and>
          (f \<in> shut (kernel s') \<longleftrightarrow> status n = Disconnecting \<and> acc (kernel s') f = acc (kernel s1) f @ bs)) \<and>
        (status n = Disconnected \<longrightarrow> chan n \<notin> channels (poller s'))"
      using n ch e unfolding conn_ok_def
      by (intro exI[of _ n] exI[of _ ch]) (auto split: status.splits)
  qed
qed

text \<open>The witness: room for three of five bytes, a shutdown, and a write event when there is room again.\<close>

definition sample_env :: "build \<Rightarrow> ('u, kern, ('u, kern, 'z) net_scheme) env" where
  "sample_env bd = \<lparr>e_build = bd, e_host = Little, e_os = sample_os, e_cur = 0, e_ccall = (\<lambda>f c s. Inr s),
     e_owned = (\<lambda>c s. True)\<rparr>"

definition sample_net :: "kern \<Rightarrow> (nat, kern) net" where
  "sample_net k = \<lparr>timers = [], timerIds = {}, timersCreated = 0, threadId = 0, running = True, customEvents = [],
     wakeups = 0, poller = EventPoller, clock = 0, kernel = k, conns = Map.empty, held = []\<rparr>"

definition sample_conn :: "kern \<Rightarrow> (nat, kern) net res" where
  "sample_conn k = TcpConnection (sample_env Debug) 1 2 9 (V4Any Little 80) (sample_net k)"

lemma take_length_take: "take (length (take m bs)) bs = take m bs"
  by (cases "m \<le> length bs") simp_all

lemma sample_stream_law: "stream_law sample_os k_out k_shut"
  by (auto simp: stream_law_def sample_defs take_length_take simp del: length_take intro: length_take[THEN eq_refl, THEN order_trans])

definition sample_three :: kern where
  "sample_three = kern0\<lparr>k_room := 3\<rparr>"

definition more_room :: "(nat, kern) net \<Rightarrow> (nat, kern) net" where
  "more_room s = s\<lparr>kernel := (kernel s)\<lparr>k_room := 10\<rparr>\<rparr>"

definition sample_open :: "(nat, kern) net res" where
  "sample_open = res_bind (sample_conn sample_three) (\<lambda>s1.
     res_bind (setConnectionCallback 1 None s1) (\<lambda>s2.
     res_bind (setMessageCallback 1 None s2) (\<lambda>s3. setConnCloseCallback 1 None s3)))"

definition sample_send :: "(nat, kern) net \<Rightarrow> (nat, kern) net res" where
  "sample_send s = res_bind (sendInLoop (sample_env Debug) 1 [1, 2, 3, 4, 5] s) (\<lambda>s1.
     res_bind (shutdownInLoop (sample_env Debug) 1 s1) (\<lambda>s2. handleWrite (sample_env Debug) 1 (more_room s2)))"

lemma sample_send_acts:
  assumes "conns s 1 = Some n" and "status n = Connected" and "sample_send s = Inr s'"
  shows "conn_acts (sample_env Debug) k_out k_shut 1 [1, 2, 3, 4, 5] s s'"
proof -
  let ?E = "sample_env Debug"
  obtain s1 s2 where s: "sendInLoop ?E 1 [1, 2, 3, 4, 5] s = Inr s1" "shutdownInLoop ?E 1 s1 = Inr s2"
      "handleWrite ?E 1 (more_room s2) = Inr s'"
    using assms(3) by (auto simp: sample_send_def res_simps)
  have "conn_acts ?E k_out k_shut 1 [] s2 (more_room s2)"
    by (rule act_other) (simp add: same_conn_def more_room_def)
  then have "conn_acts ?E k_out k_shut 1 ([] @ []) s2 s'" by (rule act_trans) (rule act_write[OF s(3)])
  then have "conn_acts ?E k_out k_shut 1 ([] @ [] @ []) s1 s'" by (rule act_trans[OF act_shutdown[OF s(2)]])
  then have "conn_acts ?E k_out k_shut 1 ([1, 2, 3, 4, 5] @ [] @ [] @ []) s s'"
    by (rule act_trans[OF act_send[OF assms(1,2) s(1)]])
  then show ?thesis by simp
qed

theorem conn_stream_witness:
  "\<exists>s s1 n. sample_open = Inr s \<and> openChannel (sample_env Debug) 1 s = Inr s1 \<and>
     (\<exists>s2. sample_send s1 = Inr s2 \<and> conns s2 1 = Some n \<and> k_out (kernel s2) 9 = [1, 2, 3, 4, 5] \<and>
        contents (writeBuffer n) = [] \<and> 9 \<in> k_shut (kernel s2))"
proof -
  let ?E = "sample_env Debug :: (nat, kern, (nat, kern) net) env"
  obtain s1 where s1: "sample_conn sample_three = Inr s1" "k_out (kernel s1) 9 = []"
  proof -
    have "case sample_conn sample_three of Inr s \<Rightarrow> k_out (kernel s) 9 = [] | Inl e \<Rightarrow> False" by code_simp
    then show ?thesis using that by (auto split: sum.splits)
  qed
  obtain s2 s3 s4 where c: "setConnectionCallback 1 None s1 = Inr s2" "setMessageCallback 1 None s2 = Inr s3"
      "setConnCloseCallback 1 None s3 = Inr s4" "sample_open = Inr s4"
  proof -
    have "is_ok sample_open" by code_simp
    then show ?thesis using that s1(1) by (cases sample_open) (auto simp: sample_open_def res_simps)
  qed
  have m: "stream_law (e_os ?E) k_out k_shut" using sample_stream_law by (simp add: sample_env_def)
  let ?n = "sample_net sample_three"
  have i: "poller_inv (poller ?n)" "threadId ?n = e_cur ?E" "chans (poller ?n) 2 = None" "interest (poller ?n) 9 = None"
      "9 \<notin> k_shut (kernel ?n)"
    by (simp_all add: sample_net_def sample_env_def EventPoller_def poller_inv_def sample_three_def kern0_def)
  from conn_stream[OF m i s1(1)[unfolded sample_conn_def] c(1-3)] obtain s5 where s5: "openChannel ?E 1 s4 = Inr s5"
    "\<And>bs s'. conn_acts ?E k_out k_shut 1 bs s5 s' \<Longrightarrow> length bs < 2 ^ 63 \<Longrightarrow>
      \<exists>n. conns s' 1 = Some n \<and> k_out (kernel s') 9 @ contents (writeBuffer n) = k_out (kernel s1) 9 @ bs \<and>
        (status n = Disconnecting \<longrightarrow> (9 \<in> k_shut (kernel s') \<longleftrightarrow> k_out (kernel s') 9 = k_out (kernel s1) 9 @ bs))"
    by (auto simp: Bex_def) metis
  have "case res_bind sample_open (openChannel ?E 1) of Inr s \<Rightarrow> (case conns s 1 of None \<Rightarrow> False | Some n \<Rightarrow> status n = Connected \<and>
      (case sample_send s of Inr s2 \<Rightarrow> k_out (kernel s2) 9 = [1, 2, 3, 4, 5] \<and>
         (case conns s2 1 of None \<Rightarrow> False | Some n2 \<Rightarrow> status n2 = Disconnecting) | Inl e \<Rightarrow> False)) | Inl e \<Rightarrow> False"
    by code_simp
  then obtain n5 s6 n6 where r: "conns s5 1 = Some n5" "status n5 = Connected" "sample_send s5 = Inr s6"
      "k_out (kernel s6) 9 = [1, 2, 3, 4, 5]" "conns s6 1 = Some n6" "status n6 = Disconnecting"
    unfolding c(4) res_bind.simps s5(1) by (auto split: sum.splits option.splits)
  from s5(2)[OF sample_send_acts[OF r(1-3)]] r s1(2) have "contents (writeBuffer n6) = []" "9 \<in> k_shut (kernel s6)"
    by auto
  then show ?thesis using c(4) s5(1) r by blast
qed

end
