(* ===== verification/Tcp_Lifecycle.thy ===== *)
theory Tcp_Lifecycle
  imports Tcp_Stream
begin

text \<open>
  The receiving side of a connection (\<^verbatim>\<open>src/include/godnet/net/tcp_connection.cpp\<close>), and
  how one ends: what \<open>forceClose\<close> does in each build, and what sending on a closed
  connection leaves behind.
\<close>

section \<open>Receiving\<close>

lemma takeIn_ok:
  assumes "buf_wf rb" and "length (contents rb) + length bs < 2 ^ 63"
  shows "\<exists>rb'. takeIn bd (length bs) bs rb = Inr rb' \<and> buf_wf rb' \<and> contents rb' = contents rb @ bs"
proof (cases "length bs \<le> writeByte rb")
  case True
  then show ?thesis using advanceWrite_ok[OF assms(1) True, of bd] by (simp add: takeIn_def)
next
  case False
  let ?a = "take (writeByte rb) bs" and ?b = "drop (writeByte rb) bs"
  obtain rb2 where rb2: "advanceWrite bd (length ?a) (rb\<lparr>mem := put_mem (wr rb) ?a (mem rb)\<rparr>) = Inr rb2" "buf_wf rb2"
      "contents rb2 = contents rb @ ?a"
    using advanceWrite_ok[OF assms(1), of ?a bd] False by auto
  have "readByte rb2 + length ?b < 2 ^ 63"
    using length_contents[OF rb2(2)] rb2(3) assms(2) False by simp
  then obtain rb3 where "write_buf ?b rb2 = Inr rb3" "buf_wf rb3" "contents rb3 = contents rb2 @ ?b"
    using write_buf_ok[OF rb2(2)] by blast
  then show ?thesis using False rb2 by (simp add: takeIn_def Let_def)
qed

text \<open>
  C15. A read event on a connection: when the kernel hands out bytes, however many fit into the free
  part of the read buffer and the extra 8192, they are appended to what the read buffer
  holds and the message callback runs, once; when it hands out none, or fails for whatever reason, the
  connection is closed.
\<close>

theorem conn_receives:
  assumes "in_loop E s" and "conns s c = Some n" and "buf_wf (readBuffer n)"
    and "tcp_read (e_os E) (sockfd n) (read_lens (readBuffer n)) (kernel s) = (r, bs, k1)"
    and "0 < r \<longrightarrow> r = int (length bs)" and "length (contents (readBuffer n)) + length bs < 2 ^ 63"
  shows "sum_list (read_lens (readBuffer n)) \<ge> 8192 \<and>
    (0 < r \<longrightarrow> (\<exists>rb. buf_wf rb \<and> contents rb = contents (readBuffer n) @ bs \<and>
       handleRead E c s = holding E c (\<lambda>s1. case messageCallback n of None \<Rightarrow> Inl Bad_Function_Call
         | Some f \<Rightarrow> e_ccall E f c s1) (put_conn c (n\<lparr>readBuffer := rb\<rparr>) (s\<lparr>kernel := k1\<rparr>)))) \<and>
    (r \<le> 0 \<longrightarrow> handleRead E c s = handleClose E c (s\<lparr>kernel := k1\<rparr>))"
proof -
  have "\<exists>rb. buf_wf rb \<and> contents rb = contents (readBuffer n) @ bs \<and>
       handleRead E c s = holding E c (\<lambda>s1. case messageCallback n of None \<Rightarrow> Inl Bad_Function_Call
         | Some f \<Rightarrow> e_ccall E f c s1) (put_conn c (n\<lparr>readBuffer := rb\<rparr>) (s\<lparr>kernel := k1\<rparr>))" if "0 < r"
  proof -
    obtain rb where rb: "takeIn (e_build E) (length bs) bs (readBuffer n) = Inr rb" "buf_wf rb"
        "contents rb = contents (readBuffer n) @ bs"
      using takeIn_ok[OF assms(3,6)] by blast
    have "nat r = length bs" using assms(5) that by simp
    then have "handleRead E c s = holding E c (call_conn E c messageCallback)
        (put_conn c (n\<lparr>readBuffer := rb\<rparr>) (s\<lparr>kernel := k1\<rparr>))"
      using assms(1,2,4) that rb(1) by (simp add: handleRead_def with_conn_def Let_def)
    also have "\<dots> = holding E c (\<lambda>s1. case messageCallback n of None \<Rightarrow> Inl Bad_Function_Call
         | Some f \<Rightarrow> e_ccall E f c s1) (put_conn c (n\<lparr>readBuffer := rb\<rparr>) (s\<lparr>kernel := k1\<rparr>))"
      by (cases "messageCallback n") (simp_all add: holding_def hold_def put_conn_def call_conn_def with_conn_def)
    finally show ?thesis using rb by blast
  qed
  moreover have "handleRead E c s = handleClose E c (s\<lparr>kernel := k1\<rparr>)" if "r \<le> 0"
    using assms(1,2,4) that by (simp add: handleRead_def with_conn_def Let_def)
  ultimately show ?thesis by (simp add: read_lens_def)
qed

text \<open>
  The witness: a connection whose read buffer has room for one byte gets five, and the message callback
  runs on all of them; with nothing to read (\<open>EAGAIN\<close>) it is closed.
\<close>

definition small_conn :: "'u conn" where
  "small_conn = \<lparr>sockfd = 9, chan = 2, status = Connected, localAddr = [], peerAddr = [],
     connectionCallback = None, messageCallback = Some (UserFunc undefined), connCloseCallback = None,
     readBuffer = MessageBuffer 1, writeBuffer = MessageBuffer 1\<rparr>"

definition receiving :: "kern \<Rightarrow> (nat, kern) net" where
  "receiving k = (sample_net k)\<lparr>conns := [1 \<mapsto> small_conn]\<rparr>"

lemma receiving_facts:
  "in_loop (sample_env bd) (receiving k)" "conns (receiving k) 1 = Some small_conn" "kernel (receiving k) = k"
  "buf_wf (readBuffer small_conn)" "contents (readBuffer small_conn) = []" "sockfd small_conn = 9"
  "read_lens (readBuffer small_conn) = [1, 8192]" "e_os (sample_env bd) = sample_os"
  by (simp_all add: receiving_def sample_net_def sample_env_def in_loop_def isInLoopThread_def small_conn_def
      read_lens_def writeByte_def MessageBuffer_def buf_wf_def contents_def cells_def)

theorem conn_receives_witness:
  "(\<exists>rb s'. contents rb = [1, 2, 3, 4, 5] \<and> handleRead (sample_env Debug) 1 (receiving sample_input) = Inr s' \<and>
     conns s' 1 = Some (small_conn\<lparr>readBuffer := rb\<rparr>)) \<and>
   (\<exists>k. handleRead (sample_env Debug) 1 (receiving kern0) = handleClose (sample_env Debug) 1 (receiving k))"
proof -
  let ?E = "sample_env Debug :: (nat, kern, (nat, kern) net) env"
  have m: "\<forall>c s. e_ccall ?E f c s = Inr s" "e_owned ?E c s" for f c s
    by (simp_all add: sample_env_def)
  obtain k1 where k1: "tcp_read (e_os ?E) (sockfd small_conn) (read_lens (readBuffer small_conn))
      (kernel (receiving sample_input)) = (5, [1, 2, 3, 4, 5], k1)"
    by (simp add: receiving_facts tcp_read_def socket_read_def sample_defs sample_input_def kern0_def)
  have "\<exists>rb. contents rb = [1, 2, 3, 4, 5] \<and> handleRead ?E 1 (receiving sample_input) =
      holding ?E 1 (\<lambda>s1. case messageCallback small_conn of None \<Rightarrow> Inl Bad_Function_Call
         | Some f \<Rightarrow> e_ccall ?E f 1 s1)
       (put_conn 1 (small_conn\<lparr>readBuffer := rb\<rparr>) (receiving sample_input\<lparr>kernel := k1\<rparr>))"
    using conn_receives[of ?E "receiving sample_input" 1 small_conn 5 "[1, 2, 3, 4, 5]" k1] k1
    by (auto simp: receiving_facts simp del: One_nat_def)
  moreover have "\<exists>s'. holding ?E 1 (\<lambda>s1. case messageCallback small_conn of None \<Rightarrow> Inl Bad_Function_Call
         | Some f \<Rightarrow> e_ccall ?E f 1 s1)
       (put_conn 1 (small_conn\<lparr>readBuffer := rb\<rparr>) (receiving sample_input\<lparr>kernel := k1\<rparr>)) = Inr s' \<and>
     conns s' 1 = Some (small_conn\<lparr>readBuffer := rb\<rparr>)" for rb
    by (simp add: holding_def hold_def put_conn_def unhold_def drop_ref_def referenced_def m small_conn_def)
  moreover obtain k2 where "tcp_read (e_os ?E) (sockfd small_conn) (read_lens (readBuffer small_conn))
      (kernel (receiving kern0)) = (-1, [], k2)"
    by (simp add: receiving_facts tcp_read_def socket_read_def sample_defs kern0_def)
  then have "handleRead ?E 1 (receiving kern0) = handleClose ?E 1 (receiving kern0\<lparr>kernel := k2\<rparr>)"
    using conn_receives[of ?E "receiving kern0" 1 small_conn "-1" "[]" k2]
    by (auto simp: receiving_facts simp del: One_nat_def)
  then have "\<exists>k. handleRead ?E 1 (receiving kern0) = handleClose ?E 1 (receiving k)"
    by (intro exI[of _ k2]) (simp add: receiving_def sample_net_def)
  ultimately show ?thesis by metis
qed

section \<open>Forced closing\<close>

text \<open>
  \<open>forceClose\<close> on an open connection sets the status that \<open>handleClose\<close> then asserts not to
  be set: a Debug build aborts.  A Release build goes on to close the channel and to run the two callbacks.
\<close>

theorem force_close_asserts:
  assumes "in_loop E s" and "conns s c = Some n" and "status n = Connected \<or> status n = Disconnecting"
  shows "forceCloseInLoop E c s = (if e_build E = Debug then Inl Assert_Failed else
    res_bind (conn_chan E DisableAll (n\<lparr>status := Disconnected\<rparr>) (put_conn c (n\<lparr>status := Disconnected\<rparr>) s))
      (holding E c (\<lambda>s1. res_bind (call_conn E c connectionCallback s1) (call_conn E c connCloseCallback))))"
proof -
  have "in_loop E (put_conn c (n\<lparr>status := Disconnected\<rparr>) s)"
    using assms(1) by (simp add: in_loop_def isInLoopThread_def put_conn_def)
  then show ?thesis
    using assms by (cases "e_build E")
      (auto simp: forceCloseInLoop_def with_conn_def handleClose_def closeChannel_def put_conn_def)
qed

theorem force_close_asserts_witness:
  "forceCloseInLoop (sample_env Debug) 1 (receiving kern0) = Inl Assert_Failed"
  using force_close_asserts[OF receiving_facts(1,2)] by (simp add: small_conn_def sample_env_def)

section \<open>Sending on a closed connection\<close>

text \<open>
  C21. \<open>sendInLoop\<close> does not look at the status.  On a closed connection it puts what the kernel does not
  take into the buffer and lets the poller watch the channel again.  When the connection is then destroyed, a Debug build
  aborts; in a Release build the poller keeps a pointer to the destroyed channel in its set, although the descriptor is closed and off the
  interest list.  A channel that is later made at that address is taken for one that the kernel knows: it is never watched.
  Without the send, the destruction leaves no such pointer.
\<close>

theorem send_after_close:
  assumes L: "stream_law (e_os E) acc shut" and n: "conns s c = Some n" and ok: "conn_ok E shut n s"
    and "status n = Disconnected" and "contents (writeBuffer n) = []" and "interest (poller s) (sockfd n) = None"
    and w: "tcp_write (e_os E) (sockfd n) bs (kernel s) = (w, k1)" "w < int (length bs)" and "bs \<noteq> []" and "length bs < 2 ^ 63"
    and "chans (poller s) (chan n) = Some ch" and "\<not> isHandling ch"
  shows "\<exists>s'. sendInLoop E c bs s = Inr s' \<and> interest (poller s') (sockfd n) = Some (WRITE_EVENT, chan n) \<and>
    (e_build E = Debug \<longrightarrow> destroyConnection E c s' = Inl Assert_Failed) \<and>
    (e_build E = Release \<longrightarrow> (\<exists>s2. destroyConnection E c s' = Inr s2 \<and> conns s2 c = None \<and>
       chans (poller s2) (chan n) = None \<and> chan n \<in> channels (poller s2) \<and> interest (poller s2) (sockfd n) = None \<and>
       (\<forall>f. 0 \<le> f \<and> interest (poller s2) f = None \<longrightarrow> (\<exists>p1 p2. new_channel Release (chan n) f (poller s2) = Inr p1 \<and>
          enableReading True (chan n) p1 = Inr p2 \<and> interest p2 f = None \<and> sysErrors p2 = sysErrors (poller s2) + 1))) \<and>
       (\<exists>s3. destroyConnection E c s = Inr s3 \<and> chan n \<notin> channels (poller s3)))"
proof -
  note I = conn_okD(1-3)[OF ok]
  have ch: "fd ch = sockfd n" "isNoneEvent ch" "events ch = NONE_EVENT"
    using ok assms(4,11) by (auto simp: conn_ok_def isNoneEvent_def)
  then have nw: "\<not> isWriting ch" using watching_not_none(2) by blast
  have be: "buf_empty (writeBuffer n)" using buf_empty_contents[OF I(3)] assms(5) by simp
  let ?w = "if w < 0 then 0 else w"
  have lt: "nat ?w < length bs" using w(2) assms(9) by auto
  obtain wb where wb: "write_buf (drop (nat ?w) bs) (writeBuffer n) = Inr wb"
    using write_buf_ok[OF I(3), of "drop (nat ?w) bs"] length_contents[OF I(3)] assms(5,10) by fastforce
  let ?n = "n\<lparr>writeBuffer := wb\<rparr>" and ?s2 = "put_conn c (n\<lparr>writeBuffer := wb\<rparr>) (s\<lparr>kernel := k1\<rparr>)"
  have e: "sendInLoop E c bs s = conn_chan E EnableWriting n ?s2"
    using n assms(11) nw be w(1) lt wb I(2)
    by (simp add: sendInLoop_def with_conn_def with_channel_def look_loop_def in_loop_def isInLoopThread_def Let_def)
  obtain p' where p': "set_events True (new_events EnableWriting) (chan n) (poller s) = Inr p'" "poller_inv p'"
      "chans p' = (chans (poller s))(chan n \<mapsto> ch\<lparr>events := WRITE_EVENT\<rparr>)"
    using set_events_ok[OF I(1) assms(11), of "new_events EnableWriting"] assms(6) ch(1,3) mask_nonzero(2)
    by (auto simp: NONE_EVENT_def)
  let ?s' = "?s2\<lparr>poller := p'\<rparr>"
  have s': "sendInLoop E c bs s = Inr ?s'"
    using e p'(1) I(2) by (simp add: conn_chan_def channel_op_def do_op_set_events put_conn_def isInLoopThread_def)
  have "\<not> isNoneEvent (ch\<lparr>events := WRITE_EVENT\<rparr>)"
    using mask_nonzero(2) by (simp add: isNoneEvent_def NONE_EVENT_def)
  then have "chan n \<in> channels p'" using poller_invD(1)[OF p'(2), of "chan n"] p'(3) by simp
  then have i: "interest p' (sockfd n) = Some (WRITE_EVENT, chan n)"
    using poller_invD(2)[OF p'(2)] p'(3) ch(1) by fastforce
  have c': "conns ?s' c = Some ?n" "poller ?s' = p'" by (simp_all add: put_conn_def)
  have dbg: "destroyConnection E c ?s' = Inl Assert_Failed" if "e_build E = Debug"
    using that c' p'(3) assms(4) \<open>\<not> isNoneEvent (ch\<lparr>events := WRITE_EVENT\<rparr>)\<close>
    by (simp add: destroyConnection_def with_conn_def delete_channel_def with_channel_def EventChannel_destroy_def
        asserting_def)
  have rel: "\<exists>k. destroyConnection E c x = Inr (x\<lparr>
      poller := close_fd (sockfd m) ((poller x)\<lparr>chans := (chans (poller x))(chan m := None)\<rparr>), kernel := k,
      conns := (conns x)(c := None)\<rparr>)"
    if "e_build E = Release" "conns x c = Some m" "chans (poller x) (chan m) \<noteq> None" for x m
    using that by (cases "forceClose (e_os E) (sockfd m) (kernel x)") (auto simp: destroyConnection_def with_conn_def delete_channel_def with_channel_def look_channel_def
        EventChannel_destroy_def TcpSocket_destroy_def Let_def split: prod.splits)
  let ?p = "close_fd (sockfd n) (p'\<lparr>chans := (chans p')(chan n := None)\<rparr>)"
  have "\<exists>p1 p2. new_channel Release (chan n) f ?p = Inr p1 \<and> enableReading True (chan n) p1 = Inr p2 \<and>
      interest p2 f = None \<and> sysErrors p2 = sysErrors ?p + 1" if f: "0 \<le> f \<and> interest ?p f = None" for f
  proof -
    have "chan n \<in> channels ?p" "interest ?p f = None" "0 \<le> f" using \<open>chan n \<in> channels p'\<close> f by simp_all
    from stale_channel[OF this, of Release] obtain p1 p2 where "new_channel Release (chan n) f ?p = Inr p1"
      "enableReading True (chan n) p1 = Inr p2" "interest p2 = interest ?p" "sysErrors p2 = sysErrors ?p + 1" by blast
    then show ?thesis using f by (intro exI[of _ p1] exI[of _ p2]) simp
  qed
  then have "\<exists>s2. destroyConnection E c ?s' = Inr s2 \<and> conns s2 c = None \<and>
       chans (poller s2) (chan n) = None \<and> chan n \<in> channels (poller s2) \<and> interest (poller s2) (sockfd n) = None \<and>
       (\<forall>f. 0 \<le> f \<and> interest (poller s2) f = None \<longrightarrow> (\<exists>p1 p2. new_channel Release (chan n) f (poller s2) = Inr p1 \<and>
          enableReading True (chan n) p1 = Inr p2 \<and> interest p2 f = None \<and> sysErrors p2 = sysErrors (poller s2) + 1))"
    if r: "e_build E = Release"
    using rel[OF r c'(1)] c'(2) p'(3) \<open>chan n \<in> channels p'\<close> by auto
  moreover have "chan n \<notin> channels (poller s)" using poller_invD(1)[OF I(1) assms(11)] ch(2) by blast
  then have "\<exists>s3. destroyConnection E c s = Inr s3 \<and> chan n \<notin> channels (poller s3)" if r: "e_build E = Release"
    using rel[OF r n] assms(11) by auto
  ultimately show ?thesis using s' i dbg c' by auto
qed

text \<open>The witness: five bytes are sent on a closed connection whose socket has room for three.\<close>

definition closed_net :: "(nat, kern) net" where
  "closed_net = (sample_net sample_three)\<lparr>conns := [1 \<mapsto> small_conn\<lparr>status := Disconnected\<rparr>],
     poller := EventPoller\<lparr>chans := [2 \<mapsto> \<lparr>fd = 9, events = NONE_EVENT, revents = 0, readCallback = None,
       writeCallback = None, errorCallback = None, closeCallback = None, eventCallback = None,
       bindObject = Some 1, isHandling = False\<rparr>]\<rparr>\<rparr>"

theorem send_after_close_witness:
  "\<exists>s' s2. sendInLoop (sample_env Release) 1 [1, 2, 3, 4, 5] closed_net = Inr s' \<and>
     destroyConnection (sample_env Release) 1 s' = Inr s2 \<and>
     chans (poller s2) 2 = None \<and> 2 \<in> channels (poller s2) \<and> interest (poller s2) 9 = None"
proof -
  let ?E = "sample_env Release :: (nat, kern, (nat, kern) net) env"
  let ?n = "small_conn\<lparr>status := Disconnected\<rparr> :: nat conn"
  have L: "stream_law (e_os ?E) k_out k_shut" using sample_stream_law by (simp add: sample_env_def)
  have n: "conns closed_net 1 = Some ?n" by (simp add: closed_net_def)
  have ok: "conn_ok ?E k_shut ?n closed_net"
    by (simp add: conn_ok_def closed_net_def sample_net_def sample_env_def small_conn_def EventPoller_def
        poller_inv_def isNoneEvent_def wf_MessageBuffer)
  obtain k1 where w: "tcp_write (e_os ?E) (sockfd ?n) [1, 2, 3, 4, 5] (kernel closed_net) = (3, k1)"
    by (simp add: closed_net_def sample_net_def sample_env_def small_conn_def sample_three_def kern0_def
        tcp_write_def socket_write_def sample_defs)
  have "status ?n = Disconnected" "contents (writeBuffer ?n) = []" "interest (poller closed_net) (sockfd ?n) = None"
      "3 < int (length [1, 2, 3, 4, 5 :: byte])" "[1, 2, 3, 4, 5 :: byte] \<noteq> []" "length [1, 2, 3, 4, 5 :: byte] < 2 ^ 63"
    by (simp_all add: closed_net_def small_conn_def wf_MessageBuffer EventPoller_def)
  moreover obtain ch where "chans (poller closed_net) (chan ?n) = Some ch" "\<not> isHandling ch"
    by (simp add: closed_net_def small_conn_def)
  ultimately show ?thesis
    using send_after_close[OF L n ok _ _ _ w] by (auto simp: sample_env_def small_conn_def)
qed

end
