(* ===== verification/Tcp_Connector.thy ===== *)
theory Tcp_Connector
  imports Tcp_Connection
begin

text \<open>
  \<^verbatim>\<open>src/include/godnet/net/tcp_connector.hpp\<close> and \<^verbatim>\<open>tcp_connector.cpp\<close>: connecting to an
  address, trying again with growing delays.

  The state extends that of the network by the connector (\<open>None\<close> when there is none), by the channels a
  running handler holds a \<^verbatim>\<open>shared_ptr\<close> to, and by the next address of a new object: addresses are
  not used again.  Delays are milliseconds.  What the new connection callback does is the argument \<open>ncall\<close>.
\<close>

section \<open>State\<close>

datatype connector_status = CnDisconnected | CnConnecting | CnConnected

datatype 'u nfunc = ClientNewConnection | UserNewConnection 'u

record 'u connector =
  cnPeer :: sockaddr
  retryDelay :: int
  currDelay :: int
  maxDelay :: int
  cnStatus :: connector_status
  cnTimer :: nat
  cnChan :: "nat option"
  cnNewConnection :: "'u nfunc option"

record ('u, 'k) cnet = "('u, 'k) net" +
  connector :: "'u connector option"
  heldChans :: "nat list"
  nextAddr :: nat

type_synonym ('u, 'k, 'z) cnet_env = "('u, 'k, ('u, 'k, 'z) cnet_scheme) env"

definition with_connector :: "('u, 'k, 'z) cnet_scheme \<Rightarrow> ('u connector \<Rightarrow> 'a res) \<Rightarrow> 'a res" where
  "with_connector s k = (case connector s of None \<Rightarrow> Inl Dangling | Some cn \<Rightarrow> k cn)"

definition put_connector :: "'u connector \<Rightarrow> ('u, 'k, 'z) cnet_scheme \<Rightarrow> ('u, 'k, 'z) cnet_scheme" where
  "put_connector cn s = s\<lparr>connector := Some cn\<rparr>"

section \<open>Construction\<close>

definition TcpConnector :: "('u, 'k, 'z) cnet_env \<Rightarrow> sockaddr \<Rightarrow> int \<Rightarrow> int \<Rightarrow> ('u, 'k, 'z) cnet_scheme \<Rightarrow>
    ('u, 'k, 'z) cnet_scheme res" where
  "TcpConnector E peer delay longest s =
     asserting (e_build E) (isValid (e_host E) peer) (asserting (e_build E) (longest \<ge> delay)
       (Inr (put_connector \<lparr>cnPeer = peer, retryDelay = delay, currDelay = delay, maxDelay = longest,
          cnStatus = CnDisconnected, cnTimer = 0, cnChan = None, cnNewConnection = None\<rparr> s)))"

definition setNewConnectionCallback :: "'u nfunc \<Rightarrow> ('u, 'k, 'z) cnet_scheme \<Rightarrow> ('u, 'k, 'z) cnet_scheme res" where
  "setNewConnectionCallback cb s = with_connector s (\<lambda>cn. Inr (put_connector (cn\<lparr>cnNewConnection := Some cb\<rparr>) s))"

section \<open>The channel\<close>

text \<open>\<^verbatim>\<open>channel_.reset()\<close> destroys the channel, unless the handler that runs holds it.\<close>

definition reset_shared :: "build \<Rightarrow> nat \<Rightarrow> ('u, 'k, 'z) cnet_scheme \<Rightarrow> ('u, 'k, 'z) cnet_scheme res" where
  "reset_shared bd d s = (if d \<in> set (heldChans s) then Inr s
     else res_bind (delete_channel bd d (poller s)) (\<lambda>p. Inr (s\<lparr>poller := p\<rparr>)))"

definition resetChannel :: "('u, 'k, 'z) cnet_env \<Rightarrow> ('u, 'k, 'z) cnet_scheme \<Rightarrow>
    (int \<times> ('u, 'k, 'z) cnet_scheme) res" where
  "resetChannel E s = guarding Wrong_Thread (in_loop E s) (with_connector s (\<lambda>cn.
     asserting (e_build E) (cnStatus cn = CnConnecting) (asserting (e_build E) (cnChan cn \<noteq> None)
     (case cnChan cn of None \<Rightarrow> Inl Null_Deref | Some d \<Rightarrow>
       res_bind (channel_op (e_cur E) DisableAll d s) (\<lambda>s1.
       with_channel look_loop d s1 (\<lambda>ch.
       res_bind (reset_shared (e_build E) d (put_connector (cn\<lparr>cnChan := None\<rparr>) s1)) (\<lambda>s2.
       Inr (fd ch, s2))))))))"

section \<open>Connecting\<close>

definition retry :: "('u, 'k, 'z) cnet_env \<Rightarrow> int \<Rightarrow> ('u, 'k, 'z) cnet_scheme \<Rightarrow> ('u, 'k, 'z) cnet_scheme res" where
  "retry E sock s = guarding Wrong_Thread (in_loop E s) (with_connector s (\<lambda>cn.
     asserting (e_build E) (cnStatus cn = CnDisconnected) (asserting (e_build E) (cnChan cn = None)
     (asserting (e_build E) (cnTimer cn = 0)
       (res_bind (runTimerAfter (e_build E) (e_cur E) (currDelay cn) ConnectorConnect
           (s\<lparr>kernel := snd (closeSocket (e_os E) sock (kernel s))\<rparr>)) (\<lambda>(i, s1).
        let delay = currDelay cn * 2 in
        Inr (put_connector (cn\<lparr>cnTimer := i,
          currDelay := if delay > maxDelay cn then maxDelay cn else delay\<rparr>) s1)))))))"

definition connect :: "('u, 'k, 'z) cnet_env \<Rightarrow> ('u, 'k, 'z) cnet_scheme \<Rightarrow> ('u, 'k, 'z) cnet_scheme res" where
  "connect E s = guarding Wrong_Thread (in_loop E s) (with_connector s (\<lambda>cn.
     asserting (e_build E) (cnStatus cn = CnDisconnected) (asserting (e_build E) (cnChan cn = None)
     (asserting (e_build E) (cnNewConnection cn \<noteq> None)
       (let (sock, k1) = tcpSocket (e_os E) (family (e_host E) (cnPeer cn)) (kernel s);
            (ret, k2) = socket_connect (e_os E) sock (cnPeer cn) k1;
            cn1 = cn\<lparr>cnTimer := 0\<rparr>; s1 = put_connector cn1 (s\<lparr>kernel := k2\<rparr>); d = nextAddr s
        in if ret = 0 then
             res_bind (new_channel (e_build E) d sock (poller s1)) (\<lambda>p1.
             with_channel look_channel d p1 (\<lambda>ch.
               let p2 = put_channel d (bindWeakPtr d (setWriteCallback (Callback ConnectorWrite) ch)) p1;
                   cn2 = cn1\<lparr>cnStatus := CnConnecting, cnChan := Some d\<rparr>
               in channel_op (e_cur E) EnableWriting d (put_connector cn2 (s1\<lparr>poller := p2, nextAddr := d + 1\<rparr>))))
           else retry E sock s1)))))"

definition reconnect :: "('u, 'k, 'z) cnet_env \<Rightarrow> ('u, 'k, 'z) cnet_scheme \<Rightarrow> ('u, 'k, 'z) cnet_scheme res" where
  "reconnect E s = guarding Wrong_Thread (in_loop E s) (with_connector s (\<lambda>cn.
     asserting (e_build E) (cnStatus cn = CnConnected) (asserting (e_build E) (cnChan cn = None)
       (connect E (put_connector (cn\<lparr>cnStatus := CnDisconnected, currDelay := retryDelay cn\<rparr>) s)))))"

definition connectorWrite :: "('u, 'k, 'z) cnet_env \<Rightarrow>
    ('u nfunc \<Rightarrow> int \<Rightarrow> ('u, 'k, 'z) cnet_scheme \<Rightarrow> ('u, 'k, 'z) cnet_scheme res) \<Rightarrow>
    ('u, 'k, 'z) cnet_scheme \<Rightarrow> ('u, 'k, 'z) cnet_scheme res" where
  "connectorWrite E ncall s = guarding Wrong_Thread (in_loop E s) (with_connector s (\<lambda>cn.
     asserting (e_build E) (cnStatus cn = CnConnecting)
       (res_bind (resetChannel E s) (\<lambda>(sock, s1). with_connector s1 (\<lambda>cn1.
        let (err, k1) = getSocketError (e_os E) sock (kernel s1);
            (self, k2) = (if err \<noteq> 0 then (True, k1) else isSelfConnect (e_os E) (e_host E) sock k1);
            s2 = s1\<lparr>kernel := k2\<rparr>
        in if err \<noteq> 0 \<or> self
           then retry E sock (put_connector (cn1\<lparr>cnStatus := CnDisconnected\<rparr>) s2)
           else case cnNewConnection cn1 of None \<Rightarrow> Inl Bad_Function_Call
             | Some f \<Rightarrow> ncall f sock (put_connector (cn1\<lparr>cnStatus := CnConnected\<rparr>) s2))))))"

definition destroyConnector :: "('u, 'k, 'z) cnet_env \<Rightarrow> ('u, 'k, 'z) cnet_scheme \<Rightarrow> ('u, 'k, 'z) cnet_scheme res" where
  "destroyConnector E s = guarding Wrong_Thread (in_loop E s) (with_connector s (\<lambda>cn.
     res_bind (if cnTimer cn \<noteq> 0
         then res_bind (cancelTimer (e_build E) (e_cur E) (cnTimer cn) s) (\<lambda>s1. Inr (put_connector (cn\<lparr>cnTimer := 0\<rparr>) s1))
         else Inr s) (\<lambda>s1.
     res_bind (if cnStatus cn = CnConnecting
         then res_bind (resetChannel E s1) (\<lambda>(sock, s2). with_connector s2 (\<lambda>cn2.
           Inr (put_connector (cn2\<lparr>cnStatus := CnDisconnected\<rparr>)
             (s2\<lparr>kernel := snd (closeSocket (e_os E) sock (kernel s2))\<rparr>))))
         else Inr s1) (\<lambda>s3.
     with_connector s3 (\<lambda>cn3. asserting (e_build E) (cnChan cn3 = None) (Inr (s3\<lparr>connector := None\<rparr>)))))))"

section \<open>Events\<close>

text \<open>
  The connector's channel is bound to itself: \<open>lock()\<close> gives the handler a reference, and when it goes the
  channel is destroyed if the connector has given up its own.
\<close>

definition release_channel :: "build \<Rightarrow> nat \<Rightarrow> ('u, 'k, 'z) cnet_scheme \<Rightarrow> ('u, 'k, 'z) cnet_scheme res" where
  "release_channel bd d s = (let s1 = s\<lparr>heldChans := remove1 d (heldChans s)\<rparr> in
     if (\<exists>cn \<in> set_option (connector s1). cnChan cn = Some d) then Inr s1 else reset_shared bd d s1)"

definition connector_event :: "('u, 'k, 'z) cnet_env \<Rightarrow>
    ('u func \<Rightarrow> ('u, 'k, 'z) cnet_scheme \<Rightarrow> ('u, 'k, 'z) cnet_scheme res) \<Rightarrow>
    nat \<Rightarrow> ('u, 'k, 'z) cnet_scheme \<Rightarrow> ('u, 'k, 'z) cnet_scheme res" where
  "connector_event E call d s = with_channel look_loop d s (\<lambda>ch.
     res_bind (handlerEvent look_loop put_loop (call_callback call) (\<lambda>obj s. chans (poller s) obj \<noteq> None)
       (in_loop E s) d (s\<lparr>heldChans := d # heldChans s\<rparr>)) (release_channel (e_build E) d))"

end
