(* ===== verification/Connector_System.thy ===== *)
theory Connector_System
  imports Tcp_Connector Tcp_Stream
begin

text \<open>
  The connector (\<^verbatim>\<open>src/include/godnet/net/tcp_connector.cpp\<close>) over its whole life: a step
  relation of its use, its timer and the events of its channel, the invariant of the reachable states, and what
  becomes of the descriptors it opens.
\<close>

section \<open>What each operation does\<close>

text \<open>\<^verbatim>\<open>connect(2)\<close> on what is no descriptor fails with \<open>EBADF\<close>.\<close>

definition connect_law :: "'k os \<Rightarrow> bool" where
  "connect_law os \<longleftrightarrow> (\<forall>f a n k. f < 0 \<longrightarrow> (case sys_connect os f a n k of (r, k1) \<Rightarrow> r = -1 \<and> sys_errno os k1 = 9))"

lemma connect_law_fails:
  assumes "connect_law os" and "f < 0"
  shows "fst (socket_connect os f a k) = -1"
proof -
  have "\<forall>f a n k. f < 0 \<longrightarrow> (case sys_connect os f a n k of (r, k1) \<Rightarrow> r = -1 \<and> sys_errno os k1 = 9)"
    using assms(1) by (simp add: connect_law_def)
  from this[rule_format, OF assms(2), where a = a and n = "getSockLen a" and k = k]
  show ?thesis by (auto simp: socket_connect_def errno_defs Let_def split: prod.splits)
qed

text \<open>The connector's channel while an attempt is in progress.\<close>

definition connecting_channel :: "nat \<Rightarrow> int \<Rightarrow> 'u func callback channel \<Rightarrow> bool" where
  "connecting_channel d f ch \<longleftrightarrow> fd ch = f \<and> events ch = WRITE_EVENT \<and> bindObject ch = Some d \<and> \<not> isHandling ch \<and>
     readCallback ch = None \<and> writeCallback ch = Some (Callback ConnectorWrite) \<and> errorCallback ch = None \<and>
     closeCallback ch = None \<and> eventCallback ch = None"

lemma watching_WRITE: "events ch = WRITE_EVENT \<Longrightarrow> \<not> isNoneEvent ch"
  using mask_nonzero(2) by (simp add: isNoneEvent_def NONE_EVENT_def)

text \<open>A failed attempt: the timer that will try again.\<close>

definition retry_timer :: "('u, 'k, 'z) cnet_scheme \<Rightarrow> 'u connector \<Rightarrow> 'u func timer" where
  "retry_timer s cn = Timer (timersCreated s) (clock s + currDelay cn) 0 ConnectorConnect"

definition retried :: "('u, 'k, 'z) cnet_scheme \<Rightarrow> 'u connector \<Rightarrow> 'u connector" where
  "retried s cn = cn\<lparr>cnTimer := t_id (retry_timer s cn),
     currDelay := if currDelay cn * 2 > maxDelay cn then maxDelay cn else currDelay cn * 2\<rparr>"

lemma retry_ok:
  assumes "threadId s = e_cur E" and "connector s = Some cn" and "cnStatus cn = CnDisconnected" and "cnChan cn = None"
    and "cnTimer cn = 0"
  shows "retry E sock s = Inr (put_connector (retried s cn)
    (s\<lparr>kernel := snd (closeSocket (e_os E) sock (kernel s)), timersCreated := timersCreated s + 1,
       timerIds := insert (t_id (retry_timer s cn)) (timerIds s), timers := pq_push (retry_timer s cn) (timers s)\<rparr>))"
proof -
  let ?s = "s\<lparr>kernel := snd (closeSocket (e_os E) sock (kernel s))\<rparr>"
  have here: "threadId ?s = e_cur E" using assms(1) by simp
  show ?thesis
    using assms by (simp add: retry_def with_connector_def put_connector_def Let_def in_loop_def isInLoopThread_def
        runTimerAfter_def runTimer_def addTimer_here[OF here] retried_def retry_timer_def)
qed

text \<open>A new channel with a write callback, watched for writing.\<close>

lemma start_connecting:
  assumes I: "poller_inv p" and "chans p d = None" and "0 \<le> f" and "interest p f = None"
  shows "\<exists>p1 ch p2. new_channel bd d f p = Inr p1 \<and> chans p1 d = Some ch \<and>
    do_op EnableWriting True d (put_channel d (bindWeakPtr d (setWriteCallback (Callback ConnectorWrite) ch)) p1) = Inr p2 \<and>
    poller_inv p2 \<and> (\<exists>ch2. chans p2 = (chans p)(d \<mapsto> ch2) \<and> connecting_channel d f ch2)"
proof -
  obtain p1 where p1: "new_channel bd d f p = Inr p1"
    using assms(3) by (simp add: new_channel_def EventChannel_def)
  define ch :: "'a func callback channel" where "ch = \<lparr>fd = f, events = NONE_EVENT, revents = 0, readCallback = None, writeCallback = None,
       errorCallback = None, closeCallback = None, eventCallback = None, bindObject = None, isHandling = False\<rparr>"
  have p1': "p1 = put_channel d ch p"
    using p1 assms(3) by (simp add: new_channel_def EventChannel_def ch_def)
  let ?ch = "bindWeakPtr d (setWriteCallback (Callback ConnectorWrite) ch)"
  let ?q = "put_channel d ?ch p1"
  have I1: "poller_inv p1" "interest p1 = interest p" using poller_inv_new[OF I assms(2) p1] by blast+
  have Iq: "poller_inv ?q"
    by (rule poller_inv_put[OF I1(1), of d ch]) (simp_all add: p1' ch_def bindWeakPtr_def setWriteCallback_def)
  have q: "chans ?q d = Some ?ch" "events ?ch = 0" "fd ?ch = f"
    by (simp_all add: ch_def bindWeakPtr_def setWriteCallback_def NONE_EVENT_def)
  obtain p2 where p2: "set_events True (new_events EnableWriting) d ?q = Inr p2" "poller_inv p2"
      "chans p2 = (chans ?q)(d \<mapsto> ?ch\<lparr>events := WRITE_EVENT\<rparr>)"
    using set_events_ok[OF Iq q(1), of "new_events EnableWriting"] assms(4) I1(2) mask_nonzero(2)
    by (auto simp: q(2,3) NONE_EVENT_def)
  have "connecting_channel d f (?ch\<lparr>events := WRITE_EVENT\<rparr>)"
    by (simp add: connecting_channel_def ch_def bindWeakPtr_def setWriteCallback_def)
  then show ?thesis
    using p1 p2 p1' by (intro exI[of _ p1] exI[of _ ch] exI[of _ p2]) (auto simp: do_op_set_events)
qed

lemma connect_ok:
  assumes here: "threadId s = e_cur E" and c: "connector s = Some cn" "cnStatus cn = CnDisconnected" "cnChan cn = None"
      "cnNewConnection cn \<noteq> None"
    and w: "watched fds s" and L: "fd_law (e_os E) fds" "connect_law (e_os E)"
    and fresh: "chans (poller s) (nextAddr s) = None"
    and sock: "tcpSocket (e_os E) (family (e_host E) (cnPeer cn)) (kernel s) = (sock, k1)"
      "socket_connect (e_os E) sock (cnPeer cn) k1 = (ret, k2)"
  shows "if ret = 0 then \<exists>p ch. sock \<notin> fds (kernel s) \<and> fds k2 = insert sock (fds (kernel s)) \<and> 0 \<le> sock \<and>
      connect E s = Inr (s\<lparr>kernel := k2, poller := p, nextAddr := nextAddr s + 1, connector :=
        Some (cn\<lparr>cnTimer := 0, cnStatus := CnConnecting, cnChan := Some (nextAddr s)\<rparr>)\<rparr>) \<and>
      poller_inv p \<and> chans p = (chans (poller s))(nextAddr s \<mapsto> ch) \<and> connecting_channel (nextAddr s) sock ch
    else fds (snd (closeSocket (e_os E) sock k2)) = fds (kernel s) \<and>
      connect E s = retry E sock (put_connector (cn\<lparr>cnTimer := 0\<rparr>) (s\<lparr>kernel := k2\<rparr>))"
proof -
  have I: "poller_inv (poller s)" "\<forall>f \<in> fds (kernel s). 0 \<le> f" using w by (simp_all add: watched_def)
  have k1: "if sock < 0 then fds k1 = fds (kernel s) else sock \<notin> fds (kernel s) \<and> fds k1 = insert sock (fds (kernel s))"
    using tcpSocket_fds[OF L(1) sock(1)] .
  have k2: "fds k2 = fds k1" using fd_law_simps(3)[OF L(1), of sock "cnPeer cn" k1] sock(2) by simp
  have body: "connect E s = (let cn1 = cn\<lparr>cnTimer := 0\<rparr>; s1 = put_connector cn1 (s\<lparr>kernel := k2\<rparr>); d = nextAddr s
        in if ret = 0 then
             res_bind (new_channel (e_build E) d sock (poller s1)) (\<lambda>p1.
             with_channel look_channel d p1 (\<lambda>ch.
               let p2 = put_channel d (bindWeakPtr d (setWriteCallback (Callback ConnectorWrite) ch)) p1;
                   cn2 = cn1\<lparr>cnStatus := CnConnecting, cnChan := Some d\<rparr>
               in channel_op (e_cur E) EnableWriting d (put_connector cn2 (s1\<lparr>poller := p2, nextAddr := d + 1\<rparr>))))
           else retry E sock s1)"
    using here c sock by (simp add: connect_def with_connector_def in_loop_def isInLoopThread_def Let_def)
  show ?thesis
  proof (cases "ret = 0")
    case True
    then have pos: "0 \<le> sock" using connect_law_fails[OF L(2), of sock "cnPeer cn" k1] sock(2) by force
    then have new: "sock \<notin> fds (kernel s)" "fds k2 = insert sock (fds (kernel s))" using k1 k2 by auto
    obtain p1 ch p2 ch2 where p: "new_channel (e_build E) (nextAddr s) sock (poller s) = Inr p1" "chans p1 (nextAddr s) = Some ch"
      "do_op EnableWriting True (nextAddr s) (put_channel (nextAddr s) (bindWeakPtr (nextAddr s)
        (setWriteCallback (Callback ConnectorWrite) ch)) p1) = Inr p2"
      "poller_inv p2" "chans p2 = (chans (poller s))(nextAddr s \<mapsto> ch2)" "connecting_channel (nextAddr s) sock ch2"
      using start_connecting[OF I(1) fresh pos watched_interest[OF w new(1)]] by blast
    have "connect E s = Inr (s\<lparr>kernel := k2, poller := p2, nextAddr := nextAddr s + 1, connector :=
        Some (cn\<lparr>cnTimer := 0, cnStatus := CnConnecting, cnChan := Some (nextAddr s)\<rparr>)\<rparr>)"
      unfolding body using True here p(1-3)
      by (simp add: put_connector_def with_channel_def channel_op_def isInLoopThread_def Let_def)
    then show ?thesis using True new pos p(4-6) by auto
  next
    case False
    have "sock \<notin> fds (kernel s)" using k1 I(2) by (auto split: if_splits)
    then have "fds (snd (closeSocket (e_os E) sock k2)) = fds (kernel s)"
      using closeSocket_fds(1)[OF L(1), of sock k2] k1 k2 by (auto split: if_splits)
    then show ?thesis unfolding body using False by (simp add: put_connector_def)
  qed
qed

lemma poller_inv_remove:
  assumes "poller_inv p" and "chans p d = Some ch" and "isNoneEvent ch" and "\<not> isHandling ch"
  shows "\<exists>p'. delete_channel bd d p = Inr p' \<and> poller_inv p' \<and> chans p' = (chans p)(d := None)"
proof -
  have "delete_channel bd d p = Inr (p\<lparr>chans := (chans p)(d := None)\<rparr>)"
    using assms(2-4) by (simp add: delete_channel_def with_channel_def EventChannel_destroy_def)
  then show ?thesis using poller_inv_delete[OF assms(1,2,3)] by auto
qed

text \<open>\<open>resetChannel\<close>: the channel is no longer watched; it is destroyed unless a handler holds it.\<close>

lemma resetChannel_ok:
  assumes here: "threadId s = e_cur E" and c: "connector s = Some cn" "cnStatus cn = CnConnecting" "cnChan cn = Some d"
    and I: "poller_inv (poller s)" and ch: "chans (poller s) d = Some ch" "\<not> isNoneEvent ch"
    and h: "d \<notin> set (heldChans s) \<longrightarrow> \<not> isHandling ch"
  shows "\<exists>p. resetChannel E s = Inr (fd ch, s\<lparr>poller := p, connector := Some (cn\<lparr>cnChan := None\<rparr>)\<rparr>) \<and>
    poller_inv p \<and> chans p = (chans (poller s))
      (d := (if d \<in> set (heldChans s) then Some (ch\<lparr>events := NONE_EVENT\<rparr>) else None))"
proof -
  have "d \<in> channels (poller s)" using poller_invD(1)[OF I ch(1)] ch(2) by blast
  then obtain p1 where p1: "set_events True (new_events DisableAll) d (poller s) = Inr p1" "poller_inv p1"
      "chans p1 = (chans (poller s))(d \<mapsto> ch\<lparr>events := NONE_EVENT\<rparr>)"
    using set_events_ok[OF I ch(1), of "new_events DisableAll"] by auto
  have op: "channel_op (e_cur E) DisableAll d s = Inr (s\<lparr>poller := p1\<rparr>)"
    using p1(1) here by (simp add: channel_op_def do_op_set_events isInLoopThread_def)
  have body: "resetChannel E s = res_bind (reset_shared (e_build E) d (put_connector (cn\<lparr>cnChan := None\<rparr>) (s\<lparr>poller := p1\<rparr>)))
      (\<lambda>s2. Inr (fd ch, s2))"
    using here c op p1(3) by (simp add: resetChannel_def with_connector_def in_loop_def isInLoopThread_def
        with_channel_def look_loop_def)
  show ?thesis
  proof (cases "d \<in> set (heldChans s)")
    case True
    then show ?thesis unfolding body using p1(2,3) by (intro exI[of _ p1]) (simp add: reset_shared_def put_connector_def)
  next
    case False
    then obtain p2 where "delete_channel (e_build E) d p1 = Inr p2" "poller_inv p2" "chans p2 = (chans p1)(d := None)"
      using poller_inv_remove[OF p1(2), of d "ch\<lparr>events := NONE_EVENT\<rparr>"] p1(3) h by (auto simp: isNoneEvent_def)
    then show ?thesis unfolding body using p1(3) False
      by (intro exI[of _ p2]) (simp add: reset_shared_def put_connector_def)
  qed
qed

text \<open>What an attempt ended with: the error of the socket, and whether it is connected to itself.\<close>

definition outcome :: "'k os \<Rightarrow> host \<Rightarrow> int \<Rightarrow> 'k \<Rightarrow> bool \<times> 'k" where
  "outcome os h sock k = (let (err, k1) = getSocketError os sock k in
     if err \<noteq> 0 then (False, k1) else let (self, k2) = isSelfConnect os h sock k1 in (\<not> self, k2))"

lemma outcome_fds: "fd_law os fds \<Longrightarrow> outcome os h f k = (ok, k1) \<Longrightarrow> fds k1 = fds k"
  using fd_law_simps(12)[of os fds f k] fd_law_simps(13)[of os fds h f "snd (getSocketError os f k)"]
  by (auto simp: outcome_def Let_def split: prod.splits if_splits)

lemma connectorWrite_ok:
  assumes here: "threadId s = e_cur E" and c: "connector s = Some cn" "cnStatus cn = CnConnecting" "cnChan cn = Some d"
    and I: "poller_inv (poller s)" and ch: "chans (poller s) d = Some ch" "\<not> isNoneEvent ch"
    and held: "d \<in> set (heldChans s)" and o: "outcome (e_os E) (e_host E) (fd ch) (kernel s) = (ok, k)"
    and cb: "cnNewConnection cn = Some f"
  shows "\<exists>p. poller_inv p \<and> chans p = (chans (poller s))(d \<mapsto> ch\<lparr>events := NONE_EVENT\<rparr>) \<and>
    connectorWrite E ncall s = (let s1 = s\<lparr>poller := p, kernel := k\<rparr> in
      if ok then ncall f (fd ch) (put_connector (cn\<lparr>cnChan := None, cnStatus := CnConnected\<rparr>) s1)
      else retry E (fd ch) (put_connector (cn\<lparr>cnChan := None, cnStatus := CnDisconnected\<rparr>) s1))"
proof -
  obtain p where p: "resetChannel E s = Inr (fd ch, s\<lparr>poller := p, connector := Some (cn\<lparr>cnChan := None\<rparr>)\<rparr>)" "poller_inv p"
      "chans p = (chans (poller s))(d \<mapsto> ch\<lparr>events := NONE_EVENT\<rparr>)"
    using resetChannel_ok[OF here c I ch] held by auto
  then show ?thesis
    using here c o cb
    by (intro exI[of _ p]) (auto simp: connectorWrite_def with_connector_def in_loop_def isInLoopThread_def outcome_def
        put_connector_def Let_def split: prod.splits if_splits)
qed

section \<open>Events of the connector's channel\<close>

definition connecting :: "('u, 'k, 'z) cnet_env \<Rightarrow> nat \<Rightarrow> 'u func callback channel \<Rightarrow> 'u connector \<Rightarrow>
    ('u, 'k, 'z) cnet_scheme \<Rightarrow> bool" where
  "connecting E d ch cn s \<longleftrightarrow> threadId s = e_cur E \<and> connector s = Some cn \<and> cnStatus cn = CnConnecting \<and>
     cnChan cn = Some d \<and> cnTimer cn = 0 \<and> cnNewConnection cn \<noteq> None \<and> poller_inv (poller s) \<and>
     chans (poller s) d = Some ch \<and> connecting_channel d (fd ch) ch \<and> d \<notin> set (heldChans s)"

definition writable :: "32 word \<Rightarrow> bool" where
  "writable r \<longleftrightarrow> r AND EPOLLOUT \<noteq> 0 \<and> r AND EPOLLHUP = 0"

text \<open>The state in which the write callback runs.\<close>

definition in_event :: "nat \<Rightarrow> 'u func callback channel \<Rightarrow> ('u, 'k, 'z) cnet_scheme \<Rightarrow> ('u, 'k, 'z) cnet_scheme" where
  "in_event d ch s = put_loop d (ch\<lparr>isHandling := True\<rparr>) (s\<lparr>heldChans := d # heldChans s\<rparr>)"

lemma in_event_fields [simp]:
  "threadId (in_event d ch s) = threadId s" "connector (in_event d ch s) = connector s"
  "kernel (in_event d ch s) = kernel s" "heldChans (in_event d ch s) = d # heldChans s"
  "chans (poller (in_event d ch s)) = (chans (poller s))(d \<mapsto> ch\<lparr>isHandling := True\<rparr>)"
  "timersCreated (in_event d ch s) = timersCreated s" "clock (in_event d ch s) = clock s"
  "timers (in_event d ch s) = timers s" "timerIds (in_event d ch s) = timerIds s" "nextAddr (in_event d ch s) = nextAddr s"
  "conns (in_event d ch s) = conns s" "customEvents (in_event d ch s) = customEvents s"
  "held (in_event d ch s) = held s"
  by (simp_all add: in_event_def put_loop_def)

lemma in_event_inv:
  "poller_inv (poller s) \<Longrightarrow> chans (poller s) d = Some ch \<Longrightarrow> poller_inv (poller (in_event d ch s))"
  using poller_inv_put[of "poller s" d ch "ch\<lparr>isHandling := True\<rparr>"] by (simp add: in_event_def put_loop_def)

lemma connector_event_body:
  assumes c: "connecting E d ch cn s"
  shows "connector_event E call d s =
    res_bind (res_bind (if writable (revents ch) then call ConnectorWrite (in_event d ch s) else Inr (in_event d ch s))
      (set_handling look_loop put_loop d False)) (release_channel (e_build E) d)"
proof -
  let ?s = "s\<lparr>heldChans := d # heldChans s\<rparr>"
  have l: "look_loop d ?s = Some ch" "in_loop E s" "chans (poller ?s) d \<noteq> None" "look_loop d s = Some ch"
    using c by (simp_all add: connecting_def look_loop_def in_loop_def isInLoopThread_def)
  have cc: "eventCallback ch = None" "readCallback ch = None" "errorCallback ch = None" "closeCallback ch = None"
      "writeCallback ch = Some (Callback ConnectorWrite)" "bindObject ch = Some d"
    using c by (simp_all add: connecting_def connecting_channel_def)
  show ?thesis
    using ls.handlerEvent_write_only[OF l(1) cc, of "\<lambda>obj s. chans (poller s) obj \<noteq> None" "call_callback call", OF l(3)] l(2,4)
    by (simp add: connector_event_def with_channel_def in_event_def writable_def)
qed

text \<open>After the callback: the handler's reference goes, and the channel with it.\<close>

lemma finish_event:
  assumes "poller_inv (poller s3)" and "chans (poller s3) d = Some ch" and "isNoneEvent ch"
    and "heldChans s3 = d # hs" and "d \<notin> set hs" and "\<forall>cn. connector s3 = Some cn \<longrightarrow> cnChan cn \<noteq> Some d"
  shows "\<exists>p. poller_inv p \<and> chans p = (chans (poller s3))(d := None) \<and>
    res_bind (set_handling look_loop put_loop d False s3) (release_channel bd d) =
      Inr (s3\<lparr>poller := p, heldChans := hs\<rparr>)"
proof -
  let ?ch = "ch\<lparr>isHandling := False\<rparr>" and ?p = "put_channel d (ch\<lparr>isHandling := False\<rparr>) (poller s3)"
  have "poller_inv ?p" by (rule poller_inv_put[OF assms(1,2)]) simp_all
  then obtain p where p: "delete_channel bd d ?p = Inr p" "poller_inv p" "chans p = (chans ?p)(d := None)"
    using poller_inv_remove[of ?p d ?ch bd] assms(3) by (auto simp: isNoneEvent_def)
  then show ?thesis
    using assms(2,4-6)
    by (intro exI[of _ p]) (auto simp: set_handling_def with_channel_def look_loop_def put_loop_def release_channel_def
        reset_shared_def Let_def)
qed

lemma connector_event_idle:
  assumes c: "connecting E d ch cn s" and "\<not> writable (revents ch)"
  shows "connector_event E call d s = Inr s"
proof -
  have ch: "chans (poller s) d = Some ch" "connector s = Some cn" "cnChan cn = Some d" "isHandling ch = False"
    using c by (simp_all add: connecting_def connecting_channel_def)
  have "ch\<lparr>isHandling := False\<rparr> = ch" using ch(4) by (cases ch) simp
  then have "(poller s)\<lparr>chans := (chans (poller s))(d \<mapsto> ch\<lparr>isHandling := False\<rparr>)\<rparr> = poller s"
    using ch(1) by (simp add: fun_upd_idem)
  then show ?thesis
    unfolding connector_event_body[OF c] using assms(2) ch
    by (simp add: set_handling_def with_channel_def look_loop_def put_loop_def in_event_def put_channel_def
        release_channel_def)
qed

lemma connector_event_ok:
  assumes c: "connecting E d ch cn s" and w: "writable (revents ch)"
    and o: "outcome (e_os E) (e_host E) (fd ch) (kernel s) = (ok, k)" and f: "cnNewConnection cn = Some f"
    and call: "call ConnectorWrite = connectorWrite E ncall"
  shows "\<exists>p. poller_inv p \<and>
    chans p = (chans (poller s))(d \<mapsto> ch\<lparr>isHandling := True, events := NONE_EVENT\<rparr>) \<and>
    connector_event E call d s = res_bind (res_bind
      (let s1 = in_event d ch s\<lparr>poller := p, kernel := k\<rparr> in
      if ok then ncall f (fd ch) (put_connector (cn\<lparr>cnChan := None, cnStatus := CnConnected\<rparr>) s1)
      else retry E (fd ch) (put_connector (cn\<lparr>cnChan := None, cnStatus := CnDisconnected\<rparr>) s1))
      (set_handling look_loop put_loop d False)) (release_channel (e_build E) d)"
proof -
  have h: "threadId (in_event d ch s) = e_cur E" "connector (in_event d ch s) = Some cn" "cnStatus cn = CnConnecting"
      "cnChan cn = Some d" "poller_inv (poller (in_event d ch s))"
      "chans (poller (in_event d ch s)) d = Some (ch\<lparr>isHandling := True\<rparr>)" "\<not> isNoneEvent (ch\<lparr>isHandling := True\<rparr>)"
      "d \<in> set (heldChans (in_event d ch s))"
      "outcome (e_os E) (e_host E) (fd (ch\<lparr>isHandling := True\<rparr>)) (kernel (in_event d ch s)) = (ok, k)"
    using c o in_event_inv[of s d ch] by (simp_all add: connecting_def connecting_channel_def watching_WRITE)
  show ?thesis
    using connectorWrite_ok[OF h f, of ncall] unfolding connector_event_body[OF c]
    using w call by (auto simp: Let_def)
qed

text \<open>An attempt that failed: the channel and the descriptor are gone, and the timer will try again.\<close>

lemma connector_event_failed:
  assumes c: "connecting E d ch cn s" and w: "writable (revents ch)"
    and o: "outcome (e_os E) (e_host E) (fd ch) (kernel s) = (False, k)"
    and call: "call ConnectorWrite = connectorWrite E ncall"
  shows "\<exists>p. poller_inv p \<and> chans p = (chans (poller s))(d := None) \<and> connector_event E call d s =
    Inr (s\<lparr>poller := p, kernel := snd (closeSocket (e_os E) (fd ch) k), timersCreated := timersCreated s + 1,
       timerIds := insert (t_id (retry_timer s cn)) (timerIds s), timers := pq_push (retry_timer s cn) (timers s),
       connector := Some (retried s (cn\<lparr>cnChan := None, cnStatus := CnDisconnected\<rparr>))\<rparr>)"
proof -
  obtain f where f: "cnNewConnection cn = Some f" using c by (auto simp: connecting_def)
  obtain p where p: "poller_inv p" "chans p = (chans (poller s))(d \<mapsto> ch\<lparr>isHandling := True, events := NONE_EVENT\<rparr>)"
      "connector_event E call d s = res_bind (res_bind
      (retry E (fd ch) (put_connector (cn\<lparr>cnChan := None, cnStatus := CnDisconnected\<rparr>) (in_event d ch s\<lparr>poller := p, kernel := k\<rparr>)))
      (set_handling look_loop put_loop d False)) (release_channel (e_build E) d)"
    using connector_event_ok[where call = call and ncall = ncall, OF c w o f call] by (auto simp: Let_def)
  let ?cn = "cn\<lparr>cnChan := None, cnStatus := CnDisconnected\<rparr>"
  let ?s1 = "put_connector ?cn (in_event d ch s\<lparr>poller := p, kernel := k\<rparr>)"
  have r1: "retry_timer ?s1 ?cn = retry_timer s cn" "retried ?s1 ?cn = retried s ?cn"
    by (simp_all add: retry_timer_def retried_def put_connector_def)
  let ?s3 = "put_connector (retried s ?cn) (?s1\<lparr>kernel := snd (closeSocket (e_os E) (fd ch) k), timersCreated := timersCreated s + 1,
       timerIds := insert (t_id (retry_timer s cn)) (timerIds s), timers := pq_push (retry_timer s cn) (timers s)\<rparr>)"
  have "retry E (fd ch) ?s1 = Inr ?s3"
    using retry_ok[of ?s1 E ?cn "fd ch"] c r1 by (simp add: put_connector_def connecting_def)
  moreover obtain q where "poller_inv q" "chans q = (chans p)(d := None)"
      "res_bind (set_handling look_loop put_loop d False ?s3) (release_channel (e_build E) d) =
        Inr (?s3\<lparr>poller := q, heldChans := heldChans s\<rparr>)"
    using finish_event[of ?s3 d "ch\<lparr>isHandling := True, events := NONE_EVENT\<rparr>" "heldChans s" "e_build E"] p(1,2) c
    by (auto simp: put_connector_def isNoneEvent_def connecting_def retried_def)
  ultimately show ?thesis
    unfolding p(3) using p(2) by (intro exI[of _ q]) (simp add: put_connector_def in_event_def put_loop_def)
qed

section \<open>The connector's timers\<close>

text \<open>The timers that will call \<open>connect\<close>: those that are queued and live.\<close>

definition calls :: "('u func, 'z) tqueue_scheme \<Rightarrow> 'u func timer set" where
  "calls s = {t \<in> set (timers s). callback t = ConnectorConnect \<and> t_id t \<in> timerIds s}"

text \<open>The ids of the timers of connectors were issued: a cancelled one is not revived by a new timer.\<close>

definition old_ids :: "('u func, 'z) loop_scheme \<Rightarrow> bool" where
  "old_ids s \<longleftrightarrow> (\<forall>t \<in> set (timers s). callback t = ConnectorConnect \<longrightarrow> t_id t \<le> timersCreated s)"

definition timer_set :: "'u connector \<Rightarrow> ('u, 'k, 'z) cnet_scheme \<Rightarrow> bool" where
  "timer_set cn s \<longleftrightarrow> cnTimer cn \<in> timerIds s \<and>
     (\<exists>t \<in> set (timers s). t_id t = cnTimer cn \<and> callback t = ConnectorConnect)"

lemma calls_cong: "timers s' = timers s \<Longrightarrow> timerIds s' = timerIds s \<Longrightarrow> calls s' = calls s"
  by (simp add: calls_def)

lemma old_ids_cong:
  "set (timers s') \<subseteq> set (timers s) \<Longrightarrow> timersCreated s \<le> timersCreated s' \<Longrightarrow> old_ids s \<Longrightarrow> old_ids s'"
  unfolding old_ids_def by (meson order_trans subsetD)

lemma retry_timer_fields:
  "callback (retry_timer s cn) = ConnectorConnect" "interval (retry_timer s cn) = 0"
  "expiration (retry_timer s cn) = clock s + currDelay cn"
  "timersCreated s + 1 < 2 ^ 64 \<Longrightarrow> t_id (retry_timer s cn) = timersCreated s + 1"
  by (simp_all add: retry_timer_def Timer_def GenerateTimerId_def)

lemma calls_retry:
  assumes "old_ids s" and "timersCreated s + 1 < 2 ^ 64" and "callback t = ConnectorConnect" and "t_id t = timersCreated s + 1"
    and "timers s' = pq_push t (timers s)" and "timerIds s' = insert (t_id t) (timerIds s)"
    and "timersCreated s' = timersCreated s + 1"
  shows "calls s' = insert t (calls s)" and "old_ids s'"
  using assms by (fastforce simp: calls_def old_ids_def)+

text \<open>
  The timer taken from the queue with its id, before \<open>connect\<close> runs instead of after: for \<open>connect\<close>, which adds a
  new id at most, the order makes no difference.
\<close>

definition fire :: "'u func timer \<Rightarrow> ('u, 'k, 'z) cnet_scheme \<Rightarrow> ('u, 'k, 'z) cnet_scheme" where
  "fire t s = s\<lparr>timers := remove1 t (timers s), timerIds := timerIds s - {t_id t}\<rparr>"

section \<open>The connector's life\<close>

text \<open>
  The state adds to that of the network: the open descriptors that are not the connector's (\<open>given\<close>: those of others and
  those it handed over, which the new connection callback records), and three ghosts: whether it was started (\<open>begun\<close>), the number of
  attempts that failed since it was made or told to reconnect (\<open>fails\<close>), and when the last one did (\<open>failedAt\<close>).  Its
  user starts it once, asks it to reconnect when it is connected, and destroys it; its timer fires; its channel gets
  events; everything else leaves it, its channel, its timers and its descriptor alone.
\<close>

record ('u, 'k) cnlife = "('u, 'k) cnet" +
  given :: "int set"
  begun :: bool
  fails :: nat
  failedAt :: int

type_synonym ('u, 'k) cnlife_env = "('u, 'k, ('u, 'k) cnlife) env"

definition hand_over :: "'u nfunc \<Rightarrow> int \<Rightarrow> ('u, 'k) cnlife \<Rightarrow> ('u, 'k) cnlife res" where
  "hand_over f sock s = Inr (s\<lparr>given := insert sock (given s)\<rparr>)"

definition own :: "('u, 'k, 'z) cnet_scheme \<Rightarrow> int set" where
  "own s = {f. \<exists>cn d ch. connector s = Some cn \<and> cnStatus cn = CnConnecting \<and> cnChan cn = Some d \<and>
     chans (poller s) d = Some ch \<and> fd ch = f}"

text \<open>After a step of an attempt: when the connector is disconnected (again), the attempt failed.\<close>

definition attempted :: "('u, 'k) cnlife \<Rightarrow> ('u, 'k) cnlife" where
  "attempted s = (let s1 = s\<lparr>begun := True\<rparr> in
     case connector s of None \<Rightarrow> s1
     | Some cn \<Rightarrow> if cnStatus cn = CnDisconnected then s1\<lparr>fails := fails s + 1, failedAt := clock s\<rparr> else s1)"

datatype 'u cn_op = DoStart | DoTimer "'u func timer" | DoEvent nat "32 word" | DoReconnect | DoDestroy

text \<open>When the environment may run an operation, and what it does.  Any queued and live timer that calls the connector may fire when it is due.\<close>

fun cn_may :: "'u cn_op \<Rightarrow> ('u, 'k) cnlife \<Rightarrow> bool" where
  "cn_may DoStart s = (connector s \<noteq> None \<and> \<not> begun s)"
| "cn_may (DoTimer t) s = (t \<in> calls s \<and> expiration t \<le> clock s)"
| "cn_may (DoEvent d r) s = (\<exists>cn \<in> set_option (connector s). cnChan cn = Some d)"
| "cn_may DoReconnect s = (\<exists>cn \<in> set_option (connector s). cnStatus cn = CnConnected)"
| "cn_may DoDestroy s = (connector s \<noteq> None)"

fun cn_do :: "('u, 'k) cnlife_env \<Rightarrow> 'u cn_op \<Rightarrow> ('u, 'k) cnlife \<Rightarrow> ('u, 'k) cnlife res" where
  "cn_do E DoStart s = res_bind (connect E s) (\<lambda>s1. Inr (attempted s1))"
| "cn_do E (DoTimer t) s = res_bind (run_timer (\<lambda>t. connect E) t s) (\<lambda>s1. Inr (attempted s1))"
| "cn_do E (DoEvent d r) s = with_channel look_loop d s (\<lambda>ch.
     res_bind (connector_event E (\<lambda>g. connectorWrite E hand_over) d (put_loop d (setRevents r ch) s)) (\<lambda>s1. Inr (attempted s1)))"
| "cn_do E DoReconnect s = res_bind (reconnect E (s\<lparr>fails := 0\<rparr>)) (\<lambda>s1. Inr (attempted s1))"
| "cn_do E DoDestroy s = destroyConnector E s"

inductive cn_step :: "('u, 'k) cnlife_env \<Rightarrow> ('k \<Rightarrow> int set) \<Rightarrow> ('u, 'k) cnlife \<Rightarrow> ('u, 'k) cnlife \<Rightarrow> bool"
  for E fds where
  cn_op: "cn_may op s \<Longrightarrow> timersCreated s + 1 < 2 ^ 64 \<Longrightarrow> cn_do E op s = Inr s' \<Longrightarrow> cn_step E fds s s'"
| cn_other: "threadId s' = threadId s \<Longrightarrow> connector s' = connector s \<Longrightarrow> heldChans s' = heldChans s \<Longrightarrow>
     begun s' = begun s \<Longrightarrow> fails s' = fails s \<Longrightarrow> failedAt s' = failedAt s \<Longrightarrow>
     watched fds s' \<Longrightarrow> (\<forall>a \<ge> nextAddr s'. chans (poller s') a = None) \<Longrightarrow>
     (\<forall>cn d. connector s = Some cn \<and> cnChan cn = Some d \<longrightarrow> chans (poller s') d = chans (poller s) d) \<Longrightarrow>
     calls s' = calls s \<Longrightarrow> timersCreated s \<le> timersCreated s' \<Longrightarrow>
     (\<forall>t \<in> set (timers s'). callback t = ConnectorConnect \<longrightarrow> t \<in> set (timers s)) \<Longrightarrow>
     given s' \<inter> own s = {} \<Longrightarrow> fds (kernel s') = given s' \<union> own s \<Longrightarrow> cn_step E fds s s'"

text \<open>A connector is made; the open descriptors are those of others.\<close>

definition cn_init :: "('u, 'k) cnlife_env \<Rightarrow> ('k \<Rightarrow> int set) \<Rightarrow> ('u, 'k) cnlife \<Rightarrow> bool" where
  "cn_init E fds s \<longleftrightarrow> (\<exists>s0 s1 peer delay longest f. threadId s0 = e_cur E \<and> watched fds s0 \<and>
     heldChans s0 = [] \<and> (\<forall>a \<ge> nextAddr s0. chans (poller s0) a = None) \<and> given s0 = fds (kernel s0) \<and>
     \<not> begun s0 \<and> fails s0 = 0 \<and> (\<forall>t \<in> set (timers s0). callback t \<noteq> ConnectorConnect) \<and>
     0 < delay \<and> delay \<le> longest \<and> TcpConnector E peer delay longest s0 = Inr s1 \<and> setNewConnectionCallback f s1 = Inr s)"

section \<open>The invariant of its life\<close>

definition nth_delay :: "'u connector \<Rightarrow> nat \<Rightarrow> int" where
  "nth_delay cn k = min (maxDelay cn) (retryDelay cn * 2 ^ k)"

lemma nth_delay_simps:
  "nth_delay (cn\<lparr>cnTimer := i, cnStatus := st, cnChan := d, currDelay := c\<rparr>) k = nth_delay cn k"
  "nth_delay (cn\<lparr>cnTimer := i, currDelay := c\<rparr>) k = nth_delay cn k"
  "nth_delay (cn\<lparr>cnStatus := st, currDelay := c\<rparr>) k = nth_delay cn k"
  "nth_delay (cn\<lparr>cnTimer := i\<rparr>) k = nth_delay cn k" "nth_delay (cn\<lparr>cnChan := d, cnStatus := st\<rparr>) k = nth_delay cn k"
  "nth_delay (cn\<lparr>cnTimer := i, cnStatus := st, cnChan := d\<rparr>) k = nth_delay cn k"
  by (simp_all add: nth_delay_def)

lemma nth_delay_next:
  assumes "0 < retryDelay cn" and "retryDelay cn \<le> maxDelay cn" and "currDelay cn = nth_delay cn k"
  shows "(if currDelay cn * 2 > maxDelay cn then maxDelay cn else currDelay cn * 2) = nth_delay cn (Suc k)"
    and "0 < nth_delay cn k" and "nth_delay cn (Suc k) = min (maxDelay cn) (2 * nth_delay cn k)"
  using assms by (auto simp: nth_delay_def min_def)

text \<open>
  A disconnected connector that was started waits for one timer, the only one that calls it; in every other state
  no timer does.
\<close>

definition waiting :: "'u connector \<Rightarrow> ('u, 'k) cnlife \<Rightarrow> bool" where
  "waiting cn s \<longleftrightarrow> 0 < fails s \<and> cnTimer cn \<noteq> 0 \<and>
     (\<exists>t. calls s = {t} \<and> t_id t = cnTimer cn \<and> interval t = 0 \<and> expiration t = failedAt s + nth_delay cn (fails s - 1))"

definition cn_good :: "('u, 'k) cnlife_env \<Rightarrow> 'u connector \<Rightarrow> ('u, 'k) cnlife \<Rightarrow> bool" where
  "cn_good E cn s \<longleftrightarrow> cnNewConnection cn \<noteq> None \<and> 0 < retryDelay cn \<and> retryDelay cn \<le> maxDelay cn \<and>
     currDelay cn = nth_delay cn (fails s) \<and> (cnStatus cn \<noteq> CnDisconnected \<longrightarrow> begun s) \<and>
     (case cnStatus cn of
        CnDisconnected \<Rightarrow> cnChan cn = None \<and> (if begun s then waiting cn s else cnTimer cn = 0 \<and> calls s = {})
      | CnConnecting \<Rightarrow> (\<exists>d ch. connecting E d ch cn s) \<and> calls s = {}
      | CnConnected \<Rightarrow> cnChan cn = None \<and> cnTimer cn = 0 \<and> calls s = {})"

definition cn_inv :: "('u, 'k) cnlife_env \<Rightarrow> ('k \<Rightarrow> int set) \<Rightarrow> ('u, 'k) cnlife \<Rightarrow> bool" where
  "cn_inv E fds s \<longleftrightarrow> threadId s = e_cur E \<and> watched fds s \<and> heldChans s = [] \<and>
     (\<forall>a \<ge> nextAddr s. chans (poller s) a = None) \<and> given s \<inter> own s = {} \<and> fds (kernel s) = given s \<union> own s \<and>
     old_ids s \<and> (case connector s of None \<Rightarrow> calls s = {} | Some cn \<Rightarrow> cn_good E cn s)"

lemma own_simps:
  "connector s = Some cn \<Longrightarrow> cnStatus cn \<noteq> CnConnecting \<Longrightarrow> own s = {}" "connector s = None \<Longrightarrow> own s = {}"
  "connecting E d ch cn s \<Longrightarrow> own s = {fd ch}"
  by (auto simp: own_def connecting_def)

lemma attempted_fields [simp]:
  "threadId (attempted s) = threadId s" "connector (attempted s) = connector s" "kernel (attempted s) = kernel s"
  "heldChans (attempted s) = heldChans s" "poller (attempted s) = poller s" "timers (attempted s) = timers s"
  "timerIds (attempted s) = timerIds s" "timersCreated (attempted s) = timersCreated s" "nextAddr (attempted s) = nextAddr s"
  "clock (attempted s) = clock s" "given (attempted s) = given s" "begun (attempted s)"
  by (simp_all add: attempted_def Let_def split: option.splits)

lemma attempted_ghosts:
  "connector s = Some cn \<Longrightarrow> cnStatus cn = CnDisconnected \<Longrightarrow> fails (attempted s) = Suc (fails s) \<and> failedAt (attempted s) = clock s"
  "connector s = Some cn \<Longrightarrow> cnStatus cn \<noteq> CnDisconnected \<Longrightarrow> fails (attempted s) = fails s"
  by (simp_all add: attempted_def Let_def)

lemma attempted_same:
  "calls (attempted s) = calls s" "old_ids (attempted s) = old_ids s" "own (attempted s) = own s"
  "watched fds (attempted s) = watched fds s" "connecting E d ch cn (attempted s) = connecting E d ch cn s"
  by (simp_all add: calls_def old_ids_def own_def watched_def connecting_def)

text \<open>A failed attempt leaves a connector that is disconnected and waits.\<close>

lemma retried_inv:
  fixes s s' :: "('u, 'k) cnlife"
  assumes cn: "cnNewConnection cn \<noteq> None" "0 < retryDelay cn" "retryDelay cn \<le> maxDelay cn" "currDelay cn = nth_delay cn (fails s)"
      "cnStatus cn = CnDisconnected" "cnChan cn = None"
    and s: "calls s = {}" "old_ids s" "timersCreated s + 1 < 2 ^ 64"
    and s': "timers s' = pq_push (retry_timer s cn) (timers s)" "timerIds s' = insert (t_id (retry_timer s cn)) (timerIds s)"
      "timersCreated s' = timersCreated s + 1" "connector s' = Some (retried s cn)" "fails s' = fails s" "clock s' = clock s"
  shows "cn_good E (retried s cn) (attempted s') \<and> old_ids s' \<and> own s' = {}"
proof -
  let ?t = "retry_timer s cn"
  note t = retry_timer_fields[of s cn] retry_timer_fields(4)[OF s(3), of cn]
  have c: "calls s' = {?t}" "old_ids s'" using calls_retry[OF s(2,3) t(1,5) s'(1-3)] s(1) by simp_all
  have st: "cnStatus (retried s cn) = CnDisconnected" using cn(5) by (simp add: retried_def)
  have d: "currDelay (retried s cn) = nth_delay cn (Suc (fails s))"
    using nth_delay_next(1)[OF cn(2-4)] by (simp add: retried_def)
  have "waiting (retried s cn) (attempted s')"
    unfolding waiting_def
    using c(1) t cn(4) attempted_ghosts(1)[OF s'(4) st] s'(5,6) s(3)
    by (simp add: attempted_same retried_def nth_delay_simps)
  then have "cn_good E (retried s cn) (attempted s')"
    using cn st d attempted_ghosts(1)[OF s'(4) st] s'(5)
    by (simp add: cn_good_def) (simp add: retried_def nth_delay_simps)
  moreover have "own s' = {}" using own_simps(1)[OF s'(4)] st by simp
  ultimately show ?thesis using c(2) by simp
qed

text \<open>An attempt that is begun where no timer calls the connector.\<close>

lemma connect_inv:
  fixes s :: "('u, 'k) cnlife"
  assumes L: "fd_law (e_os E) fds" "connect_law (e_os E)" and here: "threadId s = e_cur E" and w: "watched fds s"
    and h: "heldChans s = []" and fresh: "\<forall>a \<ge> nextAddr s. chans (poller s) a = None"
    and c: "connector s = Some cn" "cnStatus cn = CnDisconnected" "cnChan cn = None" "cnNewConnection cn \<noteq> None"
      "0 < retryDelay cn" "retryDelay cn \<le> maxDelay cn" "currDelay cn = nth_delay cn (fails s)"
    and t: "timersCreated s + 1 < 2 ^ 64" "calls s = {}" "old_ids s" and g: "fds (kernel s) = given s"
  shows "\<exists>s' cn'. connect E s = Inr s' \<and> cn_inv E fds (attempted s') \<and> connector s' = Some cn' \<and>
    retryDelay cn' = retryDelay cn \<and> maxDelay cn' = maxDelay cn \<and> clock s' = clock s \<and> fails s' = fails s"
proof -
  obtain sock k1 where k1: "tcpSocket (e_os E) (family (e_host E) (cnPeer cn)) (kernel s) = (sock, k1)"
    by (cases "tcpSocket (e_os E) (family (e_host E) (cnPeer cn)) (kernel s)")
  obtain ret k2 where k2: "socket_connect (e_os E) sock (cnPeer cn) k1 = (ret, k2)"
    by (cases "socket_connect (e_os E) sock (cnPeer cn) k1")
  have "chans (poller s) (nextAddr s) = None" using fresh by simp
  note ok = connect_ok[OF here c(1-4) w L this k1 k2]
  show ?thesis
  proof (cases "ret = 0")
    case True
    let ?cn = "cn\<lparr>cnTimer := 0, cnStatus := CnConnecting, cnChan := Some (nextAddr s)\<rparr>"
    obtain p ch where pos: "0 \<le> sock" and s': "sock \<notin> fds (kernel s)" "fds k2 = insert sock (fds (kernel s))"
      "connect E s = Inr (s\<lparr>kernel := k2, poller := p, nextAddr := nextAddr s + 1, connector := Some ?cn\<rparr>)"
      "poller_inv p" "chans p = (chans (poller s))(nextAddr s \<mapsto> ch)" "connecting_channel (nextAddr s) sock ch"
      using ok True by auto
    let ?s = "s\<lparr>kernel := k2, poller := p, nextAddr := nextAddr s + 1, connector := Some ?cn\<rparr>"
    have ch: "fd ch = sock" using s'(6) by (simp add: connecting_channel_def)
    then have con: "connecting E (nextAddr s) ch ?cn ?s"
      using s'(4-6) c(4) here h unfolding connecting_def by simp
    have "watched fds ?s" using w s'(2,4,5) ch pos unfolding watched_def by auto
    moreover have "calls ?s = {}" "old_ids ?s" using t by (simp_all add: calls_def old_ids_def)
    moreover have "fails (attempted ?s) = fails s" using attempted_ghosts(2)[of ?s ?cn] by simp
    then have "cn_good E ?cn (attempted ?s)"
      using con c calculation(2) by (auto simp: cn_good_def attempted_same nth_delay_simps)
    moreover have "\<forall>a \<ge> nextAddr ?s. chans (poller ?s) a = None" using fresh s'(5) by auto
    ultimately have "cn_inv E fds (attempted ?s)"
      using own_simps(3)[OF con] s'(1,2) ch here h g by (simp add: cn_inv_def attempted_same)
    then show ?thesis using s'(3) by (intro exI[of _ ?s] exI[of _ ?cn]) simp
  next
    case False
    let ?s1 = "put_connector (cn\<lparr>cnTimer := 0\<rparr>) (s\<lparr>kernel := k2\<rparr>)" and ?cn = "cn\<lparr>cnTimer := 0\<rparr>"
    let ?t = "retry_timer ?s1 ?cn"
    let ?s = "put_connector (retried ?s1 ?cn) (?s1\<lparr>kernel := snd (closeSocket (e_os E) sock k2), timersCreated := timersCreated s + 1,
       timerIds := insert (t_id ?t) (timerIds s), timers := pq_push ?t (timers s)\<rparr>)"
    have k: "fds (snd (closeSocket (e_os E) sock k2)) = fds (kernel s)" "connect E s = retry E sock ?s1"
      using ok False by simp_all
    have "retry E sock ?s1 = Inr ?s"
      using retry_ok[of ?s1 E ?cn sock] here c by (simp add: put_connector_def)
    with k(2) have e: "connect E s = Inr ?s" by simp
    have "calls ?s1 = {}" "old_ids ?s1" using t by (simp_all add: put_connector_def calls_def old_ids_def)
    then have r: "cn_good E (retried ?s1 ?cn) (attempted ?s) \<and> old_ids ?s \<and> own ?s = {}"
      using c t by (intro retried_inv) (simp_all add: put_connector_def nth_delay_simps)
    have "watched fds ?s" using w k(1) by (auto simp: watched_def put_connector_def)
    then have "cn_inv E fds (attempted ?s)"
      using r here h fresh k(1) g by (simp add: cn_inv_def attempted_same put_connector_def)
    then show ?thesis
      using e by (intro exI[of _ ?s] exI[of _ "retried ?s1 ?cn"]) (simp add: put_connector_def retried_def)
  qed
qed

text \<open>\<open>connect\<close> neither looks at the live ids nor takes any of them away.\<close>

lemma connect_fire:
  assumes "threadId s = e_cur E" and "t_id t \<le> timersCreated s" and "timersCreated s + 1 < 2 ^ 64"
  shows "run_timer (\<lambda>t. connect E) t s = connect E (fire t s)"
proof (cases "connector s")
  case None
  then show ?thesis using assms(1) by (simp add: run_timer_def fire_def connect_def with_connector_def in_loop_def isInLoopThread_def)
next
  case (Some cn)
  have id: "GenerateTimerId (timersCreated s) \<noteq> t_id t" using assms(2,3) by (simp add: GenerateTimerId_def)
  obtain sock k1 where k1: "tcpSocket (e_os E) (family (e_host E) (cnPeer cn)) (kernel s) = (sock, k1)"
    by (cases "tcpSocket (e_os E) (family (e_host E) (cnPeer cn)) (kernel s)")
  obtain ret k2 where k2: "socket_connect (e_os E) sock (cnPeer cn) k1 = (ret, k2)"
    by (cases "socket_connect (e_os E) sock (cnPeer cn) k1")
  show ?thesis
  proof (cases "ret = 0")
    case True
    note defs = Some k1 k2 assms(1) True run_timer_def fire_def connect_def with_connector_def asserting_def in_loop_def
      isInLoopThread_def put_connector_def with_channel_def channel_op_def Let_def
    show ?thesis
    proof (cases "new_channel (e_build E) (nextAddr s) sock (poller s)")
      case (Inr p1)
      show ?thesis
      proof (cases "chans p1 (nextAddr s)")
        case (Some ch)
        then show ?thesis
          using Inr by (cases "do_op EnableWriting True (nextAddr s) (put_channel (nextAddr s) (bindWeakPtr (nextAddr s)
            (setWriteCallback (Callback ConnectorWrite) ch)) p1)") (auto simp: defs)
      qed (auto simp: defs Inr)
    qed (auto simp: defs)
  next
    case False
    then show ?thesis
      using Some k1 k2 assms(1) id
      by (auto simp: run_timer_def fire_def connect_def with_connector_def asserting_def in_loop_def isInLoopThread_def
          put_connector_def retry_def runTimerAfter_def runTimer_def addTimer_here Timer_def Let_def insert_Diff_if)
  qed
qed

text \<open>Without the connector's channel, only the descriptors of others are watched.\<close>

lemma others_watched:
  assumes c: "connecting E d ch cn s" and w: "watched fds s" and k: "fds (kernel s) = insert (fd ch) G"
    and p: "chans p = (chans (poller s))(d := None)"
  shows "\<forall>c dh. chans p c = Some dh \<and> \<not> isNoneEvent dh \<longrightarrow> fd dh \<in> G"
proof (intro allI impI)
  have cn: "poller_inv (poller s)" "chans (poller s) d = Some ch" "\<not> isNoneEvent ch"
    using c watching_WRITE by (auto simp: connecting_def connecting_channel_def)
  fix e dh assume a: "chans p e = Some dh \<and> \<not> isNoneEvent dh"
  then have e: "chans (poller s) e = Some dh" "e \<noteq> d" using p by (auto split: if_splits)
  then have "fd dh \<in> fds (kernel s)" using w a unfolding watched_def by blast
  moreover have "fd dh \<noteq> fd ch"
  proof
    assume eq: "fd dh = fd ch"
    have "e \<in> channels (poller s)" "d \<in> channels (poller s)"
      using poller_invD(1)[OF cn(1)] e(1) a cn(2,3) by auto
    then have "interest (poller s) (fd dh) = Some (events dh, e)" "interest (poller s) (fd ch) = Some (events ch, d)"
      using poller_invD(2)[OF cn(1), of e] poller_invD(2)[OF cn(1), of d] e(1) cn(2) by auto
    then show False using e(2) eq by simp
  qed
  ultimately show "fd dh \<in> G" using k by simp
qed

lemma event_inv:
  fixes s :: "('u, 'k) cnlife"
  assumes L: "fd_law (e_os E) fds" and I: "cn_inv E fds s" and c: "connecting E d ch cn s"
    and t: "timersCreated s + 1 < 2 ^ 64"
  shows "\<exists>s'. connector_event E (\<lambda>g. connectorWrite E hand_over) d (put_loop d (setRevents r ch) s) = Inr s' \<and>
    cn_inv E fds (attempted s')"
proof -
  let ?ch = "setRevents r ch" and ?s = "put_loop d (setRevents r ch) s"
  let ?call = "\<lambda>g. connectorWrite E hand_over"
  have cn: "connector s = Some cn" "cnStatus cn = CnConnecting" "cnTimer cn = 0" "d \<notin> set (heldChans s)"
      "chans (poller s) d = Some ch" "threadId s = e_cur E" "poller_inv (poller s)" "connecting_channel d (fd ch) ch"
      "cnNewConnection cn \<noteq> None"
    using c by (auto simp: connecting_def)
  have inv: "watched fds s" "heldChans s = []" "\<forall>a \<ge> nextAddr s. chans (poller s) a = None" "given s \<inter> {fd ch} = {}"
      "fds (kernel s) = insert (fd ch) (given s)" "cn_good E cn s" "old_ids s"
    using I own_simps(3)[OF c] cn(1) by (auto simp: cn_inv_def)
  have good: "0 < retryDelay cn" "retryDelay cn \<le> maxDelay cn" "currDelay cn = nth_delay cn (fails s)" "begun s" "calls s = {}"
    using inv(6) cn(2) by (auto simp: cn_good_def)
  have P: "poller ?s = put_channel d ?ch (poller s)" by (simp add: put_loop_def)
  have Ip: "poller_inv (poller ?s)"
    unfolding P by (rule poller_inv_put[OF cn(7,5)]) (simp_all add: setRevents_def)
  have c2: "connecting E d ?ch cn ?s"
    using c Ip by (simp add: connecting_def put_loop_def connecting_channel_def setRevents_def)
  have f: "fd ?ch = fd ch" by (simp add: setRevents_def)
  have fields: "kernel ?s = kernel s" "connector ?s = Some cn" "heldChans ?s = []" "threadId ?s = e_cur E"
      "nextAddr ?s = nextAddr s" "chans (poller ?s) = (chans (poller s))(d \<mapsto> ?ch)" "timersCreated ?s = timersCreated s"
      "timerIds ?s = timerIds s" "timers ?s = timers s" "given ?s = given s" "fails ?s = fails s" "calls ?s = {}" "old_ids ?s"
    using cn inv(2,7) good(5) by (simp_all add: put_loop_def calls_def old_ids_def)
  have dlt: "d < nextAddr s" using inv(3) cn(5) by (metis not_le option.distinct(1))
  note gone = others_watched[OF c inv(1,5)]
  show ?thesis
  proof (cases "writable r")
    case False
    then have e: "connector_event E ?call d ?s = Inr ?s" using connector_event_idle[OF c2, of ?call] by (simp add: setRevents_def)
    have "own ?s = {fd ch}" using own_simps(3)[OF c2] f by simp
    moreover have "watched fds ?s" using inv(1) Ip cn(5) fields(1,6)
      by (auto simp: watched_def setRevents_def isNoneEvent_def split: if_splits)
    moreover have "fails (attempted ?s) = fails s" using attempted_ghosts(2)[OF fields(2)] cn(2) fields(11) by simp
    then have "cn_good E cn (attempted ?s)" using c2 good cn(2,9) fields(12) by (auto simp: cn_good_def attempted_same)
    ultimately have "cn_inv E fds (attempted ?s)"
      using inv(3-5) fields dlt cn(2) by (auto simp: cn_inv_def attempted_same)
    with e show ?thesis by blast
  next
    case True
    then have w: "writable (revents ?ch)" by (simp add: setRevents_def)
    obtain ok k where o: "outcome (e_os E) (e_host E) (fd ?ch) (kernel ?s) = (ok, k)"
      by (cases "outcome (e_os E) (e_host E) (fd ?ch) (kernel ?s)")
    have fk: "fds k = insert (fd ch) (given s)" using outcome_fds[OF L o] inv(5) fields(1) by simp
    show ?thesis
    proof (cases ok)
      case False
      let ?cn = "cn\<lparr>cnChan := None, cnStatus := CnDisconnected\<rparr>"
      have o': "outcome (e_os E) (e_host E) (fd ?ch) (kernel ?s) = (False, k)" using o False by simp
      obtain p where p: "poller_inv p" "chans p = (chans (poller ?s))(d := None)"
        "connector_event E ?call d ?s = Inr (?s\<lparr>poller := p,
         kernel := snd (closeSocket (e_os E) (fd ?ch) k), timersCreated := timersCreated ?s + 1,
         timerIds := insert (t_id (retry_timer ?s cn)) (timerIds ?s), timers := pq_push (retry_timer ?s cn) (timers ?s),
         connector := Some (retried ?s ?cn)\<rparr>)"
        using connector_event_failed[where call = ?call and ncall = hand_over, OF c2 w o'] by auto
      define s' where "s' = ?s\<lparr>poller := p,
         kernel := snd (closeSocket (e_os E) (fd ?ch) k), timersCreated := timersCreated ?s + 1,
         timerIds := insert (t_id (retry_timer ?s cn)) (timerIds ?s), timers := pq_push (retry_timer ?s cn) (timers ?s),
         connector := Some (retried ?s ?cn)\<rparr>"
      have p2: "chans p = (chans (poller s))(d := None)" using p(2) fields(6) by simp
      have fd': "fds (kernel s') = given s"
        using closeSocket_fds(1)[OF L, of "fd ch" k] fk inv(4) f by (auto simp: s'_def)
      have rt: "retry_timer ?s ?cn = retry_timer ?s cn" by (simp add: retry_timer_def)
      have r: "cn_good E (retried ?s ?cn) (attempted s') \<and> old_ids s' \<and> own s' = {}"
        by (rule retried_inv) (use cn(9) good t fields rt in \<open>simp_all add: s'_def nth_delay_simps put_loop_def\<close>)
      moreover have "watched fds s'" using gone[OF p2] p(1) fd' inv(1,5) by (auto simp: watched_def s'_def)
      moreover have "connector s' = Some (retried ?s ?cn)" "threadId s' = e_cur E" "heldChans s' = []" "nextAddr s' = nextAddr s"
        "given s' = given s" "chans (poller s') = (chans (poller s))(d := None)"
        using fields p2 by (simp_all add: s'_def)
      ultimately have "cn_inv E fds (attempted s')" using fd' inv(3) by (auto simp: cn_inv_def attempted_same)
      then show ?thesis using p(3) unfolding s'_def by blast
    next
      case True
      obtain g where g: "cnNewConnection cn = Some g" using cn(9) by blast
      let ?cn = "cn\<lparr>cnChan := None, cnStatus := CnConnected\<rparr>"
      obtain p where p: "poller_inv p" "chans p = (chans (poller ?s))(d \<mapsto> ?ch\<lparr>isHandling := True, events := NONE_EVENT\<rparr>)"
        "connector_event E ?call d ?s = res_bind (res_bind
          (hand_over g (fd ?ch) (put_connector ?cn (in_event d ?ch ?s\<lparr>poller := p, kernel := k\<rparr>)))
          (set_handling look_loop put_loop d False)) (release_channel (e_build E) d)"
        using connector_event_ok[where call = ?call and ncall = hand_over, OF c2 w o g] True by (auto simp: Let_def)
      let ?s2 = "put_connector ?cn (in_event d ?ch ?s\<lparr>poller := p, kernel := k\<rparr>)"
      let ?s3 = "?s2\<lparr>given := insert (fd ch) (given s)\<rparr>"
      have sh: "hand_over g (fd ?ch) ?s2 = Inr ?s3" by (simp add: hand_over_def f put_connector_def in_event_def put_loop_def)
      obtain q where q: "poller_inv q" "chans q = (chans p)(d := None)"
          "res_bind (set_handling look_loop put_loop d False ?s3) (release_channel (e_build E) d) =
            Inr (?s3\<lparr>poller := q, heldChans := []\<rparr>)"
        using finish_event[of ?s3 d "?ch\<lparr>isHandling := True, events := NONE_EVENT\<rparr>" "[]" "e_build E"] p(1,2) fields(3)
        by (auto simp: put_connector_def isNoneEvent_def)
      let ?s' = "?s3\<lparr>poller := q, heldChans := []\<rparr>"
      have e: "connector_event E ?call d ?s = Inr ?s'" using p(3) q(3) by (simp add: sh)
      have cs: "connector ?s' = Some ?cn" "kernel ?s' = k" "poller ?s' = q" "heldChans ?s' = []" "threadId ?s' = e_cur E"
          "nextAddr ?s' = nextAddr s" "given ?s' = insert (fd ch) (given s)" "calls ?s' = {}" "old_ids ?s'" "fails ?s' = fails s"
        using fields by (simp_all add: put_connector_def calls_def old_ids_def in_event_def put_loop_def)
      have q2: "chans q = (chans (poller s))(d := None)" using q(2) p(2) fields(6) by simp
      have "fails (attempted ?s') = fails s" using attempted_ghosts(2)[OF cs(1)] cs(10) by simp
      then have "cn_good E ?cn (attempted ?s')" using good cn(3,9) cs(8) by (simp add: cn_good_def attempted_same nth_delay_simps)
      moreover have "own ?s' = {}" using own_simps(1)[OF cs(1)] by simp
      moreover have "watched fds ?s'" using gone[OF q2] q(1) cs fk inv(1,5) by (auto simp: watched_def)
      ultimately have "cn_inv E fds (attempted ?s')" using cs fk inv(3) q2 by (auto simp: cn_inv_def attempted_same)
      with e show ?thesis by blast
    qed
  qed
qed

text \<open>Destruction gives up an attempt and cancels the timer, and no timer calls the connector afterwards.\<close>

lemma destroy_inv:
  fixes s :: "('u, 'k) cnlife"
  assumes L: "fd_law (e_os E) fds" and I: "cn_inv E fds s" and cn: "connector s = Some cn"
  shows "\<exists>s'. destroyConnector E s = Inr s' \<and> cn_inv E fds s' \<and> connector s' = None"
proof -
  have inv: "threadId s = e_cur E" "watched fds s" "heldChans s = []" "\<forall>a \<ge> nextAddr s. chans (poller s) a = None"
      "given s \<inter> own s = {}" "fds (kernel s) = given s \<union> own s" "old_ids s"
    using I by (auto simp: cn_inv_def)
  have good: "cn_good E cn s" using I cn by (simp add: cn_inv_def)
  have here: "isInLoopThread (e_cur E) s" using inv(1) by (simp add: isInLoopThread_def)
  show ?thesis
  proof (cases "cnStatus cn = CnConnecting")
    case False
    then have o: "own s = {}" "cnChan cn = None"
      using own_simps(1)[OF cn] good by (auto simp: cn_good_def split: connector_status.splits)
    let ?s = "s\<lparr>timerIds := (if cnTimer cn = 0 then timerIds s else timerIds s - {cnTimer cn}), connector := None\<rparr>"
    have w: "cnTimer cn \<noteq> 0 \<Longrightarrow> waiting cn s" "cnTimer cn = 0 \<Longrightarrow> calls s = {}"
      using good False by (auto simp: cn_good_def waiting_def split: connector_status.splits if_splits)
    have live: "cnTimer cn \<in> timerIds s" if nz: "cnTimer cn \<noteq> 0"
    proof -
      obtain t where "calls s = {t}" "t_id t = cnTimer cn" using w(1)[OF nz] by (auto simp: waiting_def)
      then have "t \<in> calls s" "t_id t = cnTimer cn" by simp_all
      then show ?thesis by (simp add: calls_def)
    qed
    have e: "destroyConnector E s = Inr ?s"
      using cn False here o(2) live
      by (auto simp: destroyConnector_def with_connector_def res_simps cancelTimer_def delTimer_def delTimerInLoop_def
          put_connector_def in_loop_def asserting_def)
    have "calls ?s = {}"
    proof (cases "cnTimer cn = 0")
      case True
      then show ?thesis using w(2) by (simp add: calls_def)
    next
      case False
      obtain t where t: "calls s = {t}" "t_id t = cnTimer cn" using w(1)[OF False] by (auto simp: waiting_def)
      have "calls ?s \<subseteq> {u \<in> calls s. t_id u \<noteq> cnTimer cn}" using False by (auto simp: calls_def)
      with t show ?thesis by auto
    qed
    then have "cn_inv E fds ?s" using inv o(1) own_simps(2)[of ?s] by (auto simp: cn_inv_def watched_def old_ids_def)
    with e show ?thesis by (intro exI[of _ ?s]) simp
  next
    case True
    then obtain d ch where c: "connecting E d ch cn s" and no: "calls s = {}" using good by (auto simp: cn_good_def)
    then have ch: "cnChan cn = Some d" "poller_inv (poller s)" "chans (poller s) d = Some ch" "\<not> isNoneEvent ch" "\<not> isHandling ch"
        "cnTimer cn = 0"
      using watching_WRITE by (auto simp: connecting_def connecting_channel_def)
    have k: "given s \<inter> {fd ch} = {}" "fds (kernel s) = insert (fd ch) (given s)" using inv(5,6) own_simps(3)[OF c] by auto
    obtain p where p: "resetChannel E s = Inr (fd ch, s\<lparr>poller := p, connector := Some (cn\<lparr>cnChan := None\<rparr>)\<rparr>)"
        "poller_inv p" "chans p = (chans (poller s))(d := None)"
      using resetChannel_ok[OF inv(1) cn True ch(1-4)] ch(5) inv(3) by auto
    let ?s = "s\<lparr>poller := p, kernel := snd (closeSocket (e_os E) (fd ch) (kernel s)), connector := None\<rparr>"
    have e: "destroyConnector E s = Inr ?s"
      using cn True here ch(6) p(1)
      by (auto simp: destroyConnector_def with_connector_def res_simps put_connector_def in_loop_def)
    have f: "fds (kernel ?s) = given s" using closeSocket_fds(1)[OF L, of "fd ch" "kernel s"] k by auto
    have "watched fds ?s"
      using others_watched[OF c inv(2) k(2) p(3)] p(2) f inv(2) k(2) by (auto simp: watched_def)
    moreover have "calls ?s = {}" using no by (simp add: calls_def)
    ultimately have "cn_inv E fds ?s" using inv own_simps(2)[of ?s] p(3) f by (auto simp: cn_inv_def old_ids_def)
    with e show ?thesis by (intro exI[of _ ?s]) simp
  qed
qed

text \<open>What the invariant gives where the connector does not try to connect.\<close>

lemma cn_invD:
  assumes "cn_inv E fds s" and "connector s = Some cn" and "cnStatus cn \<noteq> CnConnecting"
  shows "threadId s = e_cur E" "watched fds s" "heldChans s = []" "\<forall>a \<ge> nextAddr s. chans (poller s) a = None"
    and "fds (kernel s) = given s" "cnChan cn = None" "cnNewConnection cn \<noteq> None" "0 < retryDelay cn"
    and "retryDelay cn \<le> maxDelay cn" "currDelay cn = nth_delay cn (fails s)" "old_ids s"
  using assms own_simps(1)[OF assms(2,3)]
  by (auto simp: cn_inv_def cn_good_def split: connector_status.splits)

text \<open>A timer that calls the connector is the one it waits for.\<close>

lemma calls_waiting:
  assumes "cn_inv E fds s" and "t \<in> calls s"
  shows "\<exists>cn. connector s = Some cn \<and> cnStatus cn = CnDisconnected \<and> begun s \<and> waiting cn s \<and> calls s = {t}"
proof -
  obtain cn where cn: "connector s = Some cn" using assms by (cases "connector s") (auto simp: cn_inv_def)
  then have "cn_good E cn s" using assms(1) by (simp add: cn_inv_def)
  with assms(2) have "cnStatus cn = CnDisconnected" "begun s" "waiting cn s"
    by (auto simp: cn_good_def split: connector_status.splits if_splits)
  with cn assms(2) show ?thesis by (auto simp: waiting_def)
qed

text \<open>The attempt of a timer, with what the next timer depends on.\<close>

lemma timer_inv:
  fixes s :: "('u, 'k) cnlife"
  assumes L: "fd_law (e_os E) fds" "connect_law (e_os E)" and I: "cn_inv E fds s" and t: "t \<in> calls s"
    and n: "timersCreated s + 1 < 2 ^ 64" and cn: "connector s = Some cn"
  shows "\<exists>s' cn'. run_timer (\<lambda>t. connect E) t s = Inr s' \<and> cn_inv E fds (attempted s') \<and> connector s' = Some cn' \<and>
    retryDelay cn' = retryDelay cn \<and> maxDelay cn' = maxDelay cn \<and> clock s' = clock s \<and> fails s' = fails s"
proof -
  have wt: "cnStatus cn = CnDisconnected" "calls s = {t}" using calls_waiting[OF I t] cn by auto
  note D = cn_invD[OF I cn] wt(1)
  have id: "t_id t \<le> timersCreated s" using D(11) t wt(1) by (auto simp: old_ids_def calls_def)
  let ?s = "fire t s"
  have c: "calls ?s \<subseteq> {u \<in> calls s. t_id u \<noteq> t_id t}" by (auto simp: calls_def fire_def dest: set_remove1_subset[THEN subsetD])
  have o: "old_ids ?s" using old_ids_cong[of ?s s] D(11) wt(1) set_remove1_subset[of t "timers s"] by (simp add: fire_def)
  have F: "threadId ?s = e_cur E" "watched fds ?s" "heldChans ?s = []"
      "\<forall>a \<ge> nextAddr ?s. chans (poller ?s) a = None" "connector ?s = Some cn" "timersCreated ?s + 1 < 2 ^ 64"
      "fds (kernel ?s) = given ?s" "calls ?s = {}" "fails ?s = fails s" "clock ?s = clock s"
    using D(1-5) wt n cn watched_same[of ?s s fds] c by (auto simp: fire_def)
  show ?thesis
    using connect_inv[OF L F(1-5) wt(1) D(6-9) _ F(6,8) o F(7)] D(10) wt(1) F(9,10) connect_fire[OF _ id n, of E] D(1) by simp
qed

text \<open>Every operation that may run succeeds and keeps the invariant.\<close>

lemma cn_do_ok:
  fixes s :: "('u, 'k) cnlife"
  assumes L: "fd_law (e_os E) fds" "connect_law (e_os E)" and I: "cn_inv E fds s" and m: "cn_may op s"
    and n: "timersCreated s + 1 < 2 ^ 64"
  shows "\<exists>s'. cn_do E op s = Inr s' \<and> cn_inv E fds s'"
proof (cases op)
  case DoStart
  then obtain cn where cn: "connector s = Some cn" "\<not> begun s" using m by auto
  then have g: "cn_good E cn s" using I by (simp add: cn_inv_def)
  then have st: "cnStatus cn = CnDisconnected" "calls s = {}" using cn(2) by (auto simp: cn_good_def)
  then have "cnStatus cn \<noteq> CnConnecting" by simp
  note D = cn_invD[OF I cn(1) this]
  show ?thesis
    using connect_inv[OF L D(1-4) cn(1) st(1) D(6-10) n st(2) D(11) D(5)] DoStart by auto
next
  case (DoTimer t)
  then have t: "t \<in> calls s" using m by simp
  obtain cn where "connector s = Some cn" using calls_waiting[OF I t] by blast
  from timer_inv[OF L I t n this] show ?thesis using DoTimer by auto
next
  case (DoEvent d r)
  then obtain cn where cn: "connector s = Some cn" "cnChan cn = Some d" using m by auto
  then have g: "cn_good E cn s" using I by (simp add: cn_inv_def)
  with cn(2) have "cnStatus cn = CnConnecting" by (auto simp: cn_good_def split: connector_status.splits)
  with g obtain ch where c: "connecting E d ch cn s" using cn(2) by (auto simp: cn_good_def connecting_def)
  then have "look_loop d s = Some ch" by (simp add: connecting_def look_loop_def)
  with event_inv[OF L(1) I c n, of r] show ?thesis using DoEvent by (auto simp: with_channel_def)
next
  case DoReconnect
  then obtain cn where cn: "connector s = Some cn" "cnStatus cn = CnConnected" using m by auto
  then have g: "cn_good E cn s" using I by (simp add: cn_inv_def)
  then have st: "calls s = {}" "cnStatus cn \<noteq> CnConnecting" using cn(2) by (auto simp: cn_good_def)
  note D = cn_invD[OF I cn(1) st(2)]
  let ?cn = "cn\<lparr>cnStatus := CnDisconnected, currDelay := retryDelay cn\<rparr>" and ?s = "put_connector (cn\<lparr>cnStatus := CnDisconnected, currDelay := retryDelay cn\<rparr>) (s\<lparr>fails := 0\<rparr>)"
  have e: "reconnect E (s\<lparr>fails := 0\<rparr>) = connect E ?s"
    using cn D(1,6) by (simp add: reconnect_def with_connector_def in_loop_def isInLoopThread_def)
  have F: "threadId ?s = e_cur E" "watched fds ?s" "heldChans ?s = []" "\<forall>a \<ge> nextAddr ?s. chans (poller ?s) a = None"
      "connector ?s = Some ?cn" "cnStatus ?cn = CnDisconnected" "cnChan ?cn = None" "cnNewConnection ?cn \<noteq> None"
      "0 < retryDelay ?cn" "retryDelay ?cn \<le> maxDelay ?cn" "currDelay ?cn = nth_delay ?cn (fails ?s)" "timersCreated ?s + 1 < 2 ^ 64"
      "calls ?s = {}" "old_ids ?s" "fds (kernel ?s) = given ?s"
    using D n st(1) watched_same[of ?s s fds] by (simp_all add: put_connector_def calls_def old_ids_def nth_delay_def)
  show ?thesis
    using connect_inv[OF L F(1-15)] DoReconnect e by auto
next
  case DoDestroy
  then show ?thesis using m destroy_inv[OF L(1) I] by auto
qed

lemma cn_good_frame:
  assumes "cn_good E cn s" and "connector s = Some cn" and "threadId s' = threadId s" and "connector s' = connector s"
    and "heldChans s' = heldChans s" and "poller_inv (poller s')" and "calls s' = calls s"
    and "begun s' = begun s" and "fails s' = fails s" and "failedAt s' = failedAt s"
    and "\<forall>d. cnChan cn = Some d \<longrightarrow> chans (poller s') d = chans (poller s) d"
  shows "cn_good E cn s'"
  using assms unfolding cn_good_def waiting_def connecting_def
  by (auto split: connector_status.splits if_splits)

lemma cn_inv_step:
  assumes L: "fd_law (e_os E) fds" "connect_law (e_os E)" and I: "cn_inv E fds s" and st: "cn_step E fds s s'"
  shows "cn_inv E fds s'"
  using st
proof (cases rule: cn_step.cases)
  case (cn_op op)
  then show ?thesis using cn_do_ok[OF L I cn_op(1,2)] by auto
next
  case cn_other
  have d: "chans (poller s') d = chans (poller s) d" if "connector s = Some cn" "cnChan cn = Some d" for cn d
    using cn_other that by blast
  have "own s' = own s" unfolding own_def cn_other(2) using d by (intro Collect_cong) auto
  moreover have "cn_good E cn s'" if cn: "connector s = Some cn" for cn
  proof (rule cn_good_frame)
    show "cn_good E cn s" using I cn by (simp add: cn_inv_def)
    show "\<forall>d. cnChan cn = Some d \<longrightarrow> chans (poller s') d = chans (poller s) d" using d cn by simp
    show "poller_inv (poller s')" using cn_other by (simp add: watched_def)
  qed (use cn_other cn in simp_all)
  moreover have "old_ids s'" using I cn_other(11,12) unfolding cn_inv_def old_ids_def by fastforce
  ultimately show ?thesis using cn_other I by (auto simp: cn_inv_def split: option.splits)
qed

lemma cn_inv_init:
  assumes "cn_init E fds s"
  shows "cn_inv E fds s"
proof -
  obtain s0 s1 peer delay longest f where i: "threadId s0 = e_cur E" "watched fds s0"
     "heldChans s0 = []" "\<forall>a \<ge> nextAddr s0. chans (poller s0) a = None" "given s0 = fds (kernel s0)" "\<not> begun s0" "fails s0 = 0"
     "\<forall>t \<in> set (timers s0). callback t \<noteq> ConnectorConnect"
     "0 < delay" "delay \<le> longest" "TcpConnector E peer delay longest s0 = Inr s1" "setNewConnectionCallback f s1 = Inr s"
    using assms unfolding cn_init_def by blast
  let ?cn = "\<lparr>cnPeer = peer, retryDelay = delay, currDelay = delay, maxDelay = longest,
          cnStatus = CnDisconnected, cnTimer = 0, cnChan = None, cnNewConnection = Some f\<rparr>"
  have s: "s = put_connector ?cn s0"
    using i(11,12) by (auto simp: TcpConnector_def setNewConnectionCallback_def with_connector_def put_connector_def res_simps)
  then have "own s = {}" using own_simps(1)[of s ?cn] by (simp add: put_connector_def)
  moreover have "calls s = {}" "old_ids s" using i(8) by (auto simp: s put_connector_def calls_def old_ids_def)
  ultimately show ?thesis using i(1-10) watched_same[of s s0 fds]
    by (simp add: cn_inv_def s put_connector_def cn_good_def nth_delay_def)
qed

text \<open>What \<open>cn_inv\<close> needs of the operating system, as part of the initial states and the steps.\<close>

definition cn_os :: "('u, 'k, 'z) cnet_env \<Rightarrow> ('k \<Rightarrow> int set) \<Rightarrow> bool" where
  "cn_os E fds \<longleftrightarrow> fd_law (e_os E) fds \<and> connect_law (e_os E)"

interpretation cn: invariant_system "\<lambda>x. cn_os E fds \<and> cn_init E fds x" "cn_step E fds" "\<lambda>x. cn_os E fds \<and> cn_inv E fds x" for E fds
proof (unfold_locales, goal_cases)
  case (1 x)
  then show ?case using cn_inv_init by blast
next
  case (2 x x')
  then show ?case using cn_inv_step unfolding cn_os_def by blast
qed

section \<open>Properties\<close>

text \<open>
  C12. In every state of a connector's life it owns at most one descriptor, and only while an attempt is in
  progress; that descriptor is open and its channel is watched for writing.  All other open descriptors are those of others
  or were handed over to the new connection callback: each attempt's descriptor is closed or handed over, once.  A connector that was
  started and is disconnected has its timer set, the only one that calls it; in every other state no timer does,
  in particular after its destruction.  As long as the timer ids do not wrap, whatever may be done with it succeeds: start, a
  due timer, an event of its channel, reconnecting, destruction.
\<close>

theorem connector_owns:
  fixes s :: "('u, 'k) cnlife"
  assumes "fd_law (e_os E) fds" and "connect_law (e_os E)"
    and "reach (\<lambda>x. cn_os E fds \<and> cn_init E fds x) (cn_step E fds) s"
  shows "fds (kernel s) = given s \<union> own s \<and> given s \<inter> own s = {} \<and>
    (case connector s of None \<Rightarrow> own s = {} \<and> calls s = {} | Some cn \<Rightarrow>
       (case cnStatus cn of
          CnDisconnected \<Rightarrow> own s = {} \<and> (if begun s then \<exists>t. calls s = {t} \<and> t_id t = cnTimer cn else calls s = {})
        | CnConnecting \<Rightarrow> (\<exists>d ch. own s = {fd ch} \<and> cnChan cn = Some d \<and> chans (poller s) d = Some ch \<and>
            interest (poller s) (fd ch) = Some (WRITE_EVENT, d) \<and> writeCallback ch = Some (Callback ConnectorWrite)) \<and> calls s = {}
        | CnConnected \<Rightarrow> own s = {} \<and> calls s = {})) \<and>
    (timersCreated s + 1 < 2 ^ 64 \<longrightarrow> (\<forall>op. cn_may op s \<longrightarrow> (\<exists>s'. cn_do E op s = Inr s')))"
proof -
  have I: "cn_inv E fds s" using cn.reachable_inv[OF assms(3)] by simp
  have ops: "timersCreated s + 1 < 2 ^ 64 \<longrightarrow> (\<forall>op. cn_may op s \<longrightarrow> (\<exists>s'. cn_do E op s = Inr s'))"
    using cn_do_ok[OF assms(1,2) I] by blast
  have f: "fds (kernel s) = given s \<union> own s" "given s \<inter> own s = {}" using I by (simp_all add: cn_inv_def)
  show ?thesis
  proof (cases "connector s")
    case None
    then show ?thesis using f ops own_simps(2) I by (simp add: cn_inv_def)
  next
    case (Some cn)
    then have g: "cn_good E cn s" using I by (simp add: cn_inv_def)
    have w: "interest (poller s) (fd ch) = Some (WRITE_EVENT, d)" if c: "connecting E d ch cn s" for d ch
    proof -
      have ch: "poller_inv (poller s)" "chans (poller s) d = Some ch" "events ch = WRITE_EVENT"
        using c by (auto simp: connecting_def connecting_channel_def)
      then have "d \<in> channels (poller s)" using poller_invD(1) watching_WRITE by blast
      then show ?thesis using poller_invD(2)[OF ch(1)] ch(2,3) by fastforce
    qed
    show ?thesis
    proof (cases "cnStatus cn")
      case CnConnecting
      then obtain d ch where c: "connecting E d ch cn s" "calls s = {}" using g by (auto simp: cn_good_def)
      then have "chans (poller s) d = Some ch" "writeCallback ch = Some (Callback ConnectorWrite)" "cnChan cn = Some d"
        by (auto simp: connecting_def connecting_channel_def)
      then show ?thesis using f ops own_simps(3)[OF c(1)] w[OF c(1)] Some CnConnecting c(2) by auto
    qed (use f g ops own_simps(1)[OF Some] Some in \<open>auto simp: cn_good_def waiting_def split: if_splits\<close>)
  qed
qed

text \<open>The witness: a connector whose first attempt is in progress.\<close>

definition sample_cnet :: "(nat, kern) cnet" where
  "sample_cnet = \<lparr>timers = [], timerIds = {}, timersCreated = 0, threadId = 0, running = True, customEvents = [],
     wakeups = 0, poller = EventPoller, clock = 0, kernel = kern0, conns = Map.empty, held = [], connector = None,
     heldChans = [], nextAddr = 5\<rparr>"

definition sample_life :: "(nat, kern) cnlife" where
  "sample_life = cnet.extend sample_cnet \<lparr>given = {}, begun = False, fails = 0, failedAt = 0\<rparr>"

definition sample_made :: "(nat, kern) cnlife res" where
  "sample_made = res_bind (TcpConnector (sample_env Debug) (V4Any Little 80) 500 5000 sample_life)
     (setNewConnectionCallback ClientNewConnection)"

definition sample_attempt :: "(nat, kern) cnlife res" where
  "sample_attempt = res_bind sample_made (cn_do (sample_env Debug) DoStart)"

lemma sample_cn_os: "fd_law (e_os (sample_env bd)) k_fds" "connect_law (e_os (sample_env bd))"
  using sample_fd_law by (simp_all add: sample_env_def connect_law_def sample_defs)

lemma sample_made_init:
  assumes "sample_made = Inr s"
  shows "cn_init (sample_env Debug) k_fds s \<and> timersCreated s = 0 \<and> cn_may DoStart s"
proof -
  let ?E = "sample_env Debug :: (nat, kern, (nat, kern) cnlife) env"
  obtain s1 where r: "TcpConnector ?E (V4Any Little 80) 500 5000 sample_life = Inr s1" "setNewConnectionCallback ClientNewConnection s1 = Inr s"
    using assms by (auto simp: sample_made_def res_simps)
  have w: "watched k_fds sample_life"
    by (simp add: watched_def sample_life_def sample_cnet_def cnet.extend_def EventPoller_def poller_inv_def k_fds_def kern0_def)
  have "cn_init ?E k_fds s"
    unfolding cn_init_def
    by (intro exI[of _ sample_life] exI[of _ s1] exI[of _ "V4Any Little 80"] exI[of _ 500] exI[of _ 5000]
        exI[of _ ClientNewConnection] conjI r w)
      (simp_all add: sample_life_def sample_cnet_def cnet.extend_def sample_env_def EventPoller_def k_fds_def kern0_def)
  moreover have "timersCreated s = 0 \<and> cn_may DoStart s"
    using r by (auto simp: TcpConnector_def setNewConnectionCallback_def with_connector_def put_connector_def res_simps
        sample_life_def sample_cnet_def cnet.extend_def)
  ultimately show ?thesis by blast
qed

lemma sample_attempt_reach:
  assumes "sample_attempt = Inr s"
  shows "reach (\<lambda>x. cn_os (sample_env Debug) k_fds \<and> cn_init (sample_env Debug) k_fds x) (cn_step (sample_env Debug) k_fds) s"
proof -
  obtain s0 where s0: "sample_made = Inr s0" "cn_do (sample_env Debug) DoStart s0 = Inr s"
    using assms unfolding sample_attempt_def res_bind_Inr_iff by blast
  note i = sample_made_init[OF s0(1)]
  have "reach (\<lambda>x. cn_os (sample_env Debug) k_fds \<and> cn_init (sample_env Debug) k_fds x) (cn_step (sample_env Debug) k_fds) s0"
    by (rule reach_init) (simp add: i cn_os_def sample_cn_os)
  moreover have "cn_step (sample_env Debug) k_fds s0 s" by (rule cn_op[OF _ _ s0(2)]) (simp_all add: i del: cn_may.simps)
  ultimately show ?thesis by (rule reach_step)
qed

theorem connector_owns_witness:
  "\<exists>s. sample_attempt = Inr s \<and> k_fds (kernel s) = own s \<and> calls s = {} \<and> (\<exists>d. interest (poller s) 10 = Some (WRITE_EVENT, d)) \<and>
     (\<exists>s'. cn_do (sample_env Debug) DoDestroy s = Inr s')"
proof -
  have "case sample_attempt of Inr s \<Rightarrow> given s = {} \<and> (case connector s of None \<Rightarrow> False | Some cn \<Rightarrow> cnStatus cn = CnConnecting \<and>
      (case cnChan cn of None \<Rightarrow> False | Some d \<Rightarrow> map_option fd (chans (poller s) d) = Some 10)) \<and> timersCreated s = 0 | Inl e \<Rightarrow> False"
    by code_simp
  then obtain s cn d ch where s: "sample_attempt = Inr s" "connector s = Some cn" "cnStatus cn = CnConnecting"
      "cnChan cn = Some d" "chans (poller s) d = Some ch" "fd ch = 10" "given s = {}" "timersCreated s = 0"
    by (auto split: sum.splits option.splits)
  note o = connector_owns[OF sample_cn_os sample_attempt_reach[OF s(1)]]
  have "cn_may DoDestroy s" "timersCreated s + 1 < 2 ^ 64" using s(2,8) by simp_all
  then have d: "\<exists>s'. cn_do (sample_env Debug) DoDestroy s = Inr s'" using o by blast
  have "k_fds (kernel s) = own s \<and> calls s = {} \<and> (\<exists>d. interest (poller s) 10 = Some (WRITE_EVENT, d))"
    using o s(2-7) by (auto simp del: cn_do.simps cn_may.simps)
  with d s(1) show ?thesis by blast
qed

text \<open>
  C22. An event that reports a hangup changes nothing: the connector keeps waiting, its channel stays
  watched, and the same event is reported again.  This is what a refused connection attempt looks like.
\<close>

theorem connector_refused:
  assumes "connecting E d ch cn s" and "revents ch AND EPOLLHUP \<noteq> 0"
  shows "connector_event E call d s = Inr s \<and> interest (poller s) (fd ch) = Some (WRITE_EVENT, d)"
proof -
  have ch: "poller_inv (poller s)" "chans (poller s) d = Some ch" "events ch = WRITE_EVENT"
    using assms(1) by (auto simp: connecting_def connecting_channel_def)
  then have "d \<in> channels (poller s)" using poller_invD(1) watching_WRITE by blast
  then have "interest (poller s) (fd ch) = Some (WRITE_EVENT, d)" using poller_invD(2)[OF ch(1)] ch(2,3) by fastforce
  then show ?thesis using connector_event_idle[OF assms(1)] assms(2) by (simp add: writable_def)
qed

text \<open>The witness: the event of a refused attempt.\<close>

definition refused_channel :: "nat func callback channel" where
  "refused_channel = \<lparr>fd = 10, events = WRITE_EVENT, revents = EPOLLOUT OR EPOLLERR OR EPOLLHUP, readCallback = None,
     writeCallback = Some (Callback ConnectorWrite), errorCallback = None, closeCallback = None, eventCallback = None,
     bindObject = Some 4, isHandling = False\<rparr>"

definition refused_connector :: "nat connector" where
  "refused_connector = \<lparr>cnPeer = [], retryDelay = 500, currDelay = 500, maxDelay = 5000, cnStatus = CnConnecting, cnTimer = 0,
     cnChan = Some 4, cnNewConnection = Some ClientNewConnection\<rparr>"

definition refused_net :: "(nat, kern) cnlife" where
  "refused_net = sample_life\<lparr>connector := Some refused_connector, poller := \<lparr>chans = [4 \<mapsto> refused_channel], channels = {4},
     interest = [10 \<mapsto> (WRITE_EVENT, 4)], capacity = 32, sysErrors = 0\<rparr>\<rparr>"

theorem connector_refused_witness:
  "connector_event (sample_env Debug) (\<lambda>g. connectorWrite (sample_env Debug) hand_over) 4 refused_net = Inr refused_net"
proof -
  have n: "\<not> isNoneEvent refused_channel" by (rule watching_WRITE) (simp add: refused_channel_def)
  have "connecting (sample_env Debug) 4 refused_channel refused_connector refused_net"
    using n by (simp add: connecting_def refused_net_def refused_connector_def sample_life_def sample_cnet_def cnet.extend_def sample_env_def poller_inv_def
        connecting_channel_def) (simp add: refused_channel_def)
  moreover have "revents refused_channel AND EPOLLHUP \<noteq> 0" by (simp add: refused_channel_def epoll_defs)
  ultimately show ?thesis using connector_refused by blast
qed

text \<open>
  C23. The delays of the attempts.  In every state of a connector's life the next delay is the smaller of the
  largest delay and the retry delay times 2 to the number of attempts that failed since it was made, or since it was told to
  reconnect.  While it is disconnected after the k-th failure in a row, one timer calls it, set to go off the (k-1)-th of
  these delays after the failure; and when that timer's attempt fails at once, the next timer waits twice as long, up to the largest delay.
\<close>

theorem connector_backoff:
  fixes s :: "('u, 'k) cnlife"
  assumes "fd_law (e_os E) fds" and "connect_law (e_os E)"
    and "reach (\<lambda>x. cn_os E fds \<and> cn_init E fds x) (cn_step E fds) s"
    and "connector s = Some cn" and "timersCreated s + 1 < 2 ^ 64"
  shows "currDelay cn = min (maxDelay cn) (retryDelay cn * 2 ^ fails s) \<and>
    (cnStatus cn = CnDisconnected \<and> begun s \<longrightarrow> 0 < fails s \<and> (\<exists>t. calls s = {t} \<and> t_id t = cnTimer cn \<and> \<not> isRepeat t \<and>
       expiration t = failedAt s + min (maxDelay cn) (retryDelay cn * 2 ^ (fails s - 1)))) \<and>
    (\<forall>t. cn_may (DoTimer t) s \<longrightarrow> (\<exists>s' cn'. cn_do E (DoTimer t) s = Inr s' \<and> connector s' = Some cn' \<and>
       (cnStatus cn' = CnDisconnected \<longrightarrow> (\<exists>t'. calls s' = {t'} \<and>
          expiration t' = clock s + min (maxDelay cn) (2 * (expiration t - failedAt s))))))"
proof -
  have I: "cn_inv E fds s" using cn.reachable_inv[OF assms(3)] by simp
  then have g: "cn_good E cn s" using assms(4) by (simp add: cn_inv_def)
  have next_t: "\<exists>s' cn'. cn_do E (DoTimer t) s = Inr s' \<and> connector s' = Some cn' \<and>
       (cnStatus cn' = CnDisconnected \<longrightarrow> (\<exists>t'. calls s' = {t'} \<and>
          expiration t' = clock s + min (maxDelay cn) (2 * (expiration t - failedAt s))))" if m: "cn_may (DoTimer t) s" for t
  proof -
    have t: "t \<in> calls s" using m by simp
    have w: "waiting cn s" "calls s = {t}" using calls_waiting[OF I t] assms(4) by auto
    obtain s1 cn1 where s1: "run_timer (\<lambda>t. connect E) t s = Inr s1" "cn_inv E fds (attempted s1)" "connector s1 = Some cn1"
        "retryDelay cn1 = retryDelay cn" "maxDelay cn1 = maxDelay cn" "clock s1 = clock s" "fails s1 = fails s"
      using timer_inv[OF assms(1,2) I t assms(5,4)] by blast
    obtain k where k: "fails s = Suc k" using w(1) by (auto simp: waiting_def gr0_conv_Suc)
    have "\<exists>t'. calls (attempted s1) = {t'} \<and> expiration t' = clock s + min (maxDelay cn) (2 * (expiration t - failedAt s))"
      if d: "cnStatus cn1 = CnDisconnected"
    proof -
      have "cn_good E cn1 (attempted s1)" using s1(2,3) by (simp add: cn_inv_def)
      then have "waiting cn1 (attempted s1)" using d by (simp add: cn_good_def)
      then obtain t' where t': "calls (attempted s1) = {t'}" "expiration t' = clock s + nth_delay cn (Suc k)"
        using attempted_ghosts(1)[OF s1(3) d] s1(4-7) k by (auto simp: waiting_def nth_delay_def)
      have "expiration t - failedAt s = nth_delay cn k" using w k by (auto simp: waiting_def)
      moreover have "nth_delay cn (Suc k) = min (maxDelay cn) (2 * nth_delay cn k)"
        using g by (auto simp: cn_good_def nth_delay_def min_def)
      ultimately show ?thesis using t' by auto
    qed
    then show ?thesis using s1 by auto
  qed
  have "0 < fails s \<and> (\<exists>t. calls s = {t} \<and> t_id t = cnTimer cn \<and> \<not> isRepeat t \<and>
       expiration t = failedAt s + min (maxDelay cn) (retryDelay cn * 2 ^ (fails s - 1)))" if "cnStatus cn = CnDisconnected" "begun s"
    using g that by (auto simp: cn_good_def waiting_def nth_delay_def isRepeat_def)
  with next_t g show ?thesis by (auto simp: cn_good_def nth_delay_def)
qed

text \<open>
  The witness: an operating system in which every connection is refused at once.  After the first attempt, at time 0, the timer
  is set to 500, and the next delay is 1000.
\<close>

definition refusing_os :: "kern os" where
  "refusing_os = sample_os\<lparr>sys_connect := \<lambda>f _ _ k. (-1, k_fail (if f < 0 then 9 else 111) k)\<rparr>"

definition refusing_env :: "(nat, kern) cnlife_env" where
  "refusing_env = (sample_env Debug)\<lparr>e_os := refusing_os\<rparr>"

definition refused_attempt :: "(nat, kern) cnlife res" where
  "refused_attempt = res_bind sample_made (cn_do refusing_env DoStart)"

lemma refusing_cn_os: "fd_law (e_os refusing_env) k_fds" "connect_law (e_os refusing_env)"
  using sample_fd_law by (simp_all add: refusing_env_def refusing_os_def fd_law_def connect_law_def sample_defs k_fds_def)

lemma refused_state:
  "\<exists>s cn. refused_attempt = Inr s \<and> begun s \<and> fails s = 1 \<and> failedAt s = 0 \<and> timersCreated s = 1 \<and>
    connector s = Some cn \<and> cnStatus cn = CnDisconnected \<and> maxDelay cn = 5000 \<and> retryDelay cn = 500"
proof -
  have v: "isValid Little (V4Any Little 80)" by code_simp
  show ?thesis
    by (simp add: refused_attempt_def sample_made_def TcpConnector_def sample_env_def v setNewConnectionCallback_def
        with_connector_def put_connector_def connect_def refusing_env_def refusing_os_def sample_defs tcpSocket_def
        socket_connect_def errno_defs retry_def runTimerAfter_def runTimer_def addTimer_here in_loop_def isInLoopThread_def
        sample_life_def sample_cnet_def cnet.extend_def attempted_def Let_def kern0_def)
qed

theorem connector_backoff_witness:
  "\<exists>s cn t. refused_attempt = Inr s \<and> connector s = Some cn \<and> currDelay cn = 1000 \<and> calls s = {t} \<and> expiration t = 500"
proof -
  obtain s cn where s: "refused_attempt = Inr s" "begun s" "fails s = 1" "failedAt s = 0" "timersCreated s = 1"
      "connector s = Some cn" "cnStatus cn = CnDisconnected" "maxDelay cn = 5000" "retryDelay cn = 500"
    using refused_state by blast
  obtain s0 where s0: "sample_made = Inr s0" "cn_do refusing_env DoStart s0 = Inr s"
    using s(1) unfolding refused_attempt_def res_bind_Inr_iff by blast
  have i: "cn_init refusing_env k_fds s0" "timersCreated s0 = 0" "cn_may DoStart s0"
    using sample_made_init[OF s0(1)] by (simp_all add: cn_init_def refusing_env_def TcpConnector_def)
  have "reach (\<lambda>x. cn_os refusing_env k_fds \<and> cn_init refusing_env k_fds x) (cn_step refusing_env k_fds) s0"
    by (rule reach_init) (simp add: i cn_os_def refusing_cn_os)
  moreover have "cn_step refusing_env k_fds s0 s" by (rule cn_op[OF _ _ s0(2)]) (simp_all add: i del: cn_may.simps)
  ultimately have "reach (\<lambda>x. cn_os refusing_env k_fds \<and> cn_init refusing_env k_fds x) (cn_step refusing_env k_fds) s"
    by (rule reach_step)
  note b = connector_backoff[OF refusing_cn_os this s(6)]
  have "timersCreated s + 1 < 2 ^ 64" using s(5) by simp
  note b = b[OF this, THEN conjunct1] b[OF this, THEN conjunct2, THEN conjunct1]
  have c: "currDelay cn = 1000" using b(1) s(3,8,9) by simp
  obtain t where "calls s = {t}" "expiration t = 500" using b(2) s(2-4,7-9) by auto
  with c s(1,6) show ?thesis by blast
qed

end
