(* ===== verification/Tcp_Acceptor.thy ===== *)
theory Tcp_Acceptor
  imports Tcp_Stream
begin

text \<open>
  \<^verbatim>\<open>src/include/godnet/net/tcp_acceptor.hpp\<close> and \<^verbatim>\<open>tcp_acceptor.cpp\<close>: a listening socket
  with its channel.

  The state extends that of the network by the acceptor.  What the new connection callback does with the
  descriptor and the address it gets is the argument \<open>acall\<close>.
\<close>

section \<open>State\<close>

datatype 'u afunc = ServerNewConnection | UserAccept 'u

record 'u acceptor =
  acSock :: int
  acChan :: nat
  acLocal :: sockaddr
  acNewConnection :: "'u afunc option"

record ('u, 'k) anet = "('u, 'k) net" +
  acceptor :: "'u acceptor option"

type_synonym ('u, 'k, 'z) anet_env = "('u, 'k, ('u, 'k, 'z) anet_scheme) env"

definition with_acceptor :: "('u, 'k, 'z) anet_scheme \<Rightarrow> ('u acceptor \<Rightarrow> 'a res) \<Rightarrow> 'a res" where
  "with_acceptor s k = (case acceptor s of None \<Rightarrow> Inl Dangling | Some a \<Rightarrow> k a)"

section \<open>Operations\<close>

text \<open>The channel is at address \<open>d\<close>.  The result of \<open>bind\<close> is not looked at.\<close>

definition TcpAcceptor :: "('u, 'k, 'z) anet_env \<Rightarrow> nat \<Rightarrow> sockaddr \<Rightarrow> ('u, 'k, 'z) anet_scheme \<Rightarrow>
    ('u, 'k, 'z) anet_scheme res" where
  "TcpAcceptor E d la s = asserting (e_build E) (isValid (e_host E) la)
     (let (sock, k1) = tcpSocket (e_os E) (family (e_host E) la) (kernel s) in
      asserting (e_build E) (sock \<ge> 0)
       (res_bind (TcpSocket (e_build E) sock) (\<lambda>sock.
        let k2 = snd (bind (e_os E) sock la k1) in
        res_bind (new_channel (e_build E) d sock (poller s)) (\<lambda>p1. with_channel look_channel d p1 (\<lambda>ch.
          Inr (s\<lparr>poller := put_channel d (setReadCallback (Callback AcceptorRead) ch) p1, kernel := k2,
            acceptor := Some \<lparr>acSock = sock, acChan = d, acLocal = la, acNewConnection = None\<rparr>\<rparr>))))))"

definition destroyAcceptor :: "('u, 'k, 'z) anet_env \<Rightarrow> ('u, 'k, 'z) anet_scheme \<Rightarrow> ('u, 'k, 'z) anet_scheme res" where
  "destroyAcceptor E s = guarding Wrong_Thread (in_loop E s) (with_acceptor s (\<lambda>a.
     res_bind (channel_op (e_cur E) DisableAll (acChan a) s) (\<lambda>s1.
     res_bind (delete_channel (e_build E) (acChan a) (poller s1)) (\<lambda>p.
     res_bind (TcpSocket_destroy (e_build E) (e_os E) (acSock a) (kernel s1)) (\<lambda>k.
     Inr (s1\<lparr>poller := close_fd (acSock a) p, kernel := k, acceptor := None\<rparr>))))))"

definition setAcceptCallback :: "'u afunc \<Rightarrow> ('u, 'k, 'z) anet_scheme \<Rightarrow> ('u, 'k, 'z) anet_scheme res" where
  "setAcceptCallback cb s = with_acceptor s (\<lambda>a. Inr (s\<lparr>acceptor := Some (a\<lparr>acNewConnection := Some cb\<rparr>)\<rparr>))"

definition acceptorListen :: "('u, 'k, 'z) anet_env \<Rightarrow> ('u, 'k, 'z) anet_scheme \<Rightarrow>
    (bool \<times> ('u, 'k, 'z) anet_scheme) res" where
  "acceptorListen E s = guarding Wrong_Thread (in_loop E s) (with_acceptor s (\<lambda>a.
     let (ok, k1) = listen (e_os E) (acSock a) (kernel s); s1 = s\<lparr>kernel := k1\<rparr> in
     if \<not> ok then Inr (False, s1)
     else res_bind (channel_op (e_cur E) EnableReading (acChan a) s1) (\<lambda>s2. Inr (True, s2))))"

definition acceptorReuseAddr :: "('u, 'k, 'z) anet_env \<Rightarrow> bool \<Rightarrow> ('u, 'k, 'z) anet_scheme \<Rightarrow>
    (bool \<times> ('u, 'k, 'z) anet_scheme) res" where
  "acceptorReuseAddr E on s = guarding Wrong_Thread (in_loop E s) (with_acceptor s (\<lambda>a.
     let (ok, k1) = tcp_setReuseAddr (e_os E) (acSock a) on (kernel s) in Inr (ok, s\<lparr>kernel := k1\<rparr>)))"

definition acceptorReusePort :: "('u, 'k, 'z) anet_env \<Rightarrow> bool \<Rightarrow> ('u, 'k, 'z) anet_scheme \<Rightarrow>
    (bool \<times> ('u, 'k, 'z) anet_scheme) res" where
  "acceptorReusePort E on s = guarding Wrong_Thread (in_loop E s) (with_acceptor s (\<lambda>a.
     let (ok, k1) = tcp_setReusePort (e_os E) (acSock a) on (kernel s) in Inr (ok, s\<lparr>kernel := k1\<rparr>)))"

text \<open>The read callback of the channel: one connection per event.\<close>

definition acceptorRead :: "('u, 'k, 'z) anet_env \<Rightarrow>
    ('u afunc \<Rightarrow> int \<Rightarrow> sockaddr \<Rightarrow> ('u, 'k, 'z) anet_scheme \<Rightarrow> ('u, 'k, 'z) anet_scheme res) \<Rightarrow>
    ('u, 'k, 'z) anet_scheme \<Rightarrow> ('u, 'k, 'z) anet_scheme res" where
  "acceptorRead E acall s = with_acceptor s (\<lambda>a.
     let (connfd, peerAddr, k1) = accept (e_os E) (acSock a) addr_zero (kernel s); s1 = s\<lparr>kernel := k1\<rparr> in
     if connfd \<ge> 0 then
       case acNewConnection a of
         Some f \<Rightarrow> acall f connfd peerAddr s1
       | None \<Rightarrow> Inr (s1\<lparr>kernel := snd (closeSocket (e_os E) connfd (kernel s1))\<rparr>)
     else Inr s1)"

section \<open>Lemmas\<close>

text \<open>A new acceptor: its channel is not watched, and its descriptor is the new one.\<close>

lemma TcpAcceptor_ok:
  assumes r: "TcpAcceptor E d la s = Inr s'" and I: "poller_inv (poller s)" and d: "chans (poller s) d = None"
    and L: "fd_law (e_os E) fds" and dbg: "e_build E = Debug \<or> (\<exists>a. acceptor s' = Some a \<and> 0 \<le> acSock a)"
  shows "\<exists>f p ch k. f \<notin> fds (kernel s) \<and> fds k = insert f (fds (kernel s)) \<and> s' = s\<lparr>poller := p, kernel := k,
      acceptor := Some \<lparr>acSock = f, acChan = d, acLocal = la, acNewConnection = None\<rparr>\<rparr> \<and> poller_inv p \<and>
    interest p = interest (poller s) \<and> channels p = channels (poller s) \<and> chans p = (chans (poller s))(d \<mapsto> ch) \<and>
    ch = \<lparr>fd = f, events = NONE_EVENT, revents = 0, readCallback = Some (Callback AcceptorRead), writeCallback = None,
      errorCallback = None, closeCallback = None, eventCallback = None, bindObject = None, isHandling = False\<rparr>"
proof -
  obtain f k1 where f: "tcpSocket (e_os E) (family (e_host E) la) (kernel s) = (f, k1)"
    by (cases "tcpSocket (e_os E) (family (e_host E) la) (kernel s)")
  obtain p1 ch0 where q: "new_channel (e_build E) d f (poller s) = Inr p1" "chans p1 d = Some ch0" "e_build E = Release \<or> 0 \<le> f"
      "s' = s\<lparr>poller := put_channel d (setReadCallback (Callback AcceptorRead) ch0) p1, kernel := snd (bind (e_os E) f la k1),
      acceptor := Some \<lparr>acSock = f, acChan = d, acLocal = la, acNewConnection = None\<rparr>\<rparr>"
    using r f by (auto simp: TcpAcceptor_def TcpSocket_def with_channel_def Let_def res_simps split: option.splits)
  have "0 \<le> f" using q(3) dbg by (cases "e_build E") (simp_all add: q(4))
  note p1 = q(1,2) this q(4)
  have ch0: "ch0 = \<lparr>fd = f, events = NONE_EVENT, revents = 0, readCallback = None, writeCallback = None,
      errorCallback = None, closeCallback = None, eventCallback = None, bindObject = None, isHandling = False\<rparr>"
    using p1(1,2) by (auto simp: new_channel_def EventChannel_def res_simps)
  have p: "poller_inv p1" "interest p1 = interest (poller s)" "channels p1 = channels (poller s)"
      "chans p1 = (chans (poller s))(d \<mapsto> ch0)"
    using poller_inv_new[OF I d p1(1)] p1(2) by auto
  let ?ch = "setReadCallback (Callback AcceptorRead) ch0"
  have "poller_inv (put_channel d ?ch p1)"
    by (rule poller_inv_put[OF p(1) p1(2)]) (simp_all add: ch0 setReadCallback_def)
  moreover have "f \<notin> fds (kernel s)" "fds (snd (bind (e_os E) f la k1)) = insert f (fds (kernel s))"
    using tcpSocket_fds[OF L f] p1(3) fd_law_simps(1)[OF L] by simp_all
  ultimately show ?thesis
    using p p1(4) ch0
    by (intro exI[of _ f] exI[of _ "put_channel d ?ch p1"] exI[of _ ?ch] exI[of _ "snd (bind (e_os E) f la k1)"])
      (simp add: setReadCallback_def)
qed

section \<open>Properties\<close>

text \<open>
  A read event of a listening acceptor takes at most one connection: its descriptor is given to the new
  connection callback, with its address, or closed when there is no callback; when \<^verbatim>\<open>accept\<close> fails, for whatever
  reason, nothing but the kernel's state changes and the channel stays watched.
\<close>

theorem acceptor_accepts:
  assumes "acceptor s = Some a" and "fd_law (e_os E) fds"
    and "accept (e_os E) (acSock a) addr_zero (kernel s) = (connfd, peer, k1)"
  shows "(connfd < 0 \<longrightarrow> acceptorRead E acall s = Inr (s\<lparr>kernel := k1\<rparr>) \<and> fds k1 = fds (kernel s)) \<and>
    (0 \<le> connfd \<longrightarrow> connfd \<notin> fds (kernel s) \<and> fds k1 = insert connfd (fds (kernel s)) \<and>
      (\<forall>f. acNewConnection a = Some f \<longrightarrow> acceptorRead E acall s = acall f connfd peer (s\<lparr>kernel := k1\<rparr>)) \<and>
      (acNewConnection a = None \<longrightarrow> (\<exists>k. acceptorRead E acall s = Inr (s\<lparr>kernel := k\<rparr>) \<and> fds k = fds (kernel s))))"
  using assms(1,3) accept_fds[OF assms(2,3)] closeSocket_fds(1)[OF assms(2), of connfd k1]
  by (auto simp: acceptorRead_def with_acceptor_def Let_def)

definition sample_anet :: "kern \<Rightarrow> (nat, kern) anet" where
  "sample_anet k = \<lparr>timers = [], timerIds = {}, timersCreated = 0, threadId = 0, running = True, customEvents = [],
     wakeups = 0, poller = EventPoller, clock = 0, kernel = k, conns = Map.empty, held = [],
     acceptor = Some \<lparr>acSock = 8, acChan = 2, acLocal = [], acNewConnection = Some ServerNewConnection\<rparr>\<rparr>"

definition two_waiting :: kern where
  "two_waiting = kern0\<lparr>k_backlog := 2\<rparr>"

theorem acceptor_accepts_witness:
  "\<exists>k. acceptorRead (sample_env Debug) (\<lambda>f connfd peer s. Inr (s\<lparr>clock := connfd\<rparr>)) (sample_anet two_waiting) =
     Inr (sample_anet k\<lparr>clock := 10\<rparr>) \<and> k_backlog k = 1"
proof -
  let ?E = "sample_env Debug :: (nat, kern, (nat, kern) anet) env" and ?s = "sample_anet two_waiting"
  obtain a where a: "acceptor ?s = Some a" "acSock a = 8" "acNewConnection a = Some ServerNewConnection"
    by (simp add: sample_anet_def)
  have L: "fd_law (e_os ?E) k_fds" using sample_fd_law by (simp add: sample_env_def)
  obtain k1 where k1: "accept (e_os ?E) (acSock a) addr_zero (kernel ?s) = (10, V4Any Little 80, k1)" "k_backlog k1 = 1"
    by (simp add: accept_def socket_accept_def sample_env_def sample_defs sample_anet_def two_waiting_def kern0_def)
  have e: "?s\<lparr>kernel := k1\<rparr> = sample_anet k1" by (simp add: sample_anet_def)
  show ?thesis
    using acceptor_accepts[OF a(1) L k1(1), of "\<lambda>f connfd peer s. Inr (s\<lparr>clock := connfd\<rparr>)"] a(3) k1(2) e by auto
qed

text \<open>
  A channel that is watched for reading, unwatched and deleted leaves nothing behind; one that is only unwatched
  and deleted leaves a pointer to itself.
\<close>

lemma watched_then_deleted:
  assumes I: "poller_inv p" and c: "chans p d = Some ch" and ch: "events ch = NONE_EVENT" "\<not> isHandling ch"
    and i: "interest p (fd ch) = None"
  shows "\<exists>q r r2. set_events True (new_events EnableReading) d p = Inr q \<and> set_events True (new_events DisableAll) d q = Inr r \<and>
    delete_channel bd d r = Inr r2 \<and> poller_inv r2 \<and> chans r2 = (chans p)(d := None) \<and> interest r2 (fd ch) = None"
proof -
  obtain q where q: "set_events True (new_events EnableReading) d p = Inr q" "poller_inv q"
      "chans q = (chans p)(d \<mapsto> ch\<lparr>events := READ_EVENT\<rparr>)" "channels q = insert d (channels p)"
    using set_events_ok[OF I, of d ch "new_events EnableReading"] i mask_nonzero(1) c ch(1) by (auto simp: NONE_EVENT_def)
  obtain r where r: "set_events True (new_events DisableAll) d q = Inr r" "poller_inv r"
      "chans r = (chans q)(d \<mapsto> ch\<lparr>events := NONE_EVENT\<rparr>)"
    using set_events_ok[OF q(2), of d "ch\<lparr>events := READ_EVENT\<rparr>" "new_events DisableAll"] q(3,4) by auto
  have n: "isNoneEvent (ch\<lparr>events := NONE_EVENT\<rparr>)" "\<not> isHandling (ch\<lparr>events := NONE_EVENT\<rparr>)"
    using ch(2) by (simp_all add: isNoneEvent_def)
  then have "delete_channel bd d r = Inr (r\<lparr>chans := (chans r)(d := None)\<rparr>)"
    using r(3) by (simp add: delete_channel_def with_channel_def EventChannel_destroy_def)
  then obtain r2 where r2: "delete_channel bd d r = Inr r2" "poller_inv r2" "chans r2 = (chans r)(d := None)"
    using poller_inv_delete[OF r(2), of d "ch\<lparr>events := NONE_EVENT\<rparr>"] r(3) n(1) by auto
  moreover have e: "chans r2 = (chans p)(d := None)" using calculation(3) r(3) q(3) by simp
  have "interest r2 (fd ch) = None"
    using interest_watched[OF I, of "fd ch"] interest_watched[OF calculation(2), of "fd ch"] i e by (auto simp del: not_None_eq not_Some_eq split: if_splits)
  ultimately show ?thesis using q(1) r(1) e by blast
qed

lemma unwatched_then_deleted:
  assumes c: "chans p d = Some ch" "d \<notin> channels p" and h: "\<not> isHandling ch" and i: "interest p (fd ch) = None"
  shows "\<exists>q r. set_events True (new_events DisableAll) d p = Inr q \<and> delete_channel bd d q = Inr r \<and> chans r d = None \<and>
    d \<in> channels r \<and> interest r = (interest p)(fd ch \<mapsto> (NONE_EVENT, d))"
proof -
  let ?ch = "ch\<lparr>events := NONE_EVENT\<rparr>"
  let ?q = "(put_channel d ?ch p)\<lparr>interest := (interest p)(fd ch \<mapsto> (NONE_EVENT, d)), channels := insert d (channels p)\<rparr>"
  let ?r = "?q\<lparr>chans := (chans ?q)(d := None)\<rparr>"
  have "set_events True (new_events DisableAll) d p = Inr ?q"
    using updateChannel_add[of "put_channel d ?ch p" d ?ch] c i by (simp add: set_events_def with_channel_def)
  moreover have "delete_channel bd d ?q = Inr ?r"
    using h by (simp add: delete_channel_def with_channel_def EventChannel_destroy_def isNoneEvent_def)
  ultimately show ?thesis by (intro exI[of _ ?q] exI[of _ ?r]) simp
qed

text \<open>
  C16. An acceptor that listens and is destroyed leaves the poller, the channels and the open descriptors as they
  were.  One that is destroyed without ever listening closes its descriptor too, and so takes it off the interest list, but
  leaves its channel in the poller's set, as a dangling pointer: an event that names it would follow it, and a channel that is later
  made at that address is never watched, because the poller takes it for one that the kernel knows.
\<close>

theorem acceptor_lifecycle:
  assumes "TcpAcceptor E d la s = Inr s1" and I: "poller_inv (poller s)" and d: "chans (poller s) d = None"
    and L: "fd_law (e_os E) fds" and "e_build E = Debug" and here: "threadId s = e_cur E"
    and free: "\<forall>f. f \<notin> fds (kernel s) \<longrightarrow> interest (poller s) f = None"
  shows "(\<forall>s2. acceptorListen E s1 = Inr (True, s2) \<longrightarrow> (\<exists>s3. destroyAcceptor E s2 = Inr s3 \<and> acceptor s3 = None \<and>
      chans (poller s3) = chans (poller s) \<and> poller_inv (poller s3) \<and> fds (kernel s3) = fds (kernel s))) \<and>
    (\<exists>s2. destroyAcceptor E s1 = Inr s2 \<and> fds (kernel s2) = fds (kernel s) \<and> chans (poller s2) d = None \<and>
      d \<in> channels (poller s2) \<and> pollEvents True (Some [(d, EPOLLHUP)]) (poller s2) = Inl Dangling \<and>
      interest (poller s2) = interest (poller s) \<and>
      (\<forall>g. 0 \<le> g \<and> interest (poller s2) g = None \<longrightarrow> (\<exists>p1 p2. new_channel (e_build E) d g (poller s2) = Inr p1 \<and>
         enableReading True d p1 = Inr p2 \<and> interest p2 g = None \<and> sysErrors p2 = sysErrors (poller s2) + 1)))"
proof -
  obtain f p ch k where n: "f \<notin> fds (kernel s)" "fds k = insert f (fds (kernel s))" "s1 = s\<lparr>poller := p, kernel := k,
      acceptor := Some \<lparr>acSock = f, acChan = d, acLocal = la, acNewConnection = None\<rparr>\<rparr>" "poller_inv p"
    "interest p = interest (poller s)" "channels p = channels (poller s)" "chans p = (chans (poller s))(d \<mapsto> ch)"
    "ch = \<lparr>fd = f, events = NONE_EVENT, revents = 0, readCallback = Some (Callback AcceptorRead), writeCallback = None,
      errorCallback = None, closeCallback = None, eventCallback = None, bindObject = None, isHandling = False\<rparr>"
    using TcpAcceptor_ok[OF assms(1) I d L disjI1[OF assms(5)]] by blast
  have i: "interest p f = None" using free n(1,5) by simp
  have d': "d \<notin> channels p" using poller_invD(2)[OF I, of d] d n(6) by auto
  have close: "\<exists>k2. TcpSocket_destroy (e_build E) (e_os E) f k1 = Inr k2 \<and> fds k2 = fds (kernel s)"
    if "fds k1 = insert f (fds (kernel s))" for k1
    using TcpSocket_destroy_fds[OF L, of f k1 "e_build E"] that n(1) by auto
  have "\<exists>s3. destroyAcceptor E s2 = Inr s3 \<and> acceptor s3 = None \<and>
      chans (poller s3) = chans (poller s) \<and> poller_inv (poller s3) \<and> fds (kernel s3) = fds (kernel s)"
    if l: "acceptorListen E s1 = Inr (True, s2)" for s2
  proof -
    obtain q r r2 where q: "set_events True (new_events EnableReading) d p = Inr q" "set_events True (new_events DisableAll) d q = Inr r"
        "delete_channel (e_build E) d r = Inr r2" "poller_inv r2" "chans r2 = (chans p)(d := None)" "interest r2 f = None"
      using watched_then_deleted[OF n(4), of d ch "e_build E"] n(7,8) i by auto
    obtain k1 where k1: "fds k1 = insert f (fds (kernel s))" "s2 = s1\<lparr>kernel := k1, poller := q\<rparr>"
      using l n(2,3) q(1) here fd_law_simps(2)[OF L, of f k]
      by (auto simp: acceptorListen_def with_acceptor_def in_loop_def isInLoopThread_def channel_op_def do_op_set_events
          Let_def res_simps split: prod.splits if_splits)
    obtain k2 where k2: "TcpSocket_destroy (e_build E) (e_os E) f k1 = Inr k2" "fds k2 = fds (kernel s)"
      using close[OF k1(1)] by blast
    have "destroyAcceptor E s2 = Inr (s2\<lparr>poller := r2, kernel := k2, acceptor := None\<rparr>)"
      using q(2,3,6) k2(1) here k1(2) n(3)
      by (simp add: destroyAcceptor_def with_acceptor_def in_loop_def isInLoopThread_def channel_op_def do_op_set_events)
    moreover have "chans r2 = chans (poller s)" using q(5) n(7) d by (simp add: fun_upd_idem)
    ultimately show ?thesis using q(4) k2(2) by auto
  qed
  moreover have "\<exists>s2. destroyAcceptor E s1 = Inr s2 \<and> fds (kernel s2) = fds (kernel s) \<and> chans (poller s2) d = None \<and>
      d \<in> channels (poller s2) \<and> pollEvents True (Some [(d, EPOLLHUP)]) (poller s2) = Inl Dangling \<and>
      interest (poller s2) = interest (poller s) \<and>
      (\<forall>g. 0 \<le> g \<and> interest (poller s2) g = None \<longrightarrow> (\<exists>p1 p2. new_channel (e_build E) d g (poller s2) = Inr p1 \<and>
         enableReading True d p1 = Inr p2 \<and> interest p2 g = None \<and> sysErrors p2 = sysErrors (poller s2) + 1))"
  proof -
    obtain q r where q: "set_events True (new_events DisableAll) d p = Inr q" "delete_channel (e_build E) d q = Inr r"
        "chans r d = None" "d \<in> channels r" "interest r = (interest p)(f \<mapsto> (NONE_EVENT, d))"
      using unwatched_then_deleted[of p d ch "e_build E"] n(7,8) d' i by auto
    obtain k2 where k2: "TcpSocket_destroy (e_build E) (e_os E) f k = Inr k2" "fds k2 = fds (kernel s)"
      using close[OF n(2)] by blast
    let ?r = "close_fd f r"
    have "interest ?r = interest (poller s)" using q(5) n(5) i by (simp add: fun_upd_idem)
    moreover have "pollEvents True (Some [(d, EPOLLHUP)]) ?r = Inl Dangling"
      using q(3) by (simp add: pollEvents_def with_channel_def Let_def look_channel_def put_channel_def close_fd_def)
    moreover have "\<exists>p1 p2. new_channel (e_build E) d g ?r = Inr p1 \<and> enableReading True d p1 = Inr p2 \<and>
        interest p2 g = None \<and> sysErrors p2 = sysErrors ?r + 1" if g: "0 \<le> g \<and> interest ?r g = None" for g
    proof -
      have "d \<in> channels ?r" "interest ?r g = None" "0 \<le> g" using q(4) g by simp_all
      from stale_channel[OF this, of "e_build E"] obtain p1 p2 where "new_channel (e_build E) d g ?r = Inr p1"
        "enableReading True d p1 = Inr p2" "interest p2 = interest ?r" "sysErrors p2 = sysErrors ?r + 1" by blast
      then show ?thesis using g by (intro exI[of _ p1] exI[of _ p2]) simp
    qed
    moreover have "destroyAcceptor E s1 = Inr (s1\<lparr>poller := ?r, kernel := k2, acceptor := None\<rparr>)"
      using here n(3) q(1,2) k2(1)
      by (simp add: destroyAcceptor_def with_acceptor_def in_loop_def isInLoopThread_def channel_op_def do_op_set_events)
    ultimately show ?thesis using k2(2) q(3,4) by (intro exI[of _ "s1\<lparr>poller := ?r, kernel := k2, acceptor := None\<rparr>"]) simp
  qed
  ultimately show ?thesis by blast
qed

theorem acceptor_lifecycle_witness:
  "\<exists>s1 s2. TcpAcceptor (sample_env Debug) 2 (V4Any Little 80) (sample_anet kern0) = Inr s1 \<and>
     destroyAcceptor (sample_env Debug) s1 = Inr s2 \<and> k_fds (kernel s2) = {} \<and>
     pollEvents True (Some [(2, EPOLLHUP)]) (poller s2) = Inl Dangling"
proof -
  let ?E = "sample_env Debug :: (nat, kern, (nat, kern) anet) env" and ?s = "sample_anet kern0"
  have "is_ok (TcpAcceptor ?E 2 (V4Any Little 80) ?s)" by code_simp
  then obtain s1 where s1: "TcpAcceptor ?E 2 (V4Any Little 80) ?s = Inr s1"
    by (cases "TcpAcceptor ?E 2 (V4Any Little 80) ?s") auto
  have f: "poller_inv (poller ?s)" "chans (poller ?s) 2 = None" "fd_law (e_os ?E) k_fds" "e_build ?E = Debug"
      "threadId ?s = e_cur ?E" "\<forall>f. f \<notin> k_fds (kernel ?s) \<longrightarrow> interest (poller ?s) f = None" "k_fds (kernel ?s) = {}"
    using sample_fd_law
    by (simp_all add: sample_anet_def EventPoller_def poller_inv_def sample_env_def k_fds_def kern0_def)
  show ?thesis using acceptor_lifecycle[OF s1 f(1-6)] s1 f(7) by auto
qed

end
