(* ===== verification/Tcp_Owner.thy ===== *)
theory Tcp_Owner
  imports Tcp_Lifecycle
begin

text \<open>
  Connections among others, and who owns them.  A server and a client (\<^verbatim>\<open>tcp_server.cpp\<close>,
  \<^verbatim>\<open>tcp_client.cpp\<close>) keep \<^verbatim>\<open>shared_ptr\<close>s to connections of
  \<^verbatim>\<open>src/include/godnet/net/tcp_connection.cpp\<close>, give them the user's callbacks, and let go of them in the
  close callback.  Here is what the operations of one connection leave alone of the others, what
  a user's callback may do, and, under the contract of an owner, what an event on a connection comes to.
\<close>

section \<open>The connections of a loop\<close>

text \<open>A connection that was opened, with its channel.\<close>

definition serves :: "nat \<Rightarrow> 'u conn \<Rightarrow> 'u func callback channel \<Rightarrow> bool" where
  "serves c n ch \<longleftrightarrow> fd ch = sockfd n \<and> bindObject ch = Some c \<and> eventCallback ch = None \<and>
     readCallback ch = Some (Callback (HandleRead c)) \<and> writeCallback ch = Some (Callback (HandleWrite c)) \<and>
     closeCallback ch = Some (Callback (HandleClose c)) \<and> errorCallback ch = Some (Callback (HandleError c)) \<and>
     buf_wf (readBuffer n) \<and> buf_wf (writeBuffer n) \<and> status n \<noteq> Connecting \<and>
     (if status n = Disconnected then isNoneEvent ch else isReading ch) \<and>
     (\<exists>u. connectionCallback n = Some (UserFunc u)) \<and> (\<exists>u. messageCallback n = Some (UserFunc u)) \<and>
     connCloseCallback n = Some OwnerRemove"

text \<open>
  Different connections have different channels and descriptors, no other channel watches their descriptors, and no
  queued function refers to one.
\<close>

definition apart :: "(nat \<Rightarrow> 'u conn option) \<Rightarrow> bool" where
  "apart cs \<longleftrightarrow> (\<forall>c c' n n'. cs c = Some n \<longrightarrow> cs c' = Some n' \<longrightarrow> c \<noteq> c' \<longrightarrow> chan n \<noteq> chan n' \<and> sockfd n \<noteq> sockfd n')"

definition net_ok :: "('u, 'k, 'z) net_env \<Rightarrow> ('k \<Rightarrow> int set) \<Rightarrow> ('u, 'k, 'z) net_scheme \<Rightarrow> bool" where
  "net_ok E fds s \<longleftrightarrow> threadId s = e_cur E \<and> watched fds s \<and> apart (conns s) \<and>
     (\<forall>c n. conns s c = Some n \<longrightarrow> sockfd n \<in> fds (kernel s) \<and>
        (\<exists>ch. chans (poller s) (chan n) = Some ch \<and> serves c n ch) \<and>
        (\<forall>d ch. chans (poller s) d = Some ch \<longrightarrow> \<not> isNoneEvent ch \<longrightarrow> fd ch = sockfd n \<longrightarrow> d = chan n)) \<and>
     (\<forall>c. \<forall>t \<in> set (customEvents s). \<not> keeps c t)"

text \<open>
  What a step leaves as it is: the connections with their descriptors and callbacks, the channels
  but for their events, the open descriptors, and what the owner adds to the state.  Only connections in
  \<open>C\<close> are closed, and only channels in \<open>D\<close> change whether they are handling events.
\<close>

definition same_id :: "'u conn \<Rightarrow> 'u conn \<Rightarrow> bool" where
  "same_id n n' \<longleftrightarrow> sockfd n' = sockfd n \<and> chan n' = chan n \<and> connectionCallback n' = connectionCallback n \<and>
     messageCallback n' = messageCallback n \<and> connCloseCallback n' = connCloseCallback n"

definition same_chan :: "'h channel \<Rightarrow> 'h channel \<Rightarrow> bool" where
  "same_chan ch ch' \<longleftrightarrow> ch' = ch\<lparr>events := events ch', isHandling := isHandling ch'\<rparr>"

definition same_timers :: "('u, 'k, 'z) net_scheme \<Rightarrow> ('u, 'k, 'z) net_scheme \<Rightarrow> bool" where
  "same_timers s s' \<longleftrightarrow> timers s' = timers s \<and> timerIds s' = timerIds s \<and> timersCreated s' = timersCreated s \<and> clock s' = clock s"

lemma same_timers_simps [simp]:
  "same_timers s s" "same_timers s (put_conn c n s') = same_timers s s'" "same_timers s (put_loop d ch s') = same_timers s s'"
  "same_timers s (s'\<lparr>kernel := k\<rparr>) = same_timers s s'" "same_timers s (s'\<lparr>poller := p\<rparr>) = same_timers s s'"
  "same_timers s (s'\<lparr>conns := cs\<rparr>) = same_timers s s'" "same_timers s (s'\<lparr>held := h\<rparr>) = same_timers s s'"
  "same_timers s (s'\<lparr>customEvents := q\<rparr>) = same_timers s s'" "same_timers s (s'\<lparr>wakeups := w\<rparr>) = same_timers s s'"
  "same_timers (s\<lparr>held := h\<rparr>) s' = same_timers s s'" "same_timers s (hold c s') = same_timers s s'"
  by (simp_all add: same_timers_def put_conn_def put_loop_def hold_def)

lemma same_timers_trans: "same_timers a b \<Longrightarrow> same_timers b c \<Longrightarrow> same_timers a c"
  by (simp add: same_timers_def)

definition calm :: "nat set \<Rightarrow> nat set \<Rightarrow> ('k \<Rightarrow> int set) \<Rightarrow> ('u, 'k, 'z) net_scheme \<Rightarrow> ('u, 'k, 'z) net_scheme \<Rightarrow> bool" where
  "calm C D fds s s' \<longleftrightarrow> fds (kernel s') = fds (kernel s) \<and> net.more s' = net.more s \<and> same_timers s s' \<and>
     (\<forall>c. rel_option same_id (conns s c) (conns s' c)) \<and>
     (\<forall>c n n'. c \<notin> C \<longrightarrow> conns s c = Some n \<longrightarrow> conns s' c = Some n' \<longrightarrow> (status n' = Disconnected \<longleftrightarrow> status n = Disconnected)) \<and>
     (\<forall>d. rel_option same_chan (chans (poller s) d) (chans (poller s') d)) \<and>
     (\<forall>d. d \<notin> D \<longrightarrow> map_option isHandling (chans (poller s') d) = map_option isHandling (chans (poller s) d)) \<and>
     (\<forall>d. d \<notin> chan ` ran (conns s) \<longrightarrow> chans (poller s') d = chans (poller s) d)"

lemma same_id_refl [simp]: "same_id n n"
  by (simp add: same_id_def)

lemma same_chan_refl [simp]: "same_chan ch ch"
  by (simp add: same_chan_def)

lemma same_id_trans: "same_id a b \<Longrightarrow> same_id b c \<Longrightarrow> same_id a c"
  by (simp add: same_id_def)

lemma same_chan_trans: "same_chan a b \<Longrightarrow> same_chan b c \<Longrightarrow> same_chan a c"
  by (cases a; cases b; cases c) (simp add: same_chan_def)

lemma same_chan_update [simp]: "same_chan ch (ch\<lparr>events := e\<rparr>)" "same_chan ch (ch\<lparr>isHandling := b\<rparr>)"
  by (simp_all add: same_chan_def)

lemma rel_option_refl_on: "(\<And>x. R x x) \<Longrightarrow> rel_option R x x"
  by (cases x) simp_all

lemma rel_option_transitive:
  assumes "rel_option R a b" and "rel_option R b c" and "\<And>x y z. R x y \<Longrightarrow> R y z \<Longrightarrow> R x z"
  shows "rel_option R a c"
  using assms by (cases a; cases b; cases c) auto

lemma calm_refl [simp]: "calm C D fds s s"
  by (auto simp: calm_def intro: rel_option_refl_on)

lemma calm_mono: "calm C D fds s s' \<Longrightarrow> C \<subseteq> C' \<Longrightarrow> D \<subseteq> D' \<Longrightarrow> calm C' D' fds s s'"
  unfolding calm_def by blast

lemma calm_conn:
  assumes "calm C D fds s s'" and "conns s c = Some n"
  obtains n' where "conns s' c = Some n'" and "same_id n n'" and "c \<notin> C \<Longrightarrow> (status n' = Disconnected \<longleftrightarrow> status n = Disconnected)"
proof -
  have "rel_option same_id (conns s c) (conns s' c)" using assms(1) by (simp add: calm_def)
  then obtain n' where "conns s' c = Some n'" "same_id n n'" using assms(2) by (cases "conns s' c") auto
  then show ?thesis using assms that unfolding calm_def by blast
qed

lemma calm_chan:
  assumes "calm C D fds s s'" and "chans (poller s) d = Some ch"
  obtains ch' where "chans (poller s') d = Some ch'" and "same_chan ch ch'"
proof -
  have "rel_option same_chan (chans (poller s) d) (chans (poller s') d)" using assms(1) by (simp add: calm_def)
  then show ?thesis using assms(2) that by (cases "chans (poller s') d") auto
qed

lemma rel_option_None: "rel_option R x y \<Longrightarrow> y = None \<longleftrightarrow> x = None"
  by (cases x; cases y) simp_all

lemma calm_dom:
  assumes "calm C D fds s s'"
  shows "conns s' c = None \<longleftrightarrow> conns s c = None" and "chans (poller s') d = None \<longleftrightarrow> chans (poller s) d = None"
  using assms rel_option_None[of same_id "conns s c" "conns s' c"]
    rel_option_None[of same_chan "chans (poller s) d" "chans (poller s') d"] by (simp_all add: calm_def)

lemma calm_map:
  assumes c: "calm C D fds s s'" and f: "\<And>n n'. same_id n n' \<Longrightarrow> f n' = f n"
  shows "map_option f (conns s' k) = map_option f (conns s k)"
  using c f by (cases "conns s k"; cases "conns s' k") (auto simp: calm_def dest!: spec[of _ k])

lemma image_ran: "f ` ran m = {d. \<exists>k. map_option f (m k) = Some d}"
  by (auto simp: ran_def)

lemma calm_ran:
  assumes "calm C D fds s s'"
  shows "chan ` ran (conns s') = chan ` ran (conns s)" and "sockfd ` ran (conns s') = sockfd ` ran (conns s)"
  unfolding image_ran by (subst calm_map[OF assms], simp add: same_id_def, rule refl)+

lemma calm_trans:
  assumes a: "calm C D fds s s1" and b: "calm C D fds s1 s2"
  shows "calm C D fds s s2"
proof -
  have "rel_option same_id (conns s c) (conns s2 c)" for c
  proof (rule rel_option_transitive)
    show "rel_option same_id (conns s c) (conns s1 c)" "rel_option same_id (conns s1 c) (conns s2 c)"
      using a b by (simp_all add: calm_def)
  qed (rule same_id_trans)
  moreover have "rel_option same_chan (chans (poller s) d) (chans (poller s2) d)" for d
  proof (rule rel_option_transitive)
    show "rel_option same_chan (chans (poller s) d) (chans (poller s1) d)"
      "rel_option same_chan (chans (poller s1) d) (chans (poller s2) d)" using a b by (simp_all add: calm_def)
  qed (rule same_chan_trans)
  moreover have "status n2 = Disconnected \<longleftrightarrow> status n = Disconnected"
    if h: "c \<notin> C" "conns s c = Some n" "conns s2 c = Some n2" for c n n2
  proof -
    obtain n1 where n1: "conns s1 c = Some n1" "status n1 = Disconnected \<longleftrightarrow> status n = Disconnected"
      using calm_conn[OF a h(2)] h(1) by blast
    obtain n' where "conns s2 c = Some n'" "status n' = Disconnected \<longleftrightarrow> status n1 = Disconnected"
      using calm_conn[OF b n1(1)] h(1) by blast
    then show ?thesis using n1(2) h(3) by simp
  qed
  moreover have "chans (poller s2) d = chans (poller s) d" if "d \<notin> chan ` ran (conns s)" for d
    using that a b calm_ran(1)[OF a] by (simp add: calm_def)
  ultimately show ?thesis using a b same_timers_trans[of s s1 s2] by (simp add: calm_def)
qed

lemma net_okD:
  assumes "net_ok E fds s"
  shows "threadId s = e_cur E" and "watched fds s" and "poller_inv (poller s)"
    and "\<And>c n. conns s c = Some n \<Longrightarrow> sockfd n \<in> fds (kernel s) \<and> (\<exists>ch. chans (poller s) (chan n) = Some ch \<and> serves c n ch)"
    and "\<And>c n d ch. conns s c = Some n \<Longrightarrow> chans (poller s) d = Some ch \<Longrightarrow> \<not> isNoneEvent ch \<Longrightarrow> fd ch = sockfd n \<Longrightarrow> d = chan n"
  using assms by (auto simp: net_ok_def watched_def)

lemma watched_inI: "watched fds s \<Longrightarrow> chans (poller s) d = Some ch \<Longrightarrow> \<not> isNoneEvent ch \<Longrightarrow> fd ch \<in> fds (kernel s)"
  unfolding watched_def by blast

text \<open>One connection and its channel change.\<close>

lemma calm_update:
  assumes ok: "net_ok E fds s" and n: "conns s c = Some n" and ch: "chans (poller s) (chan n) = Some ch"
    and p: "poller_inv (poller s')" "chans (poller s') = (chans (poller s))(chan n \<mapsto> ch')"
    and s': "threadId s' = threadId s" "customEvents s' = customEvents s" "net.more s' = net.more s"
      "fds (kernel s') = fds (kernel s)" "conns s' = (conns s)(c \<mapsto> n')" "same_timers s s'"
    and n': "same_id n n'" "c \<in> C \<or> (status n' = Disconnected \<longleftrightarrow> status n = Disconnected)"
    and ch': "same_chan ch ch'" "chan n \<in> D \<or> isHandling ch' = isHandling ch" "serves c n' ch'"
  shows "net_ok E fds s' \<and> calm C D fds s s'"
proof
  note I = net_okD[OF ok]
  have id: "sockfd n' = sockfd n" "chan n' = chan n" using n'(1) by (simp_all add: same_id_def)
  have f: "fd ch' = sockfd n" using ch'(3) id by (simp add: serves_def)
  have ap: "apart (conns s)" using ok by (simp add: net_ok_def)
  have conn: "\<exists>ch. chans (poller s') (chan m) = Some ch \<and> serves d m ch" if m: "conns s' d = Some m" for d m
  proof (cases "d = c")
    case True
    then show ?thesis using m s'(5) p(2) id ch'(3) by simp
  next
    case False
    then have m': "conns s d = Some m" using m s'(5) by simp
    then have "chan m \<noteq> chan n" using ap n False unfolding apart_def by blast
    then show ?thesis using I(4)[OF m'] p(2) by simp
  qed
  have "watched fds s'"
  proof -
    have "fd e \<in> fds (kernel s)" if e: "chans (poller s') d = Some e" "\<not> isNoneEvent e" for d e
    proof (cases "d = chan n")
      case True
      then show ?thesis using e p(2) f I(4)[OF n] by simp
    next
      case False
      then show ?thesis using e p(2) watched_inI[OF I(2)] by simp
    qed
    then show ?thesis using I(2) p(1) s'(4) unfolding watched_def by auto
  qed
  moreover have "apart (conns s')"
    unfolding apart_def s'(5)
  proof (intro allI impI)
    fix x y m m' assume a: "((conns s)(c \<mapsto> n')) x = Some m" "((conns s)(c \<mapsto> n')) y = Some m'" "x \<noteq> y"
    have "\<exists>q. conns s z = Some q \<and> chan q = chan r \<and> sockfd q = sockfd r" if "((conns s)(c \<mapsto> n')) z = Some r" for z r
      using that n id by (cases "z = c") auto
    then show "chan m \<noteq> chan m' \<and> sockfd m \<noteq> sockfd m'" using a ap unfolding apart_def by metis
  qed
  moreover have "sockfd m \<in> fds (kernel s')" if "conns s' d = Some m" for d m
    using that I(4) n id s'(4,5) by (cases "d = c") auto
  moreover have "d = chan m" if a: "conns s' x = Some m" "chans (poller s') d = Some e" "\<not> isNoneEvent e" "fd e = sockfd m" for x m d e
  proof -
    obtain q where q: "conns s x = Some q" "chan q = chan m" "sockfd q = sockfd m"
      using a(1) n id s'(5) by (cases "x = c") auto
    show ?thesis
    proof (cases "d = chan n")
      case True
      then have "sockfd q = sockfd n" using a p(2) f q(3) by simp
      then have "x = c" using ap q(1) n unfolding apart_def by blast
      then show ?thesis using True q n by simp
    next
      case False
      then show ?thesis using a p(2) q I(5)[OF q(1)] by simp
    qed
  qed
  ultimately show "net_ok E fds s'" using conn I(1) ok s'(1,2) unfolding net_ok_def by (intro conjI allI impI) (blast | simp)+
  show "calm C D fds s s'"
    unfolding calm_def
  proof (intro conjI allI impI)
    fix d
    show "rel_option same_id (conns s d) (conns s' d)"
      using n n'(1) s'(5) by (cases "d = c") (auto intro: rel_option_refl_on)
    show "rel_option same_chan (chans (poller s) d) (chans (poller s') d)"
      using ch ch'(1) p(2) by (cases "d = chan n") (auto intro: rel_option_refl_on)
    show "map_option isHandling (chans (poller s') d) = map_option isHandling (chans (poller s) d)" if "d \<notin> D"
      using that ch ch'(2) p(2) by auto
    show "chans (poller s') d = chans (poller s) d" if "d \<notin> chan ` ran (conns s)"
      using that n p(2) by (auto simp: ran_def)
    fix m m' assume a: "d \<notin> C" "conns s d = Some m" "conns s' d = Some m'"
    then show "status m' = Disconnected \<longleftrightarrow> status m = Disconnected"
      using n n'(2) s'(5) by (cases "d = c") auto
  qed (use s' in simp_all)
qed

section \<open>The operations of one connection\<close>

text \<open>
  \<^verbatim>\<open>write(2)\<close> does not accept more than it is given, and \<^verbatim>\<open>readv(2)\<close> returns the number of bytes it
  put into the buffers, which fit.
\<close>

definition io_law :: "'k os \<Rightarrow> bool" where
  "io_law os \<longleftrightarrow> (\<forall>f bs k. fst (sys_write os f bs k) \<le> int (length bs)) \<and>
     (\<forall>f ns k. case sys_readv os f ns k of (n, bs, k1) \<Rightarrow> (0 < n \<longrightarrow> n = int (length bs)) \<and> length bs \<le> sum_list ns)"

lemma io_lawD:
  assumes "io_law os"
  shows "tcp_write os f bs k = (w, k1) \<Longrightarrow> w \<le> int (length bs)"
    and "tcp_read os f ns k = (r, xs, k1) \<Longrightarrow> 0 < r \<Longrightarrow> r = int (length xs)"
    and "tcp_read os f ns k = (r, xs, k1) \<Longrightarrow> length xs \<le> sum_list ns"
proof -
  have w: "\<forall>f bs k. fst (sys_write os f bs k) \<le> int (length bs)"
    and r: "\<forall>f ns k. case sys_readv os f ns k of (n, bs, k1) \<Rightarrow> (0 < n \<longrightarrow> n = int (length bs)) \<and> length bs \<le> sum_list ns"
    using assms by (simp_all add: io_law_def)
  show "tcp_write os f bs k = (w, k1) \<Longrightarrow> w \<le> int (length bs)"
    using w[rule_format, where f = f and bs = bs and k = k] by (simp add: tcp_write_def socket_write_def)
  show "tcp_read os f ns k = (r, xs, k1) \<Longrightarrow> 0 < r \<Longrightarrow> r = int (length xs)"
    "tcp_read os f ns k = (r, xs, k1) \<Longrightarrow> length xs \<le> sum_list ns"
    using r[rule_format, where f = f and ns = ns and k = k] by (auto simp: tcp_read_def socket_read_def)
qed

lemma open_reading: "serves c n ch \<Longrightarrow> status n \<noteq> Disconnected \<Longrightarrow> isReading ch \<and> \<not> isNoneEvent ch"
  using watching_not_none(1)[of ch] by (auto simp: serves_def)

text \<open>An operation of the channel of an open connection that keeps it reading.\<close>

lemma open_conn_chan:
  assumes ok: "net_ok E fds s" and n: "conns s c = Some n" and ch: "chans (poller s) (chan n) = Some ch" "serves c n ch"
    and op: "status n \<noteq> Disconnected" "op = EnableWriting \<or> op = DisableWriting"
    and n': "same_id n n'" "status n' = status n" "buf_wf (readBuffer n')" "buf_wf (writeBuffer n')"
    and k: "fds k = fds (kernel s)"
  shows "\<exists>p. conn_chan E op n (put_conn c n' (s\<lparr>kernel := k\<rparr>)) = Inr (put_conn c n' (s\<lparr>kernel := k\<rparr>)\<lparr>poller := p\<rparr>) \<and>
    net_ok E fds (put_conn c n' (s\<lparr>kernel := k\<rparr>)\<lparr>poller := p\<rparr>) \<and> calm {} {} fds s (put_conn c n' (s\<lparr>kernel := k\<rparr>)\<lparr>poller := p\<rparr>)"
proof -
  note I = net_okD[OF ok]
  note R = open_reading[OF ch(2) op(1)]
  let ?s = "put_conn c n' (s\<lparr>kernel := k\<rparr>)" and ?ch = "ch\<lparr>events := new_events op (events ch)\<rparr>"
  have "isReading ?ch" using R op(2) by (auto simp: isReading_events event_masks)
  then have sv: "serves c n' ?ch" using ch(2) op(1) n' by (auto simp: serves_def same_id_def)
  obtain p where p: "conn_chan E op n ?s = Inr (?s\<lparr>poller := p\<rparr>)" "poller_inv p" "chans p = (chans (poller s))(chan n \<mapsto> ?ch)"
    using conn_chan_ok[of ?s E n ch op] I(1,3) ch(1) R by (auto simp: put_conn_def)
  have "net_ok E fds (?s\<lparr>poller := p\<rparr>) \<and> calm {} {} fds s (?s\<lparr>poller := p\<rparr>)"
    by (rule calm_update[OF ok n ch(1), where ch' = ?ch and n' = n']) (use p(2,3) n' k sv in \<open>simp_all add: put_conn_def\<close>)
  then show ?thesis using p(1) by blast
qed

text \<open>The buffers or the status of an open connection change, and the kernel.\<close>

lemma open_put_conn:
  assumes ok: "net_ok E fds s" and n: "conns s c = Some n" and ch: "chans (poller s) (chan n) = Some ch" "serves c n ch"
    and n': "same_id n n'" "status n' = Disconnected \<longleftrightarrow> status n = Disconnected" "status n' \<noteq> Connecting"
      "buf_wf (readBuffer n')" "buf_wf (writeBuffer n')"
    and k: "fds k = fds (kernel s)"
  shows "net_ok E fds (put_conn c n' (s\<lparr>kernel := k\<rparr>)) \<and> calm {} {} fds s (put_conn c n' (s\<lparr>kernel := k\<rparr>))"
proof (rule calm_update[OF ok n ch(1), where ch' = ch and n' = n'])
  show "chans (poller (put_conn c n' (s\<lparr>kernel := k\<rparr>))) = (chans (poller s))(chan n \<mapsto> ch)"
    using ch(1) by (simp add: put_conn_def fun_upd_idem)
  show "serves c n' ch" using ch(2) n' by (auto simp: serves_def same_id_def)
qed (use n' k net_okD(3)[OF ok] in \<open>simp_all add: put_conn_def\<close>)

lemma kernel_calm:
  assumes "net_ok E fds s" and "fds k = fds (kernel s)"
  shows "net_ok E fds (s\<lparr>kernel := k\<rparr>) \<and> calm {} {} fds s (s\<lparr>kernel := k\<rparr>)"
  using assms by (auto simp: net_ok_def watched_def calm_def intro: rel_option_refl_on)

text \<open>The four operations of a user on an open connection: each succeeds, and leaves the rest alone.\<close>

lemma sendInLoop_calm:
  assumes ok: "net_ok E fds s" and F: "fd_law (e_os E) fds" and n: "conns s c = Some n" "status n \<noteq> Disconnected"
    and len: "length (contents (writeBuffer n)) + length bs < 2 ^ 63"
  shows "\<exists>s'. sendInLoop E c bs s = Inr s' \<and> net_ok E fds s' \<and> calm {} {} fds s s' \<and> held s' = held s"
proof -
  note I = net_okD[OF ok]
  obtain ch where ch: "chans (poller s) (chan n) = Some ch" "serves c n ch" using I(4)[OF n(1)] by blast
  have wf: "buf_wf (readBuffer n)" "buf_wf (writeBuffer n)" "status n \<noteq> Connecting" using ch(2) by (auto simp: serves_def)
  let ?W = "(if \<not> isWriting ch \<and> buf_empty (writeBuffer n)
       then (let (w, k1) = tcp_write (e_os E) (sockfd n) bs (kernel s) in (if w < 0 then 0 else w, k1))
       else (0, kernel s))"
  obtain w k1 where W: "?W = (w, k1)" by (cases ?W)
  have k1: "fds k1 = fds (kernel s)"
    using W fd_law_simps(5)[OF F, of "sockfd n" bs "kernel s"] by (auto split: if_splits prod.splits)
  have body: "sendInLoop E c bs s = (if nat w < length bs then
            res_bind (write_buf (drop (nat w) bs) (writeBuffer n)) (\<lambda>wb.
              let s2 = put_conn c (n\<lparr>writeBuffer := wb\<rparr>) (s\<lparr>kernel := k1\<rparr>) in
              if \<not> isWriting ch then conn_chan E EnableWriting n s2 else Inr s2)
          else Inr (s\<lparr>kernel := k1\<rparr>))"
    using n(1) ch(1) W I(1)
    by (simp add: sendInLoop_def with_conn_def with_channel_def look_loop_def in_loop_def isInLoopThread_def Let_def)
  show ?thesis
  proof (cases "nat w < length bs")
    case False
    then show ?thesis using body kernel_calm[OF ok k1] by simp
  next
    case True
    obtain wb where wb: "write_buf (drop (nat w) bs) (writeBuffer n) = Inr wb" "buf_wf wb"
      using write_buf_ok[OF wf(2), of "drop (nat w) bs"] len length_contents[OF wf(2)] by fastforce
    let ?n = "n\<lparr>writeBuffer := wb\<rparr>"
    have n': "same_id n ?n" by (simp add: same_id_def)
    show ?thesis
    proof (cases "isWriting ch")
      case True
      then have "sendInLoop E c bs s = Inr (put_conn c ?n (s\<lparr>kernel := k1\<rparr>))"
        using body wb(1) \<open>nat w < length bs\<close> by (simp add: Let_def)
      then show ?thesis
        using open_put_conn[OF ok n(1) ch n', of k1] wf wb(2) k1 by (simp add: put_conn_def)
    next
      case False
      then have "sendInLoop E c bs s = conn_chan E EnableWriting n (put_conn c ?n (s\<lparr>kernel := k1\<rparr>))"
        using body wb(1) \<open>nat w < length bs\<close> by (simp add: Let_def)
      then show ?thesis
        using open_conn_chan[OF ok n(1) ch n(2), of EnableWriting ?n k1] n' wf wb(2) k1 by (auto simp: put_conn_def)
    qed
  qed
qed

lemma shutdownInLoop_calm:
  assumes ok: "net_ok E fds s" and F: "fd_law (e_os E) fds" and n: "conns s c = Some n"
  shows "\<exists>s'. shutdownInLoop E c s = Inr s' \<and> net_ok E fds s' \<and> calm {} {} fds s s' \<and> held s' = held s"
proof (cases "status n = Connected")
  case False
  then show ?thesis using n ok by (simp add: shutdownInLoop_def with_conn_def)
next
  case True
  obtain ch where ch: "chans (poller s) (chan n) = Some ch" "serves c n ch" using net_okD(4)[OF ok n] by blast
  let ?n = "n\<lparr>status := Disconnecting\<rparr>"
  let ?k = "if isWriting ch then kernel s else snd (tcp_shutdown (e_os E) (sockfd n) (kernel s))"
  have s': "shutdownInLoop E c s = Inr (put_conn c ?n (s\<lparr>kernel := ?k\<rparr>))"
    using n True ch(1)
    by (auto simp: shutdownInLoop_def with_conn_def with_channel_def look_loop_def put_conn_def Let_def)
  have "buf_wf (readBuffer n)" "buf_wf (writeBuffer n)" using ch(2) by (auto simp: serves_def)
  then show ?thesis
    using open_put_conn[OF ok n ch, of ?n ?k] fd_law_simps(8)[OF F] True s' by (simp add: put_conn_def same_id_def)
qed

lemma handleWrite_calm:
  assumes ok: "net_ok E fds s" and F: "fd_law (e_os E) fds" "io_law (e_os E)" and n: "conns s c = Some n"
  shows "\<exists>s'. handleWrite E c s = Inr s' \<and> net_ok E fds s' \<and> calm {} {} fds s s' \<and> held s' = held s"
proof -
  note I = net_okD[OF ok]
  obtain ch where ch: "chans (poller s) (chan n) = Some ch" "serves c n ch" using I(4)[OF n] by blast
  have wf: "buf_wf (readBuffer n)" "buf_wf (writeBuffer n)" "status n \<noteq> Connecting" using ch(2) by (auto simp: serves_def)
  let ?wb = "writeBuffer n"
  have rm: "read_mem (readByte ?wb) ?wb = Inr (contents ?wb)"
    using read_mem_ok[OF wf(2), of "readByte ?wb"] length_contents[OF wf(2)] by simp
  obtain w k1 where W: "tcp_write (e_os E) (sockfd n) (contents ?wb) (kernel s) = (w, k1)"
    by (cases "tcp_write (e_os E) (sockfd n) (contents ?wb) (kernel s)")
  have k1: "fds k1 = fds (kernel s)" using fd_law_simps(5)[OF F(1), of "sockfd n" "contents ?wb" "kernel s"] W by simp
  show ?thesis
  proof (cases "isWriting ch")
    case False
    then show ?thesis using n ok ch(1) I(1)
      by (simp add: handleWrite_def with_conn_def with_channel_def look_loop_def in_loop_def isInLoopThread_def)
  next
    case w: True
    have op: "status n \<noteq> Disconnected" using ch(2) watching_not_none(2)[OF w] by (auto simp: serves_def)
    have body: "handleWrite E c s = (if w > 0 then res_bind (retrieve (e_build E) (nat w) ?wb) (\<lambda>wb.
         let s2 = put_conn c (n\<lparr>writeBuffer := wb\<rparr>) (s\<lparr>kernel := k1\<rparr>) in
         if buf_empty wb then
           res_bind (conn_chan E DisableWriting n s2) (\<lambda>s3.
             if status n = Disconnecting
             then Inr (s3\<lparr>kernel := snd (tcp_shutdown (e_os E) (sockfd n) (kernel s3))\<rparr>)
             else Inr s3)
         else Inr s2)
       else Inr (s\<lparr>kernel := k1\<rparr>))"
      using n ch(1) w rm W I(1)
      by (simp add: handleWrite_def with_conn_def with_channel_def look_loop_def in_loop_def isInLoopThread_def Let_def)
    show ?thesis
    proof (cases "w > 0")
      case False
      then show ?thesis using body kernel_calm[OF ok k1] by simp
    next
      case pos: True
      have "nat w \<le> readByte ?wb" using io_lawD(1)[OF F(2) W] length_contents[OF wf(2)] by simp
      then obtain wb where wb: "retrieve (e_build E) (nat w) ?wb = Inr wb" "buf_wf wb"
        using retrieve_ok[OF wf(2)] by blast
      let ?n = "n\<lparr>writeBuffer := wb\<rparr>"
      have n': "same_id n ?n" by (simp add: same_id_def)
      show ?thesis
      proof (cases "buf_empty wb")
        case False
        then have "handleWrite E c s = Inr (put_conn c ?n (s\<lparr>kernel := k1\<rparr>))" using body pos wb(1) by (simp add: Let_def)
        then show ?thesis using open_put_conn[OF ok n ch n', of k1] wf wb(2) k1 by (simp add: put_conn_def)
      next
        case True
        obtain p where p: "conn_chan E DisableWriting n (put_conn c ?n (s\<lparr>kernel := k1\<rparr>)) = Inr (put_conn c ?n (s\<lparr>kernel := k1\<rparr>)\<lparr>poller := p\<rparr>)"
            "net_ok E fds (put_conn c ?n (s\<lparr>kernel := k1\<rparr>)\<lparr>poller := p\<rparr>)" "calm {} {} fds s (put_conn c ?n (s\<lparr>kernel := k1\<rparr>)\<lparr>poller := p\<rparr>)"
          using open_conn_chan[OF ok n ch op, of DisableWriting ?n k1] n' wf wb(2) k1 by auto
        let ?s3 = "put_conn c ?n (s\<lparr>kernel := k1\<rparr>)\<lparr>poller := p\<rparr>"
        let ?k = "if status n = Disconnecting then snd (tcp_shutdown (e_os E) (sockfd n) (kernel ?s3)) else kernel ?s3"
        have k: "fds ?k = fds (kernel ?s3)" using fd_law_simps(8)[OF F(1)] by simp
        have e: "handleWrite E c s = Inr (?s3\<lparr>kernel := ?k\<rparr>)" using body pos wb(1) True p(1) by (simp add: Let_def)
        have "net_ok E fds (?s3\<lparr>kernel := ?k\<rparr>)" "calm {} {} fds s (?s3\<lparr>kernel := ?k\<rparr>)"
          using kernel_calm[OF p(2) k] calm_trans[OF p(3)] by blast+
        moreover have "held (?s3\<lparr>kernel := ?k\<rparr>) = held s" by (simp add: put_conn_def)
        ultimately show ?thesis using e by blast
      qed
    qed
  qed
qed

text \<open>\<open>handleClose\<close> up to its callbacks, and a change of \<open>isHandling_\<close>.\<close>

lemma closeChannel_calm:
  assumes ok: "net_ok E fds s" and n: "conns s c = Some n" "status n \<noteq> Disconnected"
  shows "\<exists>s'. closeChannel E c s = Inr s' \<and> net_ok E fds s' \<and> calm {c} {} fds s s' \<and> held s' = held s \<and>
    conns s' c = Some (n\<lparr>status := Disconnected\<rparr>)"
proof -
  note I = net_okD[OF ok]
  obtain ch where ch: "chans (poller s) (chan n) = Some ch" "serves c n ch" using I(4)[OF n(1)] by blast
  let ?n = "n\<lparr>status := Disconnected\<rparr>" and ?ch = "ch\<lparr>events := NONE_EVENT\<rparr>"
  have op: "status n = Connected \<or> status n = Disconnecting" using n(2) ch(2) by (cases "status n") (auto simp: serves_def)
  obtain p where p: "conn_chan E DisableAll n (put_conn c ?n s) = Inr (put_conn c ?n s\<lparr>poller := p\<rparr>)" "poller_inv p"
      "chans p = (chans (poller s))(chan n \<mapsto> ?ch)"
    using conn_chan_ok[of "put_conn c ?n s" E n ch DisableAll] I(1,3) ch(1) open_reading[OF ch(2) n(2)]
    by (auto simp: put_conn_def)
  have e: "closeChannel E c s = Inr (put_conn c ?n s\<lparr>poller := p\<rparr>)"
    using n(1) I(1) op p(1) by (simp add: closeChannel_def with_conn_def in_loop_def isInLoopThread_def)
  have "net_ok E fds (put_conn c ?n s\<lparr>poller := p\<rparr>) \<and> calm {c} {} fds s (put_conn c ?n s\<lparr>poller := p\<rparr>)"
    by (rule calm_update[OF ok n(1) ch(1), where ch' = ?ch and n' = ?n])
      (use p(2,3) ch(2) in \<open>auto simp: put_conn_def same_id_def serves_def isNoneEvent_def split: if_splits\<close>)
  then show ?thesis using e by (auto simp: put_conn_def)
qed

lemma handling_calm:
  assumes ok: "net_ok E fds s" and n: "conns s c = Some n" and ch: "chans (poller s) (chan n) = Some ch"
  shows "net_ok E fds (put_loop (chan n) (ch\<lparr>isHandling := b\<rparr>) s) \<and>
    calm C {chan n} fds s (put_loop (chan n) (ch\<lparr>isHandling := b\<rparr>) s)"
proof (rule calm_update[OF ok n ch, where ch' = "ch\<lparr>isHandling := b\<rparr>" and n' = n])
  have P: "poller (put_loop (chan n) (ch\<lparr>isHandling := b\<rparr>) s) = put_channel (chan n) (ch\<lparr>isHandling := b\<rparr>) (poller s)"
    by (simp add: put_loop_def)
  show "poller_inv (poller (put_loop (chan n) (ch\<lparr>isHandling := b\<rparr>) s))"
    unfolding P by (rule poller_inv_put[OF net_okD(3)[OF ok] ch]) simp_all
  show "serves c n (ch\<lparr>isHandling := b\<rparr>)"
    using net_okD(4)[OF ok n] ch by (auto simp: serves_def isNoneEvent_def isReading_def)
  show "conns (put_loop (chan n) (ch\<lparr>isHandling := b\<rparr>) s) = (conns s)(c \<mapsto> n)"
    using n by (simp add: put_loop_def fun_upd_idem)
qed (simp_all add: put_loop_def)

lemma calm_handled:
  assumes "calm C {d} fds s s'" and "map_option isHandling (chans (poller s') d) = map_option isHandling (chans (poller s) d)"
  shows "calm C {} fds s s'"
proof -
  have "map_option isHandling (chans (poller s') e) = map_option isHandling (chans (poller s) e)" for e
  proof (cases "e = d")
    case False
    then show ?thesis using assms(1) unfolding calm_def by blast
  qed (use assms(2) in simp)
  then show ?thesis using assms(1) by (simp add: calm_def)
qed

text \<open>What is reported for a channel changes, or whether it is handling events.\<close>

lemma net_ok_put:
  assumes ok: "net_ok E fds s" and ch: "chans (poller s) d = Some ch"
  shows "net_ok E fds (put_loop d (ch\<lparr>revents := r, isHandling := h\<rparr>) s)"
proof -
  note I = net_okD[OF ok]
  let ?ch = "ch\<lparr>revents := r, isHandling := h\<rparr>"
  have "poller_inv (put_channel d ?ch (poller s))" by (rule poller_inv_put[OF I(3) ch]) simp_all
  moreover have "isNoneEvent ?ch = isNoneEvent ch" "isReading ?ch = isReading ch"
    by (simp_all add: isNoneEvent_def isReading_def)
  moreover from this have "serves c n ?ch = serves c n ch" for c n by (simp add: serves_def)
  ultimately have P: "poller_inv (put_channel d ?ch (poller s))" "isNoneEvent ?ch = isNoneEvent ch" "\<And>c n. serves c n ?ch = serves c n ch"
    by blast+
  have conn: "(\<exists>e. ((chans (poller s))(d \<mapsto> ?ch)) (chan n) = Some e \<and> serves c n e) \<and>
      (\<forall>x e. ((chans (poller s))(d \<mapsto> ?ch)) x = Some e \<longrightarrow> \<not> isNoneEvent e \<longrightarrow> fd e = sockfd n \<longrightarrow> x = chan n)"
    if n: "conns s c = Some n" for c n
    using I(4)[OF n] I(5)[OF n] ch P(2,3) by (cases "chan n = d") auto
  have "watched fds (put_loop d ?ch s)"
    using I(2) ch P(1,2) unfolding watched_def put_loop_def by auto
  then show ?thesis using ok conn by (simp add: net_ok_def put_loop_def)
qed

text \<open>A descriptor of no connection that is not watched.\<close>

definition unused :: "int \<Rightarrow> ('u, 'k, 'z) net_scheme \<Rightarrow> bool" where
  "unused f s \<longleftrightarrow> (\<forall>c n. conns s c = Some n \<longrightarrow> sockfd n \<noteq> f) \<and>
     (\<forall>d ch. chans (poller s) d = Some ch \<longrightarrow> \<not> isNoneEvent ch \<longrightarrow> fd ch \<noteq> f)"

lemma unused_new: "net_ok E fds s \<Longrightarrow> f \<notin> fds (kernel s) \<Longrightarrow> unused f s"
  using net_okD(4) watched_inI[OF net_okD(2)] unfolding unused_def by blast

lemma unused_interest: "poller_inv (poller s) \<Longrightarrow> unused f s \<Longrightarrow> interest (poller s) f = None"
  using interest_watched[of "poller s" f] unfolding unused_def by blast

text \<open>One more open connection.\<close>

lemma net_ok_extend:
  assumes ok: "net_ok E fds s" and fresh: "conns s c = None" "chans (poller s) d = None" "unused f s" "0 \<le> f"
    and s': "threadId s' = threadId s" "customEvents s' = customEvents s" "poller_inv (poller s')"
      "chans (poller s') = (chans (poller s))(d \<mapsto> ch)" "fds (kernel s') = insert f (fds (kernel s))"
      "conns s' = (conns s)(c \<mapsto> n)" "chan n = d" "sockfd n = f" "serves c n ch"
  shows "net_ok E fds s'"
proof -
  note I = net_okD[OF ok]
  have f: "fd ch = f" using s'(8,9) by (simp add: serves_def)
  have old: "sockfd m \<noteq> f \<and> chan m \<noteq> d" if "conns s x = Some m" for x m
    using I(4)[OF that] fresh(2,3) that by (auto simp: unused_def)
  have "watched fds s'"
    using I(2) s'(3-5) f fresh(4) unfolding watched_def by (auto split: if_splits)
  moreover have "apart (conns s')"
    unfolding apart_def s'(6)
  proof (intro allI impI)
    fix x y m m' assume "((conns s)(c \<mapsto> n)) x = Some m" "((conns s)(c \<mapsto> n)) y = Some m'" "x \<noteq> y"
    then show "chan m \<noteq> chan m' \<and> sockfd m \<noteq> sockfd m'"
      using old[of x m] old[of y m'] s'(7,8) ok by (auto simp: net_ok_def apart_def split: if_splits)
  qed
  moreover have "sockfd m \<in> fds (kernel s') \<and> (\<exists>e. chans (poller s') (chan m) = Some e \<and> serves x m e) \<and>
      (\<forall>y e. chans (poller s') y = Some e \<longrightarrow> \<not> isNoneEvent e \<longrightarrow> fd e = sockfd m \<longrightarrow> y = chan m)"
    if x: "conns s' x = Some m" for x m
  proof (cases "x = c")
    case True
    then have m: "m = n" using x s'(6) by simp
    have sole: "y = d" if "chans (poller s') y = Some e" "\<not> isNoneEvent e" "fd e = f" for y e
      using that s'(4) fresh(3) by (auto simp: unused_def split: if_splits)
    have "f \<in> fds (kernel s')" "chans (poller s') d = Some ch" using s'(4,5) by simp_all
    then show ?thesis unfolding m True s'(7,8) using sole s'(9) by blast
  next
    case False
    then have m: "conns s x = Some m" using x s'(6) by simp
    obtain e where e: "chans (poller s) (chan m) = Some e" "serves x m e" using I(4)[OF m] by blast
    have "y = chan m" if y: "chans (poller s') y = Some e'" "\<not> isNoneEvent e'" "fd e' = sockfd m" for y e'
    proof (cases "y = d")
      case True
      then show ?thesis using y s'(4) f old[OF m] by simp
    next
      case False
      then show ?thesis using y s'(4) I(5)[OF m] by simp
    qed
    then show ?thesis using e I(4)[OF m] old[OF m] s'(4,5) by auto
  qed
  ultimately show ?thesis using ok s'(1,2) by (simp add: net_ok_def)
qed

section \<open>What a user's callback may do\<close>

text \<open>
  On the loop's thread: send on any connected connection, as long as what waits fits a buffer, shut one down, take bytes from a read
  buffer, queue functions of its own.
\<close>

inductive user_step :: "('u, 'k, 'z) net_env \<Rightarrow> ('u, 'k, 'z) net_scheme \<Rightarrow> ('u, 'k, 'z) net_scheme \<Rightarrow> bool" for E where
  user_send: "conns s c = Some n \<Longrightarrow> status n = Connected \<Longrightarrow> length (contents (writeBuffer n)) + length bs < 2 ^ 63 \<Longrightarrow>
     send E c bs s = Inr s' \<Longrightarrow> user_step E s s'"
| user_shutdown: "conns s c = Some n \<Longrightarrow> connShutdown E c s = Inr s' \<Longrightarrow> user_step E s s'"
| user_take: "conns s c = Some n \<Longrightarrow> buf_wf rb \<Longrightarrow> s' = put_conn c (n\<lparr>readBuffer := rb\<rparr>) s \<Longrightarrow> user_step E s s'"
| user_queue: "queueInLoop (e_build E) (e_cur E) (User u) s = Inr s' \<Longrightarrow> user_step E s s'"

lemma user_step_calm:
  assumes "user_step E s s'" and ok: "net_ok E fds s" and F: "fd_law (e_os E) fds"
  shows "net_ok E fds s' \<and> calm {} {} fds s s' \<and> held s' = held s"
  using assms(1)
proof cases
  case (user_send c n bs)
  then have "sendInLoop E c bs s = Inr s'" using net_okD(1)[OF ok] by (simp add: send_def in_loop_def isInLoopThread_def)
  then show ?thesis using sendInLoop_calm[OF ok F user_send(1) _ user_send(3)] user_send(2) by auto
next
  case (user_shutdown c n)
  then have "shutdownInLoop E c s = Inr s'" using net_okD(1)[OF ok] by (simp add: connShutdown_def in_loop_def isInLoopThread_def)
  then show ?thesis using shutdownInLoop_calm[OF ok F user_shutdown(1)] by auto
next
  case (user_take c n rb)
  obtain ch where ch: "chans (poller s) (chan n) = Some ch" "serves c n ch" using net_okD(4)[OF ok user_take(1)] by blast
  have "put_conn c (n\<lparr>readBuffer := rb\<rparr>) s = put_conn c (n\<lparr>readBuffer := rb\<rparr>) (s\<lparr>kernel := kernel s\<rparr>)" by simp
  moreover have "status n \<noteq> Connecting" "buf_wf (writeBuffer n)" using ch(2) by (auto simp: serves_def)
  ultimately show ?thesis
    using open_put_conn[OF ok user_take(1) ch, of "n\<lparr>readBuffer := rb\<rparr>" "kernel s"] user_take(2,3)
    by (simp add: same_id_def) (simp add: put_conn_def)
next
  case (user_queue u)
  then obtain w where "s' = s\<lparr>customEvents := customEvents s @ [Func (User u)], wakeups := w\<rparr>"
    by (auto simp: queueInLoop_def elim!: queueTask_cases)
  then show ?thesis using ok by (auto simp: net_ok_def watched_def calm_def intro: rel_option_refl_on)
qed

lemma user_steps_calm:
  assumes "(user_step E)\<^sup>*\<^sup>* s s'" and "net_ok E fds s" and "fd_law (e_os E) fds"
  shows "net_ok E fds s' \<and> calm {} {} fds s s' \<and> held s' = held s"
  using assms
proof (induction rule: rtranclp_induct)
  case (step a b)
  then show ?case using user_step_calm[OF step(2), of fds] calm_trans[of "{}" "{}" fds s a b] by auto
qed simp

section \<open>The end of a connection\<close>

definition gone :: "('k \<Rightarrow> int set) \<Rightarrow> nat \<Rightarrow> ('u, 'k, 'z) net_scheme \<Rightarrow> ('u, 'k, 'z) net_scheme \<Rightarrow> bool" where
  "gone fds c s s' \<longleftrightarrow> (\<exists>n. conns s c = Some n \<and> conns s' = (conns s)(c := None) \<and>
     chans (poller s') = (chans (poller s))(chan n := None) \<and> fds (kernel s') = fds (kernel s) - {sockfd n} \<and>
     net.more s' = net.more s \<and> same_timers s s')"

lemma destroyConnection_ok:
  assumes ok: "net_ok E fds s" and F: "fd_law (e_os E) fds" and n: "conns s c = Some n" "status n = Disconnected"
    and ch: "chans (poller s) (chan n) = Some ch" "\<not> isHandling ch"
  shows "\<exists>s'. destroyConnection E c s = Inr s' \<and> net_ok E fds s' \<and> gone fds c s s' \<and> held s' = held s"
proof -
  note I = net_okD[OF ok]
  have none: "isNoneEvent ch" "fd ch = sockfd n" using I(4)[OF n(1)] ch(1) n(2) by (auto simp: serves_def)
  obtain p where p: "delete_channel (e_build E) (chan n) (poller s) = Inr p"
    using ch none by (simp add: delete_channel_def with_channel_def EventChannel_destroy_def)
  have pi: "poller_inv p" "chans p = (chans (poller s))(chan n := None)"
    using poller_inv_delete[OF I(3) ch(1) none(1) p] by blast+
  obtain k where k: "TcpSocket_destroy (e_build E) (e_os E) (sockfd n) (kernel s) = Inr k" "fds k = fds (kernel s) - {sockfd n}"
    using TcpSocket_destroy_fds[OF F] I(4)[OF n(1)] by blast
  let ?s = "s\<lparr>poller := p, kernel := k, conns := (conns s)(c := None)\<rparr>"
  have "interest p (sockfd n) = None"
    using interest_watched[OF pi(1), of "sockfd n"] I(5)[OF n(1)] pi(2) by (auto split: if_splits)
  then have e: "destroyConnection E c s = Inr ?s" using n p k(1) by (simp add: destroyConnection_def with_conn_def)
  have ap: "apart (conns s)" using ok by (simp add: net_ok_def)
  have other: "chan m \<noteq> chan n \<and> sockfd m \<noteq> sockfd n" if "conns s d = Some m" "d \<noteq> c" for d m
    using ap that n(1) unfolding apart_def by blast
  have "watched fds ?s"
  proof -
    have "fd e \<in> fds k" if e: "chans p d = Some e" "\<not> isNoneEvent e" for d e
    proof -
      have d: "d \<noteq> chan n" "chans (poller s) d = Some e" using e(1) pi(2) by (auto split: if_splits)
      then have "fd e \<in> fds (kernel s)" using watched_inI[OF I(2)] e(2) by blast
      moreover have "fd e \<noteq> sockfd n"
        using I(5)[OF n(1) d(2) e(2)] d(1) by blast
      ultimately show ?thesis using k(2) by simp
    qed
    then show ?thesis using I(2) pi(1) k(2) unfolding watched_def by auto
  qed
  moreover have "apart (conns ?s)" using ap by (auto simp: apart_def split: if_splits)
  moreover have "sockfd m \<in> fds k \<and> (\<exists>ch. chans p (chan m) = Some ch \<and> serves d m ch) \<and>
      (\<forall>x e. chans p x = Some e \<longrightarrow> \<not> isNoneEvent e \<longrightarrow> fd e = sockfd m \<longrightarrow> x = chan m)" if "conns ?s d = Some m" for d m
    using that other[of d m] I(4,5)[of d m] pi(2) k(2) by (auto split: if_splits)
  ultimately have "net_ok E fds ?s" using ok by (simp add: net_ok_def)
  moreover have "gone fds c s ?s" using n(1) pi(2) k(2) by (auto simp: gone_def)
  ultimately show ?thesis using e by auto
qed

section \<open>The contract of an owner\<close>

text \<open>
  \<open>held\<close> is what the running code refers to: it does not matter to the connections.
\<close>

lemma held_irrelevant [simp]:
  "net_ok E fds (s\<lparr>held := h\<rparr>) \<longleftrightarrow> net_ok E fds s"
  "calm C D fds (s\<lparr>held := h\<rparr>) s' \<longleftrightarrow> calm C D fds s s'"
  "calm C D fds s (s'\<lparr>held := h\<rparr>) \<longleftrightarrow> calm C D fds s s'"
  by (simp_all add: net_ok_def watched_def calm_def)

text \<open>
  What the owner provides: it knows which connections it has a \<^verbatim>\<open>shared_ptr\<close> to; its callback for closed
  connections lets go of the connection and leaves the others and their channels alone, in every state in which
  the owner's own data are in order; and those the operations of the connections do not touch.
\<close>

definition let_go :: "(nat \<Rightarrow> ('u, 'k, 'z) net_scheme \<Rightarrow> bool) \<Rightarrow> ('u, 'k, 'z) net_env \<Rightarrow> ('k \<Rightarrow> int set) \<Rightarrow> nat \<Rightarrow> ('u, 'k, 'z) net_scheme \<Rightarrow>
    ('u, 'k, 'z) net_scheme \<Rightarrow> bool" where
  "let_go owned E fds c s s' \<longleftrightarrow> e_ccall E OwnerRemove c s = Inr s' \<and> net_ok E fds s' \<and> conns s' = conns s \<and>
     c \<in> set (held s) \<and> held s' = held s \<and> \<not> owned c s' \<and> (\<forall>d ch. chans (poller s) d = Some ch \<longrightarrow> chans (poller s') d = Some ch)"

lemma let_goD:
  assumes "let_go owned E fds c s s'"
  shows "e_ccall E OwnerRemove c s = Inr s'" and "net_ok E fds s'" and "conns s' = conns s" and "held s' = held s"
    and "\<not> owned c s'" and "chans (poller s) d = Some ch \<Longrightarrow> chans (poller s') d = Some ch"
    and "c \<in> set (held s)"
  using assms by (simp_all add: let_go_def)

text \<open>The events that end a connection: a hangup with nothing to read, and a read that gets nothing or fails.\<close>

definition ends :: "('u, 'k, 'z) net_env \<Rightarrow> 'u conn \<Rightarrow> 32 word \<Rightarrow> ('u, 'k, 'z) net_scheme \<Rightarrow> bool" where
  "ends E n r s \<longleftrightarrow> r AND EPOLLHUP \<noteq> 0 \<and> r AND EPOLLIN = 0 \<or>
     r AND (EPOLLIN OR EPOLLPRI OR EPOLLRDHUP) \<noteq> 0 \<and>
     fst (tcp_read (e_os E) (sockfd n) (read_lens (readBuffer n)) (kernel s)) \<le> 0"

text \<open>
  A hangup is reported without input only when there is nothing else to read.  The read buffer has room for what is
  read.
\<close>

definition plausible :: "32 word \<Rightarrow> bool" where
  "plausible r \<longleftrightarrow> (r AND EPOLLHUP \<noteq> 0 \<longrightarrow> r AND EPOLLIN = 0 \<longrightarrow> r AND (EPOLLIN OR EPOLLPRI OR EPOLLRDHUP) = 0)"

definition event_room :: "nat \<Rightarrow> ('u, 'k, 'z) net_scheme \<Rightarrow> bool" where
  "event_room d s \<longleftrightarrow> (\<forall>c n. conns s c = Some n \<longrightarrow> chan n = d \<longrightarrow> length (mem (readBuffer n)) < 2 ^ 61)"

text \<open>A connection that is not open yet, and its channel.\<close>

definition made_chan :: "nat \<Rightarrow> int \<Rightarrow> 'u func callback channel \<Rightarrow> bool" where
  "made_chan c f ch \<longleftrightarrow> fd ch = f \<and> isNoneEvent ch \<and> \<not> isHandling ch \<and> eventCallback ch = None \<and>
     readCallback ch = Some (Callback (HandleRead c)) \<and> writeCallback ch = Some (Callback (HandleWrite c)) \<and>
     closeCallback ch = Some (Callback (HandleClose c)) \<and> errorCallback ch = Some (Callback (HandleError c))"

definition made_conn :: "'u conn \<Rightarrow> bool" where
  "made_conn n \<longleftrightarrow> status n = Disconnected \<and> readBuffer n = MessageBuffer 1024 \<and> writeBuffer n = MessageBuffer 1024 \<and>
     (\<exists>u. connectionCallback n = Some (UserFunc u)) \<and> (\<exists>u. messageCallback n = Some (UserFunc u)) \<and>
     connCloseCallback n = Some OwnerRemove"

definition new_conn :: "int \<Rightarrow> nat \<Rightarrow> sockaddr \<Rightarrow> sockaddr \<Rightarrow> 'u conn" where
  "new_conn f d la peer = \<lparr>sockfd = f, chan = d, status = Disconnected, localAddr = la, peerAddr = peer, connectionCallback = None,
     messageCallback = None, connCloseCallback = None, readBuffer = MessageBuffer 1024, writeBuffer = MessageBuffer 1024\<rparr>"

lemma TcpConnection_made:
  assumes I: "poller_inv (poller s)" and F: "fd_law (e_os E) fds" and f: "0 < f" and d: "chans (poller s) d = None"
    and la: "isValid (e_host E) (fst (localAddress (e_os E) f (kernel s)))" and peer: "isValid (e_host E) peer"
  shows "\<exists>p k la ch. TcpConnection E c d f peer s = Inr (s\<lparr>poller := p, kernel := k, conns := (conns s)(c \<mapsto> new_conn f d la peer)\<rparr>) \<and>
    poller_inv p \<and> interest p = interest (poller s) \<and> chans p = (chans (poller s))(d \<mapsto> ch) \<and> made_chan c f ch \<and> fds k = fds (kernel s)"
proof -
  obtain s1 where s1: "TcpConnection E c d f peer s = Inr s1"
    using f la peer
    by (simp add: TcpConnection_def TcpSocket_def new_channel_def EventChannel_def with_channel_def case_prod_beta Let_def)
  obtain ch la where n: "chans (poller s1) = (chans (poller s))(d \<mapsto> ch)" "fd ch = f"
      "isNoneEvent ch" "\<not> isHandling ch" "eventCallback ch = None" "readCallback ch = Some (Callback (HandleRead c))"
      "writeCallback ch = Some (Callback (HandleWrite c))" "closeCallback ch = Some (Callback (HandleClose c))"
      "errorCallback ch = Some (Callback (HandleError c))" "poller_inv (poller s1)" "interest (poller s1) = interest (poller s)"
      "kernel s1 = snd (tcp_setKeepAlive (e_os E) f True (snd (localAddress (e_os E) f (kernel s))))"
      "s1 = s\<lparr>poller := poller s1, kernel := kernel s1, conns := (conns s)(c \<mapsto> new_conn f d la peer)\<rparr>"
    using TcpConnection_new[OF s1 I d] unfolding new_conn_def by auto
  have "fds (kernel s1) = fds (kernel s)" unfolding n(12) using fd_law_simps[OF F] by simp
  moreover have "made_chan c f ch" using n by (simp add: made_chan_def)
  ultimately show ?thesis
    using s1 n by (intro exI[of _ "poller s1"] exI[of _ "kernel s1"] exI[of _ la] exI[of _ ch]) simp
qed

locale connection_owner =
  fixes lawful :: "('u, 'k, 'z) net_env \<Rightarrow> ('k \<Rightarrow> int set) \<Rightarrow> bool" 
    and owned :: "nat \<Rightarrow> ('u, 'k, 'z) net_scheme \<Rightarrow> bool" and good :: "('u, 'k, 'z) net_scheme \<Rightarrow> bool"
  assumes laws: "lawful E fds \<Longrightarrow> fd_law (e_os E) fds \<and> io_law (e_os E)"
    and owner: "lawful E fds \<Longrightarrow> e_owned E c s \<longleftrightarrow> owned c s"
    and owned_more: "net.more s' = net.more s \<Longrightarrow> owned c s' \<longleftrightarrow> owned c s"
    and user: "lawful E fds \<Longrightarrow> net_ok E fds s \<Longrightarrow> conns s c \<noteq> None \<Longrightarrow>
      \<exists>s'. e_ccall E (UserFunc u) c s = Inr s' \<and> (user_step E)\<^sup>*\<^sup>* s s'"
    and good_calm: "good s \<Longrightarrow> calm C D fds s s' \<Longrightarrow> threadId s' = threadId s \<Longrightarrow> good s'"
    and remove: "lawful E fds \<Longrightarrow> net_ok E fds s \<Longrightarrow> good s \<Longrightarrow> conns s c = Some n \<Longrightarrow> status n = Disconnected \<Longrightarrow>
      owned c s \<Longrightarrow> c \<in> set (held s) \<Longrightarrow> \<exists>s'. let_go owned E fds c s s'"
begin

lemma owned_simps [simp]:
  "owned c (s\<lparr>kernel := k\<rparr>) = owned c s" "owned c (s\<lparr>held := h\<rparr>) = owned c s" "owned c (hold c s) = owned c s"
  "owned c (put_loop d ch s) = owned c s"
  by (rule owned_more, simp add: hold_def put_loop_def)+

lemma owned_calm: "calm C D fds s s' \<Longrightarrow> owned c s' = owned c s"
  by (rule owned_more) (simp add: calm_def)

lemmas fd_laws = laws[THEN conjunct1] and io_laws = laws[THEN conjunct2]

lemma user_calm:
  assumes L: "lawful E fds" and "net_ok E fds s" and "conns s c \<noteq> None"
  shows "\<exists>s'. e_ccall E (UserFunc u) c s = Inr s' \<and> net_ok E fds s' \<and> calm {} {} fds s s' \<and> held s' = held s"
  using user[OF assms] user_steps_calm[OF _ assms(2) fd_laws[OF L]] by blast

lemma good_ok: "good s \<Longrightarrow> net_ok E fds s \<Longrightarrow> net_ok E fds s' \<Longrightarrow> calm C D fds s s' \<Longrightarrow> good s'"
  using good_calm net_okD(1) by metis

lemma unhold_held:
  assumes "held s = c # h" and "c \<in> set h"
  shows "unhold E c s = Inr (s\<lparr>held := h\<rparr>)"
  using assms by (simp add: unhold_def drop_ref_def referenced_def)

lemma call_user:
  assumes L: "lawful E fds" and ok: "net_ok E fds s" and n: "conns s c = Some n" "cb n = Some (UserFunc u)"
  shows "\<exists>s'. call_conn E c cb s = Inr s' \<and> net_ok E fds s' \<and> calm {} {} fds s s' \<and> held s' = held s"
  using user_calm[OF L ok, of c u] n by (simp add: call_conn_def with_conn_def)

text \<open>The owner lets go of a connection that was closed.\<close>

lemma handleClose_ok:
  assumes L: "lawful E fds" and ok: "net_ok E fds s" and g: "good s" and n: "conns s c = Some n" "status n \<noteq> Disconnected"
    and o: "owned c s" and h: "c \<in> set (held s)"
  shows "\<exists>s1 s2 n1. handleClose E c s = Inr (s2\<lparr>held := held s\<rparr>) \<and> net_ok E fds s1 \<and> good s1 \<and> calm {c} {} fds s s1 \<and>
    conns s1 c = Some n1 \<and> status n1 = Disconnected \<and> let_go owned E fds c s1 s2"
proof -
  obtain a where a: "closeChannel E c s = Inr a" "net_ok E fds a" "calm {c} {} fds s a" "held a = held s"
      "conns a c = Some (n\<lparr>status := Disconnected\<rparr>)"
    using closeChannel_calm[OF ok n] by blast
  let ?b = "hold c a"
  have b: "net_ok E fds ?b" "conns ?b c = Some (n\<lparr>status := Disconnected\<rparr>)" "held ?b = c # held s"
    using a by (simp_all add: hold_def)
  obtain u where u: "connectionCallback (n\<lparr>status := Disconnected\<rparr>) = Some (UserFunc u)"
    using net_okD(4)[OF b(1,2)] by (auto simp: serves_def)
  obtain s1 where s1: "call_conn E c connectionCallback ?b = Inr s1" "net_ok E fds s1" "calm {} {} fds ?b s1" "held s1 = c # held s"
    using call_user[OF L b(1,2), where cb = connectionCallback, OF u] b(3) by auto
  have sa: "calm {} {} fds a s1" using s1(3) by (simp add: hold_def)
  then have ss: "calm {c} {} fds s s1" using a(3) calm_trans calm_mono[OF sa, of "{c}" "{}"] by blast
  obtain n1 where n1: "conns s1 c = Some n1" "status n1 = Disconnected" "connCloseCallback n1 = connCloseCallback n"
    using calm_conn[OF s1(3) b(2)] by (auto simp: same_id_def)
  have g1: "good s1" using good_ok[OF g ok s1(2) ss] .
  have "owned c s1" using owned_calm[OF ss] o by simp
  then obtain s2 where s2: "let_go owned E fds c s1 s2"
    using remove[OF L s1(2) g1 n1(1,2)] o s1(4) by auto
  have "connCloseCallback n1 = Some OwnerRemove" using net_okD(4)[OF s1(2) n1(1)] by (auto simp: serves_def)
  then have "call_conn E c connCloseCallback s1 = Inr s2" using n1(1) let_goD(1)[OF s2] by (simp add: call_conn_def with_conn_def)
  moreover have "held s2 = c # held s" using let_goD(4)[OF s2] s1(4) by simp
  ultimately have "handleClose E c s = Inr (s2\<lparr>held := held s\<rparr>)"
    using a(1) s1(1) h by (simp add: handleClose_def holding_def unhold_held)
  then show ?thesis using s1(2) g1 ss n1(1,2) s2 by blast
qed

text \<open>
  A connection that was made and got its callbacks is opened: up to its connection callback it is one more
  in the state, and the rest is as it was.
\<close>

lemma init_ok:
  assumes L: "lawful E fds" and ok: "net_ok E fds s" and fresh: "conns s c = None" "chans (poller s) (chan n) = None"
      "unused (sockfd n) s" "0 \<le> sockfd n"
    and t: "threadId t = threadId s" "customEvents t = customEvents s" "poller_inv (poller t)" "interest (poller t) = interest (poller s)"
      "chans (poller t) = (chans (poller s))(chan n \<mapsto> ch)" "fds (kernel t) = insert (sockfd n) (fds (kernel s))"
      "conns t = (conns s)(c \<mapsto> n)"
    and made: "made_chan c (sockfd n) ch" "made_conn n" and ref: "c \<in> set (held t) \<or> owned c t"
  shows "\<exists>a b. connInit E c t = Inr b \<and> held b = held t \<and> net_ok E fds a \<and> net_ok E fds b \<and> calm {} {} fds a b \<and>
    conns a = (conns s)(c \<mapsto> n\<lparr>status := Connected\<rparr>) \<and>
    chans (poller a) = (chans (poller s))(chan n \<mapsto> ch\<lparr>bindObject := Some c, events := READ_EVENT\<rparr>) \<and>
    fds (kernel a) = fds (kernel t) \<and> net.more a = net.more t \<and> same_timers t a"
proof -
  note I = net_okD[OF ok]
  let ?n = "n\<lparr>status := Connected\<rparr>" and ?ch = "ch\<lparr>bindObject := Some c, events := READ_EVENT\<rparr>"
  have here: "threadId t = e_cur E" using t(1) I(1) by simp
  have f: "conns t c = Some n" "chans (poller t) (chan n) = Some ch" using t(5,7) by simp_all
  have "conn_new E (\<lambda>_. {}) n t"
    using made f t(3,4) here wf_MessageBuffer unused_interest[OF I(3) fresh(3)]
    by (simp add: conn_new_def made_chan_def made_conn_def)
  from openChannel_eq[OF f(1) this f(2)] obtain p where p: "openChannel E c t = Inr (put_conn c ?n t\<lparr>poller := p\<rparr>)"
      "poller_inv p" "chans p = (chans (poller t))(chan n \<mapsto> ?ch)"
    by auto
  define a where "a = put_conn c ?n t\<lparr>poller := p\<rparr>"
  have ca: "conns a = (conns s)(c \<mapsto> ?n)" "chans (poller a) = (chans (poller s))(chan n \<mapsto> ?ch)" "fds (kernel a) = fds (kernel t)"
      "net.more a = net.more t" "held a = held t" "threadId a = threadId s" "customEvents a = customEvents s" "poller_inv (poller a)"
      "same_timers t a"
    using p(2,3) t by (simp_all add: a_def put_conn_def same_timers_def)
  have sv: "serves c ?n ?ch"
    using made wf_MessageBuffer by (auto simp: made_chan_def made_conn_def serves_def isReading_events mask_nonzero)
  have oka: "net_ok E fds a"
    by (rule net_ok_extend[OF ok fresh, where ch = ?ch and n = ?n]) (use ca t(6) sv in simp_all)
  obtain u where u: "connectionCallback ?n = Some (UserFunc u)" using made(2) by (auto simp: made_conn_def)
  have h: "net_ok E fds (hold c a)" "conns (hold c a) c = Some ?n" "held (hold c a) = c # held t"
    using oka ca by (simp_all add: hold_def)
  obtain b where b: "call_conn E c connectionCallback (hold c a) = Inr b" "net_ok E fds b" "calm {} {} fds (hold c a) b"
      "held b = c # held t"
    using call_user[OF L h(1,2), where cb = connectionCallback, OF u] h(3) by auto
  have cb: "calm {} {} fds a b" using b(3) by (simp add: hold_def)
  have "owned c b = owned c t" using owned_calm[OF cb] owned_more[of a t c] ca(4) by simp
  then have "unhold E c b = Inr (b\<lparr>held := held t\<rparr>)"
    using ref b(4) owner[OF L, of c "b\<lparr>held := held t\<rparr>"] by (auto simp: unhold_def drop_ref_def referenced_def)
  moreover have "openChannel E c t = Inr a" using p(1) by (simp add: a_def)
  ultimately have "connInit E c t = Inr (b\<lparr>held := held t\<rparr>)"
    using b(1) here by (simp add: connInit_def in_loop_def isInLoopThread_def initInLoop_def holding_def)
  then show ?thesis using oka b(2) cb ca by (intro exI[of _ a] exI[of _ "b\<lparr>held := held t\<rparr>"]) simp
qed

text \<open>A read event: the message callback, or the end of the connection.\<close>

lemma handleRead_ok:
  assumes L: "lawful E fds" and ok: "net_ok E fds s" and g: "good s" and n: "conns s c = Some n" "status n \<noteq> Disconnected"
    and o: "owned c s" and h: "c \<in> set (held s)" and room: "length (mem (readBuffer n)) < 2 ^ 61"
  shows "if 0 < fst (tcp_read (e_os E) (sockfd n) (read_lens (readBuffer n)) (kernel s))
    then \<exists>s'. handleRead E c s = Inr s' \<and> net_ok E fds s' \<and> calm {} {} fds s s' \<and> held s' = held s
    else \<exists>s1 s2 n1. handleRead E c s = Inr (s2\<lparr>held := held s\<rparr>) \<and> net_ok E fds s1 \<and> good s1 \<and> calm {c} {} fds s s1 \<and>
      conns s1 c = Some n1 \<and> status n1 = Disconnected \<and> let_go owned E fds c s1 s2"
proof -
  obtain ch where ch: "chans (poller s) (chan n) = Some ch" "serves c n ch" using net_okD(4)[OF ok n(1)] by blast
  have wf: "buf_wf (readBuffer n)" "buf_wf (writeBuffer n)" "status n \<noteq> Connecting" using ch(2) by (auto simp: serves_def)
  obtain r bs k1 where R: "tcp_read (e_os E) (sockfd n) (read_lens (readBuffer n)) (kernel s) = (r, bs, k1)"
    by (cases "tcp_read (e_os E) (sockfd n) (read_lens (readBuffer n)) (kernel s)")
  have k1: "fds k1 = fds (kernel s)"
    using fd_law_simps(4)[OF fd_laws[OF L], of "sockfd n" "read_lens (readBuffer n)" "kernel s"] R by simp
  note s1 = kernel_calm[OF ok k1]
  have here: "in_loop E s" using net_okD(1)[OF ok] by (simp add: in_loop_def isInLoopThread_def)
  show ?thesis
  proof (cases "0 < r")
    case False
    then have e: "handleRead E c s = handleClose E c (s\<lparr>kernel := k1\<rparr>)"
      using here n(1) R by (simp add: handleRead_def with_conn_def Let_def)
    obtain a b n1 where a: "handleClose E c (s\<lparr>kernel := k1\<rparr>) = Inr (b\<lparr>held := held s\<rparr>)" "net_ok E fds a" "good a"
        "calm {c} {} fds (s\<lparr>kernel := k1\<rparr>) a" "conns a c = Some n1" "status n1 = Disconnected" "let_go owned E fds c a b"
      using handleClose_ok[OF L, of "s\<lparr>kernel := k1\<rparr>" c n] s1 good_ok[OF g ok] n o h by auto
    have "calm {c} {} fds s (s\<lparr>kernel := k1\<rparr>)" using s1 calm_mono by blast
    then have "calm {c} {} fds s a" using a(4) calm_trans by blast
    then show ?thesis using e a R False by auto
  next
    case True
    let ?rb = "readBuffer n"
    have bs: "r = int (length bs)" "length bs \<le> sum_list (read_lens ?rb)" using io_lawD(2,3)[OF io_laws[OF L] R] True by simp_all
    have "wr ?rb \<le> length (mem ?rb)" "length (contents ?rb) \<le> length (mem ?rb)" "writeByte ?rb \<le> length (mem ?rb)"
      using wf(1) by (auto simp: buf_wf_def contents_def cells_def writeByte_def)
    moreover have "sum_list (read_lens ?rb) \<le> writeByte ?rb + 8192" by (simp add: read_lens_def)
    ultimately have "length (contents ?rb) + length bs < 2 ^ 63" using room bs(2) by simp
    then obtain rb where rb: "takeIn (e_build E) (length bs) bs ?rb = Inr rb" "buf_wf rb" using takeIn_ok[OF wf(1)] by blast
    let ?n = "n\<lparr>readBuffer := rb\<rparr>" and ?s = "put_conn c (n\<lparr>readBuffer := rb\<rparr>) (s\<lparr>kernel := k1\<rparr>)"
    have q: "net_ok E fds ?s" "calm {} {} fds s ?s"
      using open_put_conn[OF ok n(1) ch, of ?n k1] wf rb(2) k1 by (simp_all add: same_id_def)
    have e: "handleRead E c s = holding E c (call_conn E c messageCallback) ?s"
      using here n(1) R True rb(1) bs(1) by (simp add: handleRead_def with_conn_def Let_def)
    obtain u where u: "messageCallback ?n = Some (UserFunc u)" using ch(2) by (auto simp: serves_def)
    have b: "net_ok E fds (hold c ?s)" "conns (hold c ?s) c = Some ?n" "held (hold c ?s) = c # held s"
      using q(1) by (simp_all add: hold_def put_conn_def)
    obtain t where t: "call_conn E c messageCallback (hold c ?s) = Inr t" "net_ok E fds t" "calm {} {} fds (hold c ?s) t" "held t = c # held s"
      using call_user[OF L b(1,2), where cb = messageCallback, OF u] b(3) by auto
    have "handleRead E c s = Inr (t\<lparr>held := held s\<rparr>)" using e t(1,4) h by (simp add: holding_def unhold_held)
    moreover have "calm {} {} fds s t" using q(2) t(3) calm_trans by (auto simp: hold_def)
    ultimately have "\<exists>s'. handleRead E c s = Inr s' \<and> net_ok E fds s' \<and> calm {} {} fds s s' \<and> held s' = held s"
      using t(2) by (intro exI[of _ "t\<lparr>held := held s\<rparr>"]) simp
    then show ?thesis using R True by simp
  qed
qed

text \<open>The end of the handlers of an event: writing, and the flag.\<close>

lemma event_tail:
  assumes L: "lawful E fds" and ok: "net_ok E fds s" and n: "conns s c = Some n"
  shows "\<exists>s'. res_bind (stage look_loop (call_callback (call_func E other)) (chan n) p writeCallback s)
      (set_handling look_loop put_loop (chan n) False) = Inr s' \<and> net_ok E fds s' \<and> calm {} {chan n} fds s s' \<and>
    held s' = held s \<and> (\<exists>ch. chans (poller s') (chan n) = Some ch \<and> \<not> isHandling ch)"
proof -
  obtain ch where ch: "chans (poller s) (chan n) = Some ch" "serves c n ch" using net_okD(4)[OF ok n] by blast
  obtain a where a: "stage look_loop (call_callback (call_func E other)) (chan n) p writeCallback s = Inr a"
    "net_ok E fds a" "calm {} {} fds s a" "held a = held s"
  proof (cases "p (revents ch)")
    case True
    then show ?thesis
      using that handleWrite_calm[OF ok fd_laws[OF L] io_laws[OF L] n] ch
      by (auto simp: stage_def with_channel_def look_loop_def call_if_def serves_def)
  next
    case False
    then show ?thesis using that ok ch by (auto simp: stage_def with_channel_def look_loop_def call_if_def)
  qed
  obtain m where m: "conns a c = Some m" "chan m = chan n" using calm_conn[OF a(3) n] by (auto simp: same_id_def)
  obtain e where e: "chans (poller a) (chan n) = Some e" using net_okD(4)[OF a(2) m(1)] m(2) by auto
  let ?s = "put_loop (chan n) (e\<lparr>isHandling := False\<rparr>) a"
  have "set_handling look_loop put_loop (chan n) False a = Inr ?s"
    using e by (simp add: set_handling_def with_channel_def look_loop_def)
  moreover have "net_ok E fds ?s" "calm {} {chan n} fds a ?s"
    using handling_calm[OF a(2) m(1)] e m(2) by auto
  moreover have "held ?s = held s" using a(4) by (simp add: put_loop_def)
  moreover have "calm {} {chan n} fds s a" using a(3) calm_mono by blast
  ultimately show ?thesis using a(1) calm_trans by (fastforce simp: put_loop_def)
qed

text \<open>
  The handlers of an event on an open connection: it stays open, or it is closed and its owner lets go of it.  A hangup
  is reported without input only when there is nothing else to read.
\<close>

lemma handlers_ok:
  assumes L: "lawful E fds" and ok: "net_ok E fds s" and g: "good s" and n: "conns s c = Some n" "status n \<noteq> Disconnected"
    and o: "owned c s" and h: "c \<in> set (held s)" and room: "length (mem (readBuffer n)) < 2 ^ 61"
    and ch: "chans (poller s) (chan n) = Some ch"
    and hup: "revents ch AND EPOLLHUP \<noteq> 0 \<Longrightarrow> revents ch AND EPOLLIN = 0 \<Longrightarrow> revents ch AND (EPOLLIN OR EPOLLPRI OR EPOLLRDHUP) = 0"
  shows "\<exists>s'. handlerEventSafe look_loop put_loop (call_callback (call_func E other)) True (chan n) s = Inr s' \<and>
    net_ok E fds s' \<and> held s' = held s \<and> (\<exists>ch. chans (poller s') (chan n) = Some ch \<and> \<not> isHandling ch) \<and>
    (if ends E n (revents ch) s then \<exists>s1 s2 n1. net_ok E fds s1 \<and> good s1 \<and> calm {c} {chan n} fds s s1 \<and>
      conns s1 c = Some n1 \<and> status n1 = Disconnected \<and> let_go owned E fds c s1 s2 \<and> calm {} {chan n} fds s2 s'
     else calm {} {chan n} fds s s')"
proof -
  let ?d = "chan n" and ?call = "call_callback (call_func E other)"
  let ?r = "revents ch" and ?pw = "\<lambda>r. r AND EPOLLOUT \<noteq> 0 \<and> r AND EPOLLHUP = 0"
  let ?s1 = "put_loop (chan n) (ch\<lparr>isHandling := True\<rparr>) s" and ?ch = "ch\<lparr>isHandling := True\<rparr>"
  have sv: "serves c n ch" using net_okD(4)[OF ok n(1)] ch by auto
  have q: "net_ok E fds ?s1" "calm {} {?d} fds s ?s1" using handling_calm[OF ok n(1) ch] by blast+
  have c1: "calm {c} {?d} fds s ?s1" using q(2) calm_mono by blast
  have g1: "good ?s1" using good_ok[OF g ok q] .
  have f1: "conns ?s1 c = Some n" "net.more ?s1 = net.more s" "held ?s1 = held s" "chans (poller ?s1) ?d = Some ?ch"
    using n by (simp_all add: put_loop_def)
  have sh: "set_handling look_loop put_loop ?d True s = Inr ?s1"
    using ch by (simp add: set_handling_def with_channel_def look_loop_def)
  have cb: "eventCallback ch = None" "closeCallback ch = Some (Callback (HandleClose c))" "errorCallback ch = Some (Callback (HandleError c))"
      "readCallback ch = Some (Callback (HandleRead c))"
    using sv by (simp_all add: serves_def)
  note body = handlerEventSafe_def with_channel_def look_loop_def stage_def call_if_def handleError_def
  have fin: ?thesis
    if run: "handlerEventSafe look_loop put_loop ?call True ?d s = res_bind (stage look_loop ?call ?d ?pw writeCallback a)
        (set_handling look_loop put_loop ?d False)"
      and a: "net_ok E fds a" "held a = held s" "conns a c = Some m" "chan m = chan n"
      and out: "if ends E n ?r s then \<exists>s1 s2 n1. net_ok E fds s1 \<and> good s1 \<and> calm {c} {?d} fds s s1 \<and>
        conns s1 c = Some n1 \<and> status n1 = Disconnected \<and> let_go owned E fds c s1 s2 \<and> calm {} {?d} fds s2 a
        else calm {} {?d} fds s a" for a m
  proof -
    obtain s' where s': "handlerEventSafe look_loop put_loop ?call True ?d s = Inr s'" "net_ok E fds s'" "calm {} {?d} fds a s'"
        "held s' = held s" "\<exists>ch. chans (poller s') ?d = Some ch \<and> \<not> isHandling ch"
      using event_tail[OF L a(1,3), of other ?pw] a(2,4) run by auto
    have "if ends E n ?r s then \<exists>s1 s2 n1. net_ok E fds s1 \<and> good s1 \<and> calm {c} {?d} fds s s1 \<and>
        conns s1 c = Some n1 \<and> status n1 = Disconnected \<and> let_go owned E fds c s1 s2 \<and> calm {} {?d} fds s2 s'
        else calm {} {?d} fds s s'"
      using out s'(3) by (cases "ends E n ?r s") (simp_all, (blast intro: calm_trans)+)
    then show ?thesis using s' by blast
  qed
  show ?thesis
  proof (cases "?r AND EPOLLHUP \<noteq> 0 \<and> ?r AND EPOLLIN = 0")
    case True
    obtain a b n1 where a: "handleClose E c ?s1 = Inr (b\<lparr>held := held s\<rparr>)" "net_ok E fds a" "good a" "calm {c} {} fds ?s1 a"
        "conns a c = Some n1" "status n1 = Disconnected" "let_go owned E fds c a b"
      using handleClose_ok[OF L q(1) g1 f1(1) n(2)] o h f1(2,3) by auto
    note R = let_goD[OF a(7)]
    obtain e where e: "chans (poller a) ?d = Some e" "same_chan ?ch e" using calm_chan[OF a(4) f1(4)] .
    have e2: "chans (poller b) ?d = Some e" using R e(1) by blast
    have re: "revents e = ?r" "errorCallback e = errorCallback ch" "readCallback e = readCallback ch"
      using e(2) by (cases e; cases ch; simp add: same_chan_def)+
    let ?b = "b\<lparr>held := held s\<rparr>"
    have run: "handlerEventSafe look_loop put_loop ?call True ?d s = res_bind (stage look_loop ?call ?d ?pw writeCallback ?b)
        (set_handling look_loop put_loop ?d False)"
      using sh f1(4) cb a(1) True e2 re hup by (simp add: body)
    have ac: "calm {c} {?d} fds s a" using c1 a(4) calm_mono[OF a(4)] calm_trans by blast
    obtain m where "conns a c = Some m" "chan m = chan n" using calm_conn[OF a(4) f1(1)] by (auto simp: same_id_def)
    then have m: "conns ?b c = Some m" "chan m = chan n" using R by simp_all
    have "net_ok E fds a \<and> good a \<and> calm {c} {?d} fds s a \<and>
        conns a c = Some n1 \<and> status n1 = Disconnected \<and> let_go owned E fds c a b \<and> calm {} {?d} fds b ?b"
      using a ac by simp
    moreover have "ends E n ?r s" using True by (simp add: ends_def)
    moreover have "net_ok E fds ?b" "held ?b = held s" using R(2) by simp_all
    ultimately show ?thesis by (intro fin[OF run _ _ m]) (assumption, assumption, simp only: if_True, blast)
  next
    case nc: False
    let ?pr = "\<lambda>r. r AND (EPOLLIN OR EPOLLPRI OR EPOLLRDHUP) \<noteq> 0"
    have run: "handlerEventSafe look_loop put_loop ?call True ?d s = res_bind (if ?pr ?r then handleRead E c ?s1 else Inr ?s1)
        (\<lambda>a. res_bind (stage look_loop ?call ?d ?pw writeCallback a) (set_handling look_loop put_loop ?d False))"
      using sh f1(4) cb nc by (auto simp: body)
    show ?thesis
    proof (cases "?pr ?r")
      case False
      then have "\<not> ends E n ?r s" using nc by (auto simp: ends_def)
      then show ?thesis using fin[of ?s1 n] False run q f1 by auto
    next
      case True
      let ?pos = "0 < fst (tcp_read (e_os E) (sockfd n) (read_lens (readBuffer n)) (kernel s))"
      have en: "ends E n ?r s \<longleftrightarrow> \<not> ?pos" "kernel ?s1 = kernel s" using nc True by (auto simp: ends_def put_loop_def)
      from handleRead_ok[OF L q(1) g1 f1(1) n(2) _ _ room] o h f1(2,3)
      consider a where ?pos "handleRead E c ?s1 = Inr a" "net_ok E fds a" "calm {} {} fds ?s1 a" "held a = held s"
        | a b n1 where "\<not> ?pos" "handleRead E c ?s1 = Inr (b\<lparr>held := held s\<rparr>)" "net_ok E fds a" "good a" "calm {c} {} fds ?s1 a"
            "conns a c = Some n1" "status n1 = Disconnected" "let_go owned E fds c a b"
        by (auto simp: en(2) split: if_splits)
      then show ?thesis
      proof cases
        case 1
        obtain m where m: "conns a c = Some m" "chan m = chan n" using calm_conn[OF 1(4) f1(1)] by (auto simp: same_id_def)
        have "calm {} {?d} fds s a" using q(2) calm_mono[OF 1(4)] calm_trans by blast
        then show ?thesis using fin[of a m] run True 1 m en(1) by simp
      next
        case 2
        note R = let_goD[OF 2(8)]
        have ac: "calm {c} {?d} fds s a" using c1 calm_mono[OF 2(5)] calm_trans by blast
        obtain m where "conns a c = Some m" "chan m = chan n" using calm_conn[OF 2(5) f1(1)] by (auto simp: same_id_def)
        then have m: "conns (b\<lparr>held := held s\<rparr>) c = Some m" "chan m = chan n" using R by simp_all
        have out: "net_ok E fds a \<and> good a \<and> calm {c} {?d} fds s a \<and>
            conns a c = Some n1 \<and> status n1 = Disconnected \<and> let_go owned E fds c a b \<and> calm {} {?d} fds b (b\<lparr>held := held s\<rparr>)"
          using 2 ac by simp
        have "handlerEventSafe look_loop put_loop ?call True ?d s = res_bind (stage look_loop ?call ?d ?pw writeCallback (b\<lparr>held := held s\<rparr>))
            (set_handling look_loop put_loop ?d False)" using run True 2(2) by simp
        moreover have "ends E n ?r s" using en(1) 2(1) by simp
        moreover have "net_ok E fds (b\<lparr>held := held s\<rparr>)" "held (b\<lparr>held := held s\<rparr>) = held s" using R(2) by simp_all
        ultimately show ?thesis using out
          by (intro fin[OF _ _ _ m]) (assumption, assumption, assumption, simp only: if_True, blast)
      qed
    qed
  qed
qed

text \<open>
  An event on an open connection, while nothing else runs: it stays open and the owner keeps it, or it is closed,
  let go of, and destroyed with its channel and its descriptor.
\<close>

lemma event_ok:
  assumes L: "lawful E fds" and ok: "net_ok E fds s" and g: "good s" and n: "conns s c = Some n" "status n \<noteq> Disconnected"
    and o: "owned c s" and h: "held s = []" and room: "length (mem (readBuffer n)) < 2 ^ 61"
    and ch: "chans (poller s) (chan n) = Some ch" "\<not> isHandling ch"
    and hup: "revents ch AND EPOLLHUP \<noteq> 0 \<Longrightarrow> revents ch AND EPOLLIN = 0 \<Longrightarrow> revents ch AND (EPOLLIN OR EPOLLPRI OR EPOLLRDHUP) = 0"
  shows "\<exists>s'. conn_event E other (chan n) s = Inr s' \<and> net_ok E fds s' \<and> held s' = [] \<and>
    (if ends E n (revents ch) s then \<exists>s1 s2 s3 n1. net_ok E fds s1 \<and> good s1 \<and> calm {c} {chan n} fds s s1 \<and>
      conns s1 c = Some n1 \<and> status n1 = Disconnected \<and> let_go owned E fds c s1 s2 \<and> calm {} {chan n} fds s2 s3 \<and> gone fds c s3 s'
     else calm {} {} fds s s')"
proof -
  let ?h = "hold c s" and ?d = "chan n"
  have H: "net_ok E fds ?h" "calm {} {} fds s ?h" "conns ?h = conns s" "net.more ?h = net.more s" "poller ?h = poller s" "held ?h = [c]"
    using ok h by (simp_all add: hold_def)
  have here: "in_loop E ?h" "in_loop E s"
    using net_okD(1)[OF H(1)] net_okD(1)[OF ok] by (simp_all add: in_loop_def isInLoopThread_def)
  have "good ?h" using good_ok[OF g ok H(1,2)] .
  then obtain a where a: "handlerEventSafe look_loop put_loop (call_callback (call_func E other)) True ?d ?h = Inr a"
    "net_ok E fds a" "held a = [c]" "\<exists>ch. chans (poller a) ?d = Some ch \<and> \<not> isHandling ch"
    "if ends E n (revents ch) ?h then \<exists>s1 s2 n1. net_ok E fds s1 \<and> good s1 \<and> calm {c} {?d} fds ?h s1 \<and>
      conns s1 c = Some n1 \<and> status n1 = Disconnected \<and> let_go owned E fds c s1 s2 \<and> calm {} {?d} fds s2 a
     else calm {} {?d} fds ?h a"
    using handlers_ok[OF L, of ?h c n ch other] H n o room ch(1) hup by auto
  have en: "ends E n (revents ch) ?h = ends E n (revents ch) s" by (simp add: ends_def hold_def)
  have bo: "bindObject ch = Some c" using net_okD(4)[OF ok n(1)] ch(1) by (auto simp: serves_def)
  have e: "conn_event E other ?d s = unhold E c a"
    using ch(1) bo n(1) H(3,5) here a(1)
    by (simp add: conn_event_def with_channel_def look_loop_def Let_def holding_def handlerEvent_def)
  let ?a = "a\<lparr>held := []\<rparr>"
  have keep: "\<not> (\<exists>t \<in> set (customEvents a). keeps c t)" using a(2) by (simp add: net_ok_def)
  have u: "unhold E c a = (if owned c a \<or> conns a c = None then Inr ?a else destroyConnection E c ?a)"
    using a(3) keep owner[OF L, of c ?a] by (simp add: unhold_def drop_ref_def referenced_def)
  show ?thesis
  proof (cases "ends E n (revents ch) s")
    case False
    then have c: "calm {} {?d} fds s a" using a(5) en by (simp add: hold_def)
    then have "calm {} {} fds s a" using a(4) ch by (intro calm_handled[OF c]) auto
    moreover have "owned c a" using o owned_calm[OF c] by simp
    ultimately show ?thesis using e u a(2) False by (intro exI[of _ ?a]) simp
  next
    case True
    then obtain s1 s2 n1 where s: "net_ok E fds s1" "good s1" "calm {c} {?d} fds s s1" "conns s1 c = Some n1"
        "status n1 = Disconnected" "let_go owned E fds c s1 s2" "calm {} {?d} fds s2 a"
      using a(5) en by (auto simp: hold_def)
    note R = let_goD[OF s(6)]
    have "conns s2 c = Some n1" using R s(4) by simp
    then obtain m where m: "conns a c = Some m" "same_id n1 m" "status m = Disconnected"
      using calm_conn[OF s(7), of c n1] s(5) by auto
    obtain q where q: "conns s1 c = Some q" "same_id n q" using calm_conn[OF s(3) n(1)] .
    then have d: "chan m = ?d" using s(4) m(2) by (simp add: same_id_def)
    have no: "\<not> owned c a" using R owned_calm[OF s(7)] by simp
    obtain f where f: "chans (poller ?a) (chan m) = Some f" "\<not> isHandling f" using a(4) d by auto
    have "conns ?a c = Some m" using m(1) by simp
    moreover have "net_ok E fds ?a" using a(2) by simp
    ultimately obtain s' where s': "destroyConnection E c ?a = Inr s'" "net_ok E fds s'" "gone fds c ?a s'" "held s' = []"
      using destroyConnection_ok[OF _ fd_laws[OF L] _ m(3) f] by auto
    have "calm {} {?d} fds s2 ?a" using s(7) by simp
    then have "\<exists>s1 s2 s3 n1. net_ok E fds s1 \<and> good s1 \<and> calm {c} {?d} fds s s1 \<and>
      conns s1 c = Some n1 \<and> status n1 = Disconnected \<and> let_go owned E fds c s1 s2 \<and> calm {} {?d} fds s2 s3 \<and> gone fds c s3 s'"
      using s s'(3) by blast
    moreover have "conn_event E other ?d s = Inr s'" using e u no m(1) s'(1) by simp
    ultimately show ?thesis using s'(2,4) True by (intro exI[of _ s']) simp
  qed
qed

end

end
