(* ===== verification/Tcp_Server.thy ===== *)
theory Tcp_Server
  imports Tcp_Acceptor Tcp_Owner
begin

text \<open>
  \<^verbatim>\<open>src/include/godnet/net/tcp_server.hpp\<close> and \<^verbatim>\<open>tcp_server.cpp\<close>: an acceptor, the set of the
  connections it accepted, and the callbacks they get.

  The state extends that of the acceptor by the server and by the address of the next new object; addresses
  are not used again.  \<^verbatim>\<open>loopPool_\<close> is never set in the code, so that it is null everywhere and the connections live on
  the server's own loop.
\<close>

section \<open>State\<close>

record 'u server =
  svConnections :: "nat set"
  svConnectionCallback :: "'u cfunc option"
  svMessageCallback :: "'u cfunc option"

record ('u, 'k) snet = "('u, 'k) anet" +
  server :: "'u server option"
  svNext :: nat

type_synonym ('u, 'k, 'z) snet_env = "('u, 'k, ('u, 'k, 'z) snet_scheme) env"

definition with_server :: "('u, 'k, 'z) snet_scheme \<Rightarrow> ('u server \<Rightarrow> 'a res) \<Rightarrow> 'a res" where
  "with_server s k = (case server s of None \<Rightarrow> Inl Dangling | Some v \<Rightarrow> k v)"

definition put_server :: "'u server \<Rightarrow> ('u, 'k, 'z) snet_scheme \<Rightarrow> ('u, 'k, 'z) snet_scheme" where
  "put_server v s = s\<lparr>server := Some v\<rparr>"

definition server_owns :: "nat \<Rightarrow> ('u, 'k, 'z) snet_scheme \<Rightarrow> bool" where
  "server_owns c s = (case server s of None \<Rightarrow> False | Some v \<Rightarrow> c \<in> svConnections v)"

section \<open>Construction, starting, stopping\<close>

text \<open>The acceptor's channel is at address \<open>d\<close>.\<close>

definition TcpServer :: "('u, 'k, 'z) snet_env \<Rightarrow> nat \<Rightarrow> sockaddr \<Rightarrow> ('u, 'k, 'z) snet_scheme \<Rightarrow>
    ('u, 'k, 'z) snet_scheme res" where
  "TcpServer E d la s = res_bind (TcpAcceptor E d la s) (\<lambda>s1.
     Inr (put_server \<lparr>svConnections = {}, svConnectionCallback = None, svMessageCallback = None\<rparr> s1))"

definition serverConnectionCallback :: "'u cfunc \<Rightarrow> ('u, 'k, 'z) snet_scheme \<Rightarrow> ('u, 'k, 'z) snet_scheme res" where
  "serverConnectionCallback cb s = with_server s (\<lambda>v. Inr (put_server (v\<lparr>svConnectionCallback := Some cb\<rparr>) s))"

definition serverMessageCallback :: "'u cfunc \<Rightarrow> ('u, 'k, 'z) snet_scheme \<Rightarrow> ('u, 'k, 'z) snet_scheme res" where
  "serverMessageCallback cb s = with_server s (\<lambda>v. Inr (put_server (v\<lparr>svMessageCallback := Some cb\<rparr>) s))"

text \<open>The result of \<open>listen\<close> is not looked at.\<close>

definition startInLoop :: "('u, 'k, 'z) snet_env \<Rightarrow> ('u, 'k, 'z) snet_scheme \<Rightarrow> ('u, 'k, 'z) snet_scheme res" where
  "startInLoop E s = guarding Wrong_Thread (in_loop E s) (guarding Null_Deref (acceptor s \<noteq> None)
     (res_bind (setAcceptCallback ServerNewConnection s) (\<lambda>s1.
      res_bind (acceptorListen E s1) (\<lambda>(ok, s2). Inr s2))))"

definition serverStart :: "('u, 'k, 'z) snet_env \<Rightarrow> ('u, 'k, 'z) snet_scheme \<Rightarrow> ('u, 'k, 'z) snet_scheme res" where
  "serverStart E s = (if in_loop E s then startInLoop E s
     else queueInLoop (e_build E) (e_cur E) ServerStart s)"

text \<open>
  \<^verbatim>\<open>tempConn\<close> holds a reference to each connection while they are closed, in the order of the set, and lets
  go of them in turn.
\<close>

definition stopInLoop :: "('u, 'k, 'z) snet_env \<Rightarrow> ('u, 'k, 'z) snet_scheme \<Rightarrow> ('u, 'k, 'z) snet_scheme res" where
  "stopInLoop E s = res_bind (if acceptor s = None then Inr s else destroyAcceptor E s) (\<lambda>s1. with_server s1 (\<lambda>v.
     let cs = sorted_list_of_set (svConnections v) in
     res_bind (res_fold (connForceClose E) cs (s1\<lparr>held := cs @ held s1\<rparr>)) (res_fold (unhold E) cs)))"

definition serverStop :: "('u, 'k, 'z) snet_env \<Rightarrow> ('u, 'k, 'z) snet_scheme \<Rightarrow> ('u, 'k, 'z) snet_scheme res" where
  "serverStop E = runInLoop (\<lambda>_. stopInLoop E) (e_build E) (e_cur E) ServerStop"

section \<open>Connections\<close>

text \<open>
  Erasing the connection from the set drops a reference to it.
\<close>

definition removeConnectionInLoop :: "('u, 'k, 'z) snet_env \<Rightarrow> nat \<Rightarrow> ('u, 'k, 'z) snet_scheme \<Rightarrow>
    ('u, 'k, 'z) snet_scheme res" where
  "removeConnectionInLoop E c s = guarding Wrong_Thread (in_loop E s) (with_server s (\<lambda>v.
     res_bind (if c \<in> svConnections v
         then drop_ref E c (put_server (v\<lparr>svConnections := svConnections v - {c}\<rparr>) s) else Inr s) (\<lambda>s1.
     asserting (e_build E) (c \<in> svConnections v) (Inr s1))))"

definition removeConnection :: "('u, 'k, 'z) snet_env \<Rightarrow> nat \<Rightarrow> ('u, 'k, 'z) snet_scheme \<Rightarrow>
    ('u, 'k, 'z) snet_scheme res" where
  "removeConnection E c s = (if in_loop E s then removeConnectionInLoop E c s
     else queueInLoop (e_build E) (e_cur E) (ServerRemoveInLoop c) s)"

text \<open>
  The environment of the server's connections: it owns those in its set, and its close callback for them is
  \<open>removeConnection\<close>.
\<close>

definition server_env :: "('u, 'k, 'z) snet_env \<Rightarrow> ('u, 'k, 'z) snet_env" where
  "server_env E = (let E1 = E\<lparr>e_owned := server_owns\<rparr> in E1\<lparr>e_ccall := (\<lambda>f c s. case f of
     OwnerRemove \<Rightarrow> removeConnection E1 c s | UserFunc u \<Rightarrow> e_ccall E (UserFunc u) c s)\<rparr>)"

text \<open>
  The local variable \<^verbatim>\<open>conn\<close> holds the new connection until it is moved into the set, after the
  connection callback ran.
\<close>

definition newConnection :: "('u, 'k, 'z) snet_env \<Rightarrow> int \<Rightarrow> sockaddr \<Rightarrow> ('u, 'k, 'z) snet_scheme \<Rightarrow>
    ('u, 'k, 'z) snet_scheme res" where
  "newConnection E sock peer s = guarding Wrong_Thread (in_loop E s) (with_server s (\<lambda>v.
     let c = svNext s; d = svNext s + 1 in
     res_bind (TcpConnection E c d sock peer (s\<lparr>svNext := svNext s + 2\<rparr>)) (\<lambda>s1.
     res_bind (setConnectionCallback c (svConnectionCallback v) (hold c s1)) (\<lambda>s2.
     res_bind (setMessageCallback c (svMessageCallback v) s2) (\<lambda>s3.
     res_bind (setConnCloseCallback c (Some OwnerRemove) s3) (\<lambda>s4.
     res_bind (connInit E c s4) (\<lambda>s5. with_server s5 (\<lambda>v5.
       Inr ((put_server (v5\<lparr>svConnections := insert c (svConnections v5)\<rparr>) s5)\<lparr>held := remove1 c (held s5)\<rparr>)))))))))"

text \<open>The destructor: the set lets go of the connections, then the acceptor goes.\<close>

definition destroyServer :: "('u, 'k, 'z) snet_env \<Rightarrow> ('u, 'k, 'z) snet_scheme \<Rightarrow> ('u, 'k, 'z) snet_scheme res" where
  "destroyServer E s = with_server s (\<lambda>v.
     res_bind (res_fold (drop_ref E) (sorted_list_of_set (svConnections v)) (s\<lparr>server := None\<rparr>)) (\<lambda>s1.
     if acceptor s1 = None then Inr s1 else destroyAcceptor E s1))"

section \<open>The functions the loop holds for a server\<close>

definition accept_call :: "('u, 'k, 'z) snet_env \<Rightarrow> ('u \<Rightarrow> int \<Rightarrow> sockaddr \<Rightarrow> ('u, 'k, 'z) snet_scheme \<Rightarrow> ('u, 'k, 'z) snet_scheme res) \<Rightarrow>
    'u afunc \<Rightarrow> int \<Rightarrow> sockaddr \<Rightarrow> ('u, 'k, 'z) snet_scheme \<Rightarrow> ('u, 'k, 'z) snet_scheme res" where
  "accept_call E uacc f sock peer s = (case f of
     ServerNewConnection \<Rightarrow> newConnection E sock peer s | UserAccept u \<Rightarrow> uacc u sock peer s)"

fun server_func :: "('u, 'k, 'z) snet_env \<Rightarrow> ('u \<Rightarrow> int \<Rightarrow> sockaddr \<Rightarrow> ('u, 'k, 'z) snet_scheme \<Rightarrow> ('u, 'k, 'z) snet_scheme res) \<Rightarrow>
    ('u func \<Rightarrow> ('u, 'k, 'z) snet_scheme \<Rightarrow> ('u, 'k, 'z) snet_scheme res) \<Rightarrow>
    'u func \<Rightarrow> ('u, 'k, 'z) snet_scheme \<Rightarrow> ('u, 'k, 'z) snet_scheme res" where
  "server_func E uacc other AcceptorRead s = acceptorRead E (accept_call E uacc) s"
| "server_func E uacc other ServerStart s = startInLoop E s"
| "server_func E uacc other ServerStop s = stopInLoop E s"
| "server_func E uacc other (ServerRemoveInLoop c) s = holding E c (removeConnectionInLoop E c) s"
| "server_func E uacc other f s = other f s"

section \<open>The server owns its connections\<close>

text \<open>
  An environment of a server's connections, with a kernel that keeps its laws and callbacks of the user that use
  what a callback may use.
\<close>

definition server_lawful :: "('u, 'k, 'z) snet_env \<Rightarrow> ('k \<Rightarrow> int set) \<Rightarrow> bool" where
  "server_lawful E fds \<longleftrightarrow> fd_law (e_os E) fds \<and> io_law (e_os E) \<and> (\<exists>E0. E = server_env E0) \<and>
     (\<forall>u c s. net_ok E fds s \<longrightarrow> conns s c \<noteq> None \<longrightarrow>
        (\<exists>s'. e_ccall E (UserFunc u) c s = Inr s' \<and> (user_step E)\<^sup>*\<^sup>* s s'))"

lemma server_env_simps [simp]:
  "e_build (server_env E) = e_build E" "e_host (server_env E) = e_host E" "e_os (server_env E) = e_os E"
  "e_cur (server_env E) = e_cur E" "e_owned (server_env E) = server_owns"
  "e_ccall (server_env E) OwnerRemove = removeConnection (E\<lparr>e_owned := server_owns\<rparr>)"
  "e_ccall (server_env E) (UserFunc u) = e_ccall E (UserFunc u)"
  by (simp_all add: server_env_def Let_def fun_eq_iff)

lemma more_server: "net.more s' = net.more s \<Longrightarrow> server s' = server s" "net.more s' = net.more s \<Longrightarrow> acceptor s' = acceptor s"
  "net.more s' = net.more s \<Longrightarrow> svNext s' = svNext s" "net.more s' = net.more s \<Longrightarrow> snet.more s' = snet.more s"
  by (cases s; cases s'; simp)+

lemma calm_server:
  assumes "calm C D fds s s'"
  shows "server s' = server s" and "acceptor s' = acceptor s" and "svNext s' = svNext s"
  using assms more_server[of s' s] by (simp_all add: calm_def)

lemma net_ok_server [simp]:
  "net_ok E fds (put_server v s) = net_ok E fds s" "net_ok E fds (s\<lparr>svNext := m\<rparr>) = net_ok E fds s"
  "net_ok E fds (s\<lparr>acceptor := a\<rparr>) = net_ok E fds s"
  by (simp_all add: put_server_def net_ok_def watched_def)

lemma removeConnection_held:
  assumes "threadId s = e_cur E" and "server s = Some v" and "c \<in> svConnections v" and "c \<in> set (held s)"
  shows "removeConnection E c s = Inr (put_server (v\<lparr>svConnections := svConnections v - {c}\<rparr>) s)"
  using assms by (simp add: removeConnection_def removeConnectionInLoop_def with_server_def in_loop_def isInLoopThread_def
      drop_ref_def referenced_def put_server_def)

lemma server_let_go:
  assumes E: "server_lawful E fds" and ok: "net_ok E fds s" and o: "server_owns c s" and h: "c \<in> set (held s)"
  shows "\<exists>v. server s = Some v \<and> c \<in> svConnections v \<and>
    let_go server_owns E fds c s (put_server (v\<lparr>svConnections := svConnections v - {c}\<rparr>) s)"
proof -
  obtain E0 where E0: "E = server_env E0" using E by (auto simp: server_lawful_def)
  obtain v where v: "server s = Some v" "c \<in> svConnections v" using o by (auto simp: server_owns_def split: option.splits)
  have "threadId s = e_cur (E0\<lparr>e_owned := server_owns\<rparr>)" using net_okD(1)[OF ok] E0 by simp
  then have "e_ccall E OwnerRemove c s = Inr (put_server (v\<lparr>svConnections := svConnections v - {c}\<rparr>) s)"
    unfolding E0 server_env_simps using v h by (rule removeConnection_held)
  then show ?thesis
    using v ok h by (auto simp: let_go_def) (auto simp: put_server_def server_owns_def)
qed

interpretation sv: connection_owner server_lawful server_owns "\<lambda>_. True"
proof (unfold_locales, goal_cases)
  case (1 E fds)
  then show ?case by (simp add: server_lawful_def)
next
  case (2 E fds c s)
  then show ?case by (auto simp: server_lawful_def)
next
  case (3 s' s c)
  then show ?case by (simp add: server_owns_def more_server(1)[OF 3])
next
  case (4 E fds s c u)
  then show ?case by (simp add: server_lawful_def)
next
  case (6 E fds s c n)
  then show ?case using server_let_go by blast
qed simp

section \<open>A new connection\<close>

text \<open>
  What \<^verbatim>\<open>accept4(2)\<close> and \<^verbatim>\<open>getsockname(2)\<close> fill in are addresses, and 0 is not the descriptor of a
  connection.
\<close>

definition accept_law :: "'k os \<Rightarrow> host \<Rightarrow> ('k \<Rightarrow> int set) \<Rightarrow> bool" where
  "accept_law os h fds \<longleftrightarrow>
     (\<forall>s a n fl k. case sys_accept4 os s a n fl k of (f, a', k1) \<Rightarrow> 0 \<le> f \<longrightarrow> 0 < f \<and> isValid h a') \<and>
     (\<forall>f a n k. f \<in> fds k \<longrightarrow> isValid h (fst (snd (sys_getsockname os f a n k))))"

lemma accept_lawD:
  assumes "accept_law os h fds"
  shows "accept os s a k = (f, peer, k1) \<Longrightarrow> 0 \<le> f \<Longrightarrow> 0 < f \<and> isValid h peer"
    and "f \<in> fds k \<Longrightarrow> isValid h (fst (localAddress os f k))"
proof -
  have 1: "\<forall>s a n fl k. case sys_accept4 os s a n fl k of (f, a', k1) \<Rightarrow> 0 \<le> f \<longrightarrow> 0 < f \<and> isValid h a'"
    and 2: "\<forall>f a n k. f \<in> fds k \<longrightarrow> isValid h (fst (snd (sys_getsockname os f a n k)))"
    using assms by (simp_all add: accept_law_def)
  show "accept os s a k = (f, peer, k1) \<Longrightarrow> 0 \<le> f \<Longrightarrow> 0 < f \<and> isValid h peer"
    using 1[rule_format, where s = s and a = a and n = "getSockLen a" and fl = "SOCK_NONBLOCK OR SOCK_CLOEXEC" and k = k]
    by (simp add: accept_def socket_accept_def)
  show "f \<in> fds k \<Longrightarrow> isValid h (fst (localAddress os f k))"
    using 2[rule_format, where f = f and a = addr_zero and n = "getSockLen addr_zero" and k = k]
    by (simp add: localAddress_def getLocalAddr_def case_prod_beta)
qed

text \<open>Up to its connection callback a new connection is one more in the state, and the rest is as it was.\<close>

definition opened :: "('k \<Rightarrow> int set) \<Rightarrow> int \<Rightarrow> ('u, 'k, 'z) snet_scheme \<Rightarrow> ('u, 'k, 'z) snet_scheme \<Rightarrow> bool" where
  "opened fds sock s a \<longleftrightarrow> (\<exists>n ch. conns a = (conns s)(svNext s \<mapsto> n) \<and> sockfd n = sock \<and> chan n = svNext s + 1 \<and> status n = Connected \<and>
     chans (poller a) = (chans (poller s))(svNext s + 1 \<mapsto> ch) \<and> \<not> isHandling ch \<and> fds (kernel a) = fds (kernel s) \<and>
     server a = server s \<and> acceptor a = acceptor s \<and> svNext a = svNext s + 2)"

lemma newConnection_ok:
  assumes E: "server_lawful E fds" and ok: "net_ok E fds s" and A: "accept_law (e_os E) (e_host E) fds"
    and v: "server s = Some v" "svConnectionCallback v = Some (UserFunc u1)" "svMessageCallback v = Some (UserFunc u2)"
    and fresh: "\<forall>x \<ge> svNext s. conns s x = None \<and> chans (poller s) x = None"
    and k: "sock \<notin> fds (kernel s)" "fds k = insert sock (fds (kernel s))" "0 < sock" and peer: "isValid (e_host E) peer"
  shows "\<exists>a b. newConnection E sock peer (s\<lparr>kernel := k\<rparr>) =
      Inr ((put_server (v\<lparr>svConnections := insert (svNext s) (svConnections v)\<rparr>) b)\<lparr>held := held s\<rparr>) \<and>
    opened fds sock (s\<lparr>kernel := k\<rparr>) a \<and> net_ok E fds a \<and> net_ok E fds b \<and> calm {} {} fds a b"
proof -
  let ?c = "svNext s" and ?d = "svNext s + 1" and ?s = "s\<lparr>kernel := k, svNext := svNext s + 2\<rparr>"
  have F: "fd_law (e_os E) fds" using E by (simp add: server_lawful_def)
  have I: "threadId s = e_cur E" "poller_inv (poller ?s)" "chans (poller ?s) ?d = None" "unused sock s"
    using net_okD(1,3)[OF ok] fresh unused_new[OF ok k(1)] by simp_all
  have la: "isValid (e_host E) (fst (localAddress (e_os E) sock (kernel ?s)))" using accept_lawD(2)[OF A] k(2) by simp
  obtain p k1 la ch where m: "TcpConnection E ?c ?d sock peer ?s =
      Inr (?s\<lparr>poller := p, kernel := k1, conns := (conns s)(?c \<mapsto> new_conn sock ?d la peer)\<rparr>)"
    "poller_inv p" "interest p = interest (poller s)" "chans p = (chans (poller s))(?d \<mapsto> ch)" "made_chan ?c sock ch" "fds k1 = fds k"
    using TcpConnection_made[OF I(2) F k(3) I(3) la peer, of ?c] by auto
  let ?n = "new_conn sock ?d la peer\<lparr>connectionCallback := Some (UserFunc u1), messageCallback := Some (UserFunc u2),
      connCloseCallback := Some OwnerRemove\<rparr>"
  let ?t = "?s\<lparr>poller := p, kernel := k1, conns := (conns s)(?c \<mapsto> ?n), held := ?c # held s\<rparr>"
  have set: "res_bind (setConnectionCallback ?c (svConnectionCallback v)
        (hold ?c (?s\<lparr>poller := p, kernel := k1, conns := (conns s)(?c \<mapsto> new_conn sock ?d la peer)\<rparr>))) (\<lambda>s2.
      res_bind (setMessageCallback ?c (svMessageCallback v) s2) (\<lambda>s3. setConnCloseCallback ?c (Some OwnerRemove) s3)) = Inr ?t"
    by (simp add: setConnectionCallback_def setMessageCallback_def setConnCloseCallback_def with_conn_def put_conn_def hold_def v)
  have n: "sockfd ?n = sock" "chan ?n = ?d" "made_conn ?n" by (simp_all add: new_conn_def made_conn_def)
  obtain a b where b: "connInit E ?c ?t = Inr b" "held b = ?c # held s" "net_ok E fds a" "net_ok E fds b" "calm {} {} fds a b"
    "conns a = (conns s)(?c \<mapsto> ?n\<lparr>status := Connected\<rparr>)"
    "chans (poller a) = (chans (poller s))(?d \<mapsto> ch\<lparr>bindObject := Some ?c, events := READ_EVENT\<rparr>)"
    "fds (kernel a) = fds k" "net.more a = net.more ?t"
    using sv.init_ok[OF E ok, of ?c ?n ?t ch] fresh I(4) k(2,3) m(2-6) n by auto
  have M: "server a = Some v" "acceptor a = acceptor s" "svNext a = svNext s + 2"
    using more_server[OF b(9)] v(1) by simp_all
  have "opened fds sock (s\<lparr>kernel := k\<rparr>) a"
    unfolding opened_def
    by (intro exI[of _ "?n\<lparr>status := Connected\<rparr>"] exI[of _ "ch\<lparr>bindObject := Some ?c, events := READ_EVENT\<rparr>"])
      (use b(6-8) M v(1) n m(5) in \<open>simp add: made_chan_def\<close>)
  moreover have "server b = Some v" using calm_server(1)[OF b(5)] M by simp
  moreover have "in_loop E (s\<lparr>kernel := k\<rparr>)" using I(1) by (simp add: in_loop_def isInLoopThread_def)
  ultimately have "newConnection E sock peer (s\<lparr>kernel := k\<rparr>) =
      Inr ((put_server (v\<lparr>svConnections := insert ?c (svConnections v)\<rparr>) b)\<lparr>held := held s\<rparr>)"
    using v m(1) set b(1,2)
    by (auto simp: newConnection_def with_server_def Let_def put_server_def res_bind_Inr_iff)
  then show ?thesis using b(3-5) \<open>opened fds sock (s\<lparr>kernel := k\<rparr>) a\<close> by blast
qed

end
