(* ===== verification/Server_System.thy ===== *)
theory Server_System
  imports Tcp_Server
begin

text \<open>
  The server (\<^verbatim>\<open>src/include/godnet/net/tcp_server.cpp\<close>) over its whole life on the thread of its loop: a step
  relation of what the poller reports, the events of its channels, and what the user's callbacks, timers and tasks do,
  the invariant of the reachable states, and what becomes of connections, channels and descriptors.
\<close>

section \<open>The invariant\<close>

text \<open>The acceptor's channel.\<close>

definition listening :: "'u acceptor \<Rightarrow> bool \<Rightarrow> 'u func callback channel \<Rightarrow> bool" where
  "listening a h ch \<longleftrightarrow> fd ch = acSock a \<and> bindObject ch = None \<and> eventCallback ch = None \<and>
     readCallback ch = Some (Callback AcceptorRead) \<and> writeCallback ch = None \<and> errorCallback ch = None \<and>
     closeCallback ch = None \<and> isHandling ch = h"

definition both_callbacks :: "'u server \<Rightarrow> bool" where
  "both_callbacks v \<longleftrightarrow> (\<exists>u. svConnectionCallback v = Some (UserFunc u)) \<and> (\<exists>u. svMessageCallback v = Some (UserFunc u))"

text \<open>
  \<open>F\<close> and \<open>D\<close> are the descriptors and the channels that are not the server's; \<open>h\<close> tells whether the acceptor's
  channel is handling an event.
\<close>

definition tracks :: "('k \<Rightarrow> int set) \<Rightarrow> int set \<Rightarrow> nat set \<Rightarrow> 'u server \<Rightarrow> 'u acceptor \<Rightarrow> ('u, 'k, 'z) net_scheme \<Rightarrow> bool" where
  "tracks fds F D v a s \<longleftrightarrow> svConnections v = dom (conns s) \<and> (\<forall>c n. conns s c = Some n \<longrightarrow> status n \<noteq> Disconnected) \<and>
     fds (kernel s) = F \<union> {acSock a} \<union> sockfd ` ran (conns s) \<and> acSock a \<notin> F \<and> (F \<union> {acSock a}) \<inter> sockfd ` ran (conns s) = {} \<and>
     dom (chans (poller s)) = D \<union> {acChan a} \<union> chan ` ran (conns s) \<and> acChan a \<notin> D \<and> (D \<union> {acChan a}) \<inter> chan ` ran (conns s) = {}"

definition sv_core :: "('u, 'k, 'z) snet_env \<Rightarrow> ('k \<Rightarrow> int set) \<Rightarrow> int set \<Rightarrow> nat set \<Rightarrow> bool \<Rightarrow> ('u, 'k, 'z) snet_scheme \<Rightarrow> bool" where
  "sv_core E fds F D h s \<longleftrightarrow> net_ok E fds s \<and> held s = [] \<and> (\<exists>v a ch. server s = Some v \<and> acceptor s = Some a \<and>
     both_callbacks v \<and> acNewConnection a = Some ServerNewConnection \<and> tracks fds F D v a s \<and>
     chans (poller s) (acChan a) = Some ch \<and> listening a h ch) \<and>
     (\<forall>x \<ge> svNext s. conns s x = None \<and> chans (poller s) x = None) \<and>
     (\<forall>c n ch. conns s c = Some n \<longrightarrow> chans (poller s) (chan n) = Some ch \<longrightarrow> \<not> isHandling ch)"

lemma sv_coreD:
  assumes "sv_core E fds F D h s"
  obtains v a ch where "net_ok E fds s" and "held s = []" and "server s = Some v" and "acceptor s = Some a" and
    "both_callbacks v" and "acNewConnection a = Some ServerNewConnection" and "tracks fds F D v a s" and
    "chans (poller s) (acChan a) = Some ch" and "listening a h ch" and
    "\<forall>x \<ge> svNext s. conns s x = None \<and> chans (poller s) x = None" and
    "\<forall>c n ch. conns s c = Some n \<longrightarrow> chans (poller s) (chan n) = Some ch \<longrightarrow> \<not> isHandling ch"
  using assms unfolding sv_core_def by blast

lemma sv_core_basic:
  assumes "sv_core E fds F D h s"
  shows "net_ok E fds s" and "held s = []" and "\<forall>x \<ge> svNext s. conns s x = None \<and> chans (poller s) x = None"
    and "acceptor s = Some a \<Longrightarrow> \<exists>ch. chans (poller s) (acChan a) = Some ch \<and> listening a h ch"
  using assms by (auto simp: sv_core_def)

lemma ran_image: "m c = Some n \<Longrightarrow> f n \<in> f ` ran m"
  by (auto intro: ranI)

lemma tracksD:
  assumes "tracks fds F D v a s" and "conns s c = Some n"
  shows "chan n \<noteq> acChan a" and "sockfd n \<noteq> acSock a" and "sockfd n \<notin> F" and "chan n \<notin> D" and "status n \<noteq> Disconnected"
    and "c \<in> svConnections v"
  using assms ran_image[of "conns s" c n chan] ran_image[of "conns s" c n sockfd] unfolding tracks_def by auto

text \<open>The reports of the poller, and the flag of the acceptor's channel.\<close>

lemma sv_core_put:
  assumes I: "sv_core E fds F D h s" and a: "acceptor s = Some a" and d: "chans (poller s) d = Some ch"
    and ch': "ch' = ch\<lparr>revents := r, isHandling := (if d = acChan a then h' else isHandling ch)\<rparr>" and h: "d \<noteq> acChan a \<Longrightarrow> h' = h"
  shows "sv_core E fds F D h' (put_loop d ch' s)"
proof -
  obtain v a' e where I: "net_ok E fds s" "held s = []" "server s = Some v" "acceptor s = Some a'"
    "both_callbacks v" "acNewConnection a' = Some ServerNewConnection" "tracks fds F D v a' s"
    "chans (poller s) (acChan a') = Some e" "listening a' h e"
    "\<forall>x \<ge> svNext s. conns s x = None \<and> chans (poller s) x = None"
    "\<forall>c n ch. conns s c = Some n \<longrightarrow> chans (poller s) (chan n) = Some ch \<longrightarrow> \<not> isHandling ch"
    using sv_coreD[OF I] .
  have a': "a' = a" using I(4) a by simp
  note I = I[unfolded a']
  let ?s = "put_loop d ch' s"
  have f: "conns ?s = conns s" "chans (poller ?s) = (chans (poller s))(d \<mapsto> ch')" "kernel ?s = kernel s" "held ?s = held s"
      "server ?s = server s" "acceptor ?s = acceptor s" "svNext ?s = svNext s"
    by (simp_all add: put_loop_def)
  have "dom (chans (poller ?s)) = dom (chans (poller s))" using f(2) d by auto
  then have "tracks fds F D v a ?s" using I(7) f by (simp add: tracks_def)
  moreover have "\<exists>e. chans (poller ?s) (acChan a) = Some e \<and> listening a h' e"
    using I(8,9) f(2) d h ch' by (cases "d = acChan a") (auto simp: listening_def)
  moreover have "\<not> isHandling e'" if "conns s c = Some n" "chans (poller ?s) (chan n) = Some e'" for c n e'
    using that I(11) f(2) d ch' tracksD(1)[OF I(7) that(1)] by (cases "chan n = d") auto
  moreover have "net_ok E fds ?s" unfolding ch' by (rule net_ok_put[OF I(1) d])
  moreover have "\<forall>x \<ge> svNext s. x \<noteq> d" using I(10) d by auto
  ultimately show ?thesis using I a f unfolding sv_core_def by auto
qed

lemma sv_coreI:
  assumes "net_ok E fds s" and "held s = []" and "server s = Some v" and "acceptor s = Some a" and "both_callbacks v"
    and "acNewConnection a = Some ServerNewConnection" and "tracks fds F D v a s" and "chans (poller s) (acChan a) = Some ch"
    and "listening a h ch" and "\<forall>x \<ge> svNext s. conns s x = None \<and> chans (poller s) x = None"
    and "\<And>c n ch. conns s c = Some n \<Longrightarrow> chans (poller s) (chan n) = Some ch \<Longrightarrow> \<not> isHandling ch"
  shows "sv_core E fds F D h s"
  unfolding sv_core_def using assms by auto

text \<open>What leaves the connections open and the owner's data alone.\<close>

lemma sv_core_calm:
  assumes I: "sv_core E fds F D h s" and ok: "net_ok E fds s'" and c: "calm {} {} fds s s'" and "held s' = []"
  shows "sv_core E fds F D h s'"
proof -
  obtain v a e where I: "net_ok E fds s" "held s = []" "server s = Some v" "acceptor s = Some a"
    "both_callbacks v" "acNewConnection a = Some ServerNewConnection" "tracks fds F D v a s"
    "chans (poller s) (acChan a) = Some e" "listening a h e"
    "\<forall>x \<ge> svNext s. conns s x = None \<and> chans (poller s) x = None"
    "\<forall>c n ch. conns s c = Some n \<longrightarrow> chans (poller s) (chan n) = Some ch \<longrightarrow> \<not> isHandling ch"
    using sv_coreD[OF I] .
  note D = calm_dom[OF c] and S = calm_server[OF c]
  have dom: "dom (conns s') = dom (conns s)" "dom (chans (poller s')) = dom (chans (poller s))"
    using D by (auto simp: dom_def)
  have "status n' \<noteq> Disconnected" if n': "conns s' x = Some n'" for x n'
  proof -
    obtain n where n: "conns s x = Some n" using D(1)[of x] n' by auto
    then show ?thesis using calm_conn[OF c n] n' I(7) by (auto simp: tracks_def)
  qed
  then have "tracks fds F D v a s'"
    using I(7) dom calm_ran[OF c] c by (simp add: tracks_def calm_def)
  moreover have "acChan a \<notin> chan ` ran (conns s)" using I(7) by (auto simp: tracks_def)
  then have "chans (poller s') (acChan a) = Some e" using c I(8) by (simp add: calm_def)
  moreover have "\<not> isHandling ch'" if n': "conns s' x = Some n'" "chans (poller s') (chan n') = Some ch'" for x n' ch'
  proof -
    obtain n where n: "conns s x = Some n" using D(1)[of x] n'(1) by auto
    then have "chan n' = chan n" using calm_conn[OF c n] n'(1) by (auto simp: same_id_def)
    moreover obtain ch where "chans (poller s) (chan n) = Some ch" using net_okD(4)[OF I(1) n] by blast
    moreover have "map_option isHandling (chans (poller s') (chan n)) = map_option isHandling (chans (poller s) (chan n))"
      using c by (simp add: calm_def)
    ultimately show ?thesis using I(11) n n'(2) by auto
  qed
  ultimately show ?thesis using I D S ok assms(4) unfolding sv_core_def by auto
qed

section \<open>The end of a connection\<close>

lemma server_let_go_eq:
  assumes E: "server_lawful E fds" and l: "let_go server_owns E fds c s s'" and n: "conns s c \<noteq> None" and v: "server s = Some v"
  shows "s' = put_server (v\<lparr>svConnections := svConnections v - {c}\<rparr>) s \<or> s' = s"
proof -
  obtain E0 where E0: "E = server_env E0" using E by (auto simp: server_lawful_def)
  let ?E = "E0\<lparr>e_owned := server_owns\<rparr>"
  have r: "removeConnection ?E c s = Inr s'" using let_goD(1)[OF l] unfolding E0 by simp
  have same: "conns s' c \<noteq> None" using let_goD(3)[OF l] n by simp
  have no: "conns t c = None" if "destroyConnection ?E c x = Inr t" for x t
    using that by (auto simp: destroyConnection_def with_conn_def res_simps split: option.splits)
  have here: "in_loop ?E s"
  proof (rule ccontr)
    assume "\<not> in_loop ?E s"
    then have "\<exists>w. s' = s\<lparr>customEvents := customEvents s @ [Func (ServerRemoveInLoop c)], wakeups := w\<rparr>"
      using r by (auto simp: removeConnection_def queueInLoop_def elim!: queueTask_cases)
    then have "\<not> net_ok E fds s'" by (auto simp: net_ok_def)
    then show False using let_goD(2)[OF l] by simp
  qed
  then show ?thesis
    using r v same no by (auto simp: removeConnection_def removeConnectionInLoop_def with_server_def res_simps drop_ref_def split: if_splits)
qed

lemma chain_map:
  assumes "calm C D fds s s1" and "conns s2 = conns s1" and "calm C' D' fds s2 s3" and "\<And>n n'. same_id n n' \<Longrightarrow> f n' = f n"
  shows "map_option f (conns s3 k) = map_option f (conns s k)"
  using calm_map[OF assms(1), of f k] calm_map[OF assms(3), of f k] assms(2,4) by simp

lemma image_without:
  assumes n: "m c = Some n" and inj: "\<And>k q. m k = Some q \<Longrightarrow> k \<noteq> c \<Longrightarrow> f q \<noteq> f n"
    and eq: "\<And>k. map_option f (m' k) = map_option f (m k)"
  shows "f ` ran (m'(c := None)) = f ` ran m - {f n}"
proof -
  have "map_option f ((m'(c := None)) k) = (if k = c then None else map_option f (m k))" for k using eq by simp
  then have "f ` ran (m'(c := None)) = {d. \<exists>k. (if k = c then None else map_option f (m k)) = Some d}"
    unfolding image_ran by (simp only:)
  also have "\<dots> = f ` ran m - {f n}"
  proof (intro equalityI subsetI)
    fix d assume "d \<in> {d. \<exists>k. (if k = c then None else map_option f (m k)) = Some d}"
    then obtain k q where "k \<noteq> c" "m k = Some q" "d = f q" by (auto split: if_splits)
    then show "d \<in> f ` ran m - {f n}" using inj by (auto intro: ranI)
  next
    fix d assume "d \<in> f ` ran m - {f n}"
    then obtain k q where "m k = Some q" "d = f q" "d \<noteq> f n" by (auto simp: ran_def)
    moreover from this have "k \<noteq> c" using n by auto
    ultimately show "d \<in> {d. \<exists>k. (if k = c then None else map_option f (m k)) = Some d}" by auto
  qed
  finally show ?thesis .
qed

lemma Un_Diff_keep: "x \<notin> A \<Longrightarrow> (A \<union> S) - {x} = A \<union> (S - {x})"
  by auto

lemma sv_core_closed:
  assumes E: "server_lawful E fds" and I: "sv_core E fds F D h s" and n: "conns s c = Some n"
    and c1: "calm {c} {chan n} fds s s1" and l: "let_go server_owns E fds c s1 s2"
    and c2: "calm {} {chan n} fds s2 s3" and g: "gone fds c s3 s'" and ok: "net_ok E fds s'" and held: "held s' = []"
  shows "sv_core E fds F D h s'" and "conns s' c = None" and "chans (poller s') (chan n) = None"
    and "sockfd n \<notin> fds (kernel s')" and "\<not> server_owns c s'" and "dom (conns s') = dom (conns s) - {c}"
proof -
  obtain v a e where I: "net_ok E fds s" "held s = []" "server s = Some v" "acceptor s = Some a"
    "both_callbacks v" "acNewConnection a = Some ServerNewConnection" "tracks fds F D v a s"
    "chans (poller s) (acChan a) = Some e" "listening a h e"
    "\<forall>x \<ge> svNext s. conns s x = None \<and> chans (poller s) x = None"
    "\<forall>c n ch. conns s c = Some n \<longrightarrow> chans (poller s) (chan n) = Some ch \<longrightarrow> \<not> isHandling ch"
    using sv_coreD[OF I] .
  note T = tracksD[OF I(7)]
  have ap: "apart (conns s)" using I(1) by (simp add: net_ok_def)
  have other: "chan m \<noteq> chan n \<and> sockfd m \<noteq> sockfd n" if "conns s k = Some m" "k \<noteq> c" for k m
    using ap that n unfolding apart_def by blast
  note S1 = calm_server[OF c1]
  have "conns s1 c \<noteq> None" using calm_conn[OF c1 n] by auto
  moreover have "server_owns c s1" using S1(1) I(3) T(6)[OF n] by (simp add: server_owns_def)
  ultimately have s2: "s2 = put_server (v\<lparr>svConnections := svConnections v - {c}\<rparr>) s1"
    using server_let_go_eq[OF E l, of v] let_goD(5)[OF l] S1(1) I(3) by auto
  note L = let_goD(3)[OF l]
  have p2: "poller s2 = poller s1" "kernel s2 = kernel s1" unfolding s2 by (simp_all add: put_server_def)
  note map = chain_map[OF c1 L c2]
  obtain m where m: "conns s3 c = Some m" "conns s' = (conns s3)(c := None)" "chans (poller s') = (chans (poller s3))(chan m := None)"
      "fds (kernel s') = fds (kernel s3) - {sockfd m}" "net.more s' = net.more s3"
    using g by (auto simp: gone_def)
  have id: "chan m = chan n" "sockfd m = sockfd n"
    using map[of chan c] map[of sockfd c] m(1) n by (simp_all add: same_id_def)
  let ?v = "v\<lparr>svConnections := svConnections v - {c}\<rparr>"
  have S: "server s' = Some ?v" "acceptor s' = Some a" "svNext s' = svNext s"
    using more_server[OF m(5)] calm_server[OF c2] S1 I(4) unfolding s2 by (simp_all add: put_server_def)
  have k: "fds (kernel s3) = fds (kernel s)" using c1 c2 p2 by (simp add: calm_def)
  have cdom: "conns s3 k = None \<longleftrightarrow> conns s k = None" for k
    using calm_dom(1)[OF c1, of k] calm_dom(1)[OF c2, of k] L by simp
  have hdom: "chans (poller s3) d = None \<longleftrightarrow> chans (poller s) d = None" for d
    using calm_dom(2)[OF c1, of d] calm_dom(2)[OF c2, of d] p2 by simp
  have doms: "dom (conns s') = dom (conns s) - {c}" "dom (chans (poller s')) = dom (chans (poller s)) - {chan n}"
    unfolding m(2,3) id using cdom hdom by (auto simp: dom_def simp del: not_None_eq)
  have ims: "chan ` ran (conns s') = chan ` ran (conns s) - {chan n}" "sockfd ` ran (conns s') = sockfd ` ran (conns s) - {sockfd n}"
    unfolding m(2) using other map by (intro image_without[where m = "conns s"] n; auto simp: same_id_def)+
  have st: "status q' \<noteq> Disconnected \<and> (\<exists>q. conns s x = Some q \<and> chan q' = chan q)" if q': "conns s' x = Some q'" for x q'
  proof -
    have x: "x \<noteq> c" "conns s3 x = Some q'" using q' m(2) by (auto split: if_splits)
    then obtain q where q: "conns s x = Some q" using cdom[of x] by auto
    obtain q1 where q1: "conns s1 x = Some q1" "same_id q q1" "status q1 = Disconnected \<longleftrightarrow> status q = Disconnected"
      using calm_conn[OF c1 q] x(1) by auto
    have "conns s2 x = Some q1" using q1(1) L by simp
    then obtain q2 where "conns s3 x = Some q2" "same_id q1 q2" "status q2 = Disconnected \<longleftrightarrow> status q1 = Disconnected"
      using calm_conn[OF c2, of x q1] by auto
    then show ?thesis using q q1 x(2) T(5)[OF q] by (auto simp: same_id_def)
  qed
  have c6: "tracks fds F D ?v a s'"
  proof -
    note t = I(7)[unfolded tracks_def]
    have 1: "fds (kernel s') = F \<union> {acSock a} \<union> (sockfd ` ran (conns s) - {sockfd n})"
      using t T(2,3)[OF n] k m(4) id(2) Un_Diff_keep[of "sockfd n" "F \<union> {acSock a}"] by simp
    have 2: "dom (chans (poller s')) = D \<union> {acChan a} \<union> (chan ` ran (conns s) - {chan n})"
      using t T(1,4)[OF n] doms(2) Un_Diff_keep[of "chan n" "D \<union> {acChan a}"] by simp
    have 3: "svConnections ?v = dom (conns s')" "\<forall>x q. conns s' x = Some q \<longrightarrow> status q \<noteq> Disconnected"
      using t doms(1) st by simp_all
    have 4: "(F \<union> {acSock a}) \<inter> (sockfd ` ran (conns s) - {sockfd n}) = {}" "(D \<union> {acChan a}) \<inter> (chan ` ran (conns s) - {chan n}) = {}"
      using t by (simp_all only: Diff_Int_distrib, simp_all)
    show ?thesis unfolding tracks_def ims by (intro conjI 1 2 3 4) (use t in simp_all)
  qed
  have c4: "chans (poller s') (acChan a) = Some e"
  proof -
    have "acChan a \<notin> chan ` ran (conns s)" "acChan a \<notin> chan ` ran (conns s2)"
      using I(7) calm_ran(1)[OF c1] L by (auto simp: tracks_def)
    then have "chans (poller s3) (acChan a) = Some e" using c1 c2 p2 I(8) by (simp add: calm_def)
    then show ?thesis using m(3) id T(1)[OF n] by simp
  qed
  have c5: "\<not> isHandling ch" if q': "conns s' x = Some q'" "chans (poller s') (chan q') = Some ch" for x q' ch
  proof -
    obtain q where q: "conns s x = Some q" "chan q' = chan q" using st[OF q'(1)] by blast
    have "x \<noteq> c" using q'(1) m(2) by auto
    then have d: "chan q \<noteq> chan n" using other[OF q(1)] by simp
    have "map_option isHandling (chans (poller s3) (chan q)) = map_option isHandling (chans (poller s) (chan q))"
      using c1 c2 p2 d by (simp add: calm_def)
    moreover obtain ch0 where "chans (poller s) (chan q) = Some ch0" using net_okD(4)[OF I(1) q(1)] by blast
    ultimately show ?thesis using I(11) q q'(2) m(3) id d by auto
  qed
  have c7: "both_callbacks ?v" using I(5) by (simp add: both_callbacks_def)
  have c8: "\<forall>x \<ge> svNext s'. conns s' x = None \<and> chans (poller s') x = None"
  proof (intro allI impI)
    fix x assume "svNext s' \<le> x"
    then have "x \<notin> dom (conns s)" "x \<notin> dom (chans (poller s))" using I(10) S(3) by auto
    then show "conns s' x = None \<and> chans (poller s') x = None" using doms by (auto simp del: domIff)
  qed
  show "sv_core E fds F D h s'"
    by (rule sv_coreI[OF ok held S(1,2) c7 I(6) c6 c4 I(9) c8 c5])
  show "conns s' c = None" "chans (poller s') (chan n) = None" "sockfd n \<notin> fds (kernel s')" using m(2-4) id by simp_all
  show "\<not> server_owns c s'" using S(1) by (simp add: server_owns_def)
  show "dom (conns s') = dom (conns s) - {c}" using doms(1) .
qed

section \<open>A new connection\<close>

lemma calm_put_server: "calm C D fds s s' \<Longrightarrow> calm C D fds (put_server v s) (put_server v s')"
  by (cases s; cases s') (simp add: calm_def put_server_def same_timers_def)

lemma image_upd: "m c = None \<Longrightarrow> f ` ran (m(c \<mapsto> n)) = insert (f n) (f ` ran m)"
  by simp

lemma sv_core_opened:
  assumes I: "sv_core E fds F D h s" and v: "server s = Some v" and op: "opened fds sock (s\<lparr>kernel := k\<rparr>) a"
    and k: "sock \<notin> fds (kernel s)" "fds k = insert sock (fds (kernel s))"
    and a: "net_ok E fds a" and b: "net_ok E fds b" "calm {} {} fds a b"
    and s': "s' = (put_server (v\<lparr>svConnections := insert (svNext s) (svConnections v)\<rparr>) b)\<lparr>held := held s\<rparr>"
  shows "sv_core E fds F D h s'"
proof -
  obtain v' ac e where I: "net_ok E fds s" "held s = []" "server s = Some v'" "acceptor s = Some ac"
    "both_callbacks v'" "acNewConnection ac = Some ServerNewConnection" "tracks fds F D v' ac s"
    "chans (poller s) (acChan ac) = Some e" "listening ac h e"
    "\<forall>x \<ge> svNext s. conns s x = None \<and> chans (poller s) x = None"
    "\<forall>c n ch. conns s c = Some n \<longrightarrow> chans (poller s) (chan n) = Some ch \<longrightarrow> \<not> isHandling ch"
    using sv_coreD[OF I] .
  have v': "v' = v" using I(3) v by simp
  note I = I[unfolded v']
  let ?v = "v\<lparr>svConnections := insert (svNext s) (svConnections v)\<rparr>" and ?c = "svNext s" and ?d = "svNext s + 1"
  let ?a = "put_server ?v a\<lparr>held := []\<rparr>"
  obtain n ch where n: "conns a = (conns s)(?c \<mapsto> n)" "sockfd n = sock" "chan n = ?d" "status n = Connected"
     "chans (poller a) = (chans (poller s))(?d \<mapsto> ch)" "\<not> isHandling ch" "fds (kernel a) = insert sock (fds (kernel s))"
     "acceptor a = acceptor s" "svNext a = svNext s + 2"
    using op k(2) by (auto simp: opened_def)
  have f: "conns ?a = conns a" "poller ?a = poller a" "kernel ?a = kernel a" "acceptor ?a = acceptor s" "svNext ?a = svNext s + 2"
      "server ?a = Some ?v" "held ?a = []"
    using n by (simp_all add: put_server_def)
  have new: "conns s ?c = None" "chans (poller s) ?d = None" "chans (poller s) ?c = None" using I(10) by simp_all
  note t = I(7)[unfolded tracks_def]
  have im: "sockfd ` ran (conns a) = insert sock (sockfd ` ran (conns s))" "chan ` ran (conns a) = insert ?d (chan ` ran (conns s))"
    unfolding n(1) image_upd[where m = "conns s", OF new(1)] using n(2,3) by simp_all
  have out: "sock \<notin> F \<union> {acSock ac}" "?d \<notin> D \<union> {acChan ac}"
  proof -
    show "sock \<notin> F \<union> {acSock ac}" using t k(1) by auto
    have "?d \<notin> dom (chans (poller s))" using new(2) by (simp add: domIff)
    then show "?d \<notin> D \<union> {acChan ac}" using t by auto
  qed
  have tr: "tracks fds F D ?v ac ?a"
    unfolding tracks_def f im
  proof (intro conjI allI impI)
    show "svConnections ?v = dom (conns a)" using t n(1) by simp
    show "status m \<noteq> Disconnected" if "conns a c = Some m" for c m using that t n(1,4) by (auto split: if_splits)
    show "fds (kernel a) = F \<union> {acSock ac} \<union> insert sock (sockfd ` ran (conns s))" using t n(7) by simp
    show "dom (chans (poller a)) = D \<union> {acChan ac} \<union> insert ?d (chan ` ran (conns s))" using t n(5) by simp
    show "(F \<union> {acSock ac}) \<inter> insert sock (sockfd ` ran (conns s)) = {}" using t out(1) by simp
    show "(D \<union> {acChan ac}) \<inter> insert ?d (chan ` ran (conns s)) = {}" using t out(2) by simp
  qed (use t in simp_all)
  have hnd: "\<not> isHandling e'" if c: "conns ?a c = Some m" "chans (poller ?a) (chan m) = Some e'" for c m e'
  proof (cases "c = ?c")
    case True
    then show ?thesis using c n f by simp
  next
    case False
    then have m: "conns s c = Some m" using c(1) n(1) f by simp
    then have "chan m \<noteq> ?d" using net_okD(4)[OF I(1) m] new(2) by auto
    then show ?thesis using c(2) m n(5) f I(11) by simp
  qed
  have "sv_core E fds F D h ?a"
  proof (rule sv_coreI[where ch = e, OF _ f(7) f(6) _ _ I(6) tr _ I(9)])
    show "net_ok E fds ?a" using a by simp
    show "acceptor ?a = Some ac" using f(4) I(4) by simp
    show "both_callbacks ?v" using I(5) by (simp add: both_callbacks_def)
    show "chans (poller ?a) (acChan ac) = Some e" using f(2) n(5) I(8) out(2) by simp
    show "\<forall>x \<ge> svNext ?a. conns ?a x = None \<and> chans (poller ?a) x = None" using I(10) n(1,5) f by auto
  qed (use hnd in blast)
  moreover have "calm {} {} fds ?a s'" using calm_put_server[OF b(2), of ?v] unfolding s' by simp
  moreover have "net_ok E fds s'" "held s' = []" using b(1) I(2) unfolding s' by simp_all
  ultimately show ?thesis using sv_core_calm by blast
qed

text \<open>An event of the listening socket: nothing was there to accept, or there is one more connection.\<close>

lemma acceptor_event_ok:
  assumes E: "server_lawful E fds" and A: "accept_law (e_os E) (e_host E) fds" and I: "sv_core E fds F D False s"
    and a: "acceptor s = Some a" and ch: "chans (poller s) (acChan a) = Some ch"
  shows "\<exists>s'. conn_event E (server_func E uacc other) (acChan a) s = Inr s' \<and> sv_core E fds F D False s' \<and>
    (if revents ch AND (EPOLLIN OR EPOLLPRI OR EPOLLRDHUP) = 0 \<or> fst (accept (e_os E) (acSock a) addr_zero (kernel s)) < 0
     then dom (conns s') = dom (conns s)
     else dom (conns s') = insert (svNext s) (dom (conns s)) \<and>
       map_option sockfd (conns s' (svNext s)) = Some (fst (accept (e_os E) (acSock a) addr_zero (kernel s))))"
proof -
  have F: "fd_law (e_os E) fds" using E by (simp add: server_lawful_def)
  obtain v where v: "server s = Some v" "both_callbacks v" "acNewConnection a = Some ServerNewConnection" "listening a False ch" "net_ok E fds s"
      "held s = []" "\<forall>x \<ge> svNext s. conns s x = None \<and> chans (poller s) x = None"
    using sv_coreD[OF I] a ch by (metis option.inject)
  obtain u1 u2 where u: "svConnectionCallback v = Some (UserFunc u1)" "svMessageCallback v = Some (UserFunc u2)"
    using v(2) by (auto simp: both_callbacks_def)
  let ?d = "acChan a" and ?s = "put_loop (acChan a) (ch\<lparr>isHandling := True\<rparr>) s" and ?r = "revents ch AND (EPOLLIN OR EPOLLPRI OR EPOLLRDHUP) \<noteq> 0"
  have J: "sv_core E fds F D True ?s"
    by (rule sv_core_put[OF I a ch, where r = "revents ch"]) simp_all
  have f: "conns ?s = conns s" "kernel ?s = kernel s" "held ?s = held s" "server ?s = Some v" "acceptor ?s = Some a" "svNext ?s = svNext s"
      "chans (poller ?s) ?d = Some (ch\<lparr>isHandling := True\<rparr>)"
    using v a by (simp_all add: put_loop_def)
  have f8: "net_ok E fds ?s" "\<forall>x \<ge> svNext ?s. conns ?s x = None \<and> chans (poller ?s) x = None"
    using sv_core_basic[OF J] by blast+
  have here: "in_loop E s" "threadId ?s = e_cur E" using net_okD(1)[OF v(5)] by (simp_all add: in_loop_def isInLoopThread_def put_loop_def)
  note L = v(4)[unfolded listening_def]
  obtain sock peer k where k: "accept (e_os E) (acSock a) addr_zero (kernel s) = (sock, peer, k)"
    by (cases "accept (e_os E) (acSock a) addr_zero (kernel s)")
  note K = accept_fds[OF F k]
  have mid: "\<exists>b. (if ?r then acceptorRead E (accept_call E uacc) ?s else Inr ?s) = Inr b \<and> sv_core E fds F D True b \<and> acceptor b = Some a \<and>
    (if \<not> ?r \<or> sock < 0 then dom (conns b) = dom (conns s)
     else dom (conns b) = insert (svNext s) (dom (conns s)) \<and> map_option sockfd (conns b (svNext s)) = Some sock)"
  proof (cases "?r \<and> 0 \<le> sock")
    case False
    have "?r \<Longrightarrow> net_ok E fds (?s\<lparr>kernel := k\<rparr>) \<and> calm {} {} fds ?s (?s\<lparr>kernel := k\<rparr>)"
      using kernel_calm[OF f8(1), of k] K False f(2) by auto
    then have "?r \<Longrightarrow> sv_core E fds F D True (?s\<lparr>kernel := k\<rparr>)"
      using sv_core_calm[OF J] f(3) v(6) by simp
    then show ?thesis using J False k f(1,2,5) by (auto simp: acceptorRead_def with_acceptor_def Let_def)
  next
    case True
    have n: "sock \<notin> fds (kernel ?s)" "fds k = insert sock (fds (kernel ?s))" "0 < sock" "isValid (e_host E) peer"
      using K True accept_lawD(1)[OF A k] f(2) by auto
    from newConnection_ok[OF E f8(1) A f(4) u f8(2) n] obtain x b where b:
        "newConnection E sock peer (?s\<lparr>kernel := k\<rparr>) =
          Inr ((put_server (v\<lparr>svConnections := insert (svNext ?s) (svConnections v)\<rparr>) b)\<lparr>held := held ?s\<rparr>)"
        "opened fds sock (?s\<lparr>kernel := k\<rparr>) x" "net_ok E fds x" "net_ok E fds b" "calm {} {} fds x b" by blast
    let ?b = "(put_server (v\<lparr>svConnections := insert (svNext ?s) (svConnections v)\<rparr>) b)\<lparr>held := held ?s\<rparr>"
    have "sv_core E fds F D True ?b" by (rule sv_core_opened[OF J f(4) b(2) n(1,2) b(3-5) refl])
    moreover have "acceptorRead E (accept_call E uacc) ?s = Inr ?b"
      using k True f(2,5) v(3) b(1) by (simp add: acceptorRead_def with_acceptor_def accept_call_def)
    moreover obtain m where m: "conns x = (conns s)(svNext s \<mapsto> m)" "sockfd m = sock" "acceptor x = Some a"
      using b(2) f(1,5,6) by (auto simp: opened_def)
    moreover have "dom (conns b) = dom (conns x)" using calm_dom(1)[OF b(5)] by (auto simp: dom_def)
    moreover have "map_option sockfd (conns b (svNext s)) = map_option sockfd (conns x (svNext s))"
      using calm_map[OF b(5), of sockfd] by (simp add: same_id_def)
    ultimately show ?thesis using True calm_server(2)[OF b(5)] by (simp add: put_server_def)
  qed
  then obtain b where b: "(if ?r then acceptorRead E (accept_call E uacc) ?s else Inr ?s) = Inr b" "sv_core E fds F D True b" "acceptor b = Some a"
    "if \<not> ?r \<or> sock < 0 then dom (conns b) = dom (conns s)
     else dom (conns b) = insert (svNext s) (dom (conns s)) \<and> map_option sockfd (conns b (svNext s)) = Some sock" by blast
  obtain e where e: "chans (poller b) ?d = Some e" "writeCallback e = None" using sv_core_basic(4)[OF b(2,3)] by (auto simp: listening_def)
  let ?b = "put_loop ?d (e\<lparr>isHandling := False\<rparr>) b"
  have "conn_event E (server_func E uacc other) ?d s = Inr ?b"
  proof -
    have "handlerEventSafe look_loop put_loop (call_callback (call_func E (server_func E uacc other))) True ?d s =
        res_bind (if ?r then acceptorRead E (accept_call E uacc) ?s else Inr ?s) (\<lambda>b.
        res_bind (stage look_loop (call_callback (call_func E (server_func E uacc other))) ?d
          (\<lambda>r. r AND EPOLLOUT \<noteq> 0 \<and> r AND EPOLLHUP = 0) writeCallback b) (set_handling look_loop put_loop ?d False))"
      using ch L f(7) by (simp add: handlerEventSafe_def with_channel_def look_loop_def set_handling_def stage_def call_if_def)
    then have "handlerEventSafe look_loop put_loop (call_callback (call_func E (server_func E uacc other))) True ?d s = Inr ?b"
      unfolding b(1) using e by (simp add: set_handling_def with_channel_def look_loop_def stage_def call_if_def)
    then show ?thesis
      using ch L here(1) by (simp add: conn_event_def handlerEvent_def with_channel_def look_loop_def)
  qed
  moreover have "sv_core E fds F D False ?b"
    by (rule sv_core_put[OF b(2,3) e(1), where r = "revents e"]) simp_all
  moreover have "conns ?b = conns b" by (simp add: put_loop_def)
  ultimately show ?thesis using b(4) k by auto
qed

section \<open>An event on a connection\<close>

lemma connection_event_ok:
  assumes E: "server_lawful E fds" and I: "sv_core E fds F D False s" and n: "conns s c = Some n"
    and room: "length (mem (readBuffer n)) < 2 ^ 61" and ch: "chans (poller s) (chan n) = Some ch" "plausible (revents ch)"
  shows "\<exists>s'. conn_event E other (chan n) s = Inr s' \<and> sv_core E fds F D False s' \<and>
    (if ends E n (revents ch) s then dom (conns s') = dom (conns s) - {c} \<and> \<not> server_owns c s' \<and>
       sockfd n \<notin> fds (kernel s') \<and> chans (poller s') (chan n) = None
     else dom (conns s') = dom (conns s))"
proof -
  obtain v a where v: "net_ok E fds s" "held s = []" "server s = Some v" "tracks fds F D v a s"
      "\<forall>c n ch. conns s c = Some n \<longrightarrow> chans (poller s) (chan n) = Some ch \<longrightarrow> \<not> isHandling ch"
    using sv_coreD[OF I] by metis
  have o: "server_owns c s" using tracksD(6)[OF v(4) n] v(3) by (simp add: server_owns_def)
  have h: "\<not> isHandling ch" using v(5) n ch(1) by blast
  obtain s' where s': "conn_event E other (chan n) s = Inr s'" "net_ok E fds s'" "held s' = []"
    "if ends E n (revents ch) s then \<exists>s1 s2 s3 n1. net_ok E fds s1 \<and> True \<and> calm {c} {chan n} fds s s1 \<and>
      conns s1 c = Some n1 \<and> status n1 = Disconnected \<and> let_go server_owns E fds c s1 s2 \<and> calm {} {chan n} fds s2 s3 \<and> gone fds c s3 s'
     else calm {} {} fds s s'"
    using sv.event_ok[OF E v(1) TrueI n tracksD(5)[OF v(4) n] o v(2) room ch(1) h, of other] ch(2)[unfolded plausible_def] by blast
  show ?thesis
  proof (cases "ends E n (revents ch) s")
    case False
    then have c: "calm {} {} fds s s'" using s'(4) by simp
    then have "dom (conns s') = dom (conns s)" using calm_dom(1)[OF c] by (auto simp: dom_def)
    then show ?thesis using s'(1) False sv_core_calm[OF I s'(2) c s'(3)] by simp
  next
    case True
    then obtain s1 s2 s3 where c: "calm {c} {chan n} fds s s1" "let_go server_owns E fds c s1 s2" "calm {} {chan n} fds s2 s3" "gone fds c s3 s'"
      using s'(4) by (simp only: if_True) blast
    show ?thesis using s'(1) True sv_core_closed[OF E I n c s'(2,3)] by simp
  qed
qed

section \<open>The server's life\<close>

text \<open>
  The poller reports events; an event is handled; the user's timers and tasks do what a callback may
  do; and everything else of the loop leaves the network alone.
\<close>

inductive sv_step :: "('u, 'k, 'z) snet_env \<Rightarrow> ('u \<Rightarrow> int \<Rightarrow> sockaddr \<Rightarrow> ('u, 'k, 'z) snet_scheme \<Rightarrow> ('u, 'k, 'z) snet_scheme res) \<Rightarrow>
    ('u func \<Rightarrow> ('u, 'k, 'z) snet_scheme \<Rightarrow> ('u, 'k, 'z) snet_scheme res) \<Rightarrow> ('k \<Rightarrow> int set) \<Rightarrow> nat set \<Rightarrow>
    ('u, 'k, 'z) snet_scheme \<Rightarrow> ('u, 'k, 'z) snet_scheme \<Rightarrow> bool"
  for E uacc other fds D where
  sv_report: "chans (poller s) d = Some ch \<Longrightarrow> sv_step E uacc other fds D s (put_loop d (setRevents r ch) s)"
| sv_event: "chans (poller s) d = Some ch \<Longrightarrow> d \<notin> D \<Longrightarrow> plausible (revents ch) \<Longrightarrow> event_room d s \<Longrightarrow>
     conn_event E (server_func E uacc other) d s = Inr s' \<Longrightarrow> sv_step E uacc other fds D s s'"
| sv_user: "user_step E s s' \<Longrightarrow> sv_step E uacc other fds D s s'"
| sv_else: "s' = s\<lparr>timers := ts, timerIds := is, timersCreated := m, running := b, customEvents := q, wakeups := w, clock := t,
       kernel := k\<rparr> \<Longrightarrow> (\<forall>c. \<forall>f \<in> set q. \<not> keeps c f) \<Longrightarrow> fds k = fds (kernel s) \<Longrightarrow> sv_step E uacc other fds D s s'"

text \<open>
  A server is made on a loop without connections, gets its callbacks, and is started; the channel of its
  acceptor is at an address of its own.
\<close>

definition sv_init :: "('u, 'k, 'z) snet_env \<Rightarrow> ('k \<Rightarrow> int set) \<Rightarrow> int set \<Rightarrow> nat set \<Rightarrow> ('u, 'k, 'z) snet_scheme \<Rightarrow> bool" where
  "sv_init E fds F D s \<longleftrightarrow> (\<exists>s0 s1 s2 s3 d la u1 u2 a. threadId s0 = e_cur E \<and> watched fds s0 \<and> held s0 = [] \<and>
     conns s0 = Map.empty \<and> (\<forall>c. \<forall>f \<in> set (customEvents s0). \<not> keeps c f) \<and> F = fds (kernel s0) \<and> D = dom (chans (poller s0)) \<and>
     (\<forall>x \<ge> svNext s0. chans (poller s0) x = None) \<and> d < svNext s0 \<and> d \<notin> D \<and>
     TcpServer E d la s0 = Inr s1 \<and> acceptor s1 = Some a \<and> 0 \<le> acSock a \<and>
     serverConnectionCallback (UserFunc u1) s1 = Inr s2 \<and> serverMessageCallback (UserFunc u2) s2 = Inr s3 \<and>
     serverStart E s3 = Inr s)"

text \<open>The acceptor's channel is watched.\<close>

lemma sv_core_watch:
  assumes I: "sv_core E fds F D h s" and a: "acceptor s = Some a" "chans (poller s) (acChan a) = Some ch"
    and p: "poller_inv p" "chans p = (chans (poller s))(acChan a \<mapsto> ch\<lparr>events := e\<rparr>)"
  shows "sv_core E fds F D h (s\<lparr>poller := p\<rparr>)"
proof -
  obtain v a' x where I: "net_ok E fds s" "held s = []" "server s = Some v" "acceptor s = Some a'"
    "both_callbacks v" "acNewConnection a' = Some ServerNewConnection" "tracks fds F D v a' s"
    "chans (poller s) (acChan a') = Some x" "listening a' h x"
    "\<forall>x \<ge> svNext s. conns s x = None \<and> chans (poller s) x = None"
    "\<forall>c n ch. conns s c = Some n \<longrightarrow> chans (poller s) (chan n) = Some ch \<longrightarrow> \<not> isHandling ch"
    using sv_coreD[OF I] .
  have a': "a' = a" "x = ch" using I(4,8) a by simp_all
  note I = I[unfolded a']
  let ?s = "s\<lparr>poller := p\<rparr>"
  note N = net_okD[OF I(1)] and T = tracksD[OF I(7)] and L = I(9)[unfolded listening_def]
  have sock: "acSock a \<in> fds (kernel s)" using I(7) by (simp add: tracks_def)
  have "watched fds ?s"
    using N(2) p sock L unfolding watched_def by (auto split: if_splits)
  moreover have "sockfd n \<in> fds (kernel ?s) \<and> (\<exists>ch. chans (poller ?s) (chan n) = Some ch \<and> serves c n ch) \<and>
      (\<forall>d e. chans (poller ?s) d = Some e \<longrightarrow> \<not> isNoneEvent e \<longrightarrow> fd e = sockfd n \<longrightarrow> d = chan n)" if n: "conns ?s c = Some n" for c n
  proof -
    have n: "conns s c = Some n" using n by simp
    have "d = chan n" if "chans (poller ?s) d = Some e" "\<not> isNoneEvent e" "fd e = sockfd n" for d e
      using that N(5)[OF n] p(2) T(2)[OF n] L by (cases "d = acChan a") auto
    then show ?thesis using N(4)[OF n] p(2) T(1)[OF n] by simp
  qed
  ultimately have ok: "net_ok E fds ?s" using I(1) by (simp add: net_ok_def)
  have "dom (chans p) = dom (chans (poller s))" using p(2) a(2) by auto
  then have tr: "tracks fds F D v a ?s" using I(7) by (simp add: tracks_def)
  have l: "listening a h (ch\<lparr>events := e\<rparr>)" using I(9) by (simp add: listening_def)
  show ?thesis
  proof (rule sv_coreI[OF ok _ _ _ I(5,6) tr _ l])
    show "chans (poller ?s) (acChan a) = Some (ch\<lparr>events := e\<rparr>)" using p(2) by simp
    show "\<forall>x \<ge> svNext ?s. conns ?s x = None \<and> chans (poller ?s) x = None" using I(10) p(2) a(2) by auto
    show "\<not> isHandling e'" if "conns ?s c = Some n" "chans (poller ?s) (chan n) = Some e'" for c n e'
      using that p(2) T(1) I(11) by auto
  qed (use I a in simp_all)
qed

lemma sv_core_init:
  assumes L: "fd_law (e_os E) fds" and i: "sv_init E fds F D s"
  shows "sv_core E fds F D False s"
proof -
  obtain s0 s1 s2 s3 d la u1 u2 a0 where i: "threadId s0 = e_cur E" "watched fds s0" "held s0 = []"
     "conns s0 = Map.empty" "\<forall>c. \<forall>f \<in> set (customEvents s0). \<not> keeps c f" "F = fds (kernel s0)" "D = dom (chans (poller s0))"
     "\<forall>x \<ge> svNext s0. chans (poller s0) x = None" "d < svNext s0" "d \<notin> D"
     "TcpServer E d la s0 = Inr s1" "acceptor s1 = Some a0" "0 \<le> acSock a0"
     "serverConnectionCallback (UserFunc u1) s1 = Inr s2" "serverMessageCallback (UserFunc u2) s2 = Inr s3"
     "serverStart E s3 = Inr s"
    using i unfolding sv_init_def by blast
  obtain t1 where t1: "TcpAcceptor E d la s0 = Inr t1"
      "s1 = put_server \<lparr>svConnections = {}, svConnectionCallback = None, svMessageCallback = None\<rparr> t1"
    using i(11) by (auto simp: TcpServer_def res_simps)
  have "\<exists>a. acceptor t1 = Some a \<and> 0 \<le> acSock a" using t1(2) i(12,13) by (simp add: put_server_def)
  moreover have inv: "poller_inv (poller s0)" "chans (poller s0) d = None" using i(2,7,10) by (auto simp: watched_def)
  ultimately obtain f p ch k where n: "f \<notin> fds (kernel s0)" "fds k = insert f (fds (kernel s0))" "t1 = s0\<lparr>poller := p, kernel := k,
      acceptor := Some \<lparr>acSock = f, acChan = d, acLocal = la, acNewConnection = None\<rparr>\<rparr>" "poller_inv p"
    "interest p = interest (poller s0)" "chans p = (chans (poller s0))(d \<mapsto> ch)"
    "ch = \<lparr>fd = f, events = NONE_EVENT, revents = 0, readCallback = Some (Callback AcceptorRead), writeCallback = None,
      errorCallback = None, closeCallback = None, eventCallback = None, bindObject = None, isHandling = False\<rparr>"
    using TcpAcceptor_ok[OF t1(1) inv L] by blast
  have pos: "0 \<le> f" using i(12,13) t1(2) n(3) by (auto simp: put_server_def)
  let ?v = "\<lparr>svConnections = {}, svConnectionCallback = Some (UserFunc u1), svMessageCallback = Some (UserFunc u2)\<rparr>"
  let ?a = "\<lparr>acSock = f, acChan = d, acLocal = la, acNewConnection = Some ServerNewConnection\<rparr>"
  let ?s = "s0\<lparr>poller := p, kernel := k, acceptor := Some ?a, server := Some ?v\<rparr>"
  have s3: "s3 = t1\<lparr>server := Some ?v\<rparr>"
    using i(14,15) unfolding t1(2)
    by (auto simp: serverConnectionCallback_def serverMessageCallback_def with_server_def put_server_def)
  have N: "isNoneEvent ch" by (simp add: n(7) isNoneEvent_def)
  have "watched fds ?s" using i(2) n(2,4,6) N pos unfolding watched_def by (auto split: if_splits)
  then have ok: "net_ok E fds ?s" using i(1,4,5) by (simp add: net_ok_def apart_def)
  have core: "sv_core E fds F D False ?s"
  proof (rule sv_coreI[OF ok, where v = ?v and a = ?a and ch = ch])
    show "tracks fds F D ?v ?a ?s" using i(4,6,7,10) n(1,2,6) by (auto simp: tracks_def)
    show "listening ?a False ch" by (simp add: listening_def n(7))
    show "\<forall>x \<ge> svNext ?s. conns ?s x = None \<and> chans (poller ?s) x = None" using i(4,8,9) n(6) by simp
  qed (use i(3,4) n(6) in \<open>simp_all add: both_callbacks_def\<close>)
  have here: "in_loop E s3" "setAcceptCallback ServerNewConnection s3 = Inr ?s" "threadId ?s = e_cur E"
    using i(1) n(3) s3 by (simp_all add: in_loop_def isInLoopThread_def setAcceptCallback_def with_acceptor_def)
  then obtain ok where l: "acceptorListen E ?s = Inr (ok, s)"
    using i(16) s3 n(3) by (auto simp: serverStart_def startInLoop_def res_simps)
  obtain ok1 k1 where k1: "listen (e_os E) f k = (ok1, k1)" by (cases "listen (e_os E) f k")
  have fk: "fds k1 = fds (kernel ?s)" using fd_law_simps(2)[OF L, of f k] k1 by simp
  have ck: "sv_core E fds F D False (?s\<lparr>kernel := k1\<rparr>)"
    using sv_core_calm[OF core, of "?s\<lparr>kernel := k1\<rparr>"] kernel_calm[OF ok fk] i(3) by simp
  have a1: "acceptor (?s\<lparr>kernel := k1\<rparr>) = Some ?a" "chans (poller (?s\<lparr>kernel := k1\<rparr>)) (acChan ?a) = Some ch"
    using n(6) by simp_all
  show ?thesis
  proof (cases ok1)
    case False
    then show ?thesis using l here k1 ck
      by (auto simp: acceptorListen_def with_acceptor_def in_loop_def isInLoopThread_def Let_def)
  next
    case True
    have "interest p f = None" using watched_interest[OF i(2) n(1)] n(5) by simp
    then obtain q where q: "set_events True (new_events EnableReading) d p = Inr q" "poller_inv q"
        "chans q = (chans p)(d \<mapsto> ch\<lparr>events := new_events EnableReading (events ch)\<rparr>)"
      using set_events_ok[OF n(4), of d ch "new_events EnableReading"] mask_nonzero(1) n(6)
      by (auto simp: n(7) NONE_EVENT_def)
    have "s = ?s\<lparr>kernel := k1, poller := q\<rparr>"
      using l here k1 True q(1)
      by (auto simp: acceptorListen_def with_acceptor_def in_loop_def isInLoopThread_def channel_op_def do_op_set_events Let_def)
    then show ?thesis using sv_core_watch[OF ck a1 q(2), of "new_events EnableReading (events ch)"] q(3) by simp
  qed
qed

lemma sv_core_put_same:
  assumes I: "sv_core E fds F D False s" and d: "chans (poller s) d = Some ch"
  shows "sv_core E fds F D False (put_loop d (ch\<lparr>revents := r\<rparr>) s)"
proof -
  obtain a where a: "acceptor s = Some a" using I by (auto simp: sv_core_def)
  have "d = acChan a \<Longrightarrow> \<not> isHandling ch" using sv_core_basic(4)[OF I a] d by (auto simp: listening_def)
  then show ?thesis by (intro sv_core_put[OF I a d, where r = r]) auto
qed

text \<open>Every channel of the server is the acceptor's or that of a connection.\<close>

lemma sv_core_channel:
  assumes I: "sv_core E fds F D h s" and d: "chans (poller s) d = Some ch" "d \<notin> D"
  obtains a where "acceptor s = Some a" and "d = acChan a" | c n where "conns s c = Some n" and "d = chan n"
proof -
  obtain v a where va: "acceptor s = Some a" "tracks fds F D v a s" using sv_coreD[OF I] by metis
  have "d \<in> dom (chans (poller s))" using d(1) by (simp add: domI)
  then have "d = acChan a \<or> d \<in> chan ` ran (conns s)" using va(2) d(2) by (auto simp: tracks_def)
  then show ?thesis using that va(1) by (auto simp: ran_def)
qed

definition sv_os :: "('u, 'k, 'z) snet_env \<Rightarrow> ('k \<Rightarrow> int set) \<Rightarrow> bool" where
  "sv_os E fds \<longleftrightarrow> server_lawful E fds \<and> accept_law (e_os E) (e_host E) fds"

text \<open>Every event is handled, without an error.\<close>

lemma event_handled:
  assumes L: "sv_os E fds" and I: "sv_core E fds F D False s" and d: "chans (poller s) d = Some ch" "d \<notin> D"
    and r: "plausible (revents ch)" "event_room d s"
  shows "\<exists>s'. conn_event E (server_func E uacc other) d s = Inr s' \<and> sv_core E fds F D False s'"
  using sv_core_channel[OF I d]
proof cases
  case (1 a)
  then show ?thesis
    using acceptor_event_ok[OF _ _ I 1(1), of ch uacc other] L d(1) by (auto simp: sv_os_def)
next
  case (2 c n)
  have "length (mem (readBuffer n)) < 2 ^ 61" using r(2) 2 by (auto simp: event_room_def)
  then show ?thesis
    using connection_event_ok[OF _ I 2(1) _ _ r(1), of "server_func E uacc other"] L d(1) 2(2) by (auto simp: sv_os_def)
qed

text \<open>The rest of the loop.\<close>

lemma sv_core_frame:
  assumes I: "sv_core E fds F D h s" and q: "\<forall>c. \<forall>f \<in> set q. \<not> keeps c f" and k: "fds k = fds (kernel s)"
  shows "sv_core E fds F D h (s\<lparr>timers := ts, timerIds := is, timersCreated := m, running := b, customEvents := q,
    wakeups := w, clock := t, kernel := k\<rparr>)"
proof -
  let ?s = "s\<lparr>timers := ts, timerIds := is, timersCreated := m, running := b, customEvents := q, wakeups := w, clock := t, kernel := k\<rparr>"
  have "watched fds ?s = watched fds s" using k by (intro watched_same) simp_all
  then have ok: "net_ok E fds ?s" using sv_core_basic(1)[OF I] q k by (simp add: net_ok_def)
  show ?thesis
  proof (rule sv_coreD[OF I])
    fix v a ch
    assume a: "held s = []" "server s = Some v" "acceptor s = Some a" "both_callbacks v"
      "acNewConnection a = Some ServerNewConnection" "tracks fds F D v a s" "chans (poller s) (acChan a) = Some ch" "listening a h ch"
      "\<forall>x \<ge> svNext s. conns s x = None \<and> chans (poller s) x = None"
      "\<forall>c n ch. conns s c = Some n \<longrightarrow> chans (poller s) (chan n) = Some ch \<longrightarrow> \<not> isHandling ch"
    have "tracks fds F D v a ?s" using a(6) k by (simp add: tracks_def)
    then show ?thesis by (rule sv_coreI[OF ok _ _ _ a(4,5) _ _ a(8), rotated 3]) (use a in simp_all)
  qed
qed

lemma sv_core_step:
  assumes L: "sv_os E fds" and I: "sv_core E fds F D False s" and st: "sv_step E uacc other fds D s s'"
  shows "sv_core E fds F D False s'"
  using st
proof cases
  case (sv_report d ch r)
  then show ?thesis using sv_core_put_same[OF I] by (simp add: setRevents_def)
next
  case (sv_event d ch)
  then show ?thesis using event_handled[OF L I, of d ch uacc other] by auto
next
  case sv_user
  have "fd_law (e_os E) fds" using L by (simp add: sv_os_def server_lawful_def)
  then show ?thesis
    using user_step_calm[OF sv_user sv_core_basic(1)[OF I]] sv_core_calm[OF I] sv_core_basic(2)[OF I] by simp
next
  case sv_else
  then show ?thesis using sv_core_frame[OF I] by simp
qed

interpretation svs: invariant_system "\<lambda>s. sv_os E fds \<and> sv_init E fds F D s" "sv_step E uacc other fds D"
  "\<lambda>s. sv_os E fds \<and> sv_core E fds F D False s" for E uacc other fds F D
proof (unfold_locales, goal_cases)
  case (1 s)
  then have "fd_law (e_os E) fds" by (simp add: sv_os_def server_lawful_def)
  then show ?case using sv_core_init 1 by blast
next
  case (2 s s')
  then show ?case using sv_core_step by blast
qed

section \<open>Properties\<close>

text \<open>
  C1. In every state of a started server's life, the connections in its set are all there are, and each is open;
  they have different descriptors and channels, and those, with the acceptor's, are all that was added to the descriptors
  and the channels of before: none leaks, and none is closed or destroyed while it is used.  Every event the poller can
  report is handled without an error.
\<close>

theorem server_tracks:
  assumes "sv_os E fds" and "reach (\<lambda>s. sv_os E fds \<and> sv_init E fds F D s) (sv_step E uacc other fds D) s"
  shows "(\<exists>v a. server s = Some v \<and> acceptor s = Some a \<and> svConnections v = dom (conns s) \<and>
      fds (kernel s) = F \<union> {acSock a} \<union> sockfd ` ran (conns s) \<and>
      dom (chans (poller s)) = D \<union> {acChan a} \<union> chan ` ran (conns s)) \<and>
    (\<forall>c n. conns s c = Some n \<longrightarrow> status n = Connected \<or> status n = Disconnecting) \<and>
    (\<forall>c c' n n'. conns s c = Some n \<and> conns s c' = Some n' \<and> c \<noteq> c' \<longrightarrow> sockfd n \<noteq> sockfd n' \<and> chan n \<noteq> chan n') \<and>
    (\<forall>d ch. chans (poller s) d = Some ch \<and> d \<notin> D \<and> plausible (revents ch) \<and> event_room d s \<longrightarrow>
      (\<exists>s'. conn_event E (server_func E uacc other) d s = Inr s'))"
proof -
  have I: "sv_core E fds F D False s" using svs.reachable_inv[OF assms(2)] by blast
  obtain v a where va: "server s = Some v" "acceptor s = Some a" "tracks fds F D v a s" using sv_coreD[OF I] by metis
  have own: "\<exists>v a. server s = Some v \<and> acceptor s = Some a \<and> svConnections v = dom (conns s) \<and>
      fds (kernel s) = F \<union> {acSock a} \<union> sockfd ` ran (conns s) \<and> dom (chans (poller s)) = D \<union> {acChan a} \<union> chan ` ran (conns s)"
    using va by (simp add: tracks_def)
  have "status n = Connected \<or> status n = Disconnecting" if n: "conns s c = Some n" for c n
    using tracksD(5)[OF va(3) n] net_okD(4)[OF sv_core_basic(1)[OF I] n] by (cases "status n") (auto simp: serves_def)
  then have st: "\<forall>c n. conns s c = Some n \<longrightarrow> status n = Connected \<or> status n = Disconnecting" by blast
  have "apart (conns s)" using sv_core_basic(1)[OF I] by (simp add: net_ok_def)
  then have ap: "\<forall>c c' n n'. conns s c = Some n \<and> conns s c' = Some n' \<and> c \<noteq> c' \<longrightarrow> sockfd n \<noteq> sockfd n' \<and> chan n \<noteq> chan n'"
    unfolding apart_def by blast
  have "\<exists>s'. conn_event E (server_func E uacc other) d s = Inr s'"
    if "chans (poller s) d = Some ch" "d \<notin> D" "plausible (revents ch)" "event_room d s" for d ch
    using event_handled[OF assms(1) I that] by blast
  then have ev: "\<forall>d ch. chans (poller s) d = Some ch \<and> d \<notin> D \<and> plausible (revents ch) \<and> event_room d s \<longrightarrow>
      (\<exists>s'. conn_event E (server_func E uacc other) d s = Inr s')" by blast
  show ?thesis by (intro conjI own st ap ev)
qed

text \<open>
  C2. In every state of a started server's life, an event on one of its connections that is a hangup with nothing to
  read, or whose read gets nothing or fails, ends the connection: the server lets go of it, its channel is destroyed and its
  descriptor closed, once.  After any other event the server still has it.  The other connections stay.
\<close>

theorem server_connection_ends:
  assumes "sv_os E fds" and "reach (\<lambda>s. sv_os E fds \<and> sv_init E fds F D s) (sv_step E uacc other fds D) s"
    and "conns s c = Some n" and "chans (poller s) (chan n) = Some ch" and "plausible (revents ch)"
    and "length (mem (readBuffer n)) < 2 ^ 61"
  shows "\<exists>s'. conn_event E (server_func E uacc other) (chan n) s = Inr s' \<and>
    (if ends E n (revents ch) s
     then \<not> server_owns c s' \<and> conns s' c = None \<and> chans (poller s') (chan n) = None \<and> sockfd n \<notin> fds (kernel s')
     else server_owns c s' \<and> conns s' c \<noteq> None) \<and>
    (\<forall>c'. c' \<noteq> c \<longrightarrow> (conns s' c' = None \<longleftrightarrow> conns s c' = None) \<and> server_owns c' s' = server_owns c' s)"
proof -
  have I: "sv_core E fds F D False s" using svs.reachable_inv[OF assms(2)] by blast
  have E: "server_lawful E fds" using assms(1) by (simp add: sv_os_def)
  obtain s' where s': "conn_event E (server_func E uacc other) (chan n) s = Inr s'" "sv_core E fds F D False s'"
    "if ends E n (revents ch) s then dom (conns s') = dom (conns s) - {c} \<and> \<not> server_owns c s' \<and>
       sockfd n \<notin> fds (kernel s') \<and> chans (poller s') (chan n) = None
     else dom (conns s') = dom (conns s)"
    using connection_event_ok[OF E I assms(3,6,4,5)] by blast
  have owns: "server_owns x t \<longleftrightarrow> x \<in> dom (conns t)" if "sv_core E fds F D False t" for x t
    using that by (auto simp: sv_core_def tracks_def server_owns_def)
  have "c \<in> dom (conns s)" using assms(3) by blast
  then show ?thesis
    using s' owns[OF s'(2)] owns[OF I] by (intro exI[of _ s']) (auto simp: domIff split: if_splits)
qed

text \<open>
  C18. In every state of a started server's life, when the listening socket is readable and a connection can be taken, the event
  makes it a connection of the server, with the descriptor the kernel gave; when there is none, nothing is added.
\<close>

theorem server_accepts:
  assumes "sv_os E fds" and "reach (\<lambda>s. sv_os E fds \<and> sv_init E fds F D s) (sv_step E uacc other fds D) s"
    and "acceptor s = Some a" and "chans (poller s) (acChan a) = Some ch" and "revents ch AND (EPOLLIN OR EPOLLPRI OR EPOLLRDHUP) \<noteq> 0"
    and "accept (e_os E) (acSock a) addr_zero (kernel s) = (f, peer, k1)"
  shows "\<exists>s'. conn_event E (server_func E uacc other) (acChan a) s = Inr s' \<and>
    (if f < 0 then dom (conns s') = dom (conns s)
     else \<exists>c n. conns s c = None \<and> dom (conns s') = insert c (dom (conns s)) \<and> conns s' c = Some n \<and> sockfd n = f \<and>
       (status n = Connected \<or> status n = Disconnecting) \<and> server_owns c s')"
proof -
  have I: "sv_core E fds F D False s" using svs.reachable_inv[OF assms(2)] by blast
  obtain s' where s': "conn_event E (server_func E uacc other) (acChan a) s = Inr s'" "sv_core E fds F D False s'"
    "if f < 0 then dom (conns s') = dom (conns s)
     else dom (conns s') = insert (svNext s) (dom (conns s)) \<and> map_option sockfd (conns s' (svNext s)) = Some f"
    using acceptor_event_ok[OF _ _ I assms(3,4), of uacc other] assms(1,5,6) by (auto simp: sv_os_def)
  show ?thesis
  proof (cases "f < 0")
    case False
    then obtain n where n: "conns s' (svNext s) = Some n" "sockfd n = f" using s'(3) by auto
    obtain v b where t: "server s' = Some v" "tracks fds F D v b s'" using sv_coreD[OF s'(2)] by metis
    have "status n = Connected \<or> status n = Disconnecting"
      using tracksD(5)[OF t(2) n(1)] net_okD(4)[OF sv_core_basic(1)[OF s'(2)] n(1)] by (cases "status n") (auto simp: serves_def)
    moreover have "server_owns (svNext s) s'" using tracksD(6)[OF t(2) n(1)] t(1) by (simp add: server_owns_def)
    moreover have "conns s (svNext s) = None" using sv_core_basic(3)[OF I] by simp
    ultimately show ?thesis using s' n False by auto
  qed (use s' in auto)
qed

section \<open>Stopping and destroying a server\<close>

lemma sv_core_finite: "sv_core E fds F D h s \<Longrightarrow> finite (dom (conns s))"
  using sv_core_basic(3) by (intro finite_subset[of "dom (conns s)" "{..<svNext s}"]) (fastforce simp: not_le[symmetric])+

text \<open>The acceptor of a listening server is destroyed; the connections are as they were.\<close>

lemma destroyAcceptor_ok:
  assumes L: "fd_law (e_os E) fds" and I: "sv_core E fds F D h s" and a: "acceptor s = Some a"
    and ch: "chans (poller s) (acChan a) = Some ch" "\<not> isNoneEvent ch" "\<not> h"
  shows "\<exists>s'. destroyAcceptor E s = Inr s' \<and> acceptor s' = None \<and> server s' = server s \<and> conns s' = conns s \<and>
    threadId s' = threadId s \<and> held s' = held s \<and> fds (kernel s') = fds (kernel s) - {acSock a} \<and>
    chans (poller s') = (chans (poller s))(acChan a := None)"
proof -
  obtain e where e: "chans (poller s) (acChan a) = Some e" "listening a h e" using sv_core_basic(4)[OF I a] by blast
  then have l: "fd ch = acSock a" "\<not> isHandling ch" using ch by (auto simp: listening_def)
  obtain v b where va: "acceptor s = Some b" "tracks fds F D v b s" using sv_coreD[OF I] by metis
  have sock: "acSock a \<in> fds (kernel s)" using va a by (auto simp: tracks_def)
  note N = net_okD[OF sv_core_basic(1)[OF I]]
  have "acChan a \<in> channels (poller s)" using poller_invD(1)[OF N(3) ch(1)] ch(2) by blast
  then obtain q where q: "set_events True (new_events DisableAll) (acChan a) (poller s) = Inr q" "poller_inv q"
      "chans q = (chans (poller s))(acChan a \<mapsto> ch\<lparr>events := NONE_EVENT\<rparr>)"
    using set_events_ok[OF N(3) ch(1), of "new_events DisableAll"] by auto
  have none: "isNoneEvent (ch\<lparr>events := NONE_EVENT\<rparr>)" by (simp add: isNoneEvent_def)
  then obtain r where r: "delete_channel (e_build E) (acChan a) q = Inr r" "chans r = (chans q)(acChan a := None)"
    using q(3) l(2) by (simp add: delete_channel_def with_channel_def EventChannel_destroy_def)
  obtain k where k: "TcpSocket_destroy (e_build E) (e_os E) (acSock a) (kernel s) = Inr k" "fds k = fds (kernel s) - {acSock a}"
    using TcpSocket_destroy_fds[OF L sock] by blast
  have "destroyAcceptor E s = Inr (s\<lparr>poller := close_fd (acSock a) r, kernel := k, acceptor := None\<rparr>)"
    using a q(1) r(1) k(1) N(1)
    by (simp add: destroyAcceptor_def with_acceptor_def in_loop_def isInLoopThread_def channel_op_def do_op_set_events)
  then show ?thesis using k(2) r(2) q(3) by simp
qed

text \<open>
  C19. \<open>stop\<close> and the destructor of a listening server abort a Debug build as soon as there is a connection.
  Without one, \<open>stop\<close> closes the listening socket and destroys the acceptor, after which \<open>start\<close> follows a null
  pointer.
\<close>

theorem server_stop_aborts:
  assumes "sv_os E fds" and "reach (\<lambda>s. sv_os E fds \<and> sv_init E fds F D s) (sv_step E uacc other fds D) s"
    and "acceptor s = Some a" and "chans (poller s) (acChan a) = Some ch" and "\<not> isNoneEvent ch" and "e_build E = Debug"
  shows "(if dom (conns s) = {} then \<exists>s'. stopInLoop E s = Inr s' \<and> acceptor s' = None \<and> fds (kernel s') = F \<and>
      dom (chans (poller s')) = D \<and> serverStart E s' = Inl Null_Deref
    else stopInLoop E s = Inl Assert_Failed \<and> destroyServer E s = Inl Assert_Failed)"
proof -
  have I: "sv_core E fds F D False s" using svs.reachable_inv[OF assms(2)] by blast
  have L: "fd_law (e_os E) fds" and own: "e_owned E = server_owns"
    using assms(1) by (auto simp: sv_os_def server_lawful_def)
  obtain v b where v: "server s = Some v" "acceptor s = Some b" "tracks fds F D v b s" using sv_coreD[OF I] by metis
  have b: "b = a" using v(2) assms(3) by simp
  note t = v(3)[unfolded tracks_def b]
  obtain s1 where s1: "destroyAcceptor E s = Inr s1" "acceptor s1 = None" "server s1 = Some v" "conns s1 = conns s"
      "threadId s1 = threadId s" "held s1 = []" "fds (kernel s1) = fds (kernel s) - {acSock a}"
      "chans (poller s1) = (chans (poller s))(acChan a := None)"
    using destroyAcceptor_ok[OF L I assms(3-5)] v(1) sv_core_basic(2)[OF I] by auto
  let ?cs = "sorted_list_of_set (svConnections v)"
  have here: "threadId s = e_cur E" using net_okD(1)[OF sv_core_basic(1)[OF I]] .
  have stop: "stopInLoop E s = res_bind (res_fold (connForceClose E) ?cs (s1\<lparr>held := ?cs\<rparr>)) (res_fold (unhold E) ?cs)"
    using assms(3) s1 by (simp add: stopInLoop_def with_server_def Let_def)
  show ?thesis
  proof (cases "dom (conns s) = {}")
    case True
    then have "?cs = []" using t by simp
    then have "stopInLoop E s = Inr (s1\<lparr>held := []\<rparr>)" using stop by simp
    moreover have "serverStart E (s1\<lparr>held := []\<rparr>) = Inl Null_Deref"
      using s1(2,5) here by (simp add: serverStart_def startInLoop_def in_loop_def isInLoopThread_def)
    moreover have "conns s = Map.empty" using True by simp
    then have "fds (kernel s1) = F" "dom (chans (poller s1)) = D" using s1(7,8) t by auto
    ultimately show ?thesis using True s1(2) by simp
  next
    case False
    then obtain c cs where cs: "?cs = c # cs" "c \<in> dom (conns s)"
      using t sv_core_finite[OF I] by (metis list.exhaust list.set_intros(1) set_sorted_list_of_set empty_set)
    then obtain n where n: "conns s c = Some n" by blast
    have st: "status n = Connected \<or> status n = Disconnecting" "status n \<noteq> Disconnected"
      using tracksD(5)[OF v(3) n] net_okD(4)[OF sv_core_basic(1)[OF I] n] by (cases "status n"; auto simp: serves_def)+
    have "connForceClose E c (s1\<lparr>held := ?cs\<rparr>) = forceCloseInLoop E c (s1\<lparr>held := ?cs\<rparr>)"
      using s1(5) here by (simp add: connForceClose_def in_loop_def isInLoopThread_def)
    also have "\<dots> = Inl Assert_Failed"
      using n s1(4,5) here st(1) assms(6)
      by (auto simp: forceCloseInLoop_def with_conn_def handleClose_def closeChannel_def put_conn_def in_loop_def isInLoopThread_def)
    finally have a1: "stopInLoop E s = Inl Assert_Failed" unfolding stop cs(1) by simp
    have "\<not> referenced E c (s\<lparr>server := None\<rparr>)"
      using sv_core_basic(1,2)[OF I] own by (auto simp: referenced_def server_owns_def net_ok_def)
    then have "drop_ref E c (s\<lparr>server := None\<rparr>) = Inl Assert_Failed"
      using n st(2) assms(6) by (simp add: drop_ref_def destroyConnection_def with_conn_def)
    then have "destroyServer E s = Inl Assert_Failed" using v(1) cs(1) by (simp add: destroyServer_def with_server_def)
    then show ?thesis using a1 False by simp
  qed
qed

section \<open>Witnesses\<close>

text \<open>
  The sample kernel with a fixed peer, and a server with one connection waiting that is accepted; then the client shuts
  its side down.
\<close>

definition server_os :: "kern os" where
  "server_os = sample_os\<lparr>
     sys_accept4 := (\<lambda>_ a _ _ k. if k_backlog k = 0 \<or> k_next k = 0 then (-1, a, k_fail EAGAIN k)
       else let (f, k1) = k_make k in (f, V4Any Little 80, k1\<lparr>k_backlog := k_backlog k - 1\<rparr>)),
     sys_getsockname := (\<lambda>_ _ _ k. (0, V4Any Little 1000, k))\<rparr>"

definition sample_senv :: "(nat, kern, (nat, kern) snet) env" where
  "sample_senv = server_env ((sample_env Debug)\<lparr>e_os := server_os\<rparr>)"

definition no_other :: "nat func \<Rightarrow> (nat, kern) snet \<Rightarrow> (nat, kern) snet res" where
  "no_other f s = Inr s"

definition no_accept :: "nat \<Rightarrow> int \<Rightarrow> sockaddr \<Rightarrow> (nat, kern) snet \<Rightarrow> (nat, kern) snet res" where
  "no_accept u f a s = Inr s"

definition sample_snet :: "(nat, kern) snet" where
  "sample_snet = \<lparr>timers = [], timerIds = {}, timersCreated = 0, threadId = 0, running = True, customEvents = [],
     wakeups = 0, poller = EventPoller, clock = 0, kernel = kern0\<lparr>k_backlog := 1, k_eof := \<lambda>_. True\<rparr>, conns = Map.empty, held = [],
     acceptor = None, server = None, svNext = 5\<rparr>"

definition sample_start :: "(nat, kern) snet res" where
  "sample_start = res_bind (TcpServer sample_senv 2 (V4Any Little 80) sample_snet) (\<lambda>s1.
     res_bind (serverConnectionCallback (UserFunc 1) s1) (\<lambda>s2.
     res_bind (serverMessageCallback (UserFunc 2) s2) (serverStart sample_senv)))"

definition report :: "nat \<Rightarrow> 32 word \<Rightarrow> (nat, kern) snet \<Rightarrow> (nat, kern) snet" where
  "report d r s = (case chans (poller s) d of None \<Rightarrow> s | Some ch \<Rightarrow> put_loop d (setRevents r ch) s)"

definition sample_event :: "nat \<Rightarrow> (nat, kern) snet \<Rightarrow> (nat, kern) snet res" where
  "sample_event d s = conn_event sample_senv (server_func sample_senv no_accept no_other) d s"

lemma sample_sv_os: "sv_os sample_senv k_fds"
proof -
  have "fd_law server_os k_fds" by (auto simp: fd_law_def sample_defs k_fds_def server_os_def)
  moreover have "io_law server_os" by (auto simp: io_law_def sample_defs server_os_def)
  moreover have "isValid Little (V4Any Little 80)" "isValid Little (V4Any Little 1000)" by code_simp+
  then have "accept_law server_os Little k_fds"
    by (auto simp: accept_law_def sample_defs server_os_def split: prod.splits)
  ultimately show ?thesis
    by (auto simp: sv_os_def server_lawful_def sample_senv_def sample_env_def)
qed

definition sample_accepted :: "(nat, kern) snet res" where
  "sample_accepted = res_bind sample_start (\<lambda>s. sample_event 2 (report 2 EPOLLIN s))"

lemma sample_accepted_run:
  "(case sample_accepted of Inl e \<Rightarrow> False | Inr s \<Rightarrow> server_owns 5 s \<and> (case conns s 5 of None \<Rightarrow> False
     | Some n \<Rightarrow> sockfd n = 11 \<and> chan n = 6 \<and> length (mem (readBuffer n)) < 2000 \<and>
     chans (poller s) 6 \<noteq> None \<and> ends sample_senv n EPOLLIN s) \<and> (case acceptor s of None \<Rightarrow> False | Some a \<Rightarrow>
      (case chans (poller s) (acChan a) of None \<Rightarrow> False | Some ch \<Rightarrow> \<not> isNoneEvent ch)))"
  by code_simp

lemma sample_start_run:
  "(case sample_start of Inl e \<Rightarrow> False | Inr s \<Rightarrow> (case chans (poller s) 2 of None \<Rightarrow> False | Some ch \<Rightarrow>
     (case acceptor s of None \<Rightarrow> False | Some a \<Rightarrow> acChan a = 2 \<and> 0 \<le> acSock a \<and>
       fst (accept (e_os sample_senv) (acSock a) addr_zero (kernel s)) = 11)))"
  by code_simp

abbreviation sample_reach :: "(nat, kern) snet \<Rightarrow> bool" where
  "sample_reach \<equiv> reach (\<lambda>s. sv_os sample_senv k_fds \<and> sv_init sample_senv k_fds {} {} s)
     (sv_step sample_senv no_accept no_other k_fds {})"

lemma sample_start_reach:
  assumes "sample_start = Inr s"
  shows "sample_reach s"
proof -
  obtain s1 s2 s3 where r: "TcpServer sample_senv 2 (V4Any Little 80) sample_snet = Inr s1"
      "serverConnectionCallback (UserFunc 1) s1 = Inr s2" "serverMessageCallback (UserFunc 2) s2 = Inr s3"
      "serverStart sample_senv s3 = Inr s"
    using assms by (auto simp: sample_start_def res_simps)
  have "case TcpServer sample_senv 2 (V4Any Little 80) sample_snet of Inl e \<Rightarrow> False
      | Inr s \<Rightarrow> (case acceptor s of None \<Rightarrow> False | Some a \<Rightarrow> 0 \<le> acSock a)" by code_simp
  then obtain a where a: "acceptor s1 = Some a" "0 \<le> acSock a" using r(1) by (auto split: option.splits)
  have "sv_init sample_senv k_fds {} {} s"
    unfolding sv_init_def
    by (intro exI[of _ sample_snet] exI[of _ s1] exI[of _ s2] exI[of _ s3] exI[of _ 2] exI[of _ "V4Any Little 80"] exI[of _ 1] exI[of _ 2]
        exI[of _ a] conjI r a)
      (auto simp: sample_snet_def sample_senv_def sample_env_def watched_def EventPoller_def poller_inv_def k_fds_def kern0_def)
  then show ?thesis using sample_sv_os by (intro reach_init) simp
qed

lemma sample_report_reach: "sample_reach s \<Longrightarrow> sample_reach (report d r s)"
  by (cases "chans (poller s) d") (auto simp: report_def intro: reach_step sv_report)

lemma acceptor_event_room:
  assumes "sv_core E fds F D h s" and "acceptor s = Some a"
  shows "event_room (acChan a) s"
proof -
  obtain v b where v: "acceptor s = Some b" "tracks fds F D v b s" using sv_coreD[OF assms(1)] by metis
  then show ?thesis using tracksD(1)[OF v(2)] assms(2) by (auto simp: event_room_def)
qed

lemma sample_accepted_reach:
  assumes "sample_accepted = Inr s"
  shows "sample_reach s"
proof -
  obtain s0 where s0: "sample_start = Inr s0" "sample_event 2 (report 2 EPOLLIN s0) = Inr s"
    using assms unfolding sample_accepted_def res_bind_Inr_iff by blast
  obtain ch a where ch: "chans (poller s0) 2 = Some ch" "acceptor s0 = Some a" "acChan a = 2"
    using sample_start_run[unfolded s0(1)] by (auto split: option.splits)
  let ?s = "report 2 EPOLLIN s0"
  have R: "sample_reach ?s" using sample_report_reach[OF sample_start_reach[OF s0(1)]] .
  then have "sv_core sample_senv k_fds {} {} False ?s" using svs.reachable_inv[OF R] by blast
  moreover have f: "acceptor ?s = Some a" "chans (poller ?s) 2 = Some (setRevents EPOLLIN ch)"
    using ch by (simp_all add: report_def put_loop_def)
  ultimately have "event_room 2 ?s" using acceptor_event_room ch(3) by metis
  moreover have "plausible (revents (setRevents EPOLLIN ch))"
  proof -
    have "plausible EPOLLIN" by code_simp
    then show ?thesis by (simp add: setRevents_def)
  qed
  ultimately have "sv_step sample_senv no_accept no_other k_fds {} ?s s"
    using s0(2) sv_event[OF f(2)] by (simp add: sample_event_def)
  then show ?thesis using reach_step[OF R] by blast
qed

text \<open>The accepted connection, in the state after, and when its end of input is reported.\<close>

lemma sample_connection:
  obtains s n where "sample_accepted = Inr s" and "sample_reach s" and "conns s 5 = Some n" and "sockfd n = 11" and "chan n = 6"
    and "length (mem (readBuffer n)) < 2000" and "chans (poller s) 6 \<noteq> None" and "ends sample_senv n EPOLLIN s"
proof -
  obtain s n where "sample_accepted = Inr s" "conns s 5 = Some n" "sockfd n = 11" "chan n = 6" "length (mem (readBuffer n)) < 2000"
      "chans (poller s) 6 \<noteq> None" "ends sample_senv n EPOLLIN s"
    using sample_accepted_run by (auto split: sum.splits option.splits)
  then show ?thesis using that sample_accepted_reach by blast
qed

theorem server_tracks_witness:
  "\<exists>s v a. sample_accepted = Inr s \<and> server s = Some v \<and> acceptor s = Some a \<and> 5 \<in> svConnections v \<and>
     k_fds (kernel s) = {acSock a} \<union> sockfd ` ran (conns s) \<and> 11 \<in> k_fds (kernel s)"
proof -
  obtain s n where s: "sample_accepted = Inr s" "sample_reach s" "conns s 5 = Some n" "sockfd n = 11"
    using sample_connection by metis
  obtain v a where va: "server s = Some v" "acceptor s = Some a" "svConnections v = dom (conns s)"
      "k_fds (kernel s) = {} \<union> {acSock a} \<union> sockfd ` ran (conns s)"
    using server_tracks[OF sample_sv_os s(2)] by metis
  moreover have "11 \<in> sockfd ` ran (conns s)" using ran_image[of "conns s" 5 n sockfd] s(3,4) by simp
  ultimately show ?thesis using s(1,3) by (intro exI[of _ s] exI[of _ v] exI[of _ a]) auto
qed

theorem server_connection_ends_witness:
  "\<exists>s s'. sample_accepted = Inr s \<and> conns s 5 \<noteq> None \<and> sample_event 6 (report 6 EPOLLIN s) = Inr s' \<and>
     conns s' 5 = None \<and> \<not> server_owns 5 s' \<and> 11 \<notin> k_fds (kernel s')"
proof -
  obtain s n where s: "sample_accepted = Inr s" "sample_reach s" "conns s 5 = Some n" "sockfd n = 11" "chan n = 6"
      "length (mem (readBuffer n)) < 2000" "chans (poller s) 6 \<noteq> None" "ends sample_senv n EPOLLIN s"
    using sample_connection by metis
  obtain ch where ch: "chans (poller s) 6 = Some ch" using s(7) by blast
  let ?s = "report 6 EPOLLIN s"
  have f: "conns ?s 5 = Some n" "chans (poller ?s) (chan n) = Some (setRevents EPOLLIN ch)" "revents (setRevents EPOLLIN ch) = EPOLLIN"
      "ends sample_senv n EPOLLIN ?s" "length (mem (readBuffer n)) < 2 ^ 61"
    using s ch by (simp_all add: report_def put_loop_def setRevents_def ends_def)
  have p: "plausible (revents (setRevents EPOLLIN ch))" unfolding f(3) by code_simp
  show ?thesis
    using server_connection_ends[OF sample_sv_os sample_report_reach[OF s(2)] f(1,2) p f(5)] f(3,4) s(1,3,4,5)
    by (auto simp: sample_event_def)
qed

theorem server_accepts_witness:
  "\<exists>s s' c. sample_start = Inr s \<and> sample_event 2 (report 2 EPOLLIN s) = Inr s' \<and>
     server_owns c s' \<and> map_option sockfd (conns s' c) = Some 11"
proof -
  obtain s where s: "sample_start = Inr s" using sample_start_run by (auto split: sum.splits)
  obtain ch a where ch: "chans (poller s) 2 = Some ch" "acceptor s = Some a" "acChan a = 2"
      "fst (accept (e_os sample_senv) (acSock a) addr_zero (kernel s)) = 11"
    using sample_start_run[unfolded s] by (auto split: option.splits)
  let ?s = "report 2 EPOLLIN s"
  have f: "acceptor ?s = Some a" "chans (poller ?s) (acChan a) = Some (setRevents EPOLLIN ch)" "kernel ?s = kernel s"
    using ch by (simp_all add: report_def put_loop_def)
  have "EPOLLIN AND (EPOLLIN OR EPOLLPRI OR EPOLLRDHUP) \<noteq> 0" by code_simp
  then have r: "revents (setRevents EPOLLIN ch) AND (EPOLLIN OR EPOLLPRI OR EPOLLRDHUP) \<noteq> 0" by (simp add: setRevents_def)
  obtain peer k where k: "accept (e_os sample_senv) (acSock a) addr_zero (kernel ?s) = (11, peer, k)"
    using ch(4) f(3) by (metis prod.collapse)
  show ?thesis
    using server_accepts[OF sample_sv_os sample_report_reach[OF sample_start_reach[OF s]] f(1,2) r k] s ch(3)
    by (auto simp: sample_event_def)
qed

theorem server_stop_aborts_witness:
  "\<exists>s. sample_accepted = Inr s \<and> stopInLoop sample_senv s = Inl Assert_Failed \<and> destroyServer sample_senv s = Inl Assert_Failed"
proof -
  obtain s n where s: "sample_accepted = Inr s" "sample_reach s" "conns s 5 = Some n" using sample_connection by metis
  obtain a ch where a: "acceptor s = Some a" "chans (poller s) (acChan a) = Some ch" "\<not> isNoneEvent ch"
    using sample_accepted_run[unfolded s(1)] by (auto split: option.splits)
  have "dom (conns s) \<noteq> {}" using s(3) by blast
  moreover have "e_build sample_senv = Debug" by (simp add: sample_senv_def sample_env_def)
  ultimately show ?thesis using server_stop_aborts[OF sample_sv_os s(2) a] s(1) by (auto split: if_splits)
qed

end
