(* ===== verification/Tcp_Client.thy ===== *)
theory Tcp_Client
  imports Connector_System Tcp_Owner
begin

text \<open>
  \<^verbatim>\<open>src/include/godnet/net/tcp_client.hpp\<close> and \<^verbatim>\<open>tcp_client.cpp\<close>: a connector, the
  connection it leads to, and whether to connect again when that is closed.

  The state extends that of the connector by the client.
\<close>

section \<open>State\<close>

record 'u client =
  clStarted :: bool
  clRetry :: bool
  clConnectionCallback :: "'u cfunc option"
  clMessageCallback :: "'u cfunc option"
  clConnection :: "nat option"

record ('u, 'k) clnet = "('u, 'k) cnet" +
  client :: "'u client option"

type_synonym ('u, 'k, 'z) clnet_env = "('u, 'k, ('u, 'k, 'z) clnet_scheme) env"

definition with_client :: "('u, 'k, 'z) clnet_scheme \<Rightarrow> ('u client \<Rightarrow> 'a res) \<Rightarrow> 'a res" where
  "with_client s f = (case client s of None \<Rightarrow> Inl Dangling | Some k \<Rightarrow> f k)"

definition put_client :: "'u client \<Rightarrow> ('u, 'k, 'z) clnet_scheme \<Rightarrow> ('u, 'k, 'z) clnet_scheme" where
  "put_client k s = s\<lparr>client := Some k\<rparr>"

definition client_owns :: "nat \<Rightarrow> ('u, 'k, 'z) clnet_scheme \<Rightarrow> bool" where
  "client_owns c s = (case client s of None \<Rightarrow> False | Some k \<Rightarrow> clConnection k = Some c)"

text \<open>\<^verbatim>\<open>connector_.reset()\<close>, and \<^verbatim>\<open>connection_\<close> letting go of what it refers to.\<close>

definition reset_connector :: "('u, 'k, 'z) clnet_env \<Rightarrow> ('u, 'k, 'z) clnet_scheme \<Rightarrow> ('u, 'k, 'z) clnet_scheme res" where
  "reset_connector E s = (if connector s = None then Inr s else destroyConnector E s)"

definition let_connection :: "('u, 'k, 'z) clnet_env \<Rightarrow> nat option \<Rightarrow> ('u, 'k, 'z) clnet_scheme \<Rightarrow> ('u, 'k, 'z) clnet_scheme res" where
  "let_connection E old s = (case old of None \<Rightarrow> Inr s | Some c \<Rightarrow> drop_ref E c s)"

section \<open>Construction, starting, stopping\<close>

text \<open>The delays are the defaults of the connector's constructor.\<close>

definition TcpClient :: "('u, 'k, 'z) clnet_env \<Rightarrow> sockaddr \<Rightarrow> ('u, 'k, 'z) clnet_scheme \<Rightarrow> ('u, 'k, 'z) clnet_scheme res" where
  "TcpClient E peer s = res_bind (TcpConnector E peer 500 5000 s) (\<lambda>s1.
     Inr (put_client \<lparr>clStarted = False, clRetry = False, clConnectionCallback = None, clMessageCallback = None,
       clConnection = None\<rparr> s1))"

text \<open>The destructor: the connector goes, then the members.\<close>

definition destroyClient :: "('u, 'k, 'z) clnet_env \<Rightarrow> ('u, 'k, 'z) clnet_scheme \<Rightarrow> ('u, 'k, 'z) clnet_scheme res" where
  "destroyClient E s = guarding Wrong_Thread (in_loop E s) (res_bind (reset_connector E s) (\<lambda>s1. with_client s1 (\<lambda>k.
     let_connection E (clConnection k) (s1\<lparr>client := None\<rparr>))))"

definition clientConnectionCallback :: "'u cfunc \<Rightarrow> ('u, 'k, 'z) clnet_scheme \<Rightarrow> ('u, 'k, 'z) clnet_scheme res" where
  "clientConnectionCallback cb s = with_client s (\<lambda>k. Inr (put_client (k\<lparr>clConnectionCallback := Some cb\<rparr>) s))"

definition clientMessageCallback :: "'u cfunc \<Rightarrow> ('u, 'k, 'z) clnet_scheme \<Rightarrow> ('u, 'k, 'z) clnet_scheme res" where
  "clientMessageCallback cb s = with_client s (\<lambda>k. Inr (put_client (k\<lparr>clMessageCallback := Some cb\<rparr>) s))"

definition setRetry :: "bool \<Rightarrow> ('u, 'k, 'z) clnet_scheme \<Rightarrow> ('u, 'k, 'z) clnet_scheme res" where
  "setRetry on s = with_client s (\<lambda>k. Inr (put_client (k\<lparr>clRetry := on\<rparr>) s))"

definition clientStartInLoop :: "('u, 'k, 'z) clnet_env \<Rightarrow> ('u, 'k, 'z) clnet_scheme \<Rightarrow> ('u, 'k, 'z) clnet_scheme res" where
  "clientStartInLoop E s = with_client s (\<lambda>k. let s1 = put_client (k\<lparr>clStarted := True\<rparr>) s in
     guarding Null_Deref (connector s1 \<noteq> None)
       (res_bind (setNewConnectionCallback ClientNewConnection s1) (connect E)))"

definition clientStart :: "('u, 'k, 'z) clnet_env \<Rightarrow> ('u, 'k, 'z) clnet_scheme \<Rightarrow> ('u, 'k, 'z) clnet_scheme res" where
  "clientStart E = runInLoop (\<lambda>_. clientStartInLoop E) (e_build E) (e_cur E) ClientStart"

definition clientStopInLoop :: "('u, 'k, 'z) clnet_env \<Rightarrow> ('u, 'k, 'z) clnet_scheme \<Rightarrow> ('u, 'k, 'z) clnet_scheme res" where
  "clientStopInLoop E s = with_client s (\<lambda>k.
     res_bind (reset_connector E (put_client (k\<lparr>clStarted := False\<rparr>) s)) (\<lambda>s1. with_client s1 (\<lambda>k1.
     case clConnection k1 of None \<Rightarrow> Inr s1 | Some c \<Rightarrow> connForceClose E c s1)))"

text \<open>
  From another thread the function is queued, and the caller waits for the promise it sets when it has run.
\<close>

definition clientStop :: "('u, 'k, 'z) clnet_env \<Rightarrow> ('u, 'k, 'z) clnet_scheme \<Rightarrow> ('u, 'k, 'z) clnet_scheme res" where
  "clientStop E = runInLoop (\<lambda>_. clientStopInLoop E) (e_build E) (e_cur E) ClientStop"

section \<open>The connection\<close>

text \<open>The close callback: whatever connection was closed, the client lets go of its own.\<close>

definition clientRemoveConnection :: "('u, 'k, 'z) clnet_env \<Rightarrow> ('u, 'k, 'z) clnet_scheme \<Rightarrow> ('u, 'k, 'z) clnet_scheme res" where
  "clientRemoveConnection E s = guarding Wrong_Thread (in_loop E s) (with_client s (\<lambda>k.
     res_bind (let_connection E (clConnection k) (put_client (k\<lparr>clConnection := None\<rparr>) s)) (\<lambda>s1. with_client s1 (\<lambda>k1.
     if clRetry k1 \<and> clStarted k1 then guarding Null_Deref (connector s1 \<noteq> None) (reconnect E s1) else Inr s1))))"

text \<open>
  The environment of the client's connection: it owns it, and its close callback is \<open>removeConnection\<close>.
\<close>

definition client_env :: "('u, 'k, 'z) clnet_env \<Rightarrow> ('u, 'k, 'z) clnet_env" where
  "client_env E = (let E1 = E\<lparr>e_owned := client_owns\<rparr> in E1\<lparr>e_ccall := (\<lambda>f c s. case f of
     OwnerRemove \<Rightarrow> clientRemoveConnection E1 s | UserFunc u \<Rightarrow> e_ccall E (UserFunc u) c s)\<rparr>)"

text \<open>The result of \<open>getPeerAddr\<close> is not looked at.\<close>

definition clientNewConnection :: "('u, 'k, 'z) clnet_env \<Rightarrow> int \<Rightarrow> ('u, 'k, 'z) clnet_scheme \<Rightarrow> ('u, 'k, 'z) clnet_scheme res" where
  "clientNewConnection E sock s = guarding Wrong_Thread (in_loop E s)
     (let (ret, peer, k1) = getPeerAddr (e_os E) sock addr_zero (kernel s); c = nextAddr s; d = nextAddr s + 1 in
      res_bind (TcpConnection E c d sock peer (s\<lparr>kernel := k1, nextAddr := nextAddr s + 2\<rparr>)) (\<lambda>s1. with_client s1 (\<lambda>k.
      res_bind (let_connection E (clConnection k) (put_client (k\<lparr>clConnection := Some c\<rparr>) s1)) (\<lambda>s2.
      res_bind (setConnectionCallback c (clConnectionCallback k) s2) (\<lambda>s3.
      res_bind (setMessageCallback c (clMessageCallback k) s3) (\<lambda>s4.
      res_bind (setConnCloseCallback c (Some OwnerRemove) s4) (connInit E c)))))))"

section \<open>The functions the loop holds for a client\<close>

definition connected_call :: "('u, 'k, 'z) clnet_env \<Rightarrow> ('u \<Rightarrow> int \<Rightarrow> ('u, 'k, 'z) clnet_scheme \<Rightarrow> ('u, 'k, 'z) clnet_scheme res) \<Rightarrow>
    'u nfunc \<Rightarrow> int \<Rightarrow> ('u, 'k, 'z) clnet_scheme \<Rightarrow> ('u, 'k, 'z) clnet_scheme res" where
  "connected_call E unew f sock s = (case f of
     ClientNewConnection \<Rightarrow> clientNewConnection E sock s | UserNewConnection u \<Rightarrow> unew u sock s)"

fun client_func :: "('u, 'k, 'z) clnet_env \<Rightarrow> ('u \<Rightarrow> int \<Rightarrow> ('u, 'k, 'z) clnet_scheme \<Rightarrow> ('u, 'k, 'z) clnet_scheme res) \<Rightarrow>
    ('u func \<Rightarrow> ('u, 'k, 'z) clnet_scheme \<Rightarrow> ('u, 'k, 'z) clnet_scheme res) \<Rightarrow>
    'u func \<Rightarrow> ('u, 'k, 'z) clnet_scheme \<Rightarrow> ('u, 'k, 'z) clnet_scheme res" where
  "client_func E unew other ConnectorWrite s = connectorWrite E (connected_call E unew) s"
| "client_func E unew other ConnectorConnect s = connect E s"
| "client_func E unew other ClientStart s = clientStartInLoop E s"
| "client_func E unew other ClientStop s = clientStopInLoop E s"
| "client_func E unew other f s = other f s"

section \<open>Connecting, among connections\<close>

text \<open>What \<open>connect\<close> comes to: an attempt in progress, or a timer for the next one.\<close>

definition attempt :: "('k \<Rightarrow> int set) \<Rightarrow> 'u connector \<Rightarrow> ('u, 'k, 'z) cnet_scheme \<Rightarrow> ('u, 'k, 'z) cnet_scheme \<Rightarrow> bool" where
  "attempt fds cn s s' \<longleftrightarrow> (\<exists>sock k p ch. sock \<notin> fds (kernel s) \<and> fds k = insert sock (fds (kernel s)) \<and> 0 \<le> sock \<and>
     s' = s\<lparr>kernel := k, poller := p, nextAddr := nextAddr s + 1,
       connector := Some (cn\<lparr>cnTimer := 0, cnStatus := CnConnecting, cnChan := Some (nextAddr s)\<rparr>)\<rparr> \<and>
     poller_inv p \<and> chans p = (chans (poller s))(nextAddr s \<mapsto> ch) \<and> connecting_channel (nextAddr s) sock ch)"

definition postponed :: "('k \<Rightarrow> int set) \<Rightarrow> 'u connector \<Rightarrow> ('u, 'k, 'z) cnet_scheme \<Rightarrow> ('u, 'k, 'z) cnet_scheme \<Rightarrow> bool" where
  "postponed fds cn s s' \<longleftrightarrow> (\<exists>k. fds k = fds (kernel s) \<and>
     s' = s\<lparr>kernel := k, timersCreated := timersCreated s + 1, timerIds := insert (t_id (retry_timer s cn)) (timerIds s),
       timers := pq_push (retry_timer s cn) (timers s), connector := Some (retried s cn)\<rparr>)"

lemma connect_outcome:
  assumes here: "threadId s = e_cur E" and c: "connector s = Some cn" "cnStatus cn = CnDisconnected" "cnChan cn = None"
      "cnNewConnection cn \<noteq> None"
    and w: "watched fds s" and L: "fd_law (e_os E) fds" "connect_law (e_os E)"
    and fresh: "chans (poller s) (nextAddr s) = None"
  shows "\<exists>s'. connect E s = Inr s' \<and> (attempt fds cn s s' \<or> postponed fds (cn\<lparr>cnTimer := 0\<rparr>) s s')"
proof -
  obtain sock k1 where k1: "tcpSocket (e_os E) (family (e_host E) (cnPeer cn)) (kernel s) = (sock, k1)"
    by (cases "tcpSocket (e_os E) (family (e_host E) (cnPeer cn)) (kernel s)")
  obtain ret k2 where k2: "socket_connect (e_os E) sock (cnPeer cn) k1 = (ret, k2)"
    by (cases "socket_connect (e_os E) sock (cnPeer cn) k1")
  note ok = connect_ok[OF here c w L fresh k1 k2]
  show ?thesis
  proof (cases "ret = 0")
    case True
    then obtain p ch where p: "sock \<notin> fds (kernel s)" "fds k2 = insert sock (fds (kernel s))" "0 \<le> sock"
      "connect E s = Inr (s\<lparr>kernel := k2, poller := p, nextAddr := nextAddr s + 1, connector :=
        Some (cn\<lparr>cnTimer := 0, cnStatus := CnConnecting, cnChan := Some (nextAddr s)\<rparr>)\<rparr>)"
      "poller_inv p" "chans p = (chans (poller s))(nextAddr s \<mapsto> ch)" "connecting_channel (nextAddr s) sock ch"
      using ok by auto
    show ?thesis
      unfolding p(4) attempt_def
      by (intro exI[of _ "s\<lparr>kernel := k2, poller := p, nextAddr := nextAddr s + 1, connector :=
        Some (cn\<lparr>cnTimer := 0, cnStatus := CnConnecting, cnChan := Some (nextAddr s)\<rparr>)\<rparr>"] conjI disjI1
        exI[of _ sock] exI[of _ k2] exI[of _ p] exI[of _ ch] refl p)
  next
    case False
    let ?cn = "cn\<lparr>cnTimer := 0\<rparr>" and ?s = "put_connector (cn\<lparr>cnTimer := 0\<rparr>) (s\<lparr>kernel := k2\<rparr>)"
    have "connect E s = retry E sock ?s" "fds (snd (closeSocket (e_os E) sock k2)) = fds (kernel s)" using ok False by simp_all
    moreover have "retry_timer ?s ?cn = retry_timer s ?cn" "retried ?s ?cn = retried s ?cn"
      by (simp_all add: retry_timer_def retried_def put_connector_def)
    ultimately show ?thesis
      using retry_ok[of ?s E ?cn sock] here c unfolding postponed_def by (auto simp: put_connector_def)
  qed
qed

lemma attempt_net_ok:
  assumes ok: "net_ok E fds s" and a: "attempt fds cn s s'" and fresh: "chans (poller s) (nextAddr s) = None"
  shows "net_ok E fds s'"
proof -
  obtain f k p ch where n: "f \<notin> fds (kernel s)" "fds k = insert f (fds (kernel s))" "0 \<le> f" "kernel s' = k" "poller s' = p"
      "poller_inv p" "chans p = (chans (poller s))(nextAddr s \<mapsto> ch)" "fd ch = f" "threadId s' = threadId s" "conns s' = conns s"
      "customEvents s' = customEvents s"
    using a by (auto simp: attempt_def connecting_channel_def)
  note I = net_okD[OF ok]
  have "watched fds s'" using I(2) n unfolding watched_def by auto
  moreover have "sockfd m \<in> fds (kernel s') \<and> (\<exists>e. chans (poller s') (chan m) = Some e \<and> serves c m e) \<and>
      (\<forall>d e. chans (poller s') d = Some e \<longrightarrow> \<not> isNoneEvent e \<longrightarrow> fd e = sockfd m \<longrightarrow> d = chan m)" if m: "conns s c = Some m" for c m
  proof -
    obtain e where e: "sockfd m \<in> fds (kernel s)" "chans (poller s) (chan m) = Some e" "serves c m e" using I(4)[OF m] by blast
    moreover have "chan m \<noteq> nextAddr s" using e(2) fresh by auto
    moreover have "d = chan m" if "chans p d = Some e" "\<not> isNoneEvent e" "fd e = sockfd m" for d e
      using that n(1,7,8) I(5)[OF m] \<open>sockfd m \<in> fds (kernel s)\<close> by (auto split: if_splits)
    ultimately show ?thesis using n by auto
  qed
  ultimately show ?thesis using ok n by (simp add: net_ok_def)
qed

lemma postponed_net_ok:
  assumes "net_ok E fds s" and p: "postponed fds cn s s'"
  shows "net_ok E fds s'"
proof -
  obtain k where n: "fds k = fds (kernel s)" "kernel s' = k" "poller s' = poller s" "threadId s' = threadId s" "conns s' = conns s"
      "customEvents s' = customEvents s"
    using p by (auto simp: postponed_def)
  have "watched fds s' = watched fds s" using n by (intro watched_same) simp_all
  then show ?thesis using assms(1) n by (simp add: net_ok_def)
qed

section \<open>The client owns its connection\<close>

definition client_lawful :: "('u, 'k, 'z) clnet_env \<Rightarrow> ('k \<Rightarrow> int set) \<Rightarrow> bool" where
  "client_lawful E fds \<longleftrightarrow> fd_law (e_os E) fds \<and> io_law (e_os E) \<and> connect_law (e_os E) \<and> (\<exists>E0. E = client_env E0) \<and>
     (\<forall>u c s. net_ok E fds s \<longrightarrow> conns s c \<noteq> None \<longrightarrow>
        (\<exists>s'. e_ccall E (UserFunc u) c s = Inr s' \<and> (user_step E)\<^sup>*\<^sup>* s s'))"

text \<open>The connector is connected, and can be asked to connect again.\<close>

definition client_ready :: "('u, 'k, 'z) clnet_scheme \<Rightarrow> bool" where
  "client_ready s \<longleftrightarrow> (\<exists>k cn. client s = Some k \<and> connector s = Some cn \<and> cnStatus cn = CnConnected \<and> cnChan cn = None \<and>
     cnNewConnection cn \<noteq> None) \<and> (\<forall>x \<ge> nextAddr s. chans (poller s) x = None)"

lemma client_env_simps [simp]:
  "e_build (client_env E) = e_build E" "e_host (client_env E) = e_host E" "e_os (client_env E) = e_os E"
  "e_cur (client_env E) = e_cur E" "e_owned (client_env E) = client_owns"
  "e_ccall (client_env E) OwnerRemove c = clientRemoveConnection (E\<lparr>e_owned := client_owns\<rparr>)"
  "e_ccall (client_env E) (UserFunc u) = e_ccall E (UserFunc u)"
  by (simp_all add: client_env_def Let_def fun_eq_iff)

lemma more_client: "net.more s' = net.more s \<Longrightarrow> client s' = client s" "net.more s' = net.more s \<Longrightarrow> connector s' = connector s"
  "net.more s' = net.more s \<Longrightarrow> nextAddr s' = nextAddr s" "net.more s' = net.more s \<Longrightarrow> heldChans s' = heldChans s"
  by (cases s; cases s'; simp)+

lemma calm_client:
  assumes "calm C D fds s s'"
  shows "client s' = client s" and "connector s' = connector s" and "nextAddr s' = nextAddr s" and "heldChans s' = heldChans s"
  using assms more_client[of s' s] by (simp_all add: calm_def)

lemma net_ok_client [simp]:
  "net_ok E fds (put_client k s) = net_ok E fds s" "net_ok E fds (s\<lparr>nextAddr := m\<rparr>) = net_ok E fds s"
  "net_ok E fds (put_connector cn s) = net_ok E fds s" "net_ok E fds (s\<lparr>heldChans := h\<rparr>) = net_ok E fds s"
  by (simp_all add: put_client_def put_connector_def net_ok_def watched_def)

lemma client_ready_calm: "client_ready s \<Longrightarrow> calm C D fds s s' \<Longrightarrow> client_ready s'"
  using calm_client[of C D fds s s'] calm_dom(2)[of C D fds s s'] by (simp add: client_ready_def)

text \<open>
  What \<open>removeConnection\<close> comes to when the closed connection is still referred to: the client has no
  connection, and a new attempt is made if it is started and wants that.
\<close>

definition reconnecting :: "'u connector \<Rightarrow> 'u connector" where
  "reconnecting cn = cn\<lparr>cnStatus := CnDisconnected, currDelay := retryDelay cn\<rparr>"

lemma remove_ok:
  assumes L: "fd_law (e_os E) fds" "connect_law (e_os E)" and ok: "net_ok E fds s" and g: "client_ready s"
    and k: "client s = Some k" "clConnection k = Some c" "c \<in> set (held s)" and cn: "connector s = Some cn"
  shows "\<exists>s'. clientRemoveConnection E s = Inr s' \<and> net_ok E fds s' \<and>
    (let s1 = put_client (k\<lparr>clConnection := None\<rparr>) s; s2 = put_connector (reconnecting cn) s1 in
     if clRetry k \<and> clStarted k
     then attempt fds (reconnecting cn) s2 s' \<or> postponed fds (reconnecting cn\<lparr>cnTimer := 0\<rparr>) s2 s'
     else s' = s1)"
proof -
  note I = net_okD[OF ok]
  have r: "cnStatus cn = CnConnected" "cnChan cn = None" "cnNewConnection cn \<noteq> None" "chans (poller s) (nextAddr s) = None"
    using g cn by (auto simp: client_ready_def)
  let ?s1 = "put_client (k\<lparr>clConnection := None\<rparr>) s" and ?cn = "reconnecting cn"
  let ?s2 = "put_connector ?cn ?s1"
  have here: "in_loop E s" using I(1) by (simp add: in_loop_def isInLoopThread_def)
  have "let_connection E (clConnection k) ?s1 = Inr ?s1"
    using k(2,3) by (simp add: let_connection_def drop_ref_def referenced_def put_client_def)
  then have e: "clientRemoveConnection E s = (if clRetry k \<and> clStarted k then reconnect E ?s1 else Inr ?s1)"
    using here k(1) cn by (simp add: clientRemoveConnection_def with_client_def put_client_def)
  show ?thesis
  proof (cases "clRetry k \<and> clStarted k")
    case False
    then show ?thesis using e ok by (auto simp: Let_def)
  next
    case True
    have r2: "reconnect E ?s1 = connect E ?s2"
      using cn r here by (simp add: reconnect_def with_connector_def put_client_def put_connector_def reconnecting_def
          in_loop_def isInLoopThread_def)
    have "watched fds ?s2 = watched fds s" by (intro watched_same) (simp_all add: put_client_def put_connector_def)
    then obtain s' where s': "connect E ?s2 = Inr s'" "attempt fds ?cn ?s2 s' \<or> postponed fds (?cn\<lparr>cnTimer := 0\<rparr>) ?s2 s'"
      using connect_outcome[of ?s2 E ?cn fds] I(1,2) r L
      by (auto simp: put_client_def put_connector_def reconnecting_def)
    have fr: "chans (poller ?s2) (nextAddr ?s2) = None" using r(4) by (simp add: put_client_def put_connector_def)
    have ok2: "net_ok E fds ?s2" using ok by simp
    have "net_ok E fds s'" using s'(2) attempt_net_ok[OF ok2 _ fr] postponed_net_ok[OF ok2] by blast
    then show ?thesis using e r2 s' True by (auto simp: Let_def)
  qed
qed

lemma reconnect_frame:
  assumes "attempt fds cn s s' \<or> postponed fds cn' s s'" and "chans (poller s) (nextAddr s) = None"
  shows "conns s' = conns s" and "held s' = held s" and "client s' = client s" and "heldChans s' = heldChans s"
    and "chans (poller s) d = Some ch \<Longrightarrow> chans (poller s') d = Some ch"
  using assms by (auto simp: attempt_def postponed_def)

lemma client_let_go:
  assumes E: "client_lawful E fds" and ok: "net_ok E fds s" and g: "client_ready s" and o: "client_owns c s" and h: "c \<in> set (held s)"
  shows "\<exists>s'. let_go client_owns E fds c s s'"
proof -
  obtain E0 where E0: "E = client_env E0" using E by (auto simp: client_lawful_def)
  let ?E = "E0\<lparr>e_owned := client_owns\<rparr>"
  obtain k cn where k: "client s = Some k" "clConnection k = Some c" "connector s = Some cn"
    using o g by (auto simp: client_owns_def client_ready_def split: option.splits)
  have L: "fd_law (e_os ?E) fds" "connect_law (e_os ?E)" using E by (auto simp: client_lawful_def E0)
  have same: "net_ok ?E fds t = net_ok E fds t" for t by (simp add: net_ok_def E0)
  let ?s1 = "put_client (k\<lparr>clConnection := None\<rparr>) s"
  let ?s2 = "put_connector (reconnecting cn) ?s1"
  obtain s' where s': "clientRemoveConnection ?E s = Inr s'" "net_ok E fds s'"
      "if clRetry k \<and> clStarted k
       then attempt fds (reconnecting cn) ?s2 s' \<or> postponed fds (reconnecting cn\<lparr>cnTimer := 0\<rparr>) ?s2 s' else s' = ?s1"
    using remove_ok[OF L _ g k(1,2) h k(3)] ok unfolding same by (auto simp: Let_def)
  have f: "chans (poller ?s2) (nextAddr ?s2) = None" "conns ?s2 = conns s" "held ?s2 = held s" "client ?s2 = Some (k\<lparr>clConnection := None\<rparr>)"
      "poller ?s2 = poller s"
    using g by (simp_all add: client_ready_def put_client_def put_connector_def)
  have fr: "conns s' = conns s \<and> held s' = held s \<and> client s' = Some (k\<lparr>clConnection := None\<rparr>) \<and>
      (\<forall>d ch. chans (poller s) d = Some ch \<longrightarrow> chans (poller s') d = Some ch)"
  proof (cases "clRetry k \<and> clStarted k")
    case False
    then show ?thesis using s'(3) by (simp add: put_client_def)
  next
    case True
    then have "attempt fds (reconnecting cn) ?s2 s' \<or> postponed fds (reconnecting cn\<lparr>cnTimer := 0\<rparr>) ?s2 s'" using s'(3) by simp
    then show ?thesis using reconnect_frame[OF _ f(1), of fds "reconnecting cn" s' "reconnecting cn\<lparr>cnTimer := 0\<rparr>"] f by simp
  qed
  have "e_ccall E OwnerRemove c s = Inr s'" using s'(1) by (simp add: E0)
  then show ?thesis using s'(2) fr h by (auto simp: let_go_def client_owns_def)
qed

interpretation cl: connection_owner client_lawful client_owns client_ready
proof (unfold_locales, goal_cases)
  case (1 E fds)
  then show ?case by (simp add: client_lawful_def)
next
  case (2 E fds c s)
  then show ?case by (auto simp: client_lawful_def)
next
  case (3 s' s c)
  then show ?case by (simp add: client_owns_def more_client(1)[OF 3])
next
  case (4 E fds s c u)
  then show ?case by (simp add: client_lawful_def)
next
  case (5 s C D fds s')
  then show ?case using client_ready_calm by blast
next
  case (6 E fds s c n)
  then show ?case using client_let_go by blast
qed

section \<open>A new connection\<close>

text \<open>\<^verbatim>\<open>getsockname(2)\<close> of an open socket fills in an address.\<close>

definition local_law :: "'k os \<Rightarrow> host \<Rightarrow> ('k \<Rightarrow> int set) \<Rightarrow> bool" where
  "local_law os h fds \<longleftrightarrow> (\<forall>f a n k. f \<in> fds k \<longrightarrow> isValid h (fst (snd (sys_getsockname os f a n k))))"

lemma local_lawD:
  assumes "local_law os h fds" and "f \<in> fds k"
  shows "isValid h (fst (localAddress os f k))"
proof -
  have "isValid h (fst (snd (sys_getsockname os f addr_zero (getSockLen addr_zero) k)))"
    using assms unfolding local_law_def by blast
  then show ?thesis by (simp add: localAddress_def getLocalAddr_def case_prod_beta)
qed

definition peer_of :: "'k os \<Rightarrow> int \<Rightarrow> 'k \<Rightarrow> sockaddr" where
  "peer_of os f k = fst (snd (getPeerAddr os f addr_zero k))"

definition client_callbacks :: "'u client \<Rightarrow> bool" where
  "client_callbacks k \<longleftrightarrow> (\<exists>u. clConnectionCallback k = Some (UserFunc u)) \<and> (\<exists>u. clMessageCallback k = Some (UserFunc u))"

lemma clientNewConnection_ok:
  assumes E: "client_lawful E fds" and ok: "net_ok E fds s" and A: "local_law (e_os E) (e_host E) fds"
    and k: "client s = Some k" "clConnection k = None" "client_callbacks k"
    and fresh: "\<forall>x \<ge> nextAddr s. conns s x = None \<and> chans (poller s) x = None"
    and f: "sock \<in> fds (kernel s)" "unused sock s" "0 < sock" and peer: "isValid (e_host E) (peer_of (e_os E) sock (kernel s))"
  shows "\<exists>a b n ch. clientNewConnection E sock s = Inr b \<and> held b = held s \<and> net_ok E fds b \<and> calm {} {} fds a b \<and>
    conns a = (conns s)(nextAddr s \<mapsto> n) \<and> sockfd n = sock \<and> chan n = nextAddr s + 1 \<and> status n = Connected \<and>
    chans (poller a) = (chans (poller s))(nextAddr s + 1 \<mapsto> ch) \<and> \<not> isHandling ch \<and> fds (kernel a) = fds (kernel s) \<and>
    client a = Some (k\<lparr>clConnection := Some (nextAddr s)\<rparr>) \<and> connector a = connector s \<and> nextAddr a = nextAddr s + 2 \<and>
    heldChans a = heldChans s \<and> same_timers s a"
proof -
  let ?c = "nextAddr s" and ?d = "nextAddr s + 1"
  obtain u1 u2 where u: "clConnectionCallback k = Some (UserFunc u1)" "clMessageCallback k = Some (UserFunc u2)"
    using k(3) by (auto simp: client_callbacks_def)
  obtain r p0 k0 where g: "getPeerAddr (e_os E) sock addr_zero (kernel s) = (r, p0, k0)"
    by (cases "getPeerAddr (e_os E) sock addr_zero (kernel s)")
  have F: "fd_law (e_os E) fds" using E by (simp add: client_lawful_def)
  have p0: "isValid (e_host E) p0" using peer g by (simp add: peer_of_def)
  have k0: "fds k0 = fds (kernel s)" using fd_law_simps(7)[OF F, of sock addr_zero "kernel s"] g by simp
  let ?s = "s\<lparr>kernel := k0, nextAddr := nextAddr s + 2\<rparr>"
  have I: "threadId s = e_cur E" "poller_inv (poller ?s)" "chans (poller ?s) ?d = None"
    using net_okD(1,3)[OF ok] fresh by simp_all
  have la: "isValid (e_host E) (fst (localAddress (e_os E) sock (kernel ?s)))" using local_lawD[OF A] f(1) k0 by simp
  obtain p k1 la ch where m: "TcpConnection E ?c ?d sock p0 ?s =
      Inr (?s\<lparr>poller := p, kernel := k1, conns := (conns s)(?c \<mapsto> new_conn sock ?d la p0)\<rparr>)"
    "poller_inv p" "interest p = interest (poller s)" "chans p = (chans (poller s))(?d \<mapsto> ch)" "made_chan ?c sock ch"
    "fds k1 = fds (kernel s)"
    using TcpConnection_made[OF I(2) F f(3) I(3) la p0, of ?c] k0 by auto
  let ?n = "new_conn sock ?d la p0\<lparr>connectionCallback := Some (UserFunc u1), messageCallback := Some (UserFunc u2),
      connCloseCallback := Some OwnerRemove\<rparr>"
  let ?k = "k\<lparr>clConnection := Some ?c\<rparr>"
  let ?t = "?s\<lparr>poller := p, kernel := k1, client := Some ?k, conns := (conns s)(?c \<mapsto> ?n)\<rparr>"
  have t: "threadId ?t = threadId s" "customEvents ?t = customEvents s" "poller ?t = p" "kernel ?t = k1"
      "conns ?t = (conns s)(?c \<mapsto> ?n)" "held ?t = held s" "client ?t = Some ?k" "connector ?t = connector s"
      "nextAddr ?t = nextAddr s + 2" "heldChans ?t = heldChans s" "same_timers ?t a = same_timers s a" for a
    by (simp_all add: same_timers_def)
  have n: "sockfd ?n = sock" "chan ?n = ?d" "made_conn ?n" "status (?n\<lparr>status := Connected\<rparr>) = Connected"
    by (simp_all add: new_conn_def made_conn_def)
  have own: "client_owns ?c ?t" by (simp add: client_owns_def)
  have ins: "insert sock (fds (kernel s)) = fds (kernel s)" using f(1) by blast
  obtain a b where b: "connInit E ?c ?t = Inr b" "held b = held s" "net_ok E fds a" "net_ok E fds b" "calm {} {} fds a b"
    "conns a = (conns s)(?c \<mapsto> ?n\<lparr>status := Connected\<rparr>)"
    "chans (poller a) = (chans (poller s))(?d \<mapsto> ch\<lparr>bindObject := Some ?c, events := READ_EVENT\<rparr>)"
    "fds (kernel a) = fds (kernel ?t)" "net.more a = net.more ?t"
    "same_timers ?t a"
    using cl.init_ok[OF E ok, of ?c ?n ?t ch] fresh f(2,3) m(2-6) n own ins by auto
  have "clientNewConnection E sock s = connInit E ?c ?t"
    using I(1) g m(1) k(1,2) u
    by (simp add: clientNewConnection_def in_loop_def isInLoopThread_def with_client_def let_connection_def put_client_def
        setConnectionCallback_def setMessageCallback_def setConnCloseCallback_def with_conn_def put_conn_def Let_def)
  moreover note more_client[OF b(9)]
  ultimately show ?thesis
    using b n m(5,6) t
    by (intro exI[of _ a] exI[of _ b] exI[of _ "?n\<lparr>status := Connected\<rparr>"]
        exI[of _ "ch\<lparr>bindObject := Some ?c, events := READ_EVENT\<rparr>"]) (simp add: made_chan_def)
qed

end
