(* ===== verification/Client_System.thy ===== *)
theory Client_System
  imports Tcp_Client
begin

text \<open>
  The client (\<^verbatim>\<open>src/include/godnet/net/tcp_client.cpp\<close>) over its whole life on the thread of its loop,
  from its start on: the invariant, and what keeps it: attempts to connect, their end, the connection, its end, and what
  the poller reports.
\<close>

section \<open>The invariant\<close>

text \<open>The descriptors and the channels are those of others, \<open>F\<close> and \<open>D\<close>, and the client's.\<close>

definition adds :: "('k \<Rightarrow> int set) \<Rightarrow> int set \<Rightarrow> nat set \<Rightarrow> int set \<Rightarrow> nat set \<Rightarrow> ('u, 'k, 'z) net_scheme \<Rightarrow> bool" where
  "adds fds F D A C s \<longleftrightarrow> fds (kernel s) = F \<union> A \<and> F \<inter> A = {} \<and> dom (chans (poller s)) = D \<union> C \<and> D \<inter> C = {}"

text \<open>
  A started client has one connection, or its connector tries to get one, or, when it is not to connect again,
  it had one.
\<close>

definition cl_phase :: "('u, 'k, 'z) clnet_env \<Rightarrow> ('k \<Rightarrow> int set) \<Rightarrow> int set \<Rightarrow> nat set \<Rightarrow> 'u client \<Rightarrow> 'u connector \<Rightarrow>
    ('u, 'k, 'z) clnet_scheme \<Rightarrow> bool" where
  "cl_phase E fds F D k cn s \<longleftrightarrow> (case clConnection k of
     Some c \<Rightarrow> cnStatus cn = CnConnected \<and> cnChan cn = None \<and> cnTimer cn = 0 \<and>
       (\<exists>n ch. conns s = [c \<mapsto> n] \<and> status n \<noteq> Disconnected \<and> chans (poller s) (chan n) = Some ch \<and> \<not> isHandling ch \<and>
         adds fds F D {sockfd n} {chan n} s)
   | None \<Rightarrow> conns s = Map.empty \<and> (case cnStatus cn of
       CnConnecting \<Rightarrow> \<exists>d ch. connecting E d ch cn s \<and> adds fds F D {fd ch} {d} s
     | CnDisconnected \<Rightarrow> cnChan cn = None \<and> cnTimer cn \<noteq> 0 \<and> timer_set cn s \<and> adds fds F D {} {} s
     | CnConnected \<Rightarrow> cnChan cn = None \<and> cnTimer cn = 0 \<and> \<not> clRetry k \<and> adds fds F D {} {} s))"

definition cl_base :: "('u, 'k, 'z) clnet_env \<Rightarrow> ('k \<Rightarrow> int set) \<Rightarrow> 'u client \<Rightarrow> ('u, 'k, 'z) clnet_scheme \<Rightarrow> bool" where
  "cl_base E fds k s \<longleftrightarrow> net_ok E fds s \<and> held s = [] \<and> heldChans s = [] \<and> client s = Some k \<and> clStarted k \<and> client_callbacks k \<and>
     (\<forall>x \<ge> nextAddr s. conns s x = None \<and> chans (poller s) x = None)"

text \<open>A timer calls the connector only while that waits for it.\<close>

definition cl_timers :: "'u connector \<Rightarrow> ('u, 'k, 'z) clnet_scheme \<Rightarrow> bool" where
  "cl_timers cn s \<longleftrightarrow> old_ids s \<and> (\<forall>t \<in> calls s. cnStatus cn = CnDisconnected \<and> t_id t = cnTimer cn)"

lemma cl_timers_cong:
  assumes "timers s' = timers s" and "timerIds s' = timerIds s" and "timersCreated s' = timersCreated s"
  shows "cl_timers cn s' = cl_timers cn s"
  using assms by (simp add: cl_timers_def calls_def old_ids_def)

lemma cl_timers_none: "cl_timers cn s \<Longrightarrow> cnStatus cn \<noteq> CnDisconnected \<Longrightarrow> calls s = {} \<and> old_ids s"
  by (auto simp: cl_timers_def)

lemma cl_timers_retried:
  assumes "calls s = {}" and "old_ids s" and "timersCreated s + 1 < 2 ^ 64" and "cnStatus cn = CnDisconnected"
    and "timers s' = pq_push (retry_timer s cn) (timers s)" and "timerIds s' = insert (t_id (retry_timer s cn)) (timerIds s)"
    and "timersCreated s' = timersCreated s + 1"
  shows "cl_timers (retried s cn) s'"
  using calls_retry[OF assms(2,3) retry_timer_fields(1) retry_timer_fields(4)[OF assms(3)] assms(5-7)] assms(1,4)
  by (simp add: cl_timers_def retried_def)

definition cl_core :: "('u, 'k, 'z) clnet_env \<Rightarrow> ('k \<Rightarrow> int set) \<Rightarrow> int set \<Rightarrow> nat set \<Rightarrow> ('u, 'k, 'z) clnet_scheme \<Rightarrow> bool" where
  "cl_core E fds F D s \<longleftrightarrow> 0 \<in> F \<and> (\<exists>k cn. cl_base E fds k s \<and> connector s = Some cn \<and>
     cnNewConnection cn = Some ClientNewConnection \<and> cl_phase E fds F D k cn s \<and> cl_timers cn s)"

lemma cl_coreI:
  assumes "0 \<in> F" and "cl_base E fds k s" and "connector s = Some cn" and "cnNewConnection cn = Some ClientNewConnection"
    and "cl_phase E fds F D k cn s" and "cl_timers cn s"
  shows "cl_core E fds F D s"
  using assms unfolding cl_core_def by blast

lemma cl_coreE:
  assumes "cl_core E fds F D s"
  obtains k cn where "0 \<in> F" and "cl_base E fds k s" and "connector s = Some cn" and "cnNewConnection cn = Some ClientNewConnection"
    and "cl_phase E fds F D k cn s" and "cl_timers cn s"
  using assms unfolding cl_core_def by blast

lemma cl_baseD:
  assumes "cl_base E fds k s"
  shows "net_ok E fds s" and "held s = []" and "heldChans s = []" and "client s = Some k" and "clStarted k" and "client_callbacks k"
    and "\<And>x. nextAddr s \<le> x \<Longrightarrow> conns s x = None \<and> chans (poller s) x = None"
  using assms by (simp_all add: cl_base_def)

text \<open>The four phases.\<close>

lemma cl_phase_cases:
  assumes "cl_phase E fds F D k cn s"
  obtains (up) c n ch where "clConnection k = Some c" and "cnStatus cn = CnConnected" and "cnChan cn = None" and "cnTimer cn = 0"
      and "conns s = [c \<mapsto> n]" and "status n \<noteq> Disconnected" and "chans (poller s) (chan n) = Some ch" and "\<not> isHandling ch"
      and "adds fds F D {sockfd n} {chan n} s"
    | (trying) d ch where "clConnection k = None" and "conns s = Map.empty" and "cnStatus cn = CnConnecting"
      and "connecting E d ch cn s" and "adds fds F D {fd ch} {d} s"
    | (waiting) "clConnection k = None" and "conns s = Map.empty" and "cnStatus cn = CnDisconnected" and "cnChan cn = None"
      and "cnTimer cn \<noteq> 0" and "timer_set cn s" and "adds fds F D {} {} s"
    | (over) "clConnection k = None" and "conns s = Map.empty" and "cnStatus cn = CnConnected" and "cnChan cn = None"
      and "cnTimer cn = 0" and "\<not> clRetry k" and "adds fds F D {} {} s"
  using assms unfolding cl_phase_def
  by (cases "clConnection k"; cases "cnStatus cn") auto

lemma cl_phase_intros:
  "clConnection k = Some c \<Longrightarrow> cnStatus cn = CnConnected \<Longrightarrow> cnChan cn = None \<Longrightarrow> cnTimer cn = 0 \<Longrightarrow> conns s = [c \<mapsto> n] \<Longrightarrow>
     status n \<noteq> Disconnected \<Longrightarrow> chans (poller s) (chan n) = Some ch \<Longrightarrow> \<not> isHandling ch \<Longrightarrow> adds fds F D {sockfd n} {chan n} s \<Longrightarrow>
     cl_phase E fds F D k cn s"
  "clConnection k = None \<Longrightarrow> conns s = Map.empty \<Longrightarrow> cnStatus cn = CnConnecting \<Longrightarrow> connecting E d ch' cn s \<Longrightarrow>
     adds fds F D {fd ch'} {d} s \<Longrightarrow> cl_phase E fds F D k cn s"
  "clConnection k = None \<Longrightarrow> conns s = Map.empty \<Longrightarrow> cnStatus cn = CnDisconnected \<Longrightarrow> cnChan cn = None \<Longrightarrow> cnTimer cn \<noteq> 0 \<Longrightarrow>
     timer_set cn s \<Longrightarrow> adds fds F D {} {} s \<Longrightarrow> cl_phase E fds F D k cn s"
  "clConnection k = None \<Longrightarrow> conns s = Map.empty \<Longrightarrow> cnStatus cn = CnConnected \<Longrightarrow> cnChan cn = None \<Longrightarrow> cnTimer cn = 0 \<Longrightarrow>
     \<not> clRetry k \<Longrightarrow> adds fds F D {} {} s \<Longrightarrow> cl_phase E fds F D k cn s"
  by (auto simp: cl_phase_def)

section \<open>Steps that leave the connection open\<close>

lemma adds_calm:
  assumes "adds fds F D A C s" and c: "calm X Y fds s s'"
  shows "adds fds F D A C s'"
proof -
  have "dom (chans (poller s')) = dom (chans (poller s))" using calm_dom(2)[OF c] by (auto simp: dom_def)
  then show ?thesis using assms by (simp add: adds_def calm_def)
qed

lemma calm_empty:
  assumes "calm C D fds s s'" and "conns s = Map.empty"
  shows "conns s' = Map.empty" and "chans (poller s') = chans (poller s)"
proof -
  have "conns s' c = None" for c using calm_dom(1)[OF assms(1), of c] assms(2) by simp
  then show "conns s' = Map.empty" by auto
  show "chans (poller s') = chans (poller s)" using assms by (auto simp: calm_def)
qed

lemma calm_single:
  assumes c: "calm C D fds s s'" and n: "conns s = [x \<mapsto> n]"
  obtains n' where "conns s' = [x \<mapsto> n']" and "same_id n n'" and "x \<notin> C \<Longrightarrow> (status n' = Disconnected \<longleftrightarrow> status n = Disconnected)"
proof -
  have "conns s x = Some n" using n by simp
  then obtain n' where n': "conns s' x = Some n'" "same_id n n'" "x \<notin> C \<Longrightarrow> (status n' = Disconnected \<longleftrightarrow> status n = Disconnected)"
    using calm_conn[OF c] by blast
  have "conns s' y = None" if "y \<noteq> x" for y using calm_dom(1)[OF c, of y] n that by simp
  then have "conns s' = [x \<mapsto> n']" using n'(1) by auto
  then show ?thesis using that n' by blast
qed

lemma cl_base_calm:
  assumes b: "cl_base E fds k s" and ok: "net_ok E fds s'" and c: "calm C D fds s s'" and "held s' = []"
  shows "cl_base E fds k s'"
  using b ok assms(4) calm_client[OF c] calm_dom[OF c] by (simp add: cl_base_def)

lemma connecting_frame:
  assumes "connecting E d ch cn s" and "threadId s' = threadId s" and "connector s' = connector s" and "poller_inv (poller s')"
    and "chans (poller s') d = chans (poller s) d" and "heldChans s' = heldChans s"
  shows "connecting E d ch cn s'"
  using assms by (simp add: connecting_def)

lemma cl_core_calm:
  assumes I: "cl_core E fds F D s" and ok: "net_ok E fds s'" and c: "calm {} {} fds s s'" and h: "held s' = []"
  shows "cl_core E fds F D s'"
proof -
  obtain k cn where k: "0 \<in> F" "cl_base E fds k s" "connector s = Some cn" "cnNewConnection cn = Some ClientNewConnection"
      "cl_phase E fds F D k cn s" "cl_timers cn s"
    using cl_coreE[OF I] .
  note S = calm_client[OF c] and N = cl_baseD[OF k(2)]
  have t: "threadId s' = threadId s" "timer_set cn s' = timer_set cn s"
    using net_okD(1)[OF ok] net_okD(1)[OF N(1)] c by (simp_all add: calm_def same_timers_def timer_set_def)
  have "cl_phase E fds F D k cn s'"
    using k(5)
  proof (cases rule: cl_phase_cases)
    case (up c' n ch)
    obtain n' where n': "conns s' = [c' \<mapsto> n']" "same_id n n'" "status n' = Disconnected \<longleftrightarrow> status n = Disconnected"
      using calm_single[OF c up(5)] by auto
    then have id: "sockfd n' = sockfd n" "chan n' = chan n" by (simp_all add: same_id_def)
    obtain ch' where ch': "chans (poller s') (chan n) = Some ch'" using calm_chan[OF c up(7)] .
    moreover have "map_option isHandling (chans (poller s') (chan n)) = map_option isHandling (chans (poller s) (chan n))"
      using c by (simp add: calm_def)
    ultimately have "\<not> isHandling ch'" using up(7,8) by simp
    then show ?thesis using up n' id ch' adds_calm[OF up(9) c] by (intro cl_phase_intros(1)[where n = n']) simp_all
  next
    case (trying d ch)
    have "connecting E d ch cn s'"
      using connecting_frame[OF trying(4) t(1)] calm_empty(2)[OF c trying(2)] S net_okD(3)[OF ok] by simp
    then show ?thesis using trying adds_calm[OF trying(5) c] calm_empty(1)[OF c] by (intro cl_phase_intros(2)) simp_all
  next
    case waiting
    then show ?thesis using adds_calm[OF _ c] calm_empty(1)[OF c] t(2) by (intro cl_phase_intros(3)) simp_all
  next
    case over
    then show ?thesis using adds_calm[OF _ c] calm_empty(1)[OF c] by (intro cl_phase_intros(4)) simp_all
  qed
  moreover have "cl_timers cn s'" using cl_timers_cong[of s' s cn] c k(6) by (simp add: calm_def same_timers_def)
  ultimately show ?thesis using k S cl_base_calm[OF k(2) ok c h] by (intro cl_coreI) simp_all
qed

section \<open>Attempts to connect\<close>

lemma net_ok_empty:
  "conns s = Map.empty \<Longrightarrow> net_ok E fds s \<longleftrightarrow> threadId s = e_cur E \<and> watched fds s \<and> (\<forall>c. \<forall>t \<in> set (customEvents s). \<not> keeps c t)"
  by (simp add: net_ok_def apart_def)

lemma t_id_retry: "timersCreated s + 1 < 2 ^ 64 \<Longrightarrow> t_id (retry_timer s cn) = timersCreated s + 1"
  using t_id_Timer[of "timersCreated s" "clock s + currDelay cn" 0 ConnectorConnect] by (simp add: retry_timer_def)

lemma attempt_connecting:
  assumes a: "attempt fds cn s s'" and "threadId s = e_cur E" and "heldChans s = []" and "cnNewConnection cn \<noteq> None"
  obtains ch where "connecting E (nextAddr s) ch (cn\<lparr>cnTimer := 0, cnStatus := CnConnecting, cnChan := Some (nextAddr s)\<rparr>) s'"
    and "fd ch \<notin> fds (kernel s)" and "fds (kernel s') = insert (fd ch) (fds (kernel s))"
    and "chans (poller s') = (chans (poller s))(nextAddr s \<mapsto> ch)"
    and "connector s' = Some (cn\<lparr>cnTimer := 0, cnStatus := CnConnecting, cnChan := Some (nextAddr s)\<rparr>)"
    and "nextAddr s' = nextAddr s + 1" and "conns s' = conns s" and "held s' = held s" and "heldChans s' = []" and "client s' = client s"
proof -
  obtain sock k p ch where n: "sock \<notin> fds (kernel s)" "fds k = insert sock (fds (kernel s))"
     "s' = s\<lparr>kernel := k, poller := p, nextAddr := nextAddr s + 1,
       connector := Some (cn\<lparr>cnTimer := 0, cnStatus := CnConnecting, cnChan := Some (nextAddr s)\<rparr>)\<rparr>"
     "poller_inv p" "chans p = (chans (poller s))(nextAddr s \<mapsto> ch)" "connecting_channel (nextAddr s) sock ch"
    using a unfolding attempt_def by blast
  have f: "fd ch = sock" using n(6) by (simp add: connecting_channel_def)
  then have "connecting E (nextAddr s) ch (cn\<lparr>cnTimer := 0, cnStatus := CnConnecting, cnChan := Some (nextAddr s)\<rparr>) s'"
    using n assms(2-4) by (simp add: connecting_def)
  then show ?thesis using n f assms(3) by (intro that[of ch]) simp_all
qed

lemma cl_timers_attempt:
  assumes "calls s = {}" and "old_ids s" and "attempt fds cn s s'"
  shows "cl_timers cn' s'"
  using assms by (auto simp: cl_timers_def attempt_def calls_def old_ids_def)

lemma tried_core:
  assumes F: "0 \<in> F" and b: "cl_base E fds k s" and k: "clConnection k = None" "conns s = Map.empty" "adds fds F D {} {} s"
    and cn: "cnStatus cn = CnDisconnected" "cnChan cn = None" "cnNewConnection cn = Some ClientNewConnection"
    and t: "timersCreated s + 1 < 2 ^ 64" "calls s = {}" "old_ids s"
    and r: "attempt fds cn s s' \<or> postponed fds (cn\<lparr>cnTimer := 0\<rparr>) s s'"
  shows "cl_core E fds F D s'"
  using r
proof
  note B = cl_baseD[OF b]
  have fr: "chans (poller s) (nextAddr s) = None" using B(7)[of "nextAddr s"] by simp
  assume a: "attempt fds cn s s'"
  obtain ch where n: "connecting E (nextAddr s) ch (cn\<lparr>cnTimer := 0, cnStatus := CnConnecting, cnChan := Some (nextAddr s)\<rparr>) s'"
    "fd ch \<notin> fds (kernel s)" "fds (kernel s') = insert (fd ch) (fds (kernel s))"
    "chans (poller s') = (chans (poller s))(nextAddr s \<mapsto> ch)"
    "connector s' = Some (cn\<lparr>cnTimer := 0, cnStatus := CnConnecting, cnChan := Some (nextAddr s)\<rparr>)"
    "nextAddr s' = nextAddr s + 1" "conns s' = conns s" "held s' = held s" "heldChans s' = []" "client s' = client s"
    by (rule attempt_connecting[OF a net_okD(1)[OF B(1)] B(3)]) (use cn in simp_all)
  have "nextAddr s \<notin> D" using fr k(3) by (auto simp: adds_def)
  then have "adds fds F D {fd ch} {nextAddr s} s'" using k(3) n(2-4) by (simp add: adds_def)
  then have "cl_phase E fds F D k (cn\<lparr>cnTimer := 0, cnStatus := CnConnecting, cnChan := Some (nextAddr s)\<rparr>) s'"
    using k n by (intro cl_phase_intros(2)) simp_all
  moreover have "cl_base E fds k s'"
    unfolding cl_base_def using attempt_net_ok[OF B(1) a fr] B(2,4-7) n(4,6-10) by simp
  moreover have "cl_timers (cn\<lparr>cnTimer := 0, cnStatus := CnConnecting, cnChan := Some (nextAddr s)\<rparr>) s'"
    using cl_timers_attempt[OF t(2,3) a] .
  ultimately show ?thesis using F n(5) cn(3) by (intro cl_coreI) simp_all
next
  note B = cl_baseD[OF b]
  let ?cn = "cn\<lparr>cnTimer := 0\<rparr>"
  assume p: "postponed fds ?cn s s'"
  then obtain kk where n: "fds kk = fds (kernel s)"
     "s' = s\<lparr>kernel := kk, timersCreated := timersCreated s + 1, timerIds := insert (t_id (retry_timer s ?cn)) (timerIds s),
       timers := pq_push (retry_timer s ?cn) (timers s), connector := Some (retried s ?cn)\<rparr>"
    unfolding postponed_def by blast
  have "timer_set (retried s ?cn) s'" by (auto simp: timer_set_def retried_def n(2) retry_timer_def Timer_def)
  moreover have "cnTimer (retried s ?cn) \<noteq> 0" using t_id_retry[OF t(1)] by (simp add: retried_def)
  moreover have "adds fds F D {} {} s'" using k(3) n by (simp add: adds_def)
  ultimately have "cl_phase E fds F D k (retried s ?cn) s'"
    using k cn n(2) by (intro cl_phase_intros(3)) (simp_all add: retried_def)
  moreover have "cl_base E fds k s'" unfolding cl_base_def using postponed_net_ok[OF B(1) p] B(2-7) n(2) by simp
  moreover have "cl_timers (retried s ?cn) s'" by (rule cl_timers_retried[OF t(2,3,1)]) (use cn n(2) in simp_all)
  ultimately show ?thesis using F n(2) cn(3) by (intro cl_coreI) (simp_all add: retried_def)
qed

lemma connect_core:
  assumes L: "fd_law (e_os E) fds" "connect_law (e_os E)" and F: "0 \<in> F" and b: "cl_base E fds k s"
    and k: "clConnection k = None" "conns s = Map.empty" "adds fds F D {} {} s" and c: "connector s = Some cn"
    and cn: "cnStatus cn = CnDisconnected" "cnChan cn = None" "cnNewConnection cn = Some ClientNewConnection"
    and t: "timersCreated s + 1 < 2 ^ 64" "calls s = {}" "old_ids s"
  shows "\<exists>s'. connect E s = Inr s' \<and> cl_core E fds F D s'"
proof -
  note B = cl_baseD[OF b]
  have "\<exists>s'. connect E s = Inr s' \<and> (attempt fds cn s s' \<or> postponed fds (cn\<lparr>cnTimer := 0\<rparr>) s s')"
    by (rule connect_outcome[OF net_okD(1)[OF B(1)] c cn(1,2) _ net_okD(2)[OF B(1)] L]) (use cn(3) B(7)[of "nextAddr s"] in simp_all)
  then show ?thesis using tried_core[OF F b k cn t] by blast
qed

text \<open>The connector's timer.\<close>

lemma timer_core:
  assumes L: "fd_law (e_os E) fds" "connect_law (e_os E)" and I: "cl_core E fds F D s" and tm: "tm \<in> calls s"
    and t: "timersCreated s + 1 < 2 ^ 64"
  shows "\<exists>s'. run_timer (\<lambda>t. client_func E unew other (callback t)) tm s = Inr s' \<and> cl_core E fds F D s'"
proof -
  obtain k cn where k: "0 \<in> F" "cl_base E fds k s" "connector s = Some cn" "cnNewConnection cn = Some ClientNewConnection"
      "cl_phase E fds F D k cn s" "cl_timers cn s"
    using cl_coreE[OF I] .
  note B = cl_baseD[OF k(2)]
  have only: "\<forall>x \<in> calls s. t_id x = t_id tm" and d: "cnStatus cn = CnDisconnected" "old_ids s"
    using k(6) tm by (auto simp: cl_timers_def)
  have W: "clConnection k = None" "conns s = Map.empty" "cnChan cn = None" "adds fds F D {} {} s"
    using k(5) d(1) by (cases rule: cl_phase_cases; simp add: connecting_def)+
  have "watched fds (fire tm s) = watched fds s" by (intro watched_same) (simp_all add: fire_def)
  then have ok: "net_ok E fds (fire tm s)" using B(1) by (simp add: net_ok_def fire_def)
  have b: "cl_base E fds k (fire tm s)" unfolding cl_base_def using ok B(2-7) by (simp add: fire_def)
  have "calls (fire tm s) \<subseteq> {x \<in> calls s. t_id x \<noteq> t_id tm}"
    using set_remove1_subset[of tm "timers s"] by (auto simp: calls_def fire_def)
  then have c: "calls (fire tm s) = {}" "old_ids (fire tm s)"
    using only d(2) old_ids_cong[of "fire tm s" s] set_remove1_subset[of tm "timers s"] by (auto simp: fire_def)
  have "callback tm = ConnectorConnect" "t_id tm \<le> timersCreated s" using tm d(2) by (auto simp: calls_def old_ids_def)
  then have "run_timer (\<lambda>t. client_func E unew other (callback t)) tm s = connect E (fire tm s)"
    using connect_fire[OF net_okD(1)[OF B(1)] _ t, of tm] by (simp add: run_timer_def)
  moreover have "\<exists>s'. connect E (fire tm s) = Inr s' \<and> cl_core E fds F D s'"
    by (rule connect_core[OF L k(1) b W(1) _ _ _ d(1) W(3)])
      (use W k(3,4) t c in \<open>simp_all add: fire_def adds_def\<close>)
  ultimately show ?thesis by simp
qed

section \<open>An event of the connector's channel\<close>

text \<open>A channel that is not watched and is no connection's is destroyed.\<close>

lemma net_ok_delete:
  assumes ok: "net_ok E fds s" and d: "chans (poller s) d = Some ch" "isNoneEvent ch" "\<forall>c n. conns s c = Some n \<longrightarrow> chan n \<noteq> d"
    and p: "poller_inv p" "chans p = (chans (poller s))(d := None)"
  shows "net_ok E fds (s\<lparr>poller := p\<rparr>)"
proof -
  note I = net_okD[OF ok]
  have "watched fds (s\<lparr>poller := p\<rparr>)" using I(2) p unfolding watched_def by (auto split: if_splits)
  moreover have "sockfd n \<in> fds (kernel s) \<and> (\<exists>e. chans p (chan n) = Some e \<and> serves c n e) \<and>
      (\<forall>x e. chans p x = Some e \<longrightarrow> \<not> isNoneEvent e \<longrightarrow> fd e = sockfd n \<longrightarrow> x = chan n)" if n: "conns s c = Some n" for c n
    using I(4)[OF n] I(5)[OF n] d(3) n p(2) by (auto split: if_splits)
  ultimately show ?thesis using ok by (simp add: net_ok_def)
qed

text \<open>An attempt that failed.\<close>

lemma failed_core:
  assumes L: "fd_law (e_os E) fds" and F: "0 \<in> F" and b: "cl_base E fds k s" and cn: "connector s = Some cn" "cnNewConnection cn = Some ClientNewConnection"
    and k: "clConnection k = None" "conns s = Map.empty" and c: "connecting E d ch cn s" and A: "adds fds F D {fd ch} {d} s"
    and t: "timersCreated s + 1 < 2 ^ 64" "calls s = {}" "old_ids s" and w: "writable (revents ch)"
    and o: "outcome (e_os E) (e_host E) (fd ch) (kernel s) = (False, k1)"
    and call: "call ConnectorWrite = connectorWrite E ncall"
  shows "\<exists>s'. connector_event E call d s = Inr s' \<and> cl_core E fds F D s' \<and> conns s' = Map.empty \<and>
    fd ch \<notin> fds (kernel s') \<and> chans (poller s') d = None \<and> (\<exists>cn'. connector s' = Some cn' \<and> timer_set cn' s')"
proof -
  note B = cl_baseD[OF b]
  let ?cn = "cn\<lparr>cnChan := None, cnStatus := CnDisconnected\<rparr>"
  obtain p where p: "poller_inv p" "chans p = (chans (poller s))(d := None)" "connector_event E call d s =
    Inr (s\<lparr>poller := p, kernel := snd (closeSocket (e_os E) (fd ch) k1), timersCreated := timersCreated s + 1,
       timerIds := insert (t_id (retry_timer s cn)) (timerIds s), timers := pq_push (retry_timer s cn) (timers s),
       connector := Some (retried s ?cn)\<rparr>)"
    using connector_event_failed[where call = call and ncall = ncall, OF c w o call] by blast
  let ?s = "s\<lparr>poller := p, kernel := snd (closeSocket (e_os E) (fd ch) k1), timersCreated := timersCreated s + 1,
       timerIds := insert (t_id (retry_timer s cn)) (timerIds s), timers := pq_push (retry_timer s cn) (timers s),
       connector := Some (retried s ?cn)\<rparr>"
  have fk: "fds k1 = insert (fd ch) F" using outcome_fds[OF L o] A by (simp add: adds_def)
  then have fd': "fds (kernel ?s) = F" using closeSocket_fds(1)[OF L, of "fd ch" k1] A by (auto simp: adds_def)
  have G: "fds (kernel s) = insert (fd ch) F" using A by (simp add: adds_def)
  have w': "watched fds ?s"
    using others_watched[OF c net_okD(2)[OF B(1)] G p(2)] p(1) fd' net_okD(2)[OF B(1)] G by (auto simp: watched_def)
  have "net_ok E fds ?s" using B(1) w' k(2) by (simp add: net_ok_empty)
  then have b': "cl_base E fds k ?s" unfolding cl_base_def using B(2-7) p(2) by simp
  have ts: "timer_set (retried s ?cn) ?s" by (auto simp: timer_set_def retried_def retry_timer_def Timer_def)
  moreover have "cnTimer (retried s ?cn) \<noteq> 0" using t_id_retry[OF t(1)] by (simp add: retried_def)
  moreover have "adds fds F D {} {} ?s" using fd' A p(2) by (auto simp: adds_def)
  ultimately have "cl_phase E fds F D k (retried s ?cn) ?s"
    using k by (intro cl_phase_intros(3)) (simp_all add: retried_def)
  moreover have "cl_timers (retried s ?cn) ?s"
    by (rule cl_timers_retried[OF t(2,3,1)]) (simp_all add: retry_timer_def)
  ultimately have "cl_core E fds F D ?s" using F b' cn(2) by (intro cl_coreI) (simp_all add: retried_def)
  then show ?thesis using p(2,3) k(2) ts fd' A by (simp add: adds_def)
qed

text \<open>An attempt that succeeded: the client has a connection.\<close>

lemma connected_core:
  assumes E: "client_lawful E fds" and A0: "local_law (e_os E) (e_host E) fds" and F: "0 \<in> F" and b: "cl_base E fds k s"
    and cn: "connector s = Some cn" "cnNewConnection cn = Some ClientNewConnection"
    and k: "clConnection k = None" "conns s = Map.empty" and c: "connecting E d ch cn s" and A: "adds fds F D {fd ch} {d} s"
    and w: "writable (revents ch)" "calls s = {}" "old_ids s" and o: "outcome (e_os E) (e_host E) (fd ch) (kernel s) = (True, k1)"
    and peer: "isValid (e_host E) (peer_of (e_os E) (fd ch) k1)"
    and call: "call ConnectorWrite = connectorWrite E (connected_call E unew)"
  shows "\<exists>s'. connector_event E call d s = Inr s' \<and> cl_core E fds F D s' \<and> client_owns (nextAddr s) s' \<and>
    map_option sockfd (conns s' (nextAddr s)) = Some (fd ch) \<and> chans (poller s') d = None"
proof -
  note B = cl_baseD[OF b] and N = net_okD[OF cl_baseD(1)[OF b]]
  have L: "fd_law (e_os E) fds" using E by (simp add: client_lawful_def)
  let ?cn = "cn\<lparr>cnChan := None, cnStatus := CnConnected\<rparr>" and ?sock = "fd ch" and ?x = "nextAddr s"
  obtain p where p: "poller_inv p" "chans p = (chans (poller s))(d \<mapsto> ch\<lparr>isHandling := True, events := NONE_EVENT\<rparr>)"
      "connector_event E call d s = res_bind (res_bind
      (clientNewConnection E ?sock (put_connector ?cn (in_event d ch s\<lparr>poller := p, kernel := k1\<rparr>)))
      (set_handling look_loop put_loop d False)) (release_channel (e_build E) d)"
    using connector_event_ok[where call = call and ncall = "connected_call E unew", OF c w(1) o cn(2) call] by (auto simp: connected_call_def Let_def)
  let ?ch = "ch\<lparr>isHandling := True, events := NONE_EVENT\<rparr>"
  let ?s2 = "put_connector ?cn (in_event d ch s\<lparr>poller := p, kernel := k1\<rparr>)"
  have C: "chans (poller s) d = Some ch" "\<not> isNoneEvent ch"
    using c watching_WRITE[of ch] by (simp_all add: connecting_def connecting_channel_def)
  have none: "isNoneEvent ?ch" by (simp add: isNoneEvent_def)
  have f2: "conns ?s2 = Map.empty" "poller ?s2 = p" "kernel ?s2 = k1" "held ?s2 = []" "heldChans ?s2 = [d]" "nextAddr ?s2 = ?x"
      "connector ?s2 = Some ?cn" "client ?s2 = Some k" "threadId ?s2 = e_cur E" "customEvents ?s2 = customEvents s"
    using B k(2) N(1) by (simp_all add: put_connector_def in_event_def put_loop_def)
  have G: "fds (kernel s) = insert ?sock F" "?sock \<notin> F" "d \<notin> D" "dom (chans (poller s)) = insert d D" using A by (auto simp: adds_def)
  have k1: "fds k1 = insert ?sock F" using outcome_fds[OF L o] G(1) by simp
  have dlt: "d < ?x" using B(7)[of d] C(1) by (metis not_le option.distinct(1))
  have gone: "fd e \<in> F" if "chans p y = Some e" "\<not> isNoneEvent e" for y e
  proof -
    have "((chans (poller s))(d := None)) y = Some e" using that p(2) none by (auto split: if_splits)
    then show ?thesis using others_watched[OF c N(2) G(1), of "p\<lparr>chans := (chans (poller s))(d := None)\<rparr>"] that(2) by auto
  qed
  have "watched fds ?s2" using N(2) p(1) k1 G(1) gone unfolding watched_def f2 by auto
  then have ok2: "net_ok E fds ?s2" using net_ok_empty[of ?s2 E fds] net_ok_empty[of s E fds] f2 B(1) k(2) by simp
  have "fd e \<noteq> ?sock" if "chans p y = Some e" "\<not> isNoneEvent e" for y e using gone[OF that] G(2) by metis
  then have un: "unused ?sock ?s2" unfolding unused_def f2 by simp
  have "0 \<le> ?sock" using N(2) G(1) by (auto simp: watched_def)
  then have pos: "0 < ?sock" using F G(2) by (cases "?sock = 0") auto
  have fr2: "\<forall>x \<ge> nextAddr ?s2. conns ?s2 x = None \<and> chans (poller ?s2) x = None" using B(7) p(2) dlt f2 by auto
  have own2: "?sock \<in> fds (kernel ?s2)" "isValid (e_host E) (peer_of (e_os E) ?sock (kernel ?s2))" using k1 f2 peer by simp_all
  from clientNewConnection_ok[OF E ok2 A0 f2(8) k(1) B(6) fr2 own2(1) un pos own2(2)]
  obtain a b0 n chn where r: "clientNewConnection E ?sock ?s2 = Inr b0" "held b0 = []" "net_ok E fds b0" "calm {} {} fds a b0"
    "conns a = [?x \<mapsto> n]" "sockfd n = ?sock" "chan n = ?x + 1" "status n = Connected"
    "chans (poller a) = (chans p)(?x + 1 \<mapsto> chn)" "\<not> isHandling chn" "fds (kernel a) = insert ?sock F"
    "client a = Some (k\<lparr>clConnection := Some ?x\<rparr>)" "connector a = Some ?cn" "nextAddr a = ?x + 2" "heldChans a = [d]"
    "same_timers ?s2 a"
    using f2 k1 by auto
  let ?k = "k\<lparr>clConnection := Some ?x\<rparr>"
  note S = calm_client[OF r(4)]
  obtain n' where n': "conns b0 = [?x \<mapsto> n']" "same_id n n'" "status n' = Disconnected \<longleftrightarrow> status n = Disconnected"
    using calm_single[OF r(4,5)] by auto
  have id: "sockfd n' = ?sock" "chan n' = ?x + 1" using n'(2) r(6,7) by (simp_all add: same_id_def)
  have "d \<notin> chan ` ran (conns a)" using r(5,7) dlt by simp
  then have bd: "chans (poller b0) d = Some ?ch" using r(4,9) p(2) dlt by (simp add: calm_def)
  obtain q where q: "poller_inv q" "chans q = (chans (poller b0))(d := None)"
      "res_bind (set_handling look_loop put_loop d False b0) (release_channel (e_build E) d) = Inr (b0\<lparr>poller := q, heldChans := []\<rparr>)"
    using finish_event[OF net_okD(3)[OF r(3)] bd none, of "[]" "e_build E"] S r(13,15) by auto
  let ?s' = "b0\<lparr>poller := q, heldChans := []\<rparr>"
  have "net_ok E fds (b0\<lparr>poller := q\<rparr>)"
    using net_ok_delete[OF r(3) bd none _ q(1,2)] n'(1) id dlt by (auto split: if_splits)
  then have ok': "net_ok E fds ?s'" by simp
  have "dom (chans (poller b0)) = dom (chans (poller a))" using calm_dom(2)[OF r(4)] by (auto simp: dom_def)
  also have "\<dots> = insert (?x + 1) (insert d D)" using r(9) p(2) G(4) by auto
  finally have dq: "dom (chans q) = insert (?x + 1) D" using q(2) G(3) dlt by auto
  have "?x + 1 \<notin> dom (chans (poller s))" using B(7)[of "?x + 1"] by (simp add: domIff)
  then have nD: "?x + 1 \<notin> D" using G(4) by simp
  have fk: "fds (kernel ?s') = insert ?sock F" using r(4,11) by (simp add: calm_def)
  have ad: "adds fds F D {sockfd n'} {chan n'} ?s'" using fk dq nD G(2) id by (simp add: adds_def)
  obtain e where e: "chans (poller b0) (?x + 1) = Some e" using calm_chan[OF r(4), of "?x + 1" chn] r(9) by auto
  have "map_option isHandling (chans (poller b0) (?x + 1)) = map_option isHandling (chans (poller a) (?x + 1))"
    using r(4) by (simp add: calm_def)
  then have he: "\<not> isHandling e" using e r(9,10) by simp
  have ph: "cl_phase E fds F D ?k ?cn ?s'"
    using n' r(8) id e he q(2) dlt ad c by (intro cl_phase_intros(1)[where c = ?x and n = n' and ch = e]) (simp_all add: connecting_def)
  have "nextAddr b0 = ?x + 2" using S r(14) by simp
  moreover have "conns b0 x = None \<and> chans (poller b0) x = None" if "?x + 2 \<le> x" for x
    using calm_dom[OF r(4)] r(5,9) p(2) B(7)[of x] dlt that by auto
  ultimately have "cl_base E fds ?k ?s'"
    unfolding cl_base_def using ok' r(2,12) S B(5,6) q(2) by (auto simp: client_callbacks_def)
  moreover have "same_timers a b0" using r(4) by (simp add: calm_def)
  then have "cl_timers ?cn ?s'"
    using r(16) w(2,3) by (simp add: cl_timers_def calls_def old_ids_def same_timers_def put_connector_def in_event_def put_loop_def)
  ultimately have core: "cl_core E fds F D ?s'" using F ph S r(13) cn(2) by (intro cl_coreI) simp_all
  have "connector_event E call d s = Inr ?s'" using p(3) r(1) q(3) by simp
  moreover have "client_owns ?x ?s'" using S r(12) by (simp add: client_owns_def)
  ultimately show ?thesis using core n'(1) id q(2) by (intro exI[of _ ?s']) simp
qed


section \<open>The end of the connection\<close>

text \<open>What a closed connection leaves behind, once the client let go of it.\<close>

lemma closed_frame:
  assumes n: "conns s2 = [c \<mapsto> q]" and c2: "calm {} {chan q} fds s2 s3" and g: "gone fds c s3 s'"
  shows "conns s' = Map.empty" and "d \<noteq> chan q \<Longrightarrow> chans (poller s') d = chans (poller s2) d" and "chans (poller s') (chan q) = None"
    and "fds (kernel s') = fds (kernel s2) - {sockfd q}" and "net.more s' = net.more s2" and "same_timers s2 s'"
proof -
  obtain m where m: "conns s3 = [c \<mapsto> m]" "same_id q m" using calm_single[OF c2 n] by blast
  then have id: "chan m = chan q" "sockfd m = sockfd q" by (simp_all add: same_id_def)
  have g': "conns s' = (conns s3)(c := None)" "chans (poller s') = (chans (poller s3))(chan q := None)"
      "fds (kernel s') = fds (kernel s3) - {sockfd q}" "net.more s' = net.more s3" "same_timers s3 s'"
    using g m(1) id by (auto simp: gone_def)
  show "conns s' = Map.empty" using g'(1) m(1) by simp
  show "chans (poller s') d = chans (poller s2) d" if "d \<noteq> chan q"
    using that g'(2) c2 n by (simp add: calm_def)
  show "chans (poller s') (chan q) = None" using g'(2) by simp
  show "fds (kernel s') = fds (kernel s2) - {sockfd q}" "net.more s' = net.more s2" "same_timers s2 s'"
    using g'(3-5) c2 same_timers_trans[of s2 s3 s'] by (simp_all add: calm_def)
qed

lemma closed_base:
  assumes ok: "net_ok E fds s'" and h: "held s' = []" and n: "conns s2 = [c \<mapsto> q]" and c2: "calm {} {chan q} fds s2 s3" and g: "gone fds c s3 s'"
    and s2: "client s2 = Some k" "clStarted k" "client_callbacks k" "heldChans s2 = []" "\<forall>x \<ge> nextAddr s2. chans (poller s2) x = None"
  shows "cl_base E fds k s'"
proof -
  note G = closed_frame[OF n c2 g] and M = more_client[OF closed_frame(5)[OF n c2 g]]
  have "chans (poller s') x = None" if "nextAddr s2 \<le> x" for x using G(2,3) s2(5) that by (cases "x = chan q") simp_all
  then show ?thesis using ok h s2 G(1) M by (simp add: cl_base_def)
qed

lemma cl_core_closed:
  assumes E: "client_lawful E fds" and F: "0 \<in> F" and b: "cl_base E fds k s" and cn: "connector s = Some cn" "cnNewConnection cn = Some ClientNewConnection"
    and k: "clConnection k = Some c" and u: "cnStatus cn = CnConnected" "cnChan cn = None" "cnTimer cn = 0" "conns s = [c \<mapsto> n]"
    and A: "adds fds F D {sockfd n} {chan n} s" and t: "timersCreated s + 1 < 2 ^ 64" "calls s = {}" "old_ids s"
    and c1: "calm {c} {chan n} fds s s1" and ok1: "net_ok E fds s1" and g1: "client_ready s1"
    and l: "let_go client_owns E fds c s1 s2" and c2: "calm {} {chan n} fds s2 s3" and g: "gone fds c s3 s'"
    and ok: "net_ok E fds s'" and held: "held s' = []"
  shows "cl_core E fds F D s' \<and> conns s' = Map.empty \<and> client s' = Some (k\<lparr>clConnection := None\<rparr>) \<and>
    (\<exists>cn'. connector s' = Some cn' \<and> (cnStatus cn' = CnConnected \<longleftrightarrow> \<not> clRetry k)) \<and>
    sockfd n \<notin> fds (kernel s') \<and> chans (poller s') (chan n) = None"
proof -
  obtain E0 where E0: "E = client_env E0" using E by (auto simp: client_lawful_def)
  let ?E = "E0\<lparr>e_owned := client_owns\<rparr>"
  have same: "net_ok ?E fds x = net_ok E fds x" for x by (simp add: net_ok_def E0)
  have L: "fd_law (e_os ?E) fds" "connect_law (e_os ?E)" using E by (auto simp: client_lawful_def E0)
  note B = cl_baseD[OF b] and S1 = calm_client[OF c1] and LG = let_goD[OF l]
  have st1: "same_timers s s1" using c1 by (simp add: calm_def)
  let ?k = "k\<lparr>clConnection := None\<rparr>"
  let ?s1 = "put_client ?k s1"
  let ?t = "put_connector (reconnecting cn) ?s1"
  have k1: "client s1 = Some k" "connector s1 = Some cn" using S1 B(4) cn(1) by simp_all
  obtain r where r: "clientRemoveConnection ?E s1 = Inr r" "if clRetry k \<and> clStarted k
     then attempt fds (reconnecting cn) ?t r \<or> postponed fds (reconnecting cn\<lparr>cnTimer := 0\<rparr>) ?t r
     else r = ?s1"
    using remove_ok[OF L _ g1 k1(1) k LG(7) k1(2)] ok1 unfolding same by (auto simp: Let_def)
  have "clientRemoveConnection ?E s1 = Inr s2" using LG(1) unfolding E0 by simp
  then have rs: "r = s2" using r(1) by simp
  obtain q where q1: "conns s1 = [c \<mapsto> q]" "same_id n q" using calm_single[OF c1 u(4)] by blast
  then have q: "conns s2 = [c \<mapsto> q]" "chan q = chan n" "sockfd q = sockfd n" using LG(3) by (simp_all add: same_id_def)
  note c2q = c2[folded q(2)]
  note G = closed_frame[OF q(1) c2q g, unfolded q(2,3)] and M = more_client[OF closed_frame(5)[OF q(1) c2q g]]
  have idle: "calls ?t = {}" "old_ids ?t"
    using st1 t(2,3) by (simp_all add: calls_def old_ids_def same_timers_def put_client_def put_connector_def)
  have tm: "cl_timers x s' = cl_timers x s2" for x using G(6) cl_timers_cong[of s' s2 x] by (simp add: same_timers_def)
  have dom1: "chans (poller s1) x = None \<longleftrightarrow> chans (poller s) x = None" for x using calm_dom(2)[OF c1] .
  have A': "fds (kernel s1) = F \<union> {sockfd n}" "sockfd n \<notin> F" "dom (chans (poller s1)) = D \<union> {chan n}" "chan n \<notin> D"
    using A c1 dom1 by (auto simp: adds_def calm_def dom_def)
  have f1: "client ?s1 = Some ?k" "poller ?s1 = poller s1" "kernel ?s1 = kernel s1" "nextAddr ?s1 = nextAddr s" "connector ?s1 = Some cn"
      "heldChans ?s1 = []" "conns ?s1 = [c \<mapsto> q]" "timersCreated ?s1 = timersCreated s" "threadId ?s1 = e_cur E"
    using S1 B(3) k1 q1 st1 net_okD(1)[OF ok1] by (simp_all add: put_client_def same_timers_def)
  have ft: "client ?t = Some ?k" "poller ?t = poller s1" "kernel ?t = kernel s1" "nextAddr ?t = nextAddr s" "connector ?t = Some (reconnecting cn)"
      "heldChans ?t = []" "conns ?t = [c \<mapsto> q]" "timersCreated ?t = timersCreated s" "threadId ?t = e_cur E"
    using f1 by (simp_all add: put_connector_def)
  have new: "\<forall>x \<ge> nextAddr s. chans (poller s1) x = None" using B(7) dom1 by simp
  have kk: "clConnection ?k = None" "clRetry ?k = clRetry k" "clStarted ?k" "client_callbacks ?k" using B(5,6) by (simp_all add: client_callbacks_def)
  have doms: "dom (chans (poller s')) = dom (chans (poller s2)) - {chan n}"
  proof (intro set_eqI)
    fix x show "x \<in> dom (chans (poller s')) \<longleftrightarrow> x \<in> dom (chans (poller s2)) - {chan n}"
      using G(2,3) by (cases "x = chan n") (simp_all add: domIff)
  qed
  show ?thesis
  proof (cases "clRetry k")
    case False
    then have s2: "s2 = ?s1" using r(2) rs by simp
    have b': "cl_base E fds ?k s'"
      by (rule closed_base[OF ok held q(1) c2q g]) (use s2 f1 kk new in simp_all)
    have "adds fds F D {} {} s'" using doms G(4) s2 f1 A' by (auto simp: adds_def)
    then have "cl_phase E fds F D ?k cn s'" using kk(1,2) G(1) u False by (intro cl_phase_intros(4)) simp_all
    moreover have "cl_timers cn s'" using idle unfolding tm s2 by (auto simp: cl_timers_def calls_def old_ids_def put_connector_def)
    ultimately have "cl_core E fds F D s'" using F b' M s2 f1 cn(2) by (intro cl_coreI) simp_all
    then show ?thesis using M s2 f1 G(1,3,4) u(1) False by simp
  next
    case True
    then have "attempt fds (reconnecting cn) ?t s2 \<or> postponed fds (reconnecting cn\<lparr>cnTimer := 0\<rparr>) ?t s2" using r(2) rs B(5) by simp
    then show ?thesis
    proof
      assume a: "attempt fds (reconnecting cn) ?t s2"
      let ?cn = "reconnecting cn\<lparr>cnTimer := 0, cnStatus := CnConnecting, cnChan := Some (nextAddr s)\<rparr>"
      have nc: "cnNewConnection (reconnecting cn) \<noteq> None" using cn(2) by (simp add: reconnecting_def)
      obtain ch where n: "connecting E (nextAddr s) ch ?cn s2" "fd ch \<notin> fds (kernel s1)" "fds (kernel s2) = insert (fd ch) (fds (kernel s1))"
          "chans (poller s2) = (chans (poller s1))(nextAddr s \<mapsto> ch)" "connector s2 = Some ?cn" "nextAddr s2 = nextAddr s + 1"
          "heldChans s2 = []" "client s2 = Some ?k"
        using attempt_connecting[OF a ft(9,6) nc] unfolding ft by metis
      have b': "cl_base E fds ?k s'"
        by (rule closed_base[OF ok held q(1) c2q g]) (use n kk new in simp_all)
      have "nextAddr s \<notin> dom (chans (poller s1))" using new by (simp add: domIff)
      then have d: "nextAddr s \<noteq> chan n" "nextAddr s \<notin> D" unfolding A'(3) by auto
      have c': "connecting E (nextAddr s) ch ?cn s'"
        by (rule connecting_frame[OF n(1)])
          (use M G(2) d net_okD(3)[OF ok] in \<open>simp_all add: net_okD(1)[OF ok] net_okD(1)[OF LG(2)]\<close>)
      have "adds fds F D {fd ch} {nextAddr s} s'" using doms G(4) n(2-4) A' d by (auto simp: adds_def)
      then have "cl_phase E fds F D ?k ?cn s'" using kk(1) G(1) c' by (intro cl_phase_intros(2)) simp_all
      moreover have "cl_timers ?cn s'" unfolding tm using cl_timers_attempt[OF idle a] .
      ultimately have "cl_core E fds F D s'" using F b' M n(5) cn(2) by (intro cl_coreI) (simp_all add: reconnecting_def)
      then show ?thesis using M n(5,8) G(1,3,4) True by simp
    next
      assume p: "postponed fds (reconnecting cn\<lparr>cnTimer := 0\<rparr>) ?t s2"
      let ?c0 = "reconnecting cn\<lparr>cnTimer := 0\<rparr>"
      let ?cn = "retried ?t ?c0"
      obtain kk' where n: "fds kk' = fds (kernel ?t)"
         "s2 = ?t\<lparr>kernel := kk', timersCreated := timersCreated ?t + 1, timerIds := insert (t_id (retry_timer ?t ?c0)) (timerIds ?t),
           timers := pq_push (retry_timer ?t ?c0) (timers ?t), connector := Some ?cn\<rparr>"
        using p unfolding postponed_def by blast
      have f2: "client s2 = Some ?k" "poller s2 = poller s1" "fds (kernel s2) = fds (kernel s1)" "nextAddr s2 = nextAddr s"
          "connector s2 = Some ?cn" "heldChans s2 = []"
        using n ft by simp_all
      have b': "cl_base E fds ?k s'"
        by (rule closed_base[OF ok held q(1) c2q g]) (use f2 kk new in simp_all)
      have "timer_set ?cn s2" by (auto simp: timer_set_def retried_def n(2) retry_timer_def Timer_def)
      then have ts: "timer_set ?cn s'" using G(6) by (simp add: timer_set_def same_timers_def)
      have "cnTimer ?cn \<noteq> 0" using t_id_retry[of ?t] t(1) ft(8) by (simp add: retried_def)
      moreover have "adds fds F D {} {} s'" using doms G(4) f2 A' by (auto simp: adds_def)
      ultimately have "cl_phase E fds F D ?k ?cn s'"
        using kk(1) G(1) ts u by (intro cl_phase_intros(3)) (simp_all add: retried_def reconnecting_def)
      moreover have "cl_timers ?cn s'"
        unfolding tm by (rule cl_timers_retried[OF idle]) (use t(1) ft(8) n(2) in \<open>simp_all add: reconnecting_def\<close>)
      ultimately have "cl_core E fds F D s'" using F b' M f2 cn(2) by (intro cl_coreI) (simp_all add: retried_def reconnecting_def)
      then show ?thesis using M f2 G(1,3,4) True by (simp add: retried_def reconnecting_def)
    qed
  qed
qed

section \<open>Events\<close>

text \<open>An event on the connection.\<close>

lemma cl_connection_event:
  assumes E: "client_lawful E fds" and I: "cl_core E fds F D s" and n: "conns s c = Some n"
    and room: "length (mem (readBuffer n)) < 2 ^ 61" and ch: "chans (poller s) (chan n) = Some ch" "plausible (revents ch)"
    and t: "timersCreated s + 1 < 2 ^ 64" and k: "client s = Some k"
  shows "\<exists>s'. conn_event E other (chan n) s = Inr s' \<and> cl_core E fds F D s' \<and>
    (if ends E n (revents ch) s then conns s' = Map.empty \<and> client s' = Some (k\<lparr>clConnection := None\<rparr>) \<and>
      (\<exists>cn'. connector s' = Some cn' \<and> (cnStatus cn' = CnConnected \<longleftrightarrow> \<not> clRetry k)) \<and>
      sockfd n \<notin> fds (kernel s') \<and> chans (poller s') (chan n) = None
     else dom (conns s') = dom (conns s) \<and> client s' = Some k)"
proof -
  obtain k' cn where i: "0 \<in> F" "cl_base E fds k' s" "connector s = Some cn" "cnNewConnection cn = Some ClientNewConnection"
      "cl_phase E fds F D k' cn s" "cl_timers cn s"
    using cl_coreE[OF I] .
  note B = cl_baseD[OF i(2)]
  have k': "k' = k" using B(4) k by simp
  obtain e where u: "clConnection k = Some c" "cnStatus cn = CnConnected" "cnChan cn = None" "cnTimer cn = 0" "conns s = [c \<mapsto> n]"
      "status n \<noteq> Disconnected" "chans (poller s) (chan n) = Some e" "\<not> isHandling e" "adds fds F D {sockfd n} {chan n} s"
    using i(5) n unfolding k' by (cases rule: cl_phase_cases) (auto split: if_splits)
  have id: "calls s = {}" "old_ids s" using cl_timers_none[OF i(6)] u(2) by simp_all
  have g: "client_ready s" using k i(3,4) u(2,3) B(7) by (simp add: client_ready_def)
  have o: "client_owns c s" using k u(1) by (simp add: client_owns_def)
  have h: "\<not> isHandling ch" using u(7,8) ch(1) by simp
  obtain s' where s': "conn_event E other (chan n) s = Inr s'" "net_ok E fds s'" "held s' = []"
    "if ends E n (revents ch) s then \<exists>s1 s2 s3 n1. net_ok E fds s1 \<and> client_ready s1 \<and> calm {c} {chan n} fds s s1 \<and>
      conns s1 c = Some n1 \<and> status n1 = Disconnected \<and> let_go client_owns E fds c s1 s2 \<and> calm {} {chan n} fds s2 s3 \<and> gone fds c s3 s'
     else calm {} {} fds s s'"
    using cl.event_ok[OF E B(1) g n u(6) o B(2) room ch(1) h, of other] ch(2)[unfolded plausible_def] by blast
  show ?thesis
  proof (cases "ends E n (revents ch) s")
    case False
    then have c: "calm {} {} fds s s'" using s'(4) by simp
    then have "dom (conns s') = dom (conns s)" using calm_dom(1)[OF c] by (auto simp: dom_def)
    then show ?thesis using s'(1) False cl_core_calm[OF I s'(2) c s'(3)] calm_client(1)[OF c] k by simp
  next
    case True
    then obtain s1 s2 s3 where c: "net_ok E fds s1" "client_ready s1" "calm {c} {chan n} fds s s1" "let_go client_owns E fds c s1 s2"
        "calm {} {chan n} fds s2 s3" "gone fds c s3 s'"
      using s'(4) by (simp only: if_True) blast
    show ?thesis
      using s'(1) True cl_core_closed[OF E i(1) i(2)[unfolded k'] i(3,4) u(1-5) u(9) t id c(3) c(1,2) c(4-6) s'(2,3)] by simp
  qed
qed

text \<open>An event on the connector's channel.\<close>

lemma cl_connector_event:
  assumes E: "client_lawful E fds" and A: "local_law (e_os E) (e_host E) fds" and I: "cl_core E fds F D s"
    and cn: "connector s = Some cn" "cnChan cn = Some d" and ch: "chans (poller s) d = Some ch"
    and t: "timersCreated s + 1 < 2 ^ 64"
    and o: "outcome (e_os E) (e_host E) (fd ch) (kernel s) = (good, k1)"
    and peer: "good \<Longrightarrow> isValid (e_host E) (peer_of (e_os E) (fd ch) k1)"
    and call: "call ConnectorWrite = connectorWrite E (connected_call E unew)"
  shows "\<exists>s'. connector_event E call d s = Inr s' \<and> cl_core E fds F D s' \<and>
    (if \<not> writable (revents ch) then s' = s
     else chans (poller s') d = None \<and>
       (if good then client_owns (nextAddr s) s' \<and> map_option sockfd (conns s' (nextAddr s)) = Some (fd ch)
        else conns s' = Map.empty \<and> fd ch \<notin> fds (kernel s') \<and> (\<exists>cn'. connector s' = Some cn' \<and> timer_set cn' s')))"
proof -
  obtain k cn' where i: "0 \<in> F" "cl_base E fds k s" "connector s = Some cn'" "cnNewConnection cn' = Some ClientNewConnection"
      "cl_phase E fds F D k cn' s" "cl_timers cn' s"
    using cl_coreE[OF I] .
  have L: "fd_law (e_os E) fds" using E by (simp add: client_lawful_def)
  have cn': "cn' = cn" using i(3) cn(1) by simp
  obtain d' ch' where c: "clConnection k = None" "conns s = Map.empty" "connecting E d' ch' cn s" "adds fds F D {fd ch'} {d'} s"
    using i(5) cn(2) unfolding cn' by (cases rule: cl_phase_cases) auto
  have same: "d' = d" "ch' = ch" using c(3) cn(2) ch by (auto simp: connecting_def)
  note c = c[unfolded same]
  have id: "calls s = {}" "old_ids s" using cl_timers_none[OF i(6)] c(3) unfolding cn' by (simp_all add: connecting_def)
  show ?thesis
  proof (cases "writable (revents ch)")
    case False
    then show ?thesis using connector_event_idle[OF c(3)] I c(2) by auto
  next
    case w: True
    show ?thesis
    proof (cases good)
      case True
      have "outcome (e_os E) (e_host E) (fd ch) (kernel s) = (True, k1)" using o True by simp
      from connected_core[where call = call and unew = unew, OF E A i(1,2) cn(1) i(4)[unfolded cn'] c w id this peer[OF True] call]
      show ?thesis using w True by auto
    next
      case False
      have "outcome (e_os E) (e_host E) (fd ch) (kernel s) = (False, k1)" using o False by simp
      from failed_core[where call = call and ncall = "connected_call E unew", OF L i(1,2) cn(1) i(4)[unfolded cn'] c t id w this call]
      show ?thesis using w False by auto
    qed
  qed
qed

text \<open>What the poller reports.\<close>

lemma cl_core_put:
  assumes I: "cl_core E fds F D s" and d: "chans (poller s) d = Some ch"
  shows "cl_core E fds F D (put_loop d (ch\<lparr>revents := r\<rparr>) s)"
proof -
  let ?ch = "ch\<lparr>revents := r\<rparr>" and ?s = "put_loop d (ch\<lparr>revents := r\<rparr>) s"
  obtain k cn where i: "0 \<in> F" "cl_base E fds k s" "connector s = Some cn" "cnNewConnection cn = Some ClientNewConnection"
      "cl_phase E fds F D k cn s" "cl_timers cn s"
    using cl_coreE[OF I] .
  note B = cl_baseD[OF i(2)]
  have "ch\<lparr>revents := r, isHandling := isHandling ch\<rparr> = ?ch" by (cases ch) simp
  then have ok: "net_ok E fds ?s" using net_ok_put[OF B(1) d, where r = r and h = "isHandling ch"] by simp
  have f: "conns ?s = conns s" "chans (poller ?s) = (chans (poller s))(d \<mapsto> ?ch)" "kernel ?s = kernel s" "held ?s = held s"
      "client ?s = client s" "connector ?s = connector s" "nextAddr ?s = nextAddr s" "heldChans ?s = heldChans s" "threadId ?s = threadId s"
      "timer_set cn ?s = timer_set cn s"
    by (simp_all add: put_loop_def timer_set_def)
  have "\<forall>x \<ge> nextAddr s. x \<noteq> d" using B(7) d by auto
  then have b: "cl_base E fds k ?s" unfolding cl_base_def using ok f B by auto
  have "dom (chans (poller ?s)) = dom (chans (poller s))" unfolding f(2) using d by auto
  then have ad: "adds fds F D A C ?s = adds fds F D A C s" for A C by (simp add: adds_def f)
  have "cl_phase E fds F D k cn ?s"
    using i(5)
  proof (cases rule: cl_phase_cases)
    case (up c n e)
    then show ?thesis using f ad d by (cases "chan n = d") (auto simp: cl_phase_def)
  next
    case (trying d' e)
    obtain e' where e': "chans (poller ?s) d' = Some e'" "fd e' = fd e" "connecting_channel d' (fd e) e'"
      using trying(4) f d by (cases "d' = d") (auto simp: connecting_def connecting_channel_def)
    then have "connecting E d' e' cn ?s" using trying(4) f net_okD(3)[OF ok] by (simp add: connecting_def)
    then show ?thesis using trying f ad e'(2) by (intro cl_phase_intros(2)[where d = d' and ch' = e']) simp_all
  next
    case waiting
    then show ?thesis using f ad by (intro cl_phase_intros(3)) simp_all
  next
    case over
    then show ?thesis using f ad by (intro cl_phase_intros(4)) simp_all
  qed
  moreover have "cl_timers cn ?s" using i(6) cl_timers_cong[of ?s s cn] by (simp add: put_loop_def)
  ultimately show ?thesis using i b f by (intro cl_coreI) simp_all
qed

text \<open>
  An event on a channel: the connector's while it has one, else the connection's.  Right after an attempt succeeded, the kernel
  knows the address of the peer.
\<close>

definition client_event :: "('u, 'k, 'z) clnet_env \<Rightarrow> ('u \<Rightarrow> int \<Rightarrow> ('u, 'k, 'z) clnet_scheme \<Rightarrow> ('u, 'k, 'z) clnet_scheme res) \<Rightarrow>
    ('u func \<Rightarrow> ('u, 'k, 'z) clnet_scheme \<Rightarrow> ('u, 'k, 'z) clnet_scheme res) \<Rightarrow>
    nat \<Rightarrow> ('u, 'k, 'z) clnet_scheme \<Rightarrow> ('u, 'k, 'z) clnet_scheme res" where
  "client_event E unew other d s =
     (if \<exists>cn \<in> set_option (connector s). cnChan cn = Some d then connector_event E (call_func E (client_func E unew other)) d s
      else conn_event E (client_func E unew other) d s)"

definition peer_known :: "('u, 'k, 'z) clnet_env \<Rightarrow> nat \<Rightarrow> ('u, 'k, 'z) clnet_scheme \<Rightarrow> bool" where
  "peer_known E d s \<longleftrightarrow> (\<forall>cn \<in> set_option (connector s). cnChan cn = Some d \<longrightarrow> (\<forall>ch \<in> set_option (chans (poller s) d).
     (case outcome (e_os E) (e_host E) (fd ch) (kernel s) of (good, k) \<Rightarrow> good \<longrightarrow>
       isValid (e_host E) (peer_of (e_os E) (fd ch) k))))"

definition cl_os :: "('u, 'k, 'z) clnet_env \<Rightarrow> ('k \<Rightarrow> int set) \<Rightarrow> bool" where
  "cl_os E fds \<longleftrightarrow> client_lawful E fds \<and> local_law (e_os E) (e_host E) fds"

lemma cl_event_handled:
  assumes L: "cl_os E fds" and I: "cl_core E fds F D s" and d: "chans (poller s) d = Some ch" "d \<notin> D"
    and r: "plausible (revents ch)" "event_room d s" "peer_known E d s" and t: "timersCreated s + 1 < 2 ^ 64"
  shows "\<exists>s'. client_event E unew other d s = Inr s' \<and> cl_core E fds F D s'"
proof -
  obtain k cn where i: "0 \<in> F" "cl_base E fds k s" "connector s = Some cn" "cnNewConnection cn = Some ClientNewConnection"
      "cl_phase E fds F D k cn s"
    using cl_coreE[OF I] .
  note B = cl_baseD[OF i(2)]
  have E: "client_lawful E fds" "local_law (e_os E) (e_host E) fds" using L by (simp_all add: cl_os_def)
  have dom: "d \<in> dom (chans (poller s))" using d(1) by blast
  from i(5) show ?thesis
  proof (cases rule: cl_phase_cases)
    case (up c n e)
    have dn: "d = chan n" using dom d(2) up(9) by (auto simp: adds_def)
    then have "length (mem (readBuffer n)) < 2 ^ 61" using r(2) up(5) by (simp add: event_room_def)
    then obtain s' where "conn_event E (client_func E unew other) (chan n) s = Inr s'" "cl_core E fds F D s'"
      using cl_connection_event[OF E(1) I _ _ d(1)[unfolded dn] r(1) t B(4), of c "client_func E unew other"] up(5) by auto
    then show ?thesis using i(3) up(3) dn by (simp add: client_event_def)
  next
    case (trying d' e)
    have cd: "cnChan cn = Some d" using trying(4,5) dom d(2) by (auto simp: connecting_def adds_def)
    obtain good k1 where o: "outcome (e_os E) (e_host E) (fd ch) (kernel s) = (good, k1)"
      by (cases "outcome (e_os E) (e_host E) (fd ch) (kernel s)")
    have p: "good \<Longrightarrow> isValid (e_host E) (peer_of (e_os E) (fd ch) k1)" using r(3) i(3) cd d(1) o by (simp add: peer_known_def)
    have "call_func E (client_func E unew other) ConnectorWrite = connectorWrite E (connected_call E unew)" by (rule ext) simp
    from cl_connector_event[where call = "call_func E (client_func E unew other)" and unew = unew, OF E I i(3) cd d(1) t o p this]
    show ?thesis using i(3) cd by (auto simp: client_event_def)
  qed (use dom d(2) in \<open>auto simp: adds_def\<close>)
qed

end
