(* ===== verification/Client_Life.thy ===== *)
theory Client_Life
  imports Client_System
begin

text \<open>
  The life of a started client (\<^verbatim>\<open>src/include/godnet/net/tcp_client.cpp\<close>): a step relation of what the poller
  reports, the events of the connector's channel and of the connection's, the connector's timer and the user's callbacks; what
  becomes of connections, channels and descriptors in its reachable states; and stopping and destroying it.
\<close>

section \<open>The client's life\<close>

text \<open>
  The poller reports events; an event is handled; a timer that calls the connector runs out, whichever it is; the user's timers and tasks do what a
  callback may do; and everything else of the loop leaves the network and the connector's timers alone.
\<close>

inductive cl_step :: "('u, 'k, 'z) clnet_env \<Rightarrow> ('u \<Rightarrow> int \<Rightarrow> ('u, 'k, 'z) clnet_scheme \<Rightarrow> ('u, 'k, 'z) clnet_scheme res) \<Rightarrow>
    ('u func \<Rightarrow> ('u, 'k, 'z) clnet_scheme \<Rightarrow> ('u, 'k, 'z) clnet_scheme res) \<Rightarrow> ('k \<Rightarrow> int set) \<Rightarrow> nat set \<Rightarrow>
    ('u, 'k, 'z) clnet_scheme \<Rightarrow> ('u, 'k, 'z) clnet_scheme \<Rightarrow> bool"
  for E unew other fds D where
  cl_report: "chans (poller s) d = Some ch \<Longrightarrow> cl_step E unew other fds D s (put_loop d (setRevents r ch) s)"
| cl_event: "chans (poller s) d = Some ch \<Longrightarrow> d \<notin> D \<Longrightarrow> plausible (revents ch) \<Longrightarrow> event_room d s \<Longrightarrow> peer_known E d s \<Longrightarrow>
     timersCreated s + 1 < 2 ^ 64 \<Longrightarrow> client_event E unew other d s = Inr s' \<Longrightarrow> cl_step E unew other fds D s s'"
| cl_timer: "t \<in> calls s \<Longrightarrow> expiration t \<le> clock s \<Longrightarrow> timersCreated s + 1 < 2 ^ 64 \<Longrightarrow>
     run_timer (\<lambda>t. client_func E unew other (callback t)) t s = Inr s' \<Longrightarrow> cl_step E unew other fds D s s'"
| cl_user: "user_step E s s' \<Longrightarrow> cl_step E unew other fds D s s'"
| cl_else: "s' = s\<lparr>timers := ts, timerIds := is, timersCreated := m, running := b, customEvents := q, wakeups := w, clock := t,
       kernel := k\<rparr> \<Longrightarrow> (\<forall>c. \<forall>f \<in> set q. \<not> keeps c f) \<Longrightarrow> fds k = fds (kernel s) \<Longrightarrow>
     calls s' = calls s \<Longrightarrow> timersCreated s \<le> m \<Longrightarrow>
     (\<forall>x \<in> set ts. callback x = ConnectorConnect \<longrightarrow> x \<in> set (timers s)) \<Longrightarrow> cl_step E unew other fds D s s'"

text \<open>
  A client is made on a loop without connections, gets its callbacks and whether to try again, and is started.
  Descriptor 0 is open, as it is in a process with a standard input.
\<close>

definition cl_init :: "('u, 'k, 'z) clnet_env \<Rightarrow> ('k \<Rightarrow> int set) \<Rightarrow> int set \<Rightarrow> nat set \<Rightarrow> ('u, 'k, 'z) clnet_scheme \<Rightarrow> bool" where
  "cl_init E fds F D s \<longleftrightarrow> (\<exists>s0 s1 s2 s3 s4 peer u1 u2 on. threadId s0 = e_cur E \<and> watched fds s0 \<and> held s0 = [] \<and> heldChans s0 = [] \<and>
     conns s0 = Map.empty \<and> (\<forall>c. \<forall>f \<in> set (customEvents s0). \<not> keeps c f) \<and> F = fds (kernel s0) \<and> 0 \<in> F \<and>
     D = dom (chans (poller s0)) \<and> (\<forall>x \<ge> nextAddr s0. chans (poller s0) x = None) \<and> timersCreated s0 + 1 < 2 ^ 64 \<and>
     (\<forall>t \<in> set (timers s0). callback t \<noteq> ConnectorConnect) \<and>
     TcpClient E peer s0 = Inr s1 \<and> clientConnectionCallback (UserFunc u1) s1 = Inr s2 \<and>
     clientMessageCallback (UserFunc u2) s2 = Inr s3 \<and> setRetry on s3 = Inr s4 \<and> clientStart E s4 = Inr s)"

lemma client_lawful_laws: "client_lawful E fds \<Longrightarrow> fd_law (e_os E) fds \<and> connect_law (e_os E)"
  by (simp add: client_lawful_def)

lemma cl_core_init:
  assumes E: "client_lawful E fds" and i: "cl_init E fds F D s"
  shows "cl_core E fds F D s"
proof -
  obtain s0 s1 s2 s3 s4 peer u1 u2 on where i: "threadId s0 = e_cur E" "watched fds s0" "held s0 = []" "heldChans s0 = []"
     "conns s0 = Map.empty" "\<forall>c. \<forall>f \<in> set (customEvents s0). \<not> keeps c f" "F = fds (kernel s0)" "0 \<in> F"
     "D = dom (chans (poller s0))" "\<forall>x \<ge> nextAddr s0. chans (poller s0) x = None" "timersCreated s0 + 1 < 2 ^ 64"
     "\<forall>t \<in> set (timers s0). callback t \<noteq> ConnectorConnect"
     "TcpClient E peer s0 = Inr s1" "clientConnectionCallback (UserFunc u1) s1 = Inr s2"
     "clientMessageCallback (UserFunc u2) s2 = Inr s3" "setRetry on s3 = Inr s4" "clientStart E s4 = Inr s"
    using i unfolding cl_init_def by blast
  let ?cn = "\<lparr>cnPeer = peer, retryDelay = 500, currDelay = 500, maxDelay = 5000, cnStatus = CnDisconnected, cnTimer = 0, cnChan = None,
      cnNewConnection = Some ClientNewConnection\<rparr>"
  let ?k = "\<lparr>clStarted = True, clRetry = on, clConnectionCallback = Some (UserFunc u1), clMessageCallback = Some (UserFunc u2),
      clConnection = None\<rparr>"
  let ?s = "put_connector ?cn (put_client ?k s0)"
  have s4: "s4 = put_client (?k\<lparr>clStarted := False\<rparr>) (put_connector (?cn\<lparr>cnNewConnection := None\<rparr>) s0)"
    using i(13-16) by (auto simp: TcpClient_def TcpConnector_def clientConnectionCallback_def clientMessageCallback_def setRetry_def
        with_client_def put_client_def put_connector_def res_simps)
  have c: "connect E ?s = Inr s"
    using i(1,17) unfolding s4
    by (simp add: clientStart_def runInLoop_def isInLoopThread_def clientStartInLoop_def with_client_def put_client_def put_connector_def
        setNewConnectionCallback_def with_connector_def Let_def)
  have f: "conns ?s = Map.empty" "timersCreated ?s = timersCreated s0" "client ?s = Some ?k" "connector ?s = Some ?cn" "poller ?s = poller s0"
      "kernel ?s = kernel s0" "heldChans ?s = []" "held ?s = []" "nextAddr ?s = nextAddr s0" "threadId ?s = e_cur E" "customEvents ?s = customEvents s0"
    using i by (simp_all add: put_client_def put_connector_def)
  have "watched fds ?s = watched fds s0" using f by (intro watched_same) simp_all
  then have "net_ok E fds ?s" unfolding net_ok_empty[where s = ?s, OF f(1)] f(10,11) using i(2,6) by simp
  then have b: "cl_base E fds ?k ?s" using i(10) f by (simp add: cl_base_def client_callbacks_def)
  have ad: "adds fds F D {} {} ?s" using i(7,9) f by (simp add: adds_def)
  have tm: "calls ?s = {}" "old_ids ?s" using i(12) by (auto simp: calls_def old_ids_def put_client_def put_connector_def)
  show ?thesis
    using connect_core[OF _ _ i(8) b _ f(1) ad f(4)] client_lawful_laws[OF E] i(11) f(2) c tm by simp
qed

lemma cl_core_frame:
  assumes I: "cl_core E fds F D s" and q: "\<forall>c. \<forall>f \<in> set q. \<not> keeps c f" and k: "fds k = fds (kernel s)"
    and ts: "calls (s\<lparr>timers := ts, timerIds := is\<rparr>) = calls s" "timersCreated s \<le> m"
      "\<forall>x \<in> set ts. callback x = ConnectorConnect \<longrightarrow> x \<in> set (timers s)"
  shows "cl_core E fds F D (s\<lparr>timers := ts, timerIds := is, timersCreated := m, running := b, customEvents := q,
    wakeups := w, clock := t, kernel := k\<rparr>)"
proof -
  let ?s = "s\<lparr>timers := ts, timerIds := is, timersCreated := m, running := b, customEvents := q, wakeups := w, clock := t, kernel := k\<rparr>"
  obtain kk cn where i: "0 \<in> F" "cl_base E fds kk s" "connector s = Some cn" "cnNewConnection cn = Some ClientNewConnection"
      "cl_phase E fds F D kk cn s" "cl_timers cn s"
    using cl_coreE[OF I] .
  note B = cl_baseD[OF i(2)]
  have "watched fds ?s = watched fds s" using k by (intro watched_same) simp_all
  then have "net_ok E fds ?s" using B(1) q k by (simp add: net_ok_def)
  then have b: "cl_base E fds kk ?s" unfolding cl_base_def using B(2-7) by simp
  have ad: "adds fds F D A C ?s = adds fds F D A C s" for A C using k by (simp add: adds_def)
  have co: "connecting E d ch cn ?s = connecting E d ch cn s" for d ch by (simp add: connecting_def)
  have cs: "calls ?s = calls s" using ts(1) by (simp add: calls_def)
  have tm: "timer_set cn s \<Longrightarrow> timer_set cn ?s"
  proof -
    assume "timer_set cn s"
    then obtain t where "t \<in> calls s" "t_id t = cnTimer cn" by (auto simp: timer_set_def calls_def)
    then have "t \<in> calls ?s" "t_id t = cnTimer cn" using cs by simp_all
    then show ?thesis by (auto simp: timer_set_def calls_def)
  qed
  have "old_ids ?s" using i(6) ts(2,3) by (fastforce simp: cl_timers_def old_ids_def)
  then have tms: "cl_timers cn ?s" using i(6) cs by (simp add: cl_timers_def)
  have "cl_phase E fds F D kk cn ?s"
    using i(5)
  proof (cases rule: cl_phase_cases)
    case (up c n e)
    then show ?thesis using ad by (intro cl_phase_intros(1)[where n = n and ch = e]) simp_all
  next
    case (trying d e)
    then show ?thesis using ad co by (intro cl_phase_intros(2)[where d = d and ch' = e]) simp_all
  next
    case waiting
    then show ?thesis using ad tm by (intro cl_phase_intros(3)) simp_all
  next
    case over
    then show ?thesis using ad by (intro cl_phase_intros(4)) simp_all
  qed
  then show ?thesis using i b tms by (intro cl_coreI) simp_all
qed

lemma cl_core_step:
  assumes L: "cl_os E fds" and I: "cl_core E fds F D s" and st: "cl_step E unew other fds D s s'"
  shows "cl_core E fds F D s'"
  using st
proof cases
  case (cl_report d ch r)
  then show ?thesis using cl_core_put[OF I] by (simp add: setRevents_def)
next
  case (cl_event d ch)
  then show ?thesis using cl_event_handled[OF L I, of d ch unew other] by auto
next
  case (cl_timer t)
  then show ?thesis using timer_core[OF _ _ I, of t unew other] client_lawful_laws[of E fds] L by (auto simp: cl_os_def)
next
  case cl_user
  have "net_ok E fds s" "held s = []" using cl_coreE[OF I] cl_baseD by metis+
  moreover have "fd_law (e_os E) fds" using L client_lawful_laws by (auto simp: cl_os_def)
  ultimately show ?thesis
    using user_step_calm[OF cl_user] cl_core_calm[OF I] by auto
next
  case cl_else
  then show ?thesis using cl_core_frame[OF I] by (simp add: calls_def)
qed

interpretation cls: invariant_system "\<lambda>s. cl_os E fds \<and> cl_init E fds F D s" "cl_step E unew other fds D"
  "\<lambda>s. cl_os E fds \<and> cl_core E fds F D s" for E unew other fds F D
proof (unfold_locales, goal_cases)
  case (1 s)
  then show ?case using cl_core_init by (auto simp: cl_os_def)
next
  case (2 s s')
  then show ?case using cl_core_step by blast
qed

section \<open>Properties\<close>

abbreviation client_reach :: "('u, 'k, 'z) clnet_env \<Rightarrow> ('u \<Rightarrow> int \<Rightarrow> ('u, 'k, 'z) clnet_scheme \<Rightarrow> ('u, 'k, 'z) clnet_scheme res) \<Rightarrow>
    ('u func \<Rightarrow> ('u, 'k, 'z) clnet_scheme \<Rightarrow> ('u, 'k, 'z) clnet_scheme res) \<Rightarrow> ('k \<Rightarrow> int set) \<Rightarrow> int set \<Rightarrow> nat set \<Rightarrow>
    ('u, 'k, 'z) clnet_scheme \<Rightarrow> bool" where
  "client_reach E unew other fds F D \<equiv> reach (\<lambda>s. cl_os E fds \<and> cl_init E fds F D s) (cl_step E unew other fds D)"

text \<open>
  C3. In every state of a started client's life there is at most one connection, its own, and it is open.  Without one,
  the connector has an attempt in progress whose channel is watched, or its timer is set so that it will try again, or the client is
  not to try again.  The descriptors and the channels that were added to those of before are exactly the connection's
  or the attempt's: none leaks and none is closed or destroyed while it is used.  Every event the poller can report is handled
  without an error.
\<close>

theorem client_tracks:
  assumes "cl_os E fds" and "client_reach E unew other fds F D s"
  shows "(\<exists>k cn. client s = Some k \<and> connector s = Some cn \<and> (case clConnection k of
       Some c \<Rightarrow> \<exists>n. conns s = [c \<mapsto> n] \<and> (status n = Connected \<or> status n = Disconnecting) \<and> adds fds F D {sockfd n} {chan n} s
     | None \<Rightarrow> conns s = Map.empty \<and> (case cnStatus cn of
         CnConnecting \<Rightarrow> \<exists>d ch. chans (poller s) d = Some ch \<and> interest (poller s) (fd ch) = Some (WRITE_EVENT, d) \<and> adds fds F D {fd ch} {d} s
       | CnDisconnected \<Rightarrow> timer_set cn s \<and> adds fds F D {} {} s
       | CnConnected \<Rightarrow> \<not> clRetry k \<and> adds fds F D {} {} s))) \<and>
    (\<forall>d ch. chans (poller s) d = Some ch \<and> d \<notin> D \<and> plausible (revents ch) \<and> event_room d s \<and> peer_known E d s \<and>
       timersCreated s + 1 < 2 ^ 64 \<longrightarrow> (\<exists>s'. client_event E unew other d s = Inr s'))"
proof (intro conjI allI impI)
  have I: "cl_core E fds F D s" using cls.reachable_inv[OF assms(2)] by blast
  show "\<exists>s'. client_event E unew other d s = Inr s'"
    if "chans (poller s) d = Some ch \<and> d \<notin> D \<and> plausible (revents ch) \<and> event_room d s \<and> peer_known E d s \<and> timersCreated s + 1 < 2 ^ 64" for d ch
    using cl_event_handled[OF assms(1) I, of d ch unew other] that by blast
  obtain k cn where i: "cl_base E fds k s" "connector s = Some cn" "cl_phase E fds F D k cn s" using cl_coreE[OF I] .
  note B = cl_baseD[OF i(1)]
  have st: "status n = Connected \<or> status n = Disconnecting" if n: "conns s c = Some n" "status n \<noteq> Disconnected" for c n
    using net_okD(4)[OF B(1) n(1)] n(2) by (cases "status n") (auto simp: serves_def)
  have w: "interest (poller s) (fd ch) = Some (WRITE_EVENT, d)" if "connecting E d ch cn s" for d ch
    using that poller_invD(1,2)[OF net_okD(3)[OF B(1)], of d] watching_WRITE[of ch]
    by (auto simp: connecting_def connecting_channel_def)
  from i(3) have "case clConnection k of
       Some c \<Rightarrow> \<exists>n. conns s = [c \<mapsto> n] \<and> (status n = Connected \<or> status n = Disconnecting) \<and> adds fds F D {sockfd n} {chan n} s
     | None \<Rightarrow> conns s = Map.empty \<and> (case cnStatus cn of
         CnConnecting \<Rightarrow> \<exists>d ch. chans (poller s) d = Some ch \<and> interest (poller s) (fd ch) = Some (WRITE_EVENT, d) \<and> adds fds F D {fd ch} {d} s
       | CnDisconnected \<Rightarrow> timer_set cn s \<and> adds fds F D {} {} s
       | CnConnected \<Rightarrow> \<not> clRetry k \<and> adds fds F D {} {} s)"
  proof (cases rule: cl_phase_cases)
    case (up c n ch)
    then show ?thesis using st[of c n] by auto
  next
    case (trying d ch)
    then show ?thesis using w[OF trying(4)] by (auto simp: connecting_def)
  qed simp_all
  then show "\<exists>k cn. client s = Some k \<and> connector s = Some cn \<and> (case clConnection k of
       Some c \<Rightarrow> \<exists>n. conns s = [c \<mapsto> n] \<and> (status n = Connected \<or> status n = Disconnecting) \<and> adds fds F D {sockfd n} {chan n} s
     | None \<Rightarrow> conns s = Map.empty \<and> (case cnStatus cn of
         CnConnecting \<Rightarrow> \<exists>d ch. chans (poller s) d = Some ch \<and> interest (poller s) (fd ch) = Some (WRITE_EVENT, d) \<and> adds fds F D {fd ch} {d} s
       | CnDisconnected \<Rightarrow> timer_set cn s \<and> adds fds F D {} {} s
       | CnConnected \<Rightarrow> \<not> clRetry k \<and> adds fds F D {} {} s))"
    using B(4) i(2) by blast
qed

text \<open>
  C4. In every state of a started client's life, an event that ends its connection leaves it without one: the descriptor
  is closed and the channel destroyed.  If it is to try again, an attempt is in progress then or the timer for one is set; if not, the
  connector does nothing more.  After any other event it still has the connection.
\<close>

theorem client_reconnects:
  assumes "cl_os E fds" and "client_reach E unew other fds F D s" and "client s = Some k"
    and "conns s c = Some n" and "chans (poller s) (chan n) = Some ch" and "plausible (revents ch)"
    and "length (mem (readBuffer n)) < 2 ^ 61" and "timersCreated s + 1 < 2 ^ 64"
  shows "\<exists>s'. client_event E unew other (chan n) s = Inr s' \<and>
    (if ends E n (revents ch) s
     then conns s' = Map.empty \<and> \<not> client_owns c s' \<and> sockfd n \<notin> fds (kernel s') \<and> chans (poller s') (chan n) = None \<and>
       (\<exists>cn. connector s' = Some cn \<and>
         (if clRetry k then timer_set cn s' \<or> (\<exists>d ch. cnChan cn = Some d \<and> chans (poller s') d = Some ch \<and> events ch = WRITE_EVENT)
          else cnStatus cn = CnConnected \<and> cnChan cn = None \<and> fds (kernel s') = F))
     else client_owns c s' \<and> conns s' c \<noteq> None)"
proof -
  have I: "cl_core E fds F D s" using cls.reachable_inv[OF assms(2)] by blast
  have E: "client_lawful E fds" using assms(1) by (simp add: cl_os_def)
  obtain k0 cn0 where i: "cl_base E fds k0 s" "connector s = Some cn0" "cl_phase E fds F D k0 cn0 s" using cl_coreE[OF I] .
  have k0: "k0 = k" using cl_baseD(4)[OF i(1)] assms(3) by simp
  have up: "clConnection k = Some c" "cnChan cn0 = None"
    using i(3) assms(4) unfolding k0 by (cases rule: cl_phase_cases; simp split: if_splits)+
  obtain s' where s': "conn_event E (client_func E unew other) (chan n) s = Inr s'" "cl_core E fds F D s'"
    "if ends E n (revents ch) s then conns s' = Map.empty \<and> client s' = Some (k\<lparr>clConnection := None\<rparr>) \<and>
      (\<exists>cn'. connector s' = Some cn' \<and> (cnStatus cn' = CnConnected \<longleftrightarrow> \<not> clRetry k)) \<and>
      sockfd n \<notin> fds (kernel s') \<and> chans (poller s') (chan n) = None
     else dom (conns s') = dom (conns s) \<and> client s' = Some k"
    using cl_connection_event[OF E I assms(4,7,5,6,8,3)] by blast
  have e: "client_event E unew other (chan n) s = Inr s'" using s'(1) i(2) up(2) by (simp add: client_event_def)
  show ?thesis
  proof (cases "ends E n (revents ch) s")
    case False
    then show ?thesis using e s'(3) up(1) assms(4) by (auto simp: client_owns_def)
  next
    case True
    then obtain cn' where t: "conns s' = Map.empty" "client s' = Some (k\<lparr>clConnection := None\<rparr>)" "connector s' = Some cn'"
        "cnStatus cn' = CnConnected \<longleftrightarrow> \<not> clRetry k" "sockfd n \<notin> fds (kernel s')" "chans (poller s') (chan n) = None"
      using s'(3) by auto
    obtain k1 cn1 where j: "cl_base E fds k1 s'" "connector s' = Some cn1" "cl_phase E fds F D k1 cn1 s'" using cl_coreE[OF s'(2)] .
    have cn1: "cn1 = cn'" using j(2) t(3) by simp
    have "if clRetry k then timer_set cn' s' \<or> (\<exists>d ch. cnChan cn' = Some d \<and> chans (poller s') d = Some ch \<and> events ch = WRITE_EVENT)
          else cnStatus cn' = CnConnected \<and> cnChan cn' = None \<and> fds (kernel s') = F"
      using j(3) t(1,4) unfolding cn1
      by (cases rule: cl_phase_cases) (auto simp: connecting_def connecting_channel_def adds_def)
    then show ?thesis using e True t by (auto simp: client_owns_def)
  qed
qed

text \<open>
  C5. In every state of a started client's life, when the socket of an attempt becomes writable the attempt is over: if it
  succeeded, that socket is the descriptor of the client's connection, which is open; if not, it is closed and the timer for
  the next attempt is set.
\<close>

theorem client_connects:
  assumes "cl_os E fds" and "client_reach E unew other fds F D s" and "connector s = Some cn" and "cnChan cn = Some d"
    and "chans (poller s) d = Some ch" and "writable (revents ch)" and "peer_known E d s" and "timersCreated s + 1 < 2 ^ 64"
    and "outcome (e_os E) (e_host E) (fd ch) (kernel s) = (good, k1)"
  shows "\<exists>s'. client_event E unew other d s = Inr s' \<and> chans (poller s') d = None \<and>
    (if good then \<exists>c n. client_owns c s' \<and> conns s' = [c \<mapsto> n] \<and> sockfd n = fd ch \<and> fd ch \<in> fds (kernel s') \<and>
       (status n = Connected \<or> status n = Disconnecting)
     else conns s' = Map.empty \<and> fd ch \<notin> fds (kernel s') \<and> (\<exists>cn'. connector s' = Some cn' \<and> timer_set cn' s'))"
proof -
  have I: "cl_core E fds F D s" using cls.reachable_inv[OF assms(2)] by blast
  have L: "client_lawful E fds" "local_law (e_os E) (e_host E) fds" using assms(1) by (simp_all add: cl_os_def)
  have p: "good \<Longrightarrow> isValid (e_host E) (peer_of (e_os E) (fd ch) k1)" using assms(3-5,7,9) by (simp add: peer_known_def)
  have "call_func E (client_func E unew other) ConnectorWrite = connectorWrite E (connected_call E unew)" by (rule ext) simp
  from cl_connector_event[where call = "call_func E (client_func E unew other)" and unew = unew, OF L I assms(3-5,8,9) p this]
  obtain s' where s': "client_event E unew other d s = Inr s'" "cl_core E fds F D s'" "chans (poller s') d = None"
     "if good then client_owns (nextAddr s) s' \<and> map_option sockfd (conns s' (nextAddr s)) = Some (fd ch)
      else conns s' = Map.empty \<and> fd ch \<notin> fds (kernel s') \<and> (\<exists>cn'. connector s' = Some cn' \<and> timer_set cn' s')"
    using assms(3,4,6) by (auto simp: client_event_def)
  show ?thesis
  proof (cases good)
    case True
    obtain k1 cn1 where j: "cl_base E fds k1 s'" "cl_phase E fds F D k1 cn1 s'" using cl_coreE[OF s'(2)] .
    note B = cl_baseD[OF j(1)]
    have o: "clConnection k1 = Some (nextAddr s)" using s'(4) True B(4) by (simp add: client_owns_def)
    from j(2) show ?thesis
    proof (cases rule: cl_phase_cases)
      case (up c n e)
      have c: "c = nextAddr s" using up(1) o by simp
      then have "sockfd n = fd ch" using s'(4) True up(5) by simp
      moreover have "status n = Connected \<or> status n = Disconnecting" "sockfd n \<in> fds (kernel s')"
        using net_okD(4)[OF B(1), of c n] up(5,6) by (cases "status n"; auto simp: serves_def)+
      ultimately show ?thesis using s' True up(5) c by auto
    qed (use o in simp_all)
  qed (use s' in simp)
qed

section \<open>Stopping and destroying a client\<close>

text \<open>The connector is destroyed: an attempt is given up, a timer cancelled.\<close>

lemma destroyConnector_idle:
  assumes "threadId s = e_cur E" and "connector s = Some cn" and "cnChan cn = None" and "cnStatus cn \<noteq> CnConnecting"
    and "cnTimer cn \<noteq> 0 \<Longrightarrow> timer_set cn s"
  shows "destroyConnector E s = Inr (s\<lparr>timerIds := (if cnTimer cn = 0 then timerIds s else timerIds s - {cnTimer cn}), connector := None\<rparr>)"
proof (cases "cnTimer cn = 0")
  case True
  have "s\<lparr>timerIds := timerIds s, connector := None\<rparr> = s\<lparr>connector := None\<rparr>" by (cases s) simp
  then show ?thesis
    using assms True by (simp add: destroyConnector_def with_connector_def in_loop_def isInLoopThread_def)
next
  case False
  then show ?thesis
    using assms by (simp add: destroyConnector_def with_connector_def in_loop_def
        isInLoopThread_def cancelTimer_def delTimer_def delTimerInLoop_def put_connector_def timer_set_def)
qed

lemma destroyConnector_trying:
  assumes L: "fd_law (e_os E) fds" and c: "connecting E d ch cn s" and h: "heldChans s = []"
  shows "\<exists>p k. destroyConnector E s = Inr (s\<lparr>poller := p, kernel := k, connector := None\<rparr>) \<and>
    fds k = fds (kernel s) - {fd ch} \<and> chans p = (chans (poller s))(d := None)"
proof -
  have ch: "threadId s = e_cur E" "connector s = Some cn" "cnStatus cn = CnConnecting" "cnChan cn = Some d" "poller_inv (poller s)"
      "chans (poller s) d = Some ch" "\<not> isNoneEvent ch" "\<not> isHandling ch" "cnTimer cn = 0"
    using c watching_WRITE by (auto simp: connecting_def connecting_channel_def)
  obtain p where p: "resetChannel E s = Inr (fd ch, s\<lparr>poller := p, connector := Some (cn\<lparr>cnChan := None\<rparr>)\<rparr>)"
      "chans p = (chans (poller s))(d := None)"
    using resetChannel_ok[OF ch(1-7)] ch(8) h by auto
  show ?thesis
    using ch p closeSocket_fds(1)[OF L, of "fd ch" "kernel s"]
    by (intro exI[of _ p] exI[of _ "snd (closeSocket (e_os E) (fd ch) (kernel s))"])
      (simp add: destroyConnector_def with_connector_def in_loop_def isInLoopThread_def put_connector_def)
qed

lemma stop_run:
  assumes "threadId s = e_cur E" and "client s = Some k" and "connector s = Some cn"
  shows "clientStop E s = res_bind (destroyConnector E (put_client (k\<lparr>clStarted := False\<rparr>) s)) (\<lambda>s1. with_client s1 (\<lambda>k1.
      case clConnection k1 of None \<Rightarrow> Inr s1 | Some c \<Rightarrow> connForceClose E c s1))"
  using assms by (simp add: clientStop_def runInLoop_def isInLoopThread_def clientStopInLoop_def with_client_def reset_connector_def
      put_client_def)

text \<open>Nothing of the client is left: no connection, descriptor or channel of it, and no timer that would call its connector.\<close>

definition cleared :: "('k \<Rightarrow> int set) \<Rightarrow> int set \<Rightarrow> nat set \<Rightarrow> ('u, 'k, 'z) clnet_scheme \<Rightarrow> bool" where
  "cleared fds F D s \<longleftrightarrow> connector s = None \<and> conns s = Map.empty \<and> fds (kernel s) = F \<and> dom (chans (poller s)) = D \<and> calls s = {}"

lemma cleared_client [simp]: "cleared fds F D (s\<lparr>client := k\<rparr>) = cleared fds F D s"
  by (simp add: cleared_def calls_def)

lemma cl_phase_put [simp]:
  "cl_phase E fds F D k cn (put_client k' s) = cl_phase E fds F D k cn s" "cl_timers cn (put_client k' s) = cl_timers cn s"
proof -
  have "adds fds F D A C (put_client k' s) = adds fds F D A C s" "connecting E d ch cn (put_client k' s) = connecting E d ch cn s"
    "timer_set cn (put_client k' s) = timer_set cn s" "conns (put_client k' s) = conns s" "poller (put_client k' s) = poller s" for A C d ch
    by (simp_all add: put_client_def connecting_def timer_set_def adds_def)
  then show "cl_phase E fds F D k cn (put_client k' s) = cl_phase E fds F D k cn s"
    by (cases "clConnection k"; cases "cnStatus cn") (simp_all add: cl_phase_def)
  show "cl_timers cn (put_client k' s) = cl_timers cn s"
    by (rule cl_timers_cong) (simp_all add: put_client_def)
qed

lemma connector_cleared:
  assumes L: "fd_law (e_os E) fds" and here: "threadId s = e_cur E" and cn: "connector s = Some cn" and h: "heldChans s = []"
    and p: "cl_phase E fds F D k cn s" "clConnection k = None" and t: "cl_timers cn s"
  shows "\<exists>s'. destroyConnector E s = Inr s' \<and> cleared fds F D s' \<and> client s' = client s \<and> threadId s' = threadId s"
  using p(1)
proof (cases rule: cl_phase_cases)
  case (trying d ch)
  obtain q r where "destroyConnector E s = Inr (s\<lparr>poller := q, kernel := r, connector := None\<rparr>)" "fds r = fds (kernel s) - {fd ch}"
      "chans q = (chans (poller s))(d := None)"
    using destroyConnector_trying[OF L trying(4) h] by blast
  moreover have "calls s = {}" using cl_timers_none[OF t] trying(3) by simp
  ultimately show ?thesis using trying(2,5) by (auto simp: cleared_def calls_def adds_def)
next
  case waiting
  have "destroyConnector E s = Inr (s\<lparr>timerIds := timerIds s - {cnTimer cn}, connector := None\<rparr>)"
    using destroyConnector_idle[OF here cn waiting(4)] waiting(3,5,6) by simp
  moreover have "calls (s\<lparr>timerIds := timerIds s - {cnTimer cn}, connector := None\<rparr>) = {}" using t by (auto simp: cl_timers_def calls_def)
  ultimately show ?thesis using waiting(2,7) by (auto simp: cleared_def adds_def)
next
  case over
  have "destroyConnector E s = Inr (s\<lparr>timerIds := timerIds s, connector := None\<rparr>)"
    using destroyConnector_idle[OF here cn over(4)] over(3,5) by simp
  moreover have "calls s = {}" using cl_timers_none[OF t] over(3) by simp
  ultimately show ?thesis using over(2,7) by (auto simp: cleared_def adds_def calls_def)
qed (use p(2) in simp)

lemma destroyClient_run:
  assumes "threadId s = e_cur E" and "connector s = Some cn" and "destroyConnector E s = Inr s1" and "client s1 = Some k"
    and "clConnection k = None"
  shows "destroyClient E s = Inr (s1\<lparr>client := None\<rparr>)"
  using assms by (simp add: destroyClient_def in_loop_def isInLoopThread_def reset_connector_def with_client_def let_connection_def)

lemma stopped_client:
  assumes "client s = Some k" and "clConnection k = None" and "connector s = None" and "threadId s = e_cur E"
  shows "clientStart E s = Inl Null_Deref" and "destroyClient E s = Inr (s\<lparr>client := None\<rparr>)"
  using assms by (simp_all add: clientStart_def runInLoop_def isInLoopThread_def clientStartInLoop_def with_client_def put_client_def
        destroyClient_def in_loop_def reset_connector_def let_connection_def Let_def)

lemma stop_open:
  assumes E: "e_owned E = client_owns" "e_build E = Debug" and ok: "net_ok E fds s" and h: "held s = []"
    and k: "client s = Some k" "clConnection k = Some c" and n: "conns s = [c \<mapsto> n]" "status n \<noteq> Disconnected"
    and cn: "connector s = Some cn" "cnChan cn = None" "cnStatus cn = CnConnected" "cnTimer cn = 0"
  shows "clientStop E s = Inl Assert_Failed \<and> destroyClient E s = Inl Assert_Failed"
proof
  note here = net_okD(1)[OF ok]
  let ?t = "put_client (k\<lparr>clStarted := False\<rparr>) s"
  have t: "threadId ?t = e_cur E" "connector ?t = Some cn" "conns ?t c = Some n" using here cn n by (simp_all add: put_client_def)
  have d: "destroyConnector E ?t = Inr (?t\<lparr>timerIds := timerIds ?t, connector := None\<rparr>)"
    using destroyConnector_idle[OF t(1,2) cn(2)] cn(3,4) by simp
  have "status n = Connected \<or> status n = Disconnecting"
    using net_okD(4)[OF ok, of c n] n by (cases "status n") (auto simp: serves_def)
  then have "connForceClose E c (?t\<lparr>timerIds := timerIds ?t, connector := None\<rparr>) = Inl Assert_Failed"
    using t(1,3) E(2)
    by (auto simp: connForceClose_def forceCloseInLoop_def with_conn_def handleClose_def closeChannel_def put_conn_def
        in_loop_def isInLoopThread_def)
  then show "clientStop E s = Inl Assert_Failed"
    using stop_run[OF here k(1) cn(1)] d k(2) by (simp add: with_client_def put_client_def)
  have d: "destroyConnector E s = Inr (s\<lparr>timerIds := timerIds s, connector := None\<rparr>)"
    using destroyConnector_idle[OF here cn(1,2)] cn(3,4) by simp
  let ?v = "s\<lparr>timerIds := timerIds s, connector := None, client := None\<rparr>"
  have "\<not> referenced E c ?v" using ok h E(1) by (auto simp: referenced_def client_owns_def net_ok_def)
  then have "drop_ref E c ?v = Inl Assert_Failed"
    using n E(2) by (simp add: drop_ref_def destroyConnection_def with_conn_def)
  then show "destroyClient E s = Inl Assert_Failed"
    using here d cn(1) k by (simp add: destroyClient_def in_loop_def isInLoopThread_def reset_connector_def with_client_def let_connection_def)
qed

text \<open>
  C6. In every state of a started client's life, \<open>stop\<close> and the destructor abort a Debug build when there is a connection.
  Without one, both give up what the connector does and leave nothing of it behind: the attempt's descriptor is closed, its
  channel destroyed, and no live timer of the loop would call the destroyed connector.  A stopped client can be
  destroyed; but \<open>start\<close> follows a null pointer then.
\<close>

theorem client_stop:
  assumes "cl_os E fds" and "client_reach E unew other fds F D s" and "client s = Some k" and "e_build E = Debug"
  shows "case clConnection k of
      None \<Rightarrow> (\<exists>s'. clientStop E s = Inr s' \<and> cleared fds F D s' \<and> clientStart E s' = Inl Null_Deref \<and>
          (\<exists>s''. destroyClient E s' = Inr s'' \<and> client s'' = None \<and> cleared fds F D s'')) \<and>
        (\<exists>s'. destroyClient E s = Inr s' \<and> client s' = None \<and> cleared fds F D s')
    | Some c \<Rightarrow> clientStop E s = Inl Assert_Failed \<and> destroyClient E s = Inl Assert_Failed"
proof -
  have I: "cl_core E fds F D s" using cls.reachable_inv[OF assms(2)] by blast
  have E: "client_lawful E fds" "e_owned E = client_owns" using assms(1) by (auto simp: cl_os_def client_lawful_def)
  obtain k0 cn where i: "cl_base E fds k0 s" "connector s = Some cn" "cl_phase E fds F D k0 cn s" "cl_timers cn s"
    using cl_coreE[OF I] .
  note B = cl_baseD[OF i(1)] and here = net_okD(1)[OF cl_baseD(1)[OF i(1)]]
  have k0: "k0 = k" using B(4) assms(3) by simp
  have L: "fd_law (e_os E) fds" using client_lawful_laws[OF E(1)] by simp
  show ?thesis
  proof (cases "clConnection k")
    case (Some c)
    from i(3)[unfolded k0] have "clientStop E s = Inl Assert_Failed \<and> destroyClient E s = Inl Assert_Failed"
    proof (cases rule: cl_phase_cases)
      case (up c n ch)
      show ?thesis using stop_open[OF E(2) assms(4) B(1,2) assms(3) up(1,5,6) i(2) up(3,2,4)] .
    qed (simp_all add: Some)
    then show ?thesis using Some by simp
  next
    case None
    let ?k = "k\<lparr>clStarted := False\<rparr>" and ?t = "put_client (k\<lparr>clStarted := False\<rparr>) s"
    have t: "threadId ?t = e_cur E" "connector ?t = Some cn" "heldChans ?t = []" "client ?t = Some ?k"
      using here i(2) B(3) by (simp_all add: put_client_def)
    obtain s1 where s1: "destroyConnector E ?t = Inr s1" "cleared fds F D s1" "client s1 = Some ?k" "threadId s1 = e_cur E"
      using connector_cleared[OF L t(1-3), of F D k] i(3,4) None t(1,4) unfolding k0 by auto
    obtain s2 where s2: "destroyConnector E s = Inr s2" "cleared fds F D s2" "client s2 = Some k"
      using connector_cleared[OF L here i(2) B(3) i(3)[unfolded k0] None i(4)] assms(3) by auto
    have "clientStop E s = Inr s1" using stop_run[OF here assms(3) i(2)] s1(1,3) None by (simp add: with_client_def)
    moreover have "connector s1 = None" using s1(2) by (simp add: cleared_def)
    ultimately show ?thesis
      using stopped_client[OF s1(3) _ _ s1(4)] s1(2) destroyClient_run[OF here i(2) s2(1,3) None] s2(2) None by simp
  qed
qed

section \<open>Witnesses\<close>

text \<open>
  The sample kernel with fixed addresses, and a client that is to try again: its attempt succeeds; then the peer has shut its side
  down.
\<close>

definition client_os :: "kern os" where
  "client_os = sample_os\<lparr>sys_getsockname := (\<lambda>_ _ _ k. (0, V4Any Little 1000, k)),
     sys_getpeername := (\<lambda>_ _ _ k. (0, V4Any Little 80, k))\<rparr>"

definition sample_clenv :: "(nat, kern, (nat, kern) clnet) env" where
  "sample_clenv = client_env ((sample_env Debug)\<lparr>e_os := client_os\<rparr>)"

definition other_func :: "nat func \<Rightarrow> (nat, kern) clnet \<Rightarrow> (nat, kern) clnet res" where
  "other_func f s = Inr s"

definition other_new :: "nat \<Rightarrow> int \<Rightarrow> (nat, kern) clnet \<Rightarrow> (nat, kern) clnet res" where
  "other_new u f s = Inr s"

definition sample_clnet :: "(nat, kern) clnet" where
  "sample_clnet = \<lparr>timers = [], timerIds = {}, timersCreated = 0, threadId = 0, running = True, customEvents = [],
     wakeups = 0, poller = EventPoller, clock = 0, kernel = kern0\<lparr>k_open := {0}, k_eof := \<lambda>_. True\<rparr>, conns = Map.empty, held = [],
     connector = None, heldChans = [], nextAddr = 5, client = None\<rparr>"

definition client_started :: "(nat, kern) clnet res" where
  "client_started = res_bind (TcpClient sample_clenv (V4Any Little 80) sample_clnet) (\<lambda>s1.
     res_bind (clientConnectionCallback (UserFunc 1) s1) (\<lambda>s2. res_bind (clientMessageCallback (UserFunc 2) s2) (\<lambda>s3.
     res_bind (setRetry True s3) (clientStart sample_clenv))))"

definition sample_report :: "nat \<Rightarrow> 32 word \<Rightarrow> (nat, kern) clnet \<Rightarrow> (nat, kern) clnet" where
  "sample_report d r s = (case chans (poller s) d of None \<Rightarrow> s | Some ch \<Rightarrow> put_loop d (setRevents r ch) s)"

definition sample_client_event :: "nat \<Rightarrow> (nat, kern) clnet \<Rightarrow> (nat, kern) clnet res" where
  "sample_client_event = client_event sample_clenv other_new other_func"

definition client_connected :: "(nat, kern) clnet res" where
  "client_connected = res_bind client_started (\<lambda>s. sample_client_event 5 (sample_report 5 EPOLLOUT s))"

lemma sample_cl_os: "cl_os sample_clenv k_fds"
proof -
  have "fd_law client_os k_fds" by (auto simp: fd_law_def sample_defs k_fds_def client_os_def)
  moreover have "io_law client_os" by (auto simp: io_law_def sample_defs client_os_def)
  moreover have "connect_law client_os" by (simp add: connect_law_def sample_defs client_os_def)
  moreover have "isValid Little (V4Any Little 1000)" by code_simp
  then have "local_law client_os Little k_fds" by (simp add: local_law_def client_os_def)
  ultimately show ?thesis by (auto simp: cl_os_def client_lawful_def sample_clenv_def sample_env_def)
qed

lemma client_started_run:
  "(case client_started of Inl e \<Rightarrow> False | Inr s \<Rightarrow> timersCreated s = 0 \<and>
     (case connector s of None \<Rightarrow> False | Some cn \<Rightarrow> cnChan cn = Some 5) \<and>
     (case chans (poller s) 5 of None \<Rightarrow> False | Some ch \<Rightarrow> fd ch = 10 \<and> fst (outcome (e_os sample_clenv) Little 10 (kernel s)) \<and>
       isValid Little (peer_of (e_os sample_clenv) 10 (snd (outcome (e_os sample_clenv) Little 10 (kernel s))))))"
  by code_simp

lemma client_connected_run:
  "(case client_connected of Inl e \<Rightarrow> False | Inr s \<Rightarrow> timersCreated s = 0 \<and>
     (case client s of None \<Rightarrow> False | Some k \<Rightarrow> clRetry k \<and> clConnection k = Some 6) \<and>
     (case conns s 6 of None \<Rightarrow> False | Some n \<Rightarrow> sockfd n = 10 \<and> chan n = 7 \<and> length (mem (readBuffer n)) < 2000 \<and>
       chans (poller s) 7 \<noteq> None \<and> ends sample_clenv n EPOLLIN s))"
  by code_simp

abbreviation sample_cl_reach :: "(nat, kern) clnet \<Rightarrow> bool" where
  "sample_cl_reach \<equiv> client_reach sample_clenv other_new other_func k_fds {0} {}"

lemma client_started_reach:
  assumes "client_started = Inr s"
  shows "sample_cl_reach s"
proof -
  obtain s1 s2 s3 s4 where r: "TcpClient sample_clenv (V4Any Little 80) sample_clnet = Inr s1"
      "clientConnectionCallback (UserFunc 1) s1 = Inr s2" "clientMessageCallback (UserFunc 2) s2 = Inr s3"
      "setRetry True s3 = Inr s4" "clientStart sample_clenv s4 = Inr s"
    using assms by (auto simp: client_started_def res_simps)
  have "cl_init sample_clenv k_fds {0} {} s"
    unfolding cl_init_def
    by (intro exI[of _ sample_clnet] exI[of _ s1] exI[of _ s2] exI[of _ s3] exI[of _ s4] exI[of _ "V4Any Little 80"] exI[of _ 1]
        exI[of _ 2] exI[of _ True] conjI r)
      (auto simp: sample_clnet_def sample_clenv_def sample_env_def watched_def EventPoller_def poller_inv_def k_fds_def kern0_def)
  then show ?thesis using sample_cl_os by (intro reach_init) simp
qed

lemma client_report_reach: "sample_cl_reach s \<Longrightarrow> sample_cl_reach (sample_report d r s)"
  by (cases "chans (poller s) d") (auto simp: sample_report_def intro: reach_step cl_report)

lemma plausible_sample: "plausible EPOLLIN" "plausible EPOLLOUT" "writable EPOLLOUT"
  by code_simp+

text \<open>The attempt, and its socket reported writable.\<close>

lemma sample_trying:
  obtains s cn ch k where "client_started = Inr s" and "sample_cl_reach (sample_report 5 EPOLLOUT s)"
    and "connector (sample_report 5 EPOLLOUT s) = Some cn" and "cnChan cn = Some 5"
    and "chans (poller (sample_report 5 EPOLLOUT s)) 5 = Some ch" and "revents ch = EPOLLOUT" and "fd ch = 10"
    and "peer_known sample_clenv 5 (sample_report 5 EPOLLOUT s)" and "timersCreated (sample_report 5 EPOLLOUT s) = 0"
    and "outcome (e_os sample_clenv) (e_host sample_clenv) 10 (kernel (sample_report 5 EPOLLOUT s)) = (True, k)"
    and "conns (sample_report 5 EPOLLOUT s) = Map.empty"
proof -
  obtain s cn ch where s: "client_started = Inr s" "timersCreated s = 0" "connector s = Some cn" "cnChan cn = Some 5"
    "chans (poller s) 5 = Some ch" "fd ch = 10" "fst (outcome (e_os sample_clenv) Little 10 (kernel s))"
    "isValid Little (peer_of (e_os sample_clenv) 10 (snd (outcome (e_os sample_clenv) Little 10 (kernel s))))"
    using client_started_run by (auto split: sum.splits option.splits)
  let ?s = "sample_report 5 EPOLLOUT s"
  have f: "connector ?s = Some cn" "chans (poller ?s) 5 = Some (setRevents EPOLLOUT ch)" "timersCreated ?s = 0" "kernel ?s = kernel s"
    using s by (simp_all add: sample_report_def put_loop_def)
  have R: "sample_cl_reach ?s" using client_report_reach[OF client_started_reach[OF s(1)]] .
  then have "cl_core sample_clenv k_fds {0} {} ?s" using cls.reachable_inv by blast
  then obtain k0 cn0 where c: "connector ?s = Some cn0" "cl_phase sample_clenv k_fds {0} {} k0 cn0 ?s" using cl_coreE by metis
  from c(2) have e: "conns ?s = Map.empty" using c(1) f(1) s(4) by (cases rule: cl_phase_cases) simp_all
  obtain k where k: "outcome (e_os sample_clenv) (e_host sample_clenv) 10 (kernel ?s) = (True, k)"
    using s(7) f(4) by (cases "outcome (e_os sample_clenv) Little 10 (kernel s)") (simp add: sample_clenv_def sample_env_def)
  have "peer_known sample_clenv 5 ?s"
    using f s(4,6,8) k by (simp add: peer_known_def setRevents_def) (simp add: sample_clenv_def sample_env_def)
  then show ?thesis using that[OF s(1) R f(1) s(4) f(2) _ _ _ f(3) k e] s(6) by (simp add: setRevents_def)
qed

theorem client_connects_witness:
  "\<exists>s s' c. client_started = Inr s \<and> sample_client_event 5 (sample_report 5 EPOLLOUT s) = Inr s' \<and>
     client_owns c s' \<and> map_option sockfd (conns s' c) = Some 10 \<and> 10 \<in> k_fds (kernel s')"
proof -
  obtain s cn ch k where s: "client_started = Inr s" "sample_cl_reach (sample_report 5 EPOLLOUT s)"
    "connector (sample_report 5 EPOLLOUT s) = Some cn" "cnChan cn = Some 5"
    "chans (poller (sample_report 5 EPOLLOUT s)) 5 = Some ch" "revents ch = EPOLLOUT" "fd ch = 10"
    "peer_known sample_clenv 5 (sample_report 5 EPOLLOUT s)" "timersCreated (sample_report 5 EPOLLOUT s) = 0"
    "outcome (e_os sample_clenv) (e_host sample_clenv) 10 (kernel (sample_report 5 EPOLLOUT s)) = (True, k)"
    "conns (sample_report 5 EPOLLOUT s) = Map.empty"
    by (rule sample_trying)
  have w: "writable (revents ch)" "timersCreated (sample_report 5 EPOLLOUT s) + 1 < 2 ^ 64"
    using s(6,9) plausible_sample(3) by simp_all
  obtain s' c n where t: "client_event sample_clenv other_new other_func 5 (sample_report 5 EPOLLOUT s) = Inr s'"
      "client_owns c s'" "conns s' = [c \<mapsto> n]" "sockfd n = fd ch" "fd ch \<in> k_fds (kernel s')"
    using client_connects[OF sample_cl_os s(2-5) w(1) s(8) w(2) s(10)[folded s(7)]] by (simp only: if_True) blast
  show ?thesis
    by (intro exI[of _ s] exI[of _ s'] exI[of _ c] conjI s(1)) (use t s(7) in \<open>simp_all add: sample_client_event_def\<close>)
qed

lemma client_connected_reach:
  assumes "client_connected = Inr s"
  shows "sample_cl_reach s"
proof -
  obtain s0 cn ch where s: "client_started = Inr s0" "sample_cl_reach (sample_report 5 EPOLLOUT s0)"
    "chans (poller (sample_report 5 EPOLLOUT s0)) 5 = Some ch" "revents ch = EPOLLOUT"
    "peer_known sample_clenv 5 (sample_report 5 EPOLLOUT s0)" "timersCreated (sample_report 5 EPOLLOUT s0) = 0"
    "conns (sample_report 5 EPOLLOUT s0) = Map.empty"
    using sample_trying by metis
  have "client_event sample_clenv other_new other_func 5 (sample_report 5 EPOLLOUT s0) = Inr s"
    using assms unfolding client_connected_def sample_client_event_def s(1) by simp
  then have "cl_step sample_clenv other_new other_func k_fds {} (sample_report 5 EPOLLOUT s0) s"
    using cl_event[OF s(3), of "{}"] s(4-7) plausible_sample(2) by (simp add: event_room_def)
  then show ?thesis using reach_step[OF s(2)] by blast
qed

text \<open>The client's connection.\<close>

lemma sample_up:
  obtains s n k where "client_connected = Inr s" and "sample_cl_reach s" and "timersCreated s = 0" and "client s = Some k"
    and "clRetry k" and "clConnection k = Some 6" and "conns s 6 = Some n" and "sockfd n = 10" and "chan n = 7"
    and "length (mem (readBuffer n)) < 2000" and "chans (poller s) 7 \<noteq> None" and "ends sample_clenv n EPOLLIN s"
proof -
  obtain s n k where "client_connected = Inr s" "timersCreated s = 0" "client s = Some k" "clRetry k" "clConnection k = Some 6"
    "conns s 6 = Some n" "sockfd n = 10" "chan n = 7" "length (mem (readBuffer n)) < 2000" "chans (poller s) 7 \<noteq> None"
    "ends sample_clenv n EPOLLIN s"
    using client_connected_run by (auto split: sum.splits option.splits)
  then show ?thesis using that client_connected_reach by blast
qed

theorem client_tracks_witness:
  "\<exists>s n. client_connected = Inr s \<and> conns s = [6 \<mapsto> n] \<and> k_fds (kernel s) = {0, 10} \<and> dom (chans (poller s)) = {7}"
proof -
  obtain s n k where s: "client_connected = Inr s" "sample_cl_reach s" "client s = Some k" "clConnection k = Some 6"
      "conns s 6 = Some n" "sockfd n = 10" "chan n = 7"
    using sample_up by metis
  then obtain m where "conns s = [6 \<mapsto> m]" "adds k_fds {0} {} {sockfd m} {chan m} s"
    using client_tracks[OF sample_cl_os s(2)] by auto
  then show ?thesis using s by (auto simp: adds_def)
qed

theorem client_reconnects_witness:
  "\<exists>s s' cn. client_connected = Inr s \<and> conns s 6 \<noteq> None \<and> sample_client_event 7 (sample_report 7 EPOLLIN s) = Inr s' \<and>
     conns s' 6 = None \<and> 10 \<notin> k_fds (kernel s') \<and> connector s' = Some cn \<and> (timer_set cn s' \<or> cnChan cn \<noteq> None)"
proof -
  obtain s n k where s: "client_connected = Inr s" "sample_cl_reach s" "timersCreated s = 0" "client s = Some k"
      "clRetry k" "conns s 6 = Some n" "sockfd n = 10" "chan n = 7"
      "length (mem (readBuffer n)) < 2000" "chans (poller s) 7 \<noteq> None" "ends sample_clenv n EPOLLIN s"
    using sample_up by metis
  obtain ch where ch: "chans (poller s) 7 = Some ch" using s(10) by blast
  let ?s = "sample_report 7 EPOLLIN s"
  have f: "client ?s = Some k" "conns ?s 6 = Some n" "chans (poller ?s) (chan n) = Some (setRevents EPOLLIN ch)"
      "revents (setRevents EPOLLIN ch) = EPOLLIN" "ends sample_clenv n EPOLLIN ?s" "length (mem (readBuffer n)) < 2 ^ 61"
      "timersCreated ?s + 1 < 2 ^ 64"
    using s ch by (simp_all add: sample_report_def put_loop_def setRevents_def ends_def)
  have p: "plausible (revents (setRevents EPOLLIN ch))" using plausible_sample(1) f(4) by simp
  show ?thesis
    using client_reconnects[OF sample_cl_os client_report_reach[OF s(2)] f(1-3) p f(6,7)] f(4,5) s(1,5-8)
    by (fastforce simp: sample_client_event_def)
qed

theorem client_stop_witness:
  "(\<exists>s. client_connected = Inr s \<and> clientStop sample_clenv s = Inl Assert_Failed \<and> destroyClient sample_clenv s = Inl Assert_Failed) \<and>
   (\<exists>s s'. client_started = Inr s \<and> (\<exists>cn. connector s = Some cn \<and> cnChan cn = Some 5) \<and> clientStop sample_clenv s = Inr s' \<and>
     k_fds (kernel s') = {0} \<and> calls s' = {})"
proof -
  have d: "e_build sample_clenv = Debug" by (simp add: sample_clenv_def sample_env_def)
  obtain s k where s: "client_connected = Inr s" "sample_cl_reach s" "client s = Some k" "clConnection k = Some 6"
    using sample_up by metis
  then have one: "clientStop sample_clenv s = Inl Assert_Failed \<and> destroyClient sample_clenv s = Inl Assert_Failed"
    using client_stop[OF sample_cl_os s(2,3) d] by simp
  obtain r cn where r: "client_started = Inr r" "connector r = Some cn" "cnChan cn = Some 5"
    using client_started_run by (auto split: sum.splits option.splits)
  note R = client_started_reach[OF r(1)]
  then have "cl_core sample_clenv k_fds {0} {} r" using cls.reachable_inv by blast
  then obtain k0 cn0 where c: "client r = Some k0" "connector r = Some cn0" "cl_phase sample_clenv k_fds {0} {} k0 cn0 r"
    using cl_coreE cl_baseD(4) by metis
  from c(3) have "clConnection k0 = None" using c(2) r(2,3) by (cases rule: cl_phase_cases) simp_all
  then obtain r' where "clientStop sample_clenv r = Inr r'" "cleared k_fds {0} {} r'"
    using client_stop[OF sample_cl_os R c(1) d] by auto
  then show ?thesis using s(1) one r by (auto simp: cleared_def)
qed

end
