(* ===== verification/Spec2Isabelle.thy ===== *)
theory Spec2Isabelle
  imports Buffer_Shape Timer_Queue Wheel_System Lock_Free_Queue Inet_Address Loop_Registry Loop_Thread Tcp_Lifecycle Connector_System Server_System Client_Life
begin

text \<open>
  \<^bold>\<open>GodNet\<close>.

  GodNet is a C++ network library in the reactor style: an event loop per thread (epoll on Linux), and on top of it
  timers, TCP servers, clients and connections with their buffers.  The library is under
  \<^verbatim>\<open>src/include/godnet\<close>, \<^verbatim>\<open>net/\<close> and \<^verbatim>\<open>util/\<close> below.  This development translates its own logic into HOL
  definitions, file by file, and proves what makes each part correct, up to servers and clients over their whole life.

  How the parts interact.  An \<^verbatim>\<open>EventLoop\<close> repeats four things: it runs the timers that are due, polls, calls the
  handlers of the channels that are ready, and runs the functions other threads have put into its queue.  The queue is a
  \<^verbatim>\<open>LockFreeQueue\<close>; a write to an eventfd wakes up a loop that is polling.  An \<^verbatim>\<open>EventChannel\<close> says what a
  descriptor is watched for and which callbacks run; \<^verbatim>\<open>EventPoller\<close> keeps the kernel's interest list in step with it.
  \<^verbatim>\<open>TcpAcceptor\<close>, \<^verbatim>\<open>TcpConnector\<close> and \<^verbatim>\<open>TcpConnection\<close> each own a channel and a \<^verbatim>\<open>TcpSocket\<close>;
  \<^verbatim>\<open>TcpServer\<close> and \<^verbatim>\<open>TcpClient\<close> own these and are told by callbacks of new and of closed connections.  A \<^verbatim>\<open>TcpConnection\<close>
  has two \<^verbatim>\<open>MessageBuffer\<close>s between the socket and the user.  \<^verbatim>\<open>TimerQueue\<close> belongs to the loop; \<^verbatim>\<open>TimerWheel\<close>
  is a client of it.

  \<^bold>\<open>Conventions\<close>.

  Every failure of the code is a value: an operation returns \<open>error + 'a\<close> (\<open>'a res\<close>, in \<open>GN_Prelude\<close>), and the
  errors are a failed assertion, an access out of bounds, the use of something destroyed (\<open>Dangling\<close>) or of a null
  pointer, a call on the wrong thread, the termination of the process by a joinable \<^verbatim>\<open>std::thread\<close> (\<open>Terminated\<close>) and a few more.  \<^verbatim>\<open>assert\<close> is checked in a Debug build and nothing in a
  Release build, so operations with assertions take the build as an argument.  The state of a component is a record; the record of a
  component that uses another extends that of the other (timer queue, loop, network, connector or acceptor, client or server).  Objects the
  code shares by pointer are found by their address in a map of the state; an address that is not in the map is a destroyed
  object.  Functions the code stores are values of a datatype with one constructor for each lambda of the source, and an
  interpreter (\<open>call_callback\<close>, \<open>call_func\<close>, \<open>server_func\<close>, \<open>client_func\<close>, \<open>wheel_func\<close>) runs them; the
  user's are values of a type parameter, run by a parameter.  The thread that makes a call is an argument (\<open>cur\<close>, or in the environment \<open>E\<close>).
  Lambdas, members and functions keep their names where HOL allows it; overloads have suffixes.

  \<^bold>\<open>The theories\<close>.

  \<open>GN_Prelude\<close>: errors, builds, the contract of a transition system with an invariant (\<open>invariant_system\<close>), general lemmas.

  \<open>Endian\<close> (\<^verbatim>\<open>util/endian.hpp\<close>): the two conversion templates at every width and on both platforms, over the object
  representations of words.  The lemmas give round trips, and that what is stored is big-endian.

  \<open>Byte_Queue\<close>, \<open>Message_Buffer\<close>, \<open>Buffer_Shape\<close> (\<^verbatim>\<open>net/message_buffer.*\<close>): the contract of a byte queue; the
  buffer with its memory, its four positions and the bytes that are indeterminate; a type discipline for it.
  The lemmas give well-formedness, the contract, that no byte is lost, repeated or reordered in any run, and which operations succeed.

  \<open>Min_Queue\<close>, \<open>Timer_Queue\<close> (\<^verbatim>\<open>net/timer.*\<close>, \<^verbatim>\<open>net/timer_queue.*\<close>): the contract of the priority queue; timers,
  rounds, cancellation, the timeout for the poller.  The contract \<open>timer_client\<close> says what callbacks may do to the timers
  while a round is under way.

  \<open>Timer_Wheel\<close>, \<open>Wheel_System\<close> (\<^verbatim>\<open>net/timer_wheel.*\<close>): the wheels with their buckets of delayed entries, related to a
  schedule (\<open>sched\<close>) that tells for each object the tick at which it is dropped; then the wheel on its loop,
  with its repeating timer, insertions from other threads and its destruction.

  \<open>Fifo_Queue\<close>, \<open>Lock_Free_Queue\<close> (\<^verbatim>\<open>util/lock_free_queue.hpp\<close>): the contract of a queue; the primitive accesses to
  the shared memory, the operations composed of them, and the same accesses as steps of any number of threads.  The invariant of
  the interleavings gives memory safety and the order of the elements; without a thread inside an operation it is the sequential queue.

  \<open>Inet_Address\<close> (\<^verbatim>\<open>net/inet_address.*\<close>): the union as its bytes, the factories, text, comparison.

  \<open>Event_Channel\<close>, \<open>Event_Poller\<close> (\<^verbatim>\<open>net/event_channel.*\<close>, \<^verbatim>\<open>net/event_poller.*\<close>): which callbacks
  run for which events, over any store of channels (\<open>channel_store\<close>); the poller's set, the channels and the interest list agree.

  \<open>Event_Loop\<close>, \<open>Loop_System\<close>, \<open>Loop_Registry\<close>, \<open>Loop_Thread\<close> (\<^verbatim>\<open>net/event_loop.*\<close>, \<^verbatim>\<open>net/event_loop_thread*\<close>): construction,
  tasks, wakeups, timers from other threads, the four phases and the loop, under the contract \<open>loop_client\<close> of the functions it
  runs; the loop among other threads as a step relation, in which a call of another thread is two steps, with
  the rest of each call that is under way (\<open>pending\<close>) run by the same definitions as on the loop's own thread (\<open>wakeCheck\<close>, \<open>stopWake\<close>), and a ghost
  that remembers whether another thread queued something since the queue was last empty (\<open>handedOver\<close>); the loops of a process and the thread-local pointer to them; threads with a loop, from their start to the end of
  their function (\<open>threadEnd\<close>), and the pool of them.

  \<open>Socket\<close>, \<open>Tcp_Socket\<close>, \<open>Sample_Kernel\<close> (\<^verbatim>\<open>net/socket.*\<close>, \<^verbatim>\<open>net/tcp_socket.*\<close>): system calls, their
  flags and results, over a record of the operating system; a concrete operating system for the witnesses.

  \<open>Tcp_Connection\<close>, \<open>Tcp_Stream\<close>, \<open>Tcp_Lifecycle\<close> (\<^verbatim>\<open>net/tcp_connection.*\<close>): every operation; what becomes of the
  bytes sent and received; closing, forced closing, and sending after the end.

  \<open>Tcp_Connector\<close>, \<open>Connector_System\<close> (\<^verbatim>\<open>net/tcp_connector.*\<close>): attempts, delays, handing over of the descriptor; the
  descriptors, the delays and the timers that call the connector (\<open>calls\<close>) over the whole life, with ghosts for the descriptors that
  were handed over and for the failures in a row (\<open>cnlife\<close>).  A timer that fires is one due one-shot timer of the queue's round (\<open>run_timer\<close>, \<open>handlerTimer_one\<close>).

  \<open>Tcp_Acceptor\<close>, \<open>Tcp_Owner\<close>, \<open>Tcp_Server\<close>, \<open>Server_System\<close> (\<^verbatim>\<open>net/tcp_acceptor.*\<close>,
  \<^verbatim>\<open>net/tcp_server.*\<close>): the listening socket; connections under the contract of an owner (\<open>connection_owner\<close>), which server
  and client both meet; the server's operations; its reachable states.

  \<open>Tcp_Client\<close>, \<open>Client_System\<close>, \<open>Client_Life\<close> (\<^verbatim>\<open>net/tcp_client.*\<close>): the client's operations, its invariant and
  what keeps it, its reachable states, and what stopping and destroying it leaves behind (\<open>cleared\<close>).

  \<^bold>\<open>Specifications and refinement\<close>.

  The abstract descriptions the detailed definitions are related to: a list of bytes for a buffer (\<open>contents\<close>, and the traces of
  \<open>buffer_stream\<close>), a list of elements for the lock-free queue, a multiset with its least element for the priority queue, a schedule for
  the wheel, lists of bytes accepted and of bytes still to send for a connection, a shape for the type of a buffer, and for a
  server or a client which connections, channels and descriptors there are.  The contracts between the parts are locales, each
  interpreted on the model's own definitions: \<open>byte_queue\<close>, \<open>min_queue\<close>, \<open>timer_client\<close> (by \<open>loop_client\<close>), \<open>fifo_queue\<close>,
  \<open>network_order\<close>, \<open>channel_store\<close>, \<open>loop_client\<close> (by scripts of calls and by \<open>wheel_user\<close>), \<open>wheel_user\<close>, \<open>connection_owner\<close> (by the server and the
  client) and \<open>invariant_system\<close>.  The systems with interleavings are inductive step relations (\<open>lstep\<close>, \<open>lfq_step\<close>, \<open>poller_step\<close>, \<open>process_step\<close>,
  \<open>cn_step\<close>, \<open>sv_step\<close>, \<open>cl_step\<close>, \<open>wh_step\<close>), and the properties about them hold in every state that \<open>reach\<close> gives.

  \<^bold>\<open>Bounds and fuel\<close>.

  \<open>runEvents\<close>, the loop over the queue of a loop, and the loop that dequeues have fuel: a function may queue another one for
  ever.  For functions that are scripts the number of functions that will run is known in advance, and that fuel is shown to be enough
  (\<open>loop_runs_queue\<close>).  \<open>loopWhile\<close>, the loop of \<^verbatim>\<open>start\<close>, has the number of iterations as fuel, since the code runs it
  until \<^verbatim>\<open>stop\<close>.  The loops over expired timers and buckets are given the length of their list.  \<open>countWheels\<close> is a partial function, for its product may
  wrap round and it need not end; \<open>wheel_construction\<close> says when it does.

  Integers: sizes of buffers stay below \<open>2 ^ 63\<close> (and a connection's read buffer below \<open>2 ^ 61\<close>) where a property says so, the new size in \<^verbatim>\<open>reallocate\<close> being written with its
  wrap-around; the counter of the timers' ids wraps at \<open>2 ^ 64\<close>, and properties about ids hold as long as it has not (\<open>timersCreated\<close>);
  the wheel's counter of ticks likewise (\<open>young\<close>).  Time is an integer number of milliseconds.

  \<^bold>\<open>Parameters and their laws\<close>.

  What is not in the repository is a parameter: the system calls (a record \<open>'k os\<close>), \<^verbatim>\<open>inet_pton\<close> and \<^verbatim>\<open>inet_ntop\<close>, what
  \<^verbatim>\<open>epoll_wait\<close> reports, the allocation of addresses, the user's callbacks.  Laws about them, where a property needs any, are what their manuals say, and
  each holds of the operating system of \<open>Sample_Kernel\<close> or of the variant of it a witness uses: \<open>recv_law\<close> and \<open>readv_law\<close> (what a read returns and when it ends), \<open>fd_law\<close> (a new descriptor was not open, closing closes it, nothing else changes
  the set), \<open>io_law\<close> (no more bytes are accepted than offered, or returned than there is room for), \<open>connect_law\<close> (\<open>EBADF\<close>),
  \<open>accept_law\<close> and \<open>local_law\<close> (an address that is filled in has a family).  Of the events reported \<open>plausible\<close> asks that a hangup without input comes without urgent data and half-closing too,
  \<open>peer_known\<close> that the address of the peer of a new connection is known, which it need not be (the code does not look at the failure, which is the finding at \<^verbatim>\<open>net/tcp_client.cpp\<close> line 60), and \<open>event_room\<close> that there is memory for the buffer.

  \<^bold>\<open>Not modelled\<close>.

  The branches for Windows, except in \<open>Endian\<close> and the loop of \<^verbatim>\<open>read\<close>.
  The logger and \<^verbatim>\<open>System\<close> (output, and calls of the operating system and of spdlog), \<open>Noncopyable\<close> (no code), \<^verbatim>\<open>UdpSocket\<close> (an empty class), the third-party
  libraries, the build files, examples and tests.  \<^verbatim>\<open>loopPool_\<close> of the server is never set, so that connections are on the server's own loop; several loops are
  only in \<open>Loop_System\<close> and \<open>Loop_Thread\<close>.  Memory is taken to be unlimited.  The memory model of the lock-free queue is sequentially consistent; \<open>Lock_Free_Queue\<close> says why the
  orders given in the code are enough for that.  The parameters of a client or connector are set before it is started.  Nobody but the code closes its descriptors; a closed descriptor is off the kernel's interest list (\<open>close_fd\<close>), whether or not the poller was told.
\<close>

end
